(* ===== verification/Prelude.thy ===== *)
theory Prelude
  imports Main "HOL-Library.Word" "HOL-Library.AList" "HOL-Library.Char_ord" "HOL-Library.List_Lexorder"
begin

text \<open>
  The vocabulary every component shares: the machine types of the Rust code, hash maps and
  ordered maps as association lists, the decimal rendering \<open>format!("{i}")\<close> uses, and the
  generic lemmas on lists and words the component proofs rest on.

  A Rust \<open>String\<close> is the list of its UTF-8 bytes (an Isabelle \<open>char\<close> is a byte), so the
  library order on \<open>string\<close> is the byte order of \<open>str\<close>. A \<open>HashMap\<close> or \<open>DashMap\<close> is an
  association list updated with \<open>AList.update\<close> and \<open>AList.delete\<close>; the code never relies
  on its iteration order. A \<open>BTreeMap\<close> is an association list kept sorted by \<open>bt_insert\<close>.
\<close>

section \<open>Machine types\<close>

type_synonym uuid = "128 word"
type_synonym u64 = "64 word"
type_synonym u32 = "32 word"
type_synonym datetime = int        \<comment> \<open>nanoseconds since the epoch\<close>
type_synonym any_ref = nat         \<comment> \<open>the identity of an \<open>Arc<dyn Any>\<close>\<close>

type_synonym ('k, 'v) hmap = "('k \<times> 'v) list"

named_theorems defs "unfolding rules of the component operations"
named_theorems inv_intros "introduction rules of the component invariants"

section \<open>Hash maps\<close>

abbreviation hget :: "('k, 'v) hmap \<Rightarrow> 'k \<Rightarrow> 'v option" where
  "hget \<equiv> map_of"

abbreviation hput :: "'k \<Rightarrow> 'v \<Rightarrow> ('k, 'v) hmap \<Rightarrow> ('k, 'v) hmap" where
  "hput \<equiv> AList.update"

abbreviation hdel :: "'k \<Rightarrow> ('k, 'v) hmap \<Rightarrow> ('k, 'v) hmap" where
  "hdel \<equiv> AList.delete"

lemma hget_hput [simp]: "hget (hput k v m) k' = (if k = k' then Some v else hget m k')"
  by (simp add: update_conv')

lemma hget_hdel [simp]: "hget (hdel k m) k' = (if k = k' then None else hget m k')"
  by (simp add: delete_conv')

lemma distinct_hput [intro]: "distinct (map fst m) \<Longrightarrow> distinct (map fst (hput k v m))"
  by (rule distinct_update)

lemma distinct_hdel [intro]: "distinct (map fst m) \<Longrightarrow> distinct (map fst (hdel k m))"
  by (rule distinct_delete)

section \<open>Ordered maps\<close>

text \<open>\<open>BTreeMap::insert\<close>: replace the value of an existing key, or insert in key order.\<close>

fun bt_insert :: "'k::linorder \<Rightarrow> 'v \<Rightarrow> ('k \<times> 'v) list \<Rightarrow> ('k \<times> 'v) list" where
  "bt_insert k v [] = [(k, v)]"
| "bt_insert k v ((k', v') # m) =
     (if k < k' then (k, v) # (k', v') # m
      else if k = k' then (k, v) # m
      else (k', v') # bt_insert k v m)"

definition bt_wf :: "('k::linorder \<times> 'v) list \<Rightarrow> bool" where
  "bt_wf m \<longleftrightarrow> sorted_wrt (<) (map fst m)"

lemma bt_wf_Nil [simp]: "bt_wf []"
  by (simp add: bt_wf_def)

lemma bt_wf_Cons: "bt_wf (p # m) \<longleftrightarrow> (\<forall>q \<in> set m. fst p < fst q) \<and> bt_wf m"
  by (simp add: bt_wf_def)

lemma set_bt_insert_sub: "set (bt_insert k v m) \<subseteq> insert (k, v) (set m)"
  by (induction m) (auto split: if_splits)

lemma keys_bt_insert: "fst ` set (bt_insert k v m) = insert k (fst ` set m)"
  by (induction k v m rule: bt_insert.induct) (simp_all add: insert_commute)

lemma bt_wf_insert [simp]: "bt_wf m \<Longrightarrow> bt_wf (bt_insert k v m)"
proof (induction m)
  case (Cons p m)
  obtain k' v' where p: "p = (k', v')" by fastforce
  have sub: "\<And>q. q \<in> set (bt_insert k v m) \<Longrightarrow> q = (k, v) \<or> q \<in> set m"
    using set_bt_insert_sub [of k v m] by blast
  have "\<forall>q \<in> set (bt_insert k v m). k' < fst q" if "k' < k"
    using sub that Cons.prems by (fastforce simp: p bt_wf_Cons)
  with Cons show ?case
    unfolding p by (force simp: bt_wf_Cons not_less order_le_less)
qed (simp add: bt_wf_def)

lemma hget_bt_insert [simp]:
  "bt_wf m \<Longrightarrow> hget (bt_insert k v m) k' = (if k = k' then Some v else hget m k')"
  by (induction m) (auto simp: bt_wf_Cons)

lemma bt_wf_distinct [simp]: "bt_wf m \<Longrightarrow> distinct (map fst m)"
  by (induction m) (auto simp: bt_wf_Cons)

lemma bt_wf_hget_iff: "bt_wf m \<Longrightarrow> hget m k = Some v \<longleftrightarrow> (k, v) \<in> set m"
  using map_of_eq_Some_iff [of m] by simp

lemma bt_wf_filter [simp]: "bt_wf m \<Longrightarrow> bt_wf (filter P m)"
  by (induction m) (auto simp: bt_wf_Cons)

lemma bt_wf_set_eqI:
  "\<lbrakk> bt_wf m; bt_wf m'; set m = set m' \<rbrakk> \<Longrightarrow> m = m'"
proof (induction m arbitrary: m')
  case (Cons p m)
  then obtain q n where m': "m' = q # n" by (cases m') auto
  have "p = q"
  proof (rule ccontr)
    assume "p \<noteq> q"
    then have "p \<in> set n" "q \<in> set m" using Cons.prems(3) m' by auto
    then have "fst q < fst p" "fst p < fst q" using Cons.prems(1,2) m' by (auto simp: bt_wf_Cons)
    then show False by simp
  qed
  moreover have "p \<notin> set m" "q \<notin> set n" using Cons.prems(1,2) m' by (auto simp: bt_wf_Cons)
  ultimately have "set m = set n" using Cons.prems(3) m' by auto
  then show ?case using Cons.IH [of n] Cons.prems(1,2) m' \<open>p = q\<close> by (auto simp: bt_wf_Cons)
qed simp

lemma bt_wf_tl: "bt_wf (p # m) \<Longrightarrow> bt_wf m"
  by (simp add: bt_wf_Cons)

section \<open>Decimal rendering\<close>

definition digit_char :: "nat \<Rightarrow> char" where
  "digit_char d = ''0123456789'' ! d"

fun show_nat :: "nat \<Rightarrow> string" where
  "show_nat n = (if n < 10 then [digit_char n] else show_nat (n div 10) @ [digit_char (n mod 10)])"

declare show_nat.simps [simp del]

lemma show_nat_not_Nil [simp]: "show_nat n \<noteq> []"
  by (subst show_nat.simps) simp

section \<open>Lists\<close>

lemma filter_upt_Suc_eq:
  "filter P [0..<n + k] = filter P [0..<n] @ filter P [n..<n + k]"
  by (simp only: upt_add_eq_append [of 0 n k, OF le0] filter_append)

lemma filter_nth_map: "map ((!) xs) (filter (\<lambda>i. P (xs ! i)) [0..<length xs]) = filter P xs"
proof -
  have "map ((!) xs) (filter (P \<circ> (!) xs) [0..<length xs]) = filter P (map ((!) xs) [0..<length xs])"
    by (simp add: filter_map)
  then show ?thesis by (simp add: map_nth comp_def)
qed

text \<open>\<open>partition_point\<close> of a slice: on a slice partitioned by the predicate, the length of its
  satisfying prefix.\<close>

definition partition_point :: "('a \<Rightarrow> bool) \<Rightarrow> 'a list \<Rightarrow> nat" where
  "partition_point P xs = length (takeWhile P xs)"

lemma drop_partition_point: "drop (partition_point P xs) xs = dropWhile P xs"
  by (simp add: partition_point_def dropWhile_eq_drop)

lemma dropWhile_sorted_filter:
  assumes "sorted_wrt (\<lambda>x y. f x < f y) xs"
  shows "dropWhile (\<lambda>x. f x \<le> (c :: 'b::linorder)) xs = filter (\<lambda>x. c < f x) xs"
  using assms
proof (induction xs)
  case (Cons x xs)
  show ?case
  proof (cases "f x \<le> c")
    case False
    then have "filter (\<lambda>y. c < f y) xs = xs"
      using Cons.prems by (fastforce simp: filter_id_conv)
    then show ?thesis using False by simp
  qed (use Cons in \<open>auto simp: not_less\<close>)
qed simp

text \<open>A loop that returns at the first element with an answer.\<close>

fun find_map :: "('a \<Rightarrow> 'b option) \<Rightarrow> 'a list \<Rightarrow> 'b option" where
  "find_map f [] = None"
| "find_map f (x # xs) = (case f x of Some y \<Rightarrow> Some y | None \<Rightarrow> find_map f xs)"

lemma find_map_None_iff: "find_map f xs = None \<longleftrightarrow> (\<forall>x \<in> set xs. f x = None)"
  by (induction xs) (auto split: option.splits)

lemma find_map_Some_in: "find_map f xs = Some y \<Longrightarrow> \<exists>x \<in> set xs. f x = Some y"
  by (induction xs) (auto split: option.splits)

lemma find_map_append:
  "find_map f (xs @ ys) = (case find_map f xs of Some y \<Rightarrow> Some y | None \<Rightarrow> find_map f ys)"
  by (induction xs) (auto split: option.splits)

lemma find_map_Some_iff:
  "find_map f xs = Some y \<longleftrightarrow>
     (\<exists>pre x post. xs = pre @ x # post \<and> f x = Some y \<and> (\<forall>z \<in> set pre. f z = None))"
proof
  show "\<exists>pre x post. xs = pre @ x # post \<and> f x = Some y \<and> (\<forall>z \<in> set pre. f z = None)"
    if "find_map f xs = Some y"
    using that
  proof (induction xs)
    case (Cons x xs)
    show ?case
    proof (cases "f x")
      case None
      with Cons obtain pre z post where "xs = pre @ z # post" "f z = Some y" "\<forall>z \<in> set pre. f z = None"
        by auto
      with None show ?thesis by (intro exI [of _ "x # pre"]) auto
    next
      case (Some w)
      with Cons.prems show ?thesis by (intro exI [of _ "[]"]) auto
    qed
  qed simp
qed (auto simp: find_map_append find_map_None_iff [THEN iffD2])

lemma find_map_cong [fundef_cong]:
  "\<lbrakk> xs = ys; \<And>x. x \<in> set ys \<Longrightarrow> f x = g x \<rbrakk> \<Longrightarrow> find_map f xs = find_map g ys"
  by (induction xs arbitrary: ys) (auto split: option.splits)

section \<open>Words\<close>

lemma unat_add_no_wrap:
  fixes x :: "'a::len word"
  shows "unat x + n < 2 ^ LENGTH('a) \<Longrightarrow> unat (x + of_nat n) = unat x + n"
  by (simp add: unat_word_ariths unsigned_of_nat take_bit_eq_mod mod_simps)

lemma unat_of_nat_u64 [simp]: "n < 2 ^ 64 \<Longrightarrow> unat (of_nat n :: u64) = n"
  by (simp add: unsigned_of_nat take_bit_nat_eq_self_iff)

lemma u64_lt_two64: "unat (x :: u64) < 2 ^ 64"
  using unsigned_less [of x] by simp

text \<open>\<open>u64::saturating_add(1)\<close>.\<close>

definition sat_inc :: "u64 \<Rightarrow> u64" where
  "sat_inc x = (if x = - 1 then x else x + 1)"

lemma unat_sat_inc: "unat (sat_inc x) = (if unat x = 2 ^ 64 - 1 then unat x else unat x + 1)"
proof (cases "x = - 1")
  case True
  then show ?thesis by (simp add: sat_inc_def unsigned_minus_1_eq_mask mask_eq_exp_minus_1)
next
  case False
  then have "unat x \<noteq> unat (- 1 :: u64)"
    by (simp add: word_unat_eq_iff)
  then have "unat x \<noteq> 2 ^ 64 - 1"
    by (simp add: unsigned_minus_1_eq_mask mask_eq_exp_minus_1)
  moreover have "unat x < 2 ^ 64" by (rule u64_lt_two64)
  ultimately show ?thesis
    using False unat_add_no_wrap [of x 1] by (simp add: sat_inc_def)
qed

end
