(* ===== verification/Json.thy ===== *)
theory Json
  imports Complex_Main Prelude
begin

text \<open>
  JSON values as \<open>serde_json::Value\<close> has them, and the two functions of the core crate that
  recurse over them: \<open>first_diff_path\<close> (\<open>modules/causal/src/event_log.rs\<close>), which names where a
  divergent redelivery differs, and \<open>sanitize_nul\<close> (\<open>modules/causal/src/decision_store.rs\<close>),
  which strips NUL bytes before a record is sealed.

  \<open>serde_json\<close> is built without \<open>preserve_order\<close>, so a \<open>Map\<close> is a \<open>BTreeMap\<close>: an object is an
  association list with strictly ascending keys (\<open>wf_json\<close>). A finite \<open>f64\<close> is the rational
  number it denotes, so \<open>=\<close> on \<open>JFloat\<close> is the comparison of \<open>f64\<close>.
\<close>

section \<open>Values\<close>

datatype jnum = JPosInt u64 | JNegInt u64 | JFloat rat

datatype json =
    JNull
  | JBool bool
  | JNumber jnum
  | JString string
  | JArray "json list"
  | JObject "(string \<times> json) list"

type_synonym jmap = "(string \<times> json) list"

lemma size_snd_in: "p \<in> set m \<Longrightarrow> size (snd p) < Suc (size_list (size_prod (\<lambda>_. 0) size) m)"
  by (induction m) (auto simp: less_Suc_eq)

fun wf_json :: "json \<Rightarrow> bool" where
  "wf_json (JArray xs) \<longleftrightarrow> (\<forall>x \<in> set xs. wf_json x)"
| "wf_json (JObject m) \<longleftrightarrow> bt_wf m \<and> (\<forall>p \<in> set m. wf_json (snd p))"
| "wf_json _ \<longleftrightarrow> True"

section \<open>The first differing path\<close>

definition key_seg :: "string \<Rightarrow> string \<Rightarrow> string" where
  "key_seg path k = (if path = [] then k else path @ ''.'' @ k)"

definition idx_seg :: "string \<Rightarrow> nat \<Rightarrow> string" where
  "idx_seg path i = path @ ''['' @ show_nat i @ '']''"

text \<open>\<open>walk\<close> returns the path it leaves in its buffer when it returns \<open>true\<close>, and \<open>None\<close> (the
  buffer truncated to what it was) when it returns \<open>false\<close>.\<close>

fun walk :: "json \<Rightarrow> json \<Rightarrow> string \<Rightarrow> string option"
  and walk_obj :: "jmap \<Rightarrow> jmap \<Rightarrow> string \<Rightarrow> string option"
  and walk_arr :: "nat \<Rightarrow> json list \<Rightarrow> json list \<Rightarrow> string \<Rightarrow> string option" where
  "walk a b path =
     (case a of
        JObject ma \<Rightarrow>
          (case b of
             JObject mb \<Rightarrow>
               (case walk_obj ma mb path of
                  Some p \<Rightarrow> Some p
                | None \<Rightarrow>
                    (case find (\<lambda>k. hget ma k = None) (map fst mb) of
                       Some k \<Rightarrow> Some (key_seg path k)
                     | None \<Rightarrow> None))
           | _ \<Rightarrow> Some path)
      | JArray va \<Rightarrow>
          (case b of
             JArray vb \<Rightarrow>
               (case walk_arr 0 va vb path of
                  Some p \<Rightarrow> Some p
                | None \<Rightarrow>
                    if length va \<noteq> length vb
                    then Some (idx_seg path (min (length va) (length vb))) else None)
           | _ \<Rightarrow> Some path)
      | _ \<Rightarrow> if a \<noteq> b then Some path else None)"
| "walk_obj [] mb path = None"
| "walk_obj ((k, va) # ma) mb path =
     (case hget mb k of
        None \<Rightarrow> Some (key_seg path k)
      | Some vb \<Rightarrow>
          (case walk va vb (key_seg path k) of
             Some p \<Rightarrow> Some p
           | None \<Rightarrow> walk_obj ma mb path))"
| "walk_arr i (ea # va) (eb # vb) path =
     (case walk ea eb (idx_seg path i) of
        Some p \<Rightarrow> Some p
      | None \<Rightarrow> walk_arr (Suc i) va vb path)"
| "walk_arr i va vb path = None"

declare walk.simps [simp del]

lemmas walk_unfold = walk.simps

definition first_diff_path :: "json \<Rightarrow> json \<Rightarrow> string option" where
  "first_diff_path a b =
     (case walk a b [] of
        Some path \<Rightarrow> Some (if path = [] then ''(root)'' else path)
      | None \<Rightarrow> None)"

lemma obj_eq_iff:
  assumes "bt_wf ma" "bt_wf mb"
  shows "ma = mb \<longleftrightarrow>
         (\<forall>p \<in> set ma. hget mb (fst p) = Some (snd p)) \<and>
         find (\<lambda>k. hget ma k = None) (map fst mb) = None"
proof
  assume "ma = mb"
  then show "(\<forall>p \<in> set ma. hget mb (fst p) = Some (snd p)) \<and>
             find (\<lambda>k. hget ma k = None) (map fst mb) = None"
    using assms by (auto simp: find_None_iff map_of_eq_None_iff bt_wf_hget_iff)
next
  assume r: "(\<forall>p \<in> set ma. hget mb (fst p) = Some (snd p)) \<and>
             find (\<lambda>k. hget ma k = None) (map fst mb) = None"
  have sub: "p \<in> set mb" if "p \<in> set ma" for p
    using r that assms(2) bt_wf_hget_iff [of mb "fst p" "snd p"] by simp
  moreover have "q \<in> set ma" if "q \<in> set mb" for q
  proof -
    have "fst q \<in> set (map fst mb)" using that by simp
    then have "hget ma (fst q) \<noteq> None" using r by (auto simp: find_None_iff)
    then obtain v where "hget ma (fst q) = Some v" by blast
    then have *: "(fst q, v) \<in> set ma" by (rule map_of_SomeD)
    then have "hget mb (fst q) = Some v" using r by force
    moreover have "hget mb (fst q) = Some (snd q)" using that assms(2) bt_wf_hget_iff by fastforce
    ultimately show ?thesis using * by (metis option.inject prod.collapse)
  qed
  ultimately have "set ma = set mb" by blast
  with assms show "ma = mb" by (rule bt_wf_set_eqI)
qed

lemma walk_None_iff:
  "wf_json a \<Longrightarrow> wf_json b \<Longrightarrow> walk a b path = None \<longleftrightarrow> a = b"
  "\<forall>p \<in> set ma. wf_json (snd p) \<Longrightarrow> \<forall>p \<in> set mb. wf_json (snd p) \<Longrightarrow>
     walk_obj ma mb path = None \<longleftrightarrow> (\<forall>p \<in> set ma. hget mb (fst p) = Some (snd p))"
  "\<forall>x \<in> set va. wf_json x \<Longrightarrow> \<forall>x \<in> set vb. wf_json x \<Longrightarrow>
     (walk_arr i va vb path = None \<and> length va = length vb) \<longleftrightarrow> va = vb"
proof (induction a b path and ma mb path and i va vb path rule: walk_walk_obj_walk_arr.induct)
  case (1 a b path)
  show ?case
  proof (cases a)
    case (JArray va)
    show ?thesis
    proof (cases b)
      case (JArray vb)
      then show ?thesis using 1 \<open>a = JArray va\<close>
        by (auto simp: walk.simps split: option.splits)
    qed (use JArray in \<open>simp_all add: walk.simps\<close>)
  next
    case (JObject ma)
    show ?thesis
    proof (cases b)
      case (JObject mb)
      have "walk_obj ma mb path = None \<longleftrightarrow> (\<forall>p \<in> set ma. hget mb (fst p) = Some (snd p))"
        using 1 \<open>a = JObject ma\<close> JObject by simp
      moreover have "ma = mb \<longleftrightarrow> (\<forall>p \<in> set ma. hget mb (fst p) = Some (snd p)) \<and>
         find (\<lambda>k. hget ma k = None) (map fst mb) = None"
        using 1 \<open>a = JObject ma\<close> JObject by (intro obj_eq_iff) simp_all
      moreover have "walk a b path = None \<longleftrightarrow>
         walk_obj ma mb path = None \<and> find (\<lambda>k. hget ma k = None) (map fst mb) = None"
        unfolding \<open>a = JObject ma\<close> JObject by (simp add: walk.simps split: option.split)
      moreover have "a = b \<longleftrightarrow> ma = mb" using \<open>a = JObject ma\<close> JObject by simp
      ultimately show ?thesis by argo
    qed (use JObject in \<open>simp_all add: walk.simps\<close>)
  qed (auto simp: walk.simps)
next
  case (3 k va ma mb path)
  show ?case
  proof (cases "hget mb k")
    case None
    then show ?thesis by (simp add: walk_obj.simps)
  next
    case (Some vb)
    then have "(k, vb) \<in> set mb" by (rule map_of_SomeD)
    then have wf: "wf_json vb" using 3(4) by force
    show ?thesis
      using 3(1) [OF Some _ wf] 3(2) [OF Some] 3(3,4) Some
      by (auto simp: walk_obj.simps split: option.splits)
  qed
next
  case (4 i ea va eb vb path)
  then show ?case by (auto simp: walk_arr.simps split: option.splits)
qed (auto simp: walk_obj.simps walk_arr.simps)

section \<open>Stripping NUL\<close>

definition strip_nul :: "string \<Rightarrow> string" where
  "strip_nul s = filter (\<lambda>c. c \<noteq> CHR 0x00) s"

fun sanitize_nul :: "json \<Rightarrow> json" where
  "sanitize_nul (JString s) = JString (strip_nul s)"
| "sanitize_nul (JArray xs) = JArray (map sanitize_nul xs)"
| "sanitize_nul (JObject m) = JObject (map (\<lambda>p. (fst p, sanitize_nul (snd p))) m)"
| "sanitize_nul v = v"

text \<open>No NUL byte in a string value; no NUL byte in a string value or an object key.\<close>

fun nul_free_values :: "json \<Rightarrow> bool" where
  "nul_free_values (JString s) \<longleftrightarrow> CHR 0x00 \<notin> set s"
| "nul_free_values (JArray xs) \<longleftrightarrow> (\<forall>x \<in> set xs. nul_free_values x)"
| "nul_free_values (JObject m) \<longleftrightarrow> (\<forall>p \<in> set m. nul_free_values (snd p))"
| "nul_free_values _ \<longleftrightarrow> True"

fun nul_free_keys :: "json \<Rightarrow> bool" where
  "nul_free_keys (JArray xs) \<longleftrightarrow> (\<forall>x \<in> set xs. nul_free_keys x)"
| "nul_free_keys (JObject m) \<longleftrightarrow> (\<forall>p \<in> set m. CHR 0x00 \<notin> set (fst p) \<and> nul_free_keys (snd p))"
| "nul_free_keys _ \<longleftrightarrow> True"

lemma nul_free_values_sanitize: "nul_free_values (sanitize_nul v)"
  by (induction v rule: sanitize_nul.induct) (auto simp: strip_nul_def)

lemma sanitize_nul_free_id: "nul_free_values v \<Longrightarrow> sanitize_nul v = v"
proof (induction v rule: sanitize_nul.induct)
  case (1 s)
  then show ?case by (auto simp: strip_nul_def filter_id_conv)
next
  case (2 xs)
  then show ?case by (auto intro: map_idI)
next
  case (3 m)
  then show ?case by (auto intro!: map_idI)
qed simp_all

lemma wf_json_sanitize: "wf_json v \<Longrightarrow> wf_json (sanitize_nul v)"
proof (induction v rule: sanitize_nul.induct)
  case (3 m)
  then show ?case by (auto simp: bt_wf_def comp_def)
qed auto

end
