(* ===== verification/Event_Types.thy ===== *)
theory Event_Types
  imports Json
begin

text \<open>
  The data of \<open>modules/causal/src/types.rs\<close> and the error types of
  \<open>modules/causal/src/event_log.rs\<close>, with \<open>append_event\<close>'s placement rule. \<open>LogCursor\<close> and
  \<open>StreamRevision\<close> are the \<open>u64\<close> they wrap.
\<close>

section \<open>Cursors, stream states, results\<close>

datatype log_level = LevelDebug | LevelInfo | LevelWarn

record log_entry =
  le_level :: log_level
  le_message :: string
  le_data :: "json option"
  le_timestamp :: datetime

type_synonym log_cursor = u64
type_synonym stream_revision = u64

definition cursor_zero :: log_cursor where
  "cursor_zero = 0"

datatype stream_state =
    AnyState
  | NoStream
  | StreamExists
  | StreamRevision u64

record write_result =
  wr_position :: log_cursor
  wr_revision :: stream_revision

section \<open>Events and snapshots\<close>

record recorded_event =
  re_position :: log_cursor
  re_event_id :: uuid
  re_causation_id :: "uuid option"
  re_workflow_id :: uuid
  re_event_type :: string
  re_payload :: json
  re_created_at :: datetime
  re_category :: string
  re_subject_id :: uuid
  re_revision :: stream_revision
  re_metadata :: jmap
  re_ephemeral :: "any_ref option"
  re_persistent :: bool

record event_data =
  ed_event_id :: uuid
  ed_causation_id :: "uuid option"
  ed_workflow_id :: uuid
  ed_event_type :: string
  ed_payload :: json
  ed_created_at :: datetime
  ed_category :: "string option"
  ed_subject_id :: "uuid option"
  ed_metadata :: jmap
  ed_ephemeral :: "any_ref option"
  ed_persistent :: bool

record snapshot =
  sn_aggregate_type :: string
  sn_aggregate_id :: uuid
  sn_revision :: stream_revision
  sn_state :: json
  sn_created_at :: datetime

section \<open>Errors of the log\<close>

text \<open>Where a redelivery differs from the persisted row: the \<open>diff\<close> text of
  \<open>DivergentRedelivery\<close>, one constructor per format string of the code.\<close>

datatype divergence =
    PayloadAt string
  | EventTypeDiff string string
  | WorkflowIdDiff
  | CausationIdDiff
  | PlacementCategory string string
  | PlacementSubject uuid uuid

datatype append_error =
    EmptyBatch
  | DuplicateInBatch uuid
  | TailPersistedButNot uuid uuid
  | PartialOverlapBatch
  | DivergentRedelivery uuid divergence "recorded_event option"
  | ConflictError stream_state "stream_revision option"
  | BackendError string

section \<open>Placement of a bare fact\<close>

text \<open>\<open>append_event\<close>: the stream an event goes to when it is appended on its own.\<close>

definition append_event_placement :: "event_data \<Rightarrow> string \<times> uuid" where
  "append_event_placement e =
     (let derived = (if ed_event_type e = [] then ''event'' else ed_event_type e);
          category = (case ed_category e of
                        Some c \<Rightarrow> if c \<noteq> [] then c else derived
                      | None \<Rightarrow> derived);
          subject = (case ed_subject_id e of Some s \<Rightarrow> s | None \<Rightarrow> ed_event_id e)
      in (category, subject))"

text \<open>A backend is the record of the operations of \<open>trait EventLogBackend\<close> over its state.\<close>

record 's backend =
  b_append :: "string \<Rightarrow> uuid \<Rightarrow> stream_state \<Rightarrow> event_data list \<Rightarrow> 's \<Rightarrow>
               (append_error + write_result) \<times> 's"
  b_read_all :: "log_cursor \<Rightarrow> nat \<Rightarrow> 's \<Rightarrow> append_error + recorded_event list"
  b_read_stream :: "string \<Rightarrow> uuid \<Rightarrow> stream_revision option \<Rightarrow> 's \<Rightarrow>
                    append_error + recorded_event list"
  b_latest_position :: "'s \<Rightarrow> append_error + log_cursor"

definition append_event ::
  "'s backend \<Rightarrow> event_data \<Rightarrow> 's \<Rightarrow> (append_error + write_result) \<times> 's" where
  "append_event B e s =
     (case append_event_placement e of
        (category, subject) \<Rightarrow> b_append B category subject AnyState [e] s)"

lemma append_event_category_nonempty: "fst (append_event_placement e) \<noteq> []"
  by (auto simp: append_event_placement_def Let_def split: option.splits)

end
