(* ===== verification/Memory_Log.thy ===== *)
theory Memory_Log
  imports Event_Types
begin

text \<open>
  The event log of the in-memory backend, \<open>modules/causal/src/memory_store.rs\<close>: the struct
  \<open>MemoryStore\<close> (log, the indices of \<open>LogIndex\<close>, the position counter, and the maps the other
  traits use), \<open>append_to_stream\<close> with its redelivery, overlap and concurrency checks,
  \<open>read_all\<close>, \<open>read_stream\<close> and \<open>latest_position\<close>. The mutexes make each operation atomic, so
  an operation is a function of the state.

  The invariant \<open>log_inv\<close> states what the comments of \<open>LogIndex\<close> promise: both indices are
  those of the log, revisions are dense per stream, positions ascend with the log.
\<close>

section \<open>State\<close>

record execution =
  ex_workflow :: uuid
  ex_started_at :: datetime
  ex_completed_at :: "datetime option"
  ex_status :: string
  ex_error :: "string option"
  ex_attempts :: "32 word"

record attempt_row =
  ar_event_id :: uuid
  ar_reactor_id :: string
  ar_workflow :: uuid
  ar_attempt :: "32 word"
  ar_status :: string
  ar_error :: "string option"
  ar_started_at :: datetime
  ar_completed_at :: datetime

record log_index =
  li_by_event_id :: "(uuid, nat) hmap"
  li_streams :: "(string \<times> uuid, nat list) hmap"

record memory_store =
  global_log :: "recorded_event list"
  log_idx :: log_index
  global_position :: u64
  snapshots :: "(string \<times> uuid, snapshot) hmap"
  projection_cursors :: "(string, log_cursor) hmap"
  reactor_attempts :: "(string \<times> uuid, u32) hmap"
  reactor_executions :: "(uuid \<times> string, execution) hmap"
  reactor_attempt_history :: "attempt_row list"
  reactor_log_entries :: "(uuid \<times> string \<times> log_entry) list"
  aggregate_state_snapshots :: "(uuid \<times> u64 \<times> uuid \<times> string \<times> json) list"
  reactor_description_snapshots :: "(uuid \<times> u64 \<times> uuid \<times> string \<times> json) list"
  reactor_divergences :: "(uuid \<times> string, uuid \<times> divergence \<times> datetime) hmap"

definition memory_store_new :: memory_store where
  "memory_store_new =
     \<lparr> global_log = [], log_idx = \<lparr> li_by_event_id = [], li_streams = [] \<rparr>,
       global_position = 1, snapshots = [], projection_cursors = [], reactor_attempts = [],
       reactor_executions = [], reactor_attempt_history = [], reactor_log_entries = [],
       aggregate_state_snapshots = [], reactor_description_snapshots = [],
       reactor_divergences = [] \<rparr>"

section \<open>Append\<close>

fun duplicate_in_batch :: "event_data list \<Rightarrow> uuid option" where
  "duplicate_in_batch [] = None"
| "duplicate_in_batch (e # es) =
     (if \<exists>o' \<in> set es. ed_event_id o' = ed_event_id e then Some (ed_event_id e)
      else duplicate_in_batch es)"

text \<open>What makes a dedup hit divergent, and the text that names where.\<close>

definition row_divergence ::
  "recorded_event \<Rightarrow> event_data \<Rightarrow> string \<Rightarrow> uuid \<Rightarrow> divergence option" where
  "row_divergence row e category subject_id =
     (if re_payload row \<noteq> ed_payload e then
        Some (PayloadAt (case first_diff_path (re_payload row) (ed_payload e) of
                           Some p \<Rightarrow> p | None \<Rightarrow> ''(root)''))
      else if re_event_type row \<noteq> ed_event_type e then
        Some (EventTypeDiff (re_event_type row) (ed_event_type e))
      else if re_workflow_id row \<noteq> ed_workflow_id e then Some WorkflowIdDiff
      else if re_causation_id row \<noteq> ed_causation_id e then Some CausationIdDiff
      else if re_category row \<noteq> category then Some (PlacementCategory (re_category row) category)
      else if re_subject_id row \<noteq> subject_id then
        Some (PlacementSubject (re_subject_id row) subject_id)
      else None)"

text \<open>The loop over the events of a batch whose last id is persisted.\<close>

fun check_redelivery ::
  "memory_store \<Rightarrow> string \<Rightarrow> uuid \<Rightarrow> uuid \<Rightarrow> event_data list \<Rightarrow> append_error option" where
  "check_redelivery s category subject_id last_id [] = None"
| "check_redelivery s category subject_id last_id (e # es) =
     (case hget (li_by_event_id (log_idx s)) (ed_event_id e) of
        None \<Rightarrow> Some (TailPersistedButNot last_id (ed_event_id e))
      | Some at1 \<Rightarrow>
          let row = global_log s ! at1 in
          (case row_divergence row e category subject_id of
             Some d \<Rightarrow> Some (DivergentRedelivery (ed_event_id e) d (Some row))
           | None \<Rightarrow> check_redelivery s category subject_id last_id es))"

fun state_matches :: "stream_state \<Rightarrow> stream_revision option \<Rightarrow> bool" where
  "state_matches AnyState _ = True"
| "state_matches NoStream None = True"
| "state_matches StreamExists (Some _) = True"
| "state_matches (StreamRevision want) (Some actual) = (actual = want)"
| "state_matches _ _ = False"

definition stream_offsets :: "memory_store \<Rightarrow> string \<times> uuid \<Rightarrow> nat list" where
  "stream_offsets s key = (case hget (li_streams (log_idx s)) key of Some os \<Rightarrow> os | None \<Rightarrow> [])"

definition stream_count :: "memory_store \<Rightarrow> string \<times> uuid \<Rightarrow> u64" where
  "stream_count s key = of_nat (length (stream_offsets s key))"

definition current_tail :: "memory_store \<Rightarrow> string \<times> uuid \<Rightarrow> stream_revision option" where
  "current_tail s key = (let count = stream_count s key in if count = 0 then None else Some (count - 1))"

definition placed_row ::
  "string \<Rightarrow> uuid \<Rightarrow> u64 \<Rightarrow> u64 \<Rightarrow> event_data \<Rightarrow> recorded_event" where
  "placed_row category subject_id position revision e =
     \<lparr> re_position = position, re_event_id = ed_event_id e,
       re_causation_id = ed_causation_id e, re_workflow_id = ed_workflow_id e,
       re_event_type = ed_event_type e, re_payload = ed_payload e,
       re_created_at = ed_created_at e, re_category = category, re_subject_id = subject_id,
       re_revision = revision, re_metadata = ed_metadata e, re_ephemeral = ed_ephemeral e,
       re_persistent = ed_persistent e \<rparr>"

text \<open>One iteration of the insert loop: \<open>fetch_add\<close>, the two indices, the push.\<close>

definition push_row ::
  "string \<Rightarrow> uuid \<Rightarrow> u64 \<Rightarrow> event_data \<Rightarrow> memory_store \<Rightarrow> write_result \<times> memory_store" where
  "push_row category subject_id new_revision e s =
     (let position = global_position s;
          n = length (global_log s);
          key = (category, subject_id);
          idx = \<lparr> li_by_event_id = hput (ed_event_id e) n (li_by_event_id (log_idx s)),
                  li_streams = hput key (stream_offsets s key @ [n]) (li_streams (log_idx s)) \<rparr>
      in (\<lparr> wr_position = position, wr_revision = new_revision \<rparr>,
          s\<lparr> global_position := position + 1, log_idx := idx,
             global_log := global_log s @ [placed_row category subject_id position new_revision e] \<rparr>))"

fun push_rows ::
  "string \<Rightarrow> uuid \<Rightarrow> u64 \<Rightarrow> nat \<Rightarrow> event_data list \<Rightarrow> write_result \<Rightarrow> memory_store \<Rightarrow>
   write_result \<times> memory_store" where
  "push_rows category subject_id count offset [] result s = (result, s)"
| "push_rows category subject_id count offset (e # es) result s =
     (case push_row category subject_id (count + of_nat offset) e s of
        (result', s') \<Rightarrow> push_rows category subject_id count (Suc offset) es result' s')"

definition append_to_stream ::
  "string \<Rightarrow> uuid \<Rightarrow> stream_state \<Rightarrow> event_data list \<Rightarrow> memory_store \<Rightarrow>
   (append_error + write_result) \<times> memory_store" where
  "append_to_stream category subject_id expected events s =
     (if events = [] then (Inl EmptyBatch, s)
      else let last_id = ed_event_id (last events) in
      case (if length events > 1 then duplicate_in_batch events else None) of
        Some d \<Rightarrow> (Inl (DuplicateInBatch d), s)
      | None \<Rightarrow>
          (case hget (li_by_event_id (log_idx s)) last_id of
             Some existing_at \<Rightarrow>
               (case check_redelivery s category subject_id last_id events of
                  Some err \<Rightarrow> (Inl err, s)
                | None \<Rightarrow>
                    let existing = global_log s ! existing_at in
                    (Inr \<lparr> wr_position = re_position existing,
                           wr_revision = re_revision existing \<rparr>, s))
           | None \<Rightarrow>
               if length events > 1 \<and>
                  (\<exists>e \<in> set events. hget (li_by_event_id (log_idx s)) (ed_event_id e) \<noteq> None)
               then (Inl PartialOverlapBatch, s)
               else
                 let key = (category, subject_id);
                     count = stream_count s key;
                     tail = current_tail s key
                 in if \<not> state_matches expected tail
                    then (Inl (ConflictError expected tail), s)
                    else (case push_rows category subject_id count 0 events
                                 \<lparr> wr_position = cursor_zero, wr_revision = 0 \<rparr> s of
                            (result, s') \<Rightarrow> (Inr result, s'))))"

section \<open>Reads\<close>

definition read_all :: "log_cursor \<Rightarrow> nat \<Rightarrow> memory_store \<Rightarrow> recorded_event list" where
  "read_all after limit s =
     (let log = global_log s;
          start = partition_point (\<lambda>e. re_position e \<le> after) log
      in take limit (drop start log))"

definition read_stream ::
  "string \<Rightarrow> uuid \<Rightarrow> stream_revision option \<Rightarrow> memory_store \<Rightarrow> recorded_event list" where
  "read_stream category subject_id after s =
     (case hget (li_streams (log_idx s)) (category, subject_id) of
        None \<Rightarrow> []
      | Some offsets \<Rightarrow>
          let skip = (case after of None \<Rightarrow> 0 | Some m \<Rightarrow> unat (sat_inc m))
          in map (\<lambda>i. global_log s ! i) (drop (min skip (length offsets)) offsets))"

definition latest_position :: "memory_store \<Rightarrow> log_cursor" where
  "latest_position s =
     (if global_log s = [] then cursor_zero else re_position (last (global_log s)))"

definition memory_backend :: "memory_store backend" where
  "memory_backend =
     \<lparr> b_append = append_to_stream,
       b_read_all = (\<lambda>after limit s. Inr (read_all after limit s)),
       b_read_stream = (\<lambda>category subject_id after s. Inr (read_stream category subject_id after s)),
       b_latest_position = (\<lambda>s. Inr (latest_position s)) \<rparr>"

section \<open>Invariant\<close>

abbreviation row_key :: "recorded_event \<Rightarrow> string \<times> uuid" where
  "row_key r \<equiv> (re_category r, re_subject_id r)"

definition row_offsets :: "recorded_event list \<Rightarrow> string \<times> uuid \<Rightarrow> nat list" where
  "row_offsets rows key = filter (\<lambda>i. row_key (rows ! i) = key) [0..<length rows]"

definition id_index_ok :: "memory_store \<Rightarrow> bool" where
  "id_index_ok s \<longleftrightarrow>
     (\<forall>k i. hget (li_by_event_id (log_idx s)) k = Some i \<longleftrightarrow>
            i < length (global_log s) \<and> re_event_id (global_log s ! i) = k)"

definition stream_index_ok :: "memory_store \<Rightarrow> bool" where
  "stream_index_ok s \<longleftrightarrow> (\<forall>key. stream_offsets s key = row_offsets (global_log s) key)"

definition revisions_dense :: "recorded_event list \<Rightarrow> bool" where
  "revisions_dense rows \<longleftrightarrow>
     (\<forall>i < length rows. unat (re_revision (rows ! i)) =
        length (filter (\<lambda>r. row_key r = row_key (rows ! i)) (take i rows)))"

definition positions_ok :: "memory_store \<Rightarrow> bool" where
  "positions_ok s \<longleftrightarrow>
     (\<forall>i < length (global_log s). unat (re_position (global_log s ! i)) = Suc i) \<and>
     unat (global_position s) = Suc (length (global_log s))"

definition log_inv :: "memory_store \<Rightarrow> bool" where
  "log_inv s \<longleftrightarrow>
     id_index_ok s \<and> stream_index_ok s \<and> revisions_dense (global_log s) \<and> positions_ok s"

text \<open>Room for \<open>n\<close> more rows before the \<open>u64\<close> position counter wraps.\<close>

definition log_room :: "nat \<Rightarrow> memory_store \<Rightarrow> bool" where
  "log_room n s \<longleftrightarrow> length (global_log s) + n + 1 < 2 ^ 64"

lemma row_offsets_snoc:
  "row_offsets (rows @ [r]) key =
     row_offsets rows key @ (if row_key r = key then [length rows] else [])"
  unfolding row_offsets_def by (auto simp: nth_append intro: filter_cong)

lemma map_row_offsets:
  "map ((!) rows) (row_offsets rows key) = filter (\<lambda>r. row_key r = key) rows"
  unfolding row_offsets_def by (rule filter_nth_map)

lemma length_row_offsets:
  "length (row_offsets rows key) = length (filter (\<lambda>r. row_key r = key) rows)"
  by (metis length_map map_row_offsets)

lemma stream_count_inv:
  assumes "log_inv s"
  shows "unat (stream_count s key) = length (filter (\<lambda>r. row_key r = key) (global_log s))"
proof -
  have "length (global_log s) < 2 ^ 64"
    using assms u64_lt_two64 [of "global_position s"] by (simp add: log_inv_def positions_ok_def)
  then have "length (filter (\<lambda>r. row_key r = key) (global_log s)) < 2 ^ 64"
    using length_filter_le le_less_trans by blast
  moreover have "stream_offsets s key = row_offsets (global_log s) key"
    using assms unfolding log_inv_def stream_index_ok_def by blast
  ultimately show ?thesis by (simp add: stream_count_def length_row_offsets)
qed

lemma log_inv_new: "log_inv memory_store_new"
  by (simp add: log_inv_def memory_store_new_def id_index_ok_def stream_index_ok_def
      stream_offsets_def row_offsets_def revisions_dense_def positions_ok_def)

section \<open>The insert loop\<close>

lemma push_row_log [simp]:
  "global_log (snd (push_row c sid rv e s)) =
     global_log s @ [placed_row c sid (global_position s) rv e]"
  by (simp add: push_row_def Let_def)

lemma push_row_ids [simp]:
  "hget (li_by_event_id (log_idx (snd (push_row c sid rv e s)))) k =
     (if k = ed_event_id e then Some (length (global_log s))
      else hget (li_by_event_id (log_idx s)) k)"
  by (simp add: push_row_def Let_def)

lemma placed_row_sel [simp]:
  "re_position (placed_row c sid p r e) = p" "re_revision (placed_row c sid p r e) = r"
  "re_event_id (placed_row c sid p r e) = ed_event_id e"
  "re_category (placed_row c sid p r e) = c" "re_subject_id (placed_row c sid p r e) = sid"
  "re_payload (placed_row c sid p r e) = ed_payload e"
  "re_event_type (placed_row c sid p r e) = ed_event_type e"
  "re_workflow_id (placed_row c sid p r e) = ed_workflow_id e"
  "re_causation_id (placed_row c sid p r e) = ed_causation_id e"
  "re_metadata (placed_row c sid p r e) = ed_metadata e"
  by (simp_all add: placed_row_def)

lemma push_row_stream_offsets:
  "stream_offsets (snd (push_row c sid rv e s)) key =
     stream_offsets s key @ (if key = (c, sid) then [length (global_log s)] else [])"
  by (auto simp: push_row_def stream_offsets_def Let_def split: option.splits)

lemma push_row_inv:
  assumes inv: "log_inv s" and fresh: "hget (li_by_event_id (log_idx s)) (ed_event_id e) = None"
    and room: "log_room 1 s" and rv: "rv = stream_count s (c, sid)"
  shows "log_inv (snd (push_row c sid rv e s))"
proof -
  let ?s = "snd (push_row c sid rv e s)"
  have ids: "id_index_ok s" and streams: "stream_index_ok s"
    and dense: "revisions_dense (global_log s)" and pos: "positions_ok s"
    using inv by (simp_all add: log_inv_def)
  have new: "re_event_id (global_log s ! i) \<noteq> ed_event_id e" if "i < length (global_log s)" for i
    using ids fresh that unfolding id_index_ok_def by (metis option.distinct(1))
  have "id_index_ok ?s"
    using ids new fresh unfolding id_index_ok_def
    by (auto simp: nth_append less_Suc_eq)
  moreover have "stream_index_ok ?s"
    using streams unfolding stream_index_ok_def
    by (simp add: push_row_stream_offsets row_offsets_snoc)
  moreover have "revisions_dense (global_log ?s)"
    using dense stream_count_inv [OF inv, of "(c, sid)"] rv unfolding revisions_dense_def
    by (simp add: nth_append less_Suc_eq)
  moreover have "positions_ok ?s"
  proof -
    have "unat (global_position s + of_nat 1) = Suc (length (global_log s)) + 1"
      using pos room unat_add_no_wrap [of "global_position s" 1]
      by (simp add: positions_ok_def log_room_def)
    then show ?thesis
      using pos by (simp add: positions_ok_def push_row_def Let_def nth_append less_Suc_eq)
  qed
  ultimately show ?thesis by (simp add: log_inv_def)
qed

lemma push_row_count:
  "stream_count (snd (push_row c sid rv e s)) (c, sid) = stream_count s (c, sid) + 1"
  by (simp add: stream_count_def push_row_stream_offsets)

text \<open>The rows the loop appends, from the position and revision counters it starts at.\<close>

fun placed_rows :: "string \<Rightarrow> uuid \<Rightarrow> u64 \<Rightarrow> u64 \<Rightarrow> event_data list \<Rightarrow> recorded_event list" where
  "placed_rows c sid p r [] = []"
| "placed_rows c sid p r (e # es) = placed_row c sid p r e # placed_rows c sid (p + 1) (r + 1) es"

lemma length_placed_rows [simp]: "length (placed_rows c sid p r es) = length es"
  by (induction es arbitrary: p r) auto

lemma map_id_placed_rows [simp]: "map re_event_id (placed_rows c sid p r es) = map ed_event_id es"
  by (induction es arbitrary: p r) auto

lemma placed_rows_key: "x \<in> set (placed_rows c sid p r es) \<Longrightarrow> row_key x = (c, sid)"
  by (induction es arbitrary: p r) auto

lemma placed_rows_nth:
  "i < length es \<Longrightarrow>
     placed_rows c sid p r es ! i = placed_row c sid (p + of_nat i) (r + of_nat i) (es ! i)"
proof (induction es arbitrary: p r i)
  case (Cons e es)
  then show ?case by (cases i) (simp_all add: algebra_simps)
qed simp

lemma global_position_push_row [simp]:
  "global_position (snd (push_row c sid rv e s)) = global_position s + 1"
  by (simp add: push_row_def Let_def)

lemma push_rows_log:
  "global_log (snd (push_rows c sid count off es res s)) =
     global_log s @ placed_rows c sid (global_position s) (count + of_nat off) es"
proof (induction es arbitrary: off res s)
  case (Cons e es)
  then show ?case by (simp add: split_beta algebra_simps)
qed simp

lemma push_rows_ids:
  "ed_event_id e \<notin> ed_event_id ` set es \<Longrightarrow>
   hget (li_by_event_id (log_idx (snd (push_rows c sid count off es res s)))) (ed_event_id e) =
     hget (li_by_event_id (log_idx s)) (ed_event_id e)"
  by (induction es arbitrary: off res s) (auto simp: split_beta)

lemma push_rows_inv:
  assumes "log_inv s" "distinct (map ed_event_id es)"
    "\<forall>e \<in> set es. hget (li_by_event_id (log_idx s)) (ed_event_id e) = None"
    "log_room (length es) s" "count + of_nat off = stream_count s (c, sid)"
  shows "log_inv (snd (push_rows c sid count off es res s))"
  using assms
proof (induction es arbitrary: off res s)
  case (Cons e es)
  let ?p = "push_row c sid (count + of_nat off) e s"
  have inv: "log_inv (snd ?p)"
    using Cons.prems by (intro push_row_inv) (auto simp: log_room_def)
  have cnt: "count + of_nat (Suc off) = stream_count (snd ?p) (c, sid)"
    using Cons.prems(5) by (simp only: push_row_count) (simp add: algebra_simps)
  have fresh: "\<forall>e' \<in> set es. hget (li_by_event_id (log_idx (snd ?p))) (ed_event_id e') = None"
    using Cons.prems(2,3) by (auto simp: rev_image_eqI)
  have "log_inv (snd (push_rows c sid count (Suc off) es (fst ?p) (snd ?p)))"
    using Cons.prems(2,4) by (intro Cons.IH inv cnt fresh) (simp_all add: log_room_def)
  then show ?case by (simp only: push_rows.simps split_beta)
qed simp

lemma push_rows_result:
  "es \<noteq> [] \<Longrightarrow> fst (push_rows c sid count off es res s) =
     \<lparr> wr_position = global_position s + of_nat (length es - 1),
       wr_revision = count + of_nat off + of_nat (length es - 1) \<rparr>"
proof (induction es arbitrary: off res s)
  case (Cons e es)
  show ?case
  proof (cases "es = []")
    case True
    then show ?thesis by (simp add: push_row_def Let_def)
  next
    case False
    then obtain m where "length es = Suc m" by (cases es) auto
    with Cons.IH [OF False] show ?thesis by (simp add: split_beta algebra_simps)
  qed
qed simp

lemma duplicate_in_batch_None: "duplicate_in_batch es = None \<longleftrightarrow> distinct (map ed_event_id es)"
  by (induction es) (auto simp: image_iff eq_commute)

section \<open>Append: every outcome\<close>

definition batch_fresh :: "memory_store \<Rightarrow> event_data list \<Rightarrow> bool" where
  "batch_fresh s es \<longleftrightarrow> (\<forall>e \<in> set es. hget (li_by_event_id (log_idx s)) (ed_event_id e) = None)"

text \<open>A row that a redelivered event of the batch must equal, field by field.\<close>

definition same_row :: "string \<Rightarrow> uuid \<Rightarrow> event_data \<Rightarrow> recorded_event \<Rightarrow> bool" where
  "same_row c sid e row \<longleftrightarrow>
     re_event_id row = ed_event_id e \<and> re_payload row = ed_payload e \<and>
     re_event_type row = ed_event_type e \<and> re_workflow_id row = ed_workflow_id e \<and>
     re_causation_id row = ed_causation_id e \<and> re_category row = c \<and> re_subject_id row = sid"

lemma row_divergence_None:
  "row_divergence row e c sid = None \<longleftrightarrow>
     re_payload row = ed_payload e \<and> re_event_type row = ed_event_type e \<and>
     re_workflow_id row = ed_workflow_id e \<and> re_causation_id row = ed_causation_id e \<and>
     re_category row = c \<and> re_subject_id row = sid"
  by (simp add: row_divergence_def)

lemma id_index_row:
  assumes "log_inv s"
  shows "(\<exists>row \<in> set (global_log s). re_event_id row = k \<and> P row) \<longleftrightarrow>
         (\<exists>i. hget (li_by_event_id (log_idx s)) k = Some i \<and> P (global_log s ! i))"
proof -
  have "\<And>i. hget (li_by_event_id (log_idx s)) k = Some i \<longleftrightarrow>
         i < length (global_log s) \<and> re_event_id (global_log s ! i) = k"
    using assms by (simp add: log_inv_def id_index_ok_def)
  then show ?thesis by (auto simp: in_set_conv_nth Bex_def)
qed

lemma id_index_None:
  "log_inv s \<Longrightarrow> hget (li_by_event_id (log_idx s)) k = None \<longleftrightarrow>
     k \<notin> re_event_id ` set (global_log s)"
  using id_index_row [of s k "\<lambda>_. True"] by (force simp: image_iff)

lemma check_redelivery_None:
  assumes "log_inv s"
  shows "check_redelivery s c sid l es = None \<longleftrightarrow>
           (\<forall>e \<in> set es. \<exists>row \<in> set (global_log s). same_row c sid e row)"
proof (induction es)
  case (Cons e es)
  have "(\<exists>row \<in> set (global_log s). same_row c sid e row) \<longleftrightarrow>
        (\<exists>i. hget (li_by_event_id (log_idx s)) (ed_event_id e) = Some i \<and>
             row_divergence (global_log s ! i) e c sid = None)"
    unfolding row_divergence_None same_row_def
    by (simp only: id_index_row [OF assms])
  with Cons show ?case
    by (auto simp: Let_def split: option.splits)
qed simp

lemma append_error_unchanged:
  "append_to_stream c sid ex es s = (Inl err, s') \<Longrightarrow> s' = s"
  by (auto simp: append_to_stream_def Let_def split: if_splits option.splits prod.splits)

lemma append_redelivery_unchanged:
  assumes "hget (li_by_event_id (log_idx s)) (ed_event_id (last es)) \<noteq> None" "es \<noteq> []"
  shows "snd (append_to_stream c sid ex es s) = s"
  using assms by (auto simp: append_to_stream_def Let_def split: option.splits)

lemma append_fresh_eq:
  assumes "es \<noteq> []" "distinct (map ed_event_id es)" "batch_fresh s es"
    "state_matches ex (current_tail s (c, sid))"
  shows "append_to_stream c sid ex es s =
           (Inr \<lparr> wr_position = global_position s + of_nat (length es - 1),
                  wr_revision = stream_count s (c, sid) + of_nat (length es - 1) \<rparr>,
            snd (push_rows c sid (stream_count s (c, sid)) 0 es
                   \<lparr> wr_position = cursor_zero, wr_revision = 0 \<rparr> s))"
proof -
  have "hget (li_by_event_id (log_idx s)) (ed_event_id (last es)) = None"
    using assms(1,3) by (simp add: batch_fresh_def)
  moreover have "\<not> (\<exists>e \<in> set es. hget (li_by_event_id (log_idx s)) (ed_event_id e) \<noteq> None)"
    using assms(3) by (auto simp: batch_fresh_def)
  moreover have "duplicate_in_batch es = None"
    using assms(2) by (simp add: duplicate_in_batch_None)
  ultimately show ?thesis
    using assms(1,4) by (simp add: append_to_stream_def Let_def split_beta push_rows_result)
qed

text \<open>The converse: a batch that changes the state was fresh, distinct and matched.\<close>

lemma append_changed:
  assumes "append_to_stream c sid ex es s = (Inr r, s')"
    "hget (li_by_event_id (log_idx s)) (ed_event_id (last es)) = None"
  shows "es \<noteq> []" "distinct (map ed_event_id es)" "batch_fresh s es"
    "state_matches ex (current_tail s (c, sid))"
proof -
  show ne: "es \<noteq> []" using assms(1) by (auto simp: append_to_stream_def)
  show "distinct (map ed_event_id es)"
  proof (cases "length es > 1")
    case True
    then show ?thesis using assms(1) ne
      by (auto simp: append_to_stream_def Let_def duplicate_in_batch_None [symmetric]
          split: option.splits)
  next
    case False
    with ne obtain e where "es = [e]" by (cases es) auto
    then show ?thesis by simp
  qed
  show "batch_fresh s es"
  proof (cases "length es > 1")
    case True
    then show ?thesis using assms ne
      by (auto simp: append_to_stream_def Let_def batch_fresh_def split: option.splits if_splits)
  next
    case False
    with ne obtain e where "es = [e]" by (cases es) auto
    then show ?thesis using assms(2) by (simp add: batch_fresh_def)
  qed
  show "state_matches ex (current_tail s (c, sid))"
    using assms ne by (auto simp: append_to_stream_def Let_def split: option.splits if_splits)
qed

end
