(* ===== verification/Log_Interface.thy ===== *)
theory Log_Interface
  imports Memory_Log
begin

text \<open>
  The contract of \<open>trait EventLogBackend\<close> as its clients (the engine, the reactor runner) use it
  (\<open>modules/causal/src/event_log.rs\<close>), as the locale \<open>event_log\<close>: an error changes nothing, a
  success either recognises a byte-identical redelivery or extends the log by the batch, and a
  batch already persisted is accepted again whatever state the caller expects. The facts about
  \<open>MemoryStore\<close> that discharge the contract come first; the interpretation \<open>mem_log\<close> rests on
  them.
\<close>

section \<open>Reads against the log\<close>

definition stream_rows :: "recorded_event list \<Rightarrow> string \<times> uuid \<Rightarrow> recorded_event list" where
  "stream_rows rows key = filter (\<lambda>r. row_key r = key) rows"

lemma stream_rows_append [simp]:
  "stream_rows (xs @ ys) key = stream_rows xs key @ stream_rows ys key"
  by (simp add: stream_rows_def)

lemma revisions_dense_snoc:
  "revisions_dense (xs @ [x]) \<longleftrightarrow>
     revisions_dense xs \<and>
     unat (re_revision x) = length (filter (\<lambda>r. row_key r = row_key x) xs)"
  unfolding revisions_dense_def by (simp add: nth_append less_Suc_eq all_conj_distrib imp_conjR disj_imp)

lemma stream_rows_nth_revision:
  assumes "revisions_dense rows" "r < length (stream_rows rows key)"
  shows "unat (re_revision (stream_rows rows key ! r)) = r"
  using assms
proof (induction rows arbitrary: r rule: rev_induct)
  case (snoc x xs)
  have dense: "revisions_dense xs"
    using snoc.prems(1) by (simp add: revisions_dense_snoc)
  show ?case
  proof (cases "r < length (stream_rows xs key)")
    case True
    then show ?thesis using snoc.IH [OF dense True] by (simp add: nth_append)
  next
    case False
    then have "row_key x = key" "r = length (stream_rows xs key)"
      using snoc.prems(2) by (auto simp: stream_rows_def split: if_splits)
    moreover have "unat (re_revision x) = length (filter (\<lambda>r. row_key r = row_key x) xs)"
      using snoc.prems(1) by (simp add: revisions_dense_snoc)
    ultimately show ?thesis by (simp add: stream_rows_def nth_append)
  qed
qed (simp add: stream_rows_def)

lemma log_inv_dense: "log_inv s \<Longrightarrow> revisions_dense (global_log s)"
  by (simp add: log_inv_def)

lemma log_inv_distinct_ids:
  assumes "log_inv s"
  shows "distinct (map re_event_id (global_log s))"
proof -
  have "\<And>k i. hget (li_by_event_id (log_idx s)) k = Some i \<longleftrightarrow>
         i < length (global_log s) \<and> re_event_id (global_log s ! i) = k"
    using assms by (simp add: log_inv_def id_index_ok_def)
  then show ?thesis
    unfolding distinct_conv_nth by (metis length_map nth_map option.inject)
qed

lemma log_inv_positions_sorted:
  "log_inv s \<Longrightarrow> sorted_wrt (\<lambda>x y. re_position x < re_position y) (global_log s)"
  unfolding log_inv_def positions_ok_def sorted_wrt_iff_nth_less word_less_nat_alt by auto

lemma stream_offsets_rows:
  assumes "log_inv s"
  shows "map ((!) (global_log s)) (stream_offsets s key) = stream_rows (global_log s) key"
proof -
  have "stream_offsets s key = row_offsets (global_log s) key"
    using assms unfolding log_inv_def stream_index_ok_def by blast
  then show ?thesis by (simp add: map_row_offsets stream_rows_def)
qed

lemma stream_count_rows:
  "log_inv s \<Longrightarrow> unat (stream_count s key) = length (stream_rows (global_log s) key)"
  by (simp add: stream_count_inv stream_rows_def)

lemma current_tail_rows:
  assumes "log_inv s"
  shows "current_tail s key =
           (if stream_rows (global_log s) key = [] then None
            else Some (re_revision (last (stream_rows (global_log s) key))))"
proof -
  let ?n = "length (stream_rows (global_log s) key)"
  have n: "unat (stream_count s key) = ?n" by (rule stream_count_rows [OF assms])
  show ?thesis
  proof (cases "?n = 0")
    case True
    then show ?thesis using n by (simp add: current_tail_def Let_def unat_eq_0)
  next
    case False
    then have nz: "stream_count s key \<noteq> 0" using n by auto
    have "unat (stream_count s key - 1) = ?n - 1"
      using nz n by (simp add: unat_minus_one)
    moreover have "unat (re_revision (last (stream_rows (global_log s) key))) = ?n - 1"
      using stream_rows_nth_revision [OF log_inv_dense [OF assms], of "?n - 1" key] False
      by (simp add: last_conv_nth)
    ultimately show ?thesis
      using nz False by (simp add: current_tail_def Let_def word_unat_eq_iff)
  qed
qed

lemma drop_revision_filter:
  assumes "\<And>r. r < length xs \<Longrightarrow> unat (f (xs ! r)) = (r :: nat)"
  shows "drop k xs = filter (\<lambda>x. k \<le> unat (f x)) xs"
  using assms
proof (induction xs arbitrary: k rule: rev_induct)
  case (snoc x xs)
  have "unat (f x) = length xs" using snoc.prems [of "length xs"] by simp
  moreover have "drop k xs = filter (\<lambda>x. k \<le> unat (f x)) xs"
    using snoc.prems by (intro snoc.IH) (metis length_append_singleton less_SucI nth_append)
  ultimately show ?case by auto
qed simp

lemma read_stream_rows:
  assumes "log_inv s" "after \<noteq> Some (- 1)"
  shows "read_stream c sid after s =
           filter (\<lambda>r. case after of None \<Rightarrow> True | Some m \<Rightarrow> m < re_revision r)
             (stream_rows (global_log s) (c, sid))"
proof -
  define k where "k = (case after of None \<Rightarrow> 0 | Some m \<Rightarrow> unat (sat_inc m))"
  let ?rows = "stream_rows (global_log s) (c, sid)"
  have "read_stream c sid after s = map ((!) (global_log s)) (drop k (stream_offsets s (c, sid)))"
    by (auto simp: read_stream_def stream_offsets_def k_def Let_def min_def split: option.splits)
  also have "\<dots> = drop k ?rows"
    by (simp add: drop_map stream_offsets_rows [OF assms(1), symmetric])
  also have "\<dots> = filter (\<lambda>r. k \<le> unat (re_revision r)) ?rows"
    by (intro drop_revision_filter stream_rows_nth_revision log_inv_dense assms(1))
  also have "\<dots> = filter (\<lambda>r. case after of None \<Rightarrow> True | Some m \<Rightarrow> m < re_revision r) ?rows"
  proof (rule filter_cong [OF refl])
    fix r
    show "(k \<le> unat (re_revision r)) = (case after of None \<Rightarrow> True | Some m \<Rightarrow> m < re_revision r)"
    proof (cases after)
      case (Some m)
      then have "m \<noteq> - 1" using assms(2) by simp
      then have "unat m \<noteq> 2 ^ 64 - 1"
        by (simp add: sat_inc_def word_unat_eq_iff unsigned_minus_1_eq_mask mask_eq_exp_minus_1)
      then show ?thesis using Some by (simp add: k_def unat_sat_inc word_less_nat_alt Suc_le_eq)
    qed (simp add: k_def)
  qed
  finally show ?thesis .
qed

lemma read_all_rows:
  "log_inv s \<Longrightarrow>
     read_all after limit s = take limit (filter (\<lambda>e. after < re_position e) (global_log s))"
  by (simp add: read_all_def Let_def drop_partition_point dropWhile_sorted_filter
      log_inv_positions_sorted)

section \<open>What an append did\<close>

text \<open>The batch was recognised as a redelivery, or it was appended: the two successes.\<close>

definition batch_persisted :: "recorded_event list \<Rightarrow> string \<Rightarrow> uuid \<Rightarrow> event_data list \<Rightarrow> bool" where
  "batch_persisted rows c sid es \<longleftrightarrow> (\<forall>e \<in> set es. \<exists>row \<in> set rows. same_row c sid e row)"

definition ids_fresh :: "recorded_event list \<Rightarrow> event_data list \<Rightarrow> bool" where
  "ids_fresh rows es \<longleftrightarrow> (\<forall>e \<in> set es. ed_event_id e \<notin> re_event_id ` set rows)"

definition last_revision :: "recorded_event list \<Rightarrow> string \<times> uuid \<Rightarrow> stream_revision option" where
  "last_revision rows key =
     (if stream_rows rows key = [] then None else Some (re_revision (last (stream_rows rows key))))"

lemma batch_fresh_ids: "log_inv s \<Longrightarrow> batch_fresh s es \<longleftrightarrow> ids_fresh (global_log s) es"
  by (simp add: batch_fresh_def ids_fresh_def id_index_None)

lemma placed_rows_eq_Nil [simp]: "placed_rows c sid p r es = [] \<longleftrightarrow> es = []"
  by (cases es) auto

lemma last_placed_rows:
  "es \<noteq> [] \<Longrightarrow> last (placed_rows c sid p r es) =
     placed_row c sid (p + of_nat (length es - 1)) (r + of_nat (length es - 1)) (last es)"
  by (simp add: last_conv_nth placed_rows_nth)

lemma placed_rows_same: "list_all2 (same_row c sid) es (placed_rows c sid p r es)"
  by (induction es arbitrary: p r) (auto simp: same_row_def)

lemma list_all2_batch_persisted:
  "list_all2 (same_row c sid) es new \<Longrightarrow> batch_persisted (rows @ new) c sid es"
  unfolding batch_persisted_def by (induction es new rule: list_all2_induct) auto

lemma append_new_rows:
  assumes inv: "log_inv s" and app: "append_to_stream c sid ex es s = (Inr r, s')"
    and new: "hget (li_by_event_id (log_idx s)) (ed_event_id (last es)) = None"
  shows "global_log s' = global_log s @
           placed_rows c sid (global_position s) (stream_count s (c, sid)) es"
    and "ids_fresh (global_log s) es" "distinct (map ed_event_id es)" "es \<noteq> []"
    and "state_matches ex (last_revision (global_log s) (c, sid))"
    and "r = \<lparr> wr_position = global_position s + of_nat (length es - 1),
               wr_revision = stream_count s (c, sid) + of_nat (length es - 1) \<rparr>"
    and "log_room (length es) s \<Longrightarrow> log_inv s'"
proof -
  note ch = append_changed [OF app new]
  note eq = append_fresh_eq [OF ch]
  show "global_log s' = global_log s @
           placed_rows c sid (global_position s) (stream_count s (c, sid)) es"
    using eq app by (simp add: push_rows_log)
  show "ids_fresh (global_log s) es" using ch(3) batch_fresh_ids [OF inv] by simp
  show "distinct (map ed_event_id es)" "es \<noteq> []" by (rule ch)+
  show "state_matches ex (last_revision (global_log s) (c, sid))"
    using ch(4) current_tail_rows [OF inv] by (simp add: last_revision_def)
  show "r = \<lparr> wr_position = global_position s + of_nat (length es - 1),
               wr_revision = stream_count s (c, sid) + of_nat (length es - 1) \<rparr>"
    using eq app by simp
  show "log_inv s'" if "log_room (length es) s"
  proof -
    have "s' = snd (push_rows c sid (stream_count s (c, sid)) 0 es
                   \<lparr> wr_position = cursor_zero, wr_revision = 0 \<rparr> s)"
      using eq app by simp
    then show ?thesis
      using ch that by (auto intro!: push_rows_inv inv simp: batch_fresh_def)
  qed
qed

lemma append_old_rows:
  assumes inv: "log_inv s" and app: "append_to_stream c sid ex es s = (Inr r, s')"
    and old: "hget (li_by_event_id (log_idx s)) (ed_event_id (last es)) \<noteq> None"
  shows "s' = s" "batch_persisted (global_log s) c sid es"
proof -
  have ne: "es \<noteq> []" using app by (auto simp: append_to_stream_def)
  show "s' = s" using append_redelivery_unchanged [OF old ne, of c sid ex] app by simp
  have "check_redelivery s c sid (ed_event_id (last es)) es = None"
    using app old ne by (auto simp: append_to_stream_def Let_def split: option.splits if_splits)
  then show "batch_persisted (global_log s) c sid es"
    by (simp add: check_redelivery_None [OF inv] batch_persisted_def)
qed

lemma append_inv:
  assumes "log_inv s" "log_room (length es) s"
  shows "log_inv (snd (append_to_stream c sid ex es s))"
proof (cases "append_to_stream c sid ex es s")
  case (Pair res s')
  show ?thesis
  proof (cases res)
    case (Inl err)
    then show ?thesis using Pair append_error_unchanged assms(1) by fastforce
  next
    case (Inr r)
    have app: "append_to_stream c sid ex es s = (Inr r, s')" using Pair Inr by simp
    show ?thesis
    proof (cases "hget (li_by_event_id (log_idx s)) (ed_event_id (last es))")
      case None
      show ?thesis using append_new_rows(7) [OF assms(1) app None assms(2)] app by simp
    next
      case (Some i)
      then show ?thesis using append_old_rows(1) [OF assms(1) app] assms(1) app by simp
    qed
  qed
qed

lemma append_redelivered:
  assumes inv: "log_inv s" and ne: "es \<noteq> []" and dist: "distinct (map ed_event_id es)"
    and per: "batch_persisted (global_log s) c sid es"
  shows "\<exists>row \<in> set (global_log s). same_row c sid (last es) row \<and>
           append_to_stream c sid ex es s =
             (Inr \<lparr> wr_position = re_position row, wr_revision = re_revision row \<rparr>, s)"
proof -
  have "\<exists>row \<in> set (global_log s). re_event_id row = ed_event_id (last es) \<and> same_row c sid (last es) row"
    using per ne by (auto simp: batch_persisted_def same_row_def)
  then obtain i where i: "hget (li_by_event_id (log_idx s)) (ed_event_id (last es)) = Some i"
    and same: "same_row c sid (last es) (global_log s ! i)"
    using id_index_row [OF inv, of "ed_event_id (last es)" "same_row c sid (last es)"] by auto
  have "global_log s ! i \<in> set (global_log s)"
    using i inv by (simp add: log_inv_def id_index_ok_def)
  moreover have "check_redelivery s c sid (ed_event_id (last es)) es = None"
    using per by (simp add: check_redelivery_None [OF inv] batch_persisted_def)
  then have "append_to_stream c sid ex es s =
             (Inr \<lparr> wr_position = re_position (global_log s ! i),
                    wr_revision = re_revision (global_log s ! i) \<rparr>, s)"
    using ne dist i by (simp add: append_to_stream_def Let_def duplicate_in_batch_None [THEN iffD2])
  ultimately show ?thesis using same by blast
qed

lemma append_divergent_single:
  assumes inv: "log_inv s" and row: "row \<in> set (global_log s)" "re_event_id row = ed_event_id e"
    and diff: "\<not> same_row c sid e row"
  shows "\<exists>d. append_to_stream c sid ex [e] s = (Inl (DivergentRedelivery (ed_event_id e) d (Some row)), s)"
proof -
  obtain i where i: "hget (li_by_event_id (log_idx s)) (ed_event_id e) = Some i"
    and at: "global_log s ! i = row"
    using id_index_row [OF inv, of "ed_event_id e" "\<lambda>x. x = row"] row by auto
  moreover obtain d where "row_divergence row e c sid = Some d"
    using diff row(2) row_divergence_None [of row e c sid] by (auto simp: same_row_def)
  ultimately show ?thesis by (simp add: append_to_stream_def Let_def)
qed

section \<open>The contract of a backend\<close>

locale event_log =
  fixes B :: "'s backend"
    and rows :: "'s \<Rightarrow> recorded_event list"
    and inv :: "'s \<Rightarrow> bool"
    and room :: "nat \<Rightarrow> 's \<Rightarrow> bool"
  assumes append_err: "inv s \<Longrightarrow> b_append B c sid ex es s = (Inl err, s') \<Longrightarrow> s' = s"
    and append_inv: "inv s \<Longrightarrow> room (length es) s \<Longrightarrow> inv (snd (b_append B c sid ex es s))"
    and append_ok: "inv s \<Longrightarrow> b_append B c sid ex es s = (Inr r, s') \<Longrightarrow>
          s' = s \<and> es \<noteq> [] \<and> distinct (map ed_event_id es) \<and> batch_persisted (rows s) c sid es \<or>
          (\<exists>new. rows s' = rows s @ new \<and> es \<noteq> [] \<and> distinct (map ed_event_id es) \<and>
             list_all2 (same_row c sid) es new \<and>
             ids_fresh (rows s) es \<and> state_matches ex (last_revision (rows s) (c, sid)))"
    and append_again: "inv s \<Longrightarrow> es \<noteq> [] \<Longrightarrow> distinct (map ed_event_id es) \<Longrightarrow>
          batch_persisted (rows s) c sid es \<Longrightarrow> \<exists>r. b_append B c sid ex es s = (Inr r, s)"
    and append_fresh: "inv s \<Longrightarrow> es \<noteq> [] \<Longrightarrow> distinct (map ed_event_id es) \<Longrightarrow>
          ids_fresh (rows s) es \<Longrightarrow> state_matches ex (last_revision (rows s) (c, sid)) \<Longrightarrow>
          \<exists>r s'. b_append B c sid ex es s = (Inr r, s')"
    and append_divergent: "inv s \<Longrightarrow> row \<in> set (rows s) \<Longrightarrow> re_event_id row = ed_event_id e \<Longrightarrow>
          \<not> same_row c sid e row \<Longrightarrow>
          \<exists>d. b_append B c sid ex [e] s = (Inl (DivergentRedelivery (ed_event_id e) d (Some row)), s)"
    and ids_distinct: "inv s \<Longrightarrow> distinct (map re_event_id (rows s))"
    and read_whole: "inv s \<Longrightarrow> b_read_stream B c sid None s = Inr (stream_rows (rows s) (c, sid))"
    and read_after: "inv s \<Longrightarrow> rv \<noteq> - 1 \<Longrightarrow> b_read_stream B c sid (Some rv) s =
          Inr (filter (\<lambda>r. rv < re_revision r) (stream_rows (rows s) (c, sid)))"
    and dense: "inv s \<Longrightarrow> revisions_dense (rows s)"
    and revision_room: "inv s \<Longrightarrow> row \<in> set (rows s) \<Longrightarrow> re_revision row \<noteq> - 1"
    and positive: "inv s \<Longrightarrow> row \<in> set (rows s) \<Longrightarrow> 0 < re_position row"
    and ascending: "inv s \<Longrightarrow> sorted_wrt (\<lambda>x y. re_position x < re_position y) (rows s)"
    and room_step: "inv s \<Longrightarrow> room (length es + n) s \<Longrightarrow> room n (snd (b_append B c sid ex es s))"
    and room_less: "room m s \<Longrightarrow> n \<le> m \<Longrightarrow> room n s"
begin

lemma append_grows: "inv s \<Longrightarrow> \<exists>new. rows (snd (b_append B c sid ex es s)) = rows s @ new"
  using append_ok append_err
  by (cases "b_append B c sid ex es s"; cases "fst (b_append B c sid ex es s)") fastforce+

lemma persisted_mono: "batch_persisted (rows s) c sid es \<Longrightarrow> rows s' = rows s @ new \<Longrightarrow>
    batch_persisted (rows s') c sid es"
  by (auto simp: batch_persisted_def)

lemma append_persists:
  assumes "inv s" "b_append B c sid ex es s = (Inr r, s')"
  shows "batch_persisted (rows s') c sid es \<and> es \<noteq> [] \<and> distinct (map ed_event_id es)"
  using append_ok [OF assms] list_all2_batch_persisted by metis

lemma retry_noop:
  assumes "inv s" "room (length es) s" "b_append B c sid ex es s = (Inr r, s')"
  shows "\<exists>r'. b_append B c sid ex' es s' = (Inr r', s')"
proof -
  have "inv s'" using append_inv [OF assms(1,2), of c sid ex] assms(3) by simp
  then show ?thesis using append_persists [OF assms(1,3)] append_again by blast
qed

lemma append_event_retry:
  assumes "inv s" "room 1 s" "append_event B e s = (Inr r, s')"
  shows "\<exists>r'. append_event B e s' = (Inr r', s')"
proof -
  obtain c sid where p: "append_event_placement e = (c, sid)" by fastforce
  have "b_append B c sid AnyState [e] s = (Inr r, s')"
    using assms(3) p by (simp add: append_event_def)
  then show ?thesis
    using retry_noop [of s "[e]"] assms(1,2) p by (simp add: append_event_def)
qed

text \<open>A bare fact is accepted unless its id is already taken by a different fact.\<close>

lemma append_event_total:
  assumes "inv s"
  shows "(\<exists>r s'. append_event B e s = (Inr r, s')) \<or>
         (\<exists>d row. row \<in> set (rows s) \<and>
            append_event B e s = (Inl (DivergentRedelivery (ed_event_id e) d (Some row)), s))"
proof -
  obtain c sid where p: "append_event_placement e = (c, sid)" by fastforce
  show ?thesis
  proof (cases "ed_event_id e \<in> re_event_id ` set (rows s)")
    case False
    then have "ids_fresh (rows s) [e]" by (simp add: ids_fresh_def)
    then show ?thesis
      using append_fresh [OF assms, of "[e]" AnyState c sid] p by (simp add: append_event_def)
  next
    case True
    then obtain row where row: "row \<in> set (rows s)" "re_event_id row = ed_event_id e" by auto
    show ?thesis
    proof (cases "same_row c sid e row")
      case same: True
      then have "batch_persisted (rows s) c sid [e]" using row by (auto simp: batch_persisted_def)
      then show ?thesis
        using append_again [OF assms, of "[e]" c sid AnyState] p by (auto simp: append_event_def)
    next
      case False
      then show ?thesis
        using append_divergent [OF assms row False, of AnyState] row p
        by (auto simp: append_event_def)
    qed
  qed
qed

end

section \<open>The in-memory backend meets the contract\<close>

lemma append_ok_mem:
  assumes "log_inv s" "append_to_stream c sid ex es s = (Inr r, s')"
  shows "s' = s \<and> es \<noteq> [] \<and> distinct (map ed_event_id es) \<and>
           batch_persisted (global_log s) c sid es \<or>
         (\<exists>new. global_log s' = global_log s @ new \<and> es \<noteq> [] \<and> distinct (map ed_event_id es) \<and>
            list_all2 (same_row c sid) es new \<and> ids_fresh (global_log s) es \<and>
            state_matches ex (last_revision (global_log s) (c, sid)))"
proof (cases "hget (li_by_event_id (log_idx s)) (ed_event_id (last es))")
  case None
  then show ?thesis
    using append_new_rows(1-5) [OF assms None] placed_rows_same by blast
next
  case (Some i)
  have "es \<noteq> []" using assms(2) by (auto simp: append_to_stream_def)
  moreover have "distinct (map ed_event_id es)"
  proof (cases "length es > 1")
    case True
    then show ?thesis using assms(2)
      by (auto simp: append_to_stream_def Let_def duplicate_in_batch_None [symmetric]
          split: option.splits if_splits)
  next
    case False
    with \<open>es \<noteq> []\<close> obtain e where "es = [e]" by (cases es) auto
    then show ?thesis by simp
  qed
  ultimately show ?thesis using append_old_rows [OF assms] Some by simp
qed

lemma log_room_step:
  assumes "log_inv s" "log_room (length es + n) s"
  shows "log_room n (snd (append_to_stream c sid ex es s))"
proof (cases "append_to_stream c sid ex es s")
  case (Pair res s')
  show ?thesis
  proof (cases res)
    case (Inl err)
    then show ?thesis using Pair append_error_unchanged assms(2) by (fastforce simp: log_room_def)
  next
    case (Inr r)
    then have app: "append_to_stream c sid ex es s = (Inr r, s')" using Pair by simp
    have "s' = s \<or> length (global_log s') = length (global_log s) + length es"
      using append_ok_mem [OF assms(1) app] by (auto dest: list_all2_lengthD)
    then show ?thesis using Pair assms(2) by (auto simp: log_room_def)
  qed
qed

lemma log_inv_position_pos:
  assumes "log_inv s" "e \<in> set (global_log s)"
  shows "0 < re_position e"
proof -
  obtain i where "i < length (global_log s)" "e = global_log s ! i" using assms(2) by (auto simp: in_set_conv_nth)
  then have "unat (re_position e) = Suc i" using assms(1) by (simp add: log_inv_def positions_ok_def)
  then show ?thesis by (simp add: word_less_nat_alt)
qed

lemma log_inv_revision_room:
  assumes "log_inv s" "r \<in> set (global_log s)"
  shows "re_revision r \<noteq> - 1"
proof -
  obtain i where i: "i < length (global_log s)" "r = global_log s ! i"
    using assms(2) by (auto simp: in_set_conv_nth)
  have "unat (re_revision r) \<le> length (take i (global_log s))"
    using log_inv_dense [OF assms(1)] i unfolding revisions_dense_def
    by (auto intro: order_trans [OF length_filter_le])
  also have "\<dots> < length (global_log s)" using i(1) by simp
  also have "\<dots> < 2 ^ 64 - 1"
    using assms(1) u64_lt_two64 [of "global_position s"] by (simp add: log_inv_def positions_ok_def)
  finally have "unat (re_revision r) \<noteq> unat (- 1 :: u64)"
    by (simp add: unsigned_minus_1_eq_mask mask_eq_exp_minus_1)
  then show ?thesis by auto
qed

interpretation mem_log: event_log memory_backend global_log log_inv log_room
proof (unfold_locales, goal_cases)
  case 1 then show ?case by (auto simp: memory_backend_def dest: append_error_unchanged)
next
  case 2 then show ?case by (simp add: memory_backend_def append_inv)
next
  case 3 then show ?case using append_ok_mem by (simp add: memory_backend_def)
next
  case 4 then show ?case using append_redelivered by (fastforce simp: memory_backend_def)
next
  case (5 s es ex c sid)
  then show ?case
    using append_fresh_eq [of es s ex c sid] current_tail_rows [of s "(c, sid)"]
    by (simp add: memory_backend_def batch_fresh_ids last_revision_def)
next
  case 6 then show ?case using append_divergent_single by (simp add: memory_backend_def)
next
  case 7 then show ?case by (rule log_inv_distinct_ids)
next
  case 8 then show ?case by (simp add: memory_backend_def read_stream_rows)
next
  case 9 then show ?case by (simp add: memory_backend_def read_stream_rows)
next
  case 10 then show ?case by (rule log_inv_dense)
next
  case 11 then show ?case by (rule log_inv_revision_room)
next
  case 12 then show ?case by (rule log_inv_position_pos)
next
  case 13 then show ?case by (rule log_inv_positions_sorted)
next
  case 14 then show ?case by (simp add: memory_backend_def log_room_step)
next
  case 15 then show ?case by (simp add: log_room_def)
qed

end
