(* ===== verification/Log_Properties.thy ===== *)
theory Log_Properties
  imports Log_Interface
begin

text \<open>
  What the in-memory log promises its callers: the properties of \<open>append_to_stream\<close>,
  \<open>read_all\<close>, \<open>read_stream\<close>, \<open>append_event\<close> (\<open>modules/causal/src/memory_store.rs\<close>,
  \<open>modules/causal/src/event_log.rs\<close>) and \<open>first_diff_path\<close>, each with a concrete instance. The
  sample events at the start serve the instances of the whole development.
\<close>

section \<open>Sample events\<close>

definition sample_event :: "uuid \<Rightarrow> json \<Rightarrow> event_data" where
  "sample_event i v =
     \<lparr> ed_event_id = i, ed_causation_id = None, ed_workflow_id = 7, ed_event_type = ''order_placed'',
       ed_payload = v, ed_created_at = 0, ed_category = Some ''order'', ed_subject_id = Some 9,
       ed_metadata = [], ed_ephemeral = None, ed_persistent = True \<rparr>"

definition sample_store :: memory_store where
  "sample_store =
     snd (append_to_stream ''order'' 9 NoStream [sample_event 1 JNull, sample_event 2 (JBool True)]
            memory_store_new)"

lemmas append_eval =
  append_to_stream_def push_row_def stream_count_def stream_offsets_def current_tail_def
  placed_row_def row_divergence_def sample_event_def memory_store_new_def cursor_zero_def

lemma sample_store_eq: "sample_store =
  memory_store_new
   \<lparr> global_log :=
        [placed_row ''order'' 9 1 0 (sample_event 1 JNull),
         placed_row ''order'' 9 2 1 (sample_event 2 (JBool True))],
      log_idx := \<lparr> li_by_event_id = [(1, 0), (2, 1)], li_streams = [((''order'', 9), [0, 1])] \<rparr>,
      global_position := 3 \<rparr>"
  by (simp add: sample_store_def append_eval)

lemma sample_store_inv: "log_inv sample_store"
  unfolding sample_store_def
  by (intro append_inv log_inv_new) (simp add: log_room_def memory_store_new_def)

lemma log_room_sample: "log_room 2 sample_store"
  by (simp add: sample_store_eq log_room_def memory_store_new_def)

section \<open>Divergence paths\<close>

text \<open>On JSON values as \<open>serde_json\<close> builds them, \<open>first_diff_path\<close> finds no path exactly when
  the two values are equal, so a divergent redelivery is never reported without a place and an
  equal one never with a place.\<close>

theorem first_diff_path_None_iff_equal:
  assumes "wf_json a" "wf_json b"
  shows "first_diff_path a b = None \<longleftrightarrow> a = b"
  using walk_None_iff(1) [OF assms, of "[]"] by (auto simp: first_diff_path_def split: option.splits)

theorem first_diff_path_None_iff_equal_witness:
  "let a = JObject [(''outputs'', JArray [JBool True, JString ''x''])];
       b = JObject [(''outputs'', JArray [JBool True, JString ''y''])]
   in wf_json a \<and> wf_json b \<and> first_diff_path a b \<noteq> None \<and> a \<noteq> b \<and>
      first_diff_path a b = Some ''outputs[1]''"
proof -
  let ?a = "JObject [(''outputs'', JArray [JBool True, JString ''x''])]"
  let ?b = "JObject [(''outputs'', JArray [JBool True, JString ''y''])]"
  have wf: "wf_json ?a" "wf_json ?b" by (simp_all add: bt_wf_def)
  have "first_diff_path ?a ?b = Some ''outputs[1]''"
    by (simp add: first_diff_path_def walk.simps walk_obj.simps walk_arr.simps key_seg_def
        idx_seg_def show_nat.simps digit_char_def)
  with first_diff_path_None_iff_equal [OF wf] wf show ?thesis by simp
qed

section \<open>Append\<close>

text \<open>C1: \<open>append_to_stream\<close> is atomic. An error leaves the store as it was; a success either
  finds every event of the batch already persisted with equal content in the same stream and
  changes nothing, or extends the log by the whole batch at consecutive positions and revisions,
  with fresh ids, under a matching expected state, and returns the last row's coordinates.\<close>

theorem append_atomic:
  assumes "log_inv s"
  shows "case append_to_stream c sid ex es s of
           (Inl err, s') \<Rightarrow> s' = s
         | (Inr r, s') \<Rightarrow>
             s' = s \<and> batch_persisted (global_log s) c sid es \<or>
             global_log s' = global_log s @
               placed_rows c sid (global_position s) (stream_count s (c, sid)) es \<and>
             ids_fresh (global_log s) es \<and> distinct (map ed_event_id es) \<and>
             state_matches ex (last_revision (global_log s) (c, sid)) \<and>
             wr_position r = re_position (last (global_log s')) \<and>
             wr_revision r = re_revision (last (global_log s'))"
proof (cases "append_to_stream c sid ex es s")
  case (Pair res s')
  show ?thesis
  proof (cases res)
    case (Inl err)
    then show ?thesis using Pair append_error_unchanged by auto
  next
    case (Inr r)
    have app: "append_to_stream c sid ex es s = (Inr r, s')" using Pair Inr by simp
    show ?thesis
    proof (cases "hget (li_by_event_id (log_idx s)) (ed_event_id (last es))")
      case None
      note new = append_new_rows [OF assms app None]
      have "last (global_log s') = placed_row c sid (global_position s + of_nat (length es - 1))
              (stream_count s (c, sid) + of_nat (length es - 1)) (last es)"
        using new(1,4) by (simp add: last_placed_rows)
      then show ?thesis using new app by simp
    next
      case (Some i)
      then show ?thesis using append_old_rows [OF assms app] app by simp
    qed
  qed
qed

theorem append_atomic_witness:
  "log_inv sample_store \<and>
   (case append_to_stream ''order'' 9 (StreamRevision 1) [sample_event 3 JNull] sample_store of
      (Inl err, s') \<Rightarrow> False
    | (Inr r, s') \<Rightarrow> length (global_log s') = 3 \<and> wr_revision r = re_revision (last (global_log s')))"
proof -
  have *: "\<not> batch_persisted (global_log sample_store) ''order'' 9 [sample_event 3 JNull]"
    by (simp add: sample_store_eq memory_store_new_def batch_persisted_def same_row_def sample_event_def)
  have len: "length (global_log sample_store) = 2"
    by (simp add: sample_store_eq memory_store_new_def)
  have "\<exists>r s'. append_to_stream ''order'' 9 (StreamRevision 1) [sample_event 3 JNull] sample_store = (Inr r, s')"
    by (simp add: sample_store_eq append_eval)
  with append_atomic [OF sample_store_inv, where c = "''order''" and sid = 9
      and ex = "StreamRevision 1" and es = "[sample_event 3 JNull]"]
  show ?thesis using * len sample_store_inv by fastforce
qed

text \<open>C20: redelivery is idempotent. Once a batch has been appended, appending it again, after any further
  append by anyone and under any expected state, answers success and changes nothing; the
  coordinates returned are those of the batch's last row. The log has room for both appends.\<close>

theorem append_redelivery_idempotent:
  assumes "log_inv s" "log_room (length es + n) s" "append_to_stream c sid ex es s = (Inr r, s1)"
    and "snd (append_to_stream c' sid' ex' es' s1) = s2" "length es' \<le> n"
  shows "\<exists>row \<in> set (global_log s2). same_row c sid (last es) row \<and>
           append_to_stream c sid ex'' es s2 =
             (Inr \<lparr> wr_position = re_position row, wr_revision = re_revision row \<rparr>, s2)"
proof -
  have m: "b_append memory_backend = append_to_stream" by (simp add: memory_backend_def)
  have inv1: "log_inv s1" and room1: "log_room n s1"
    using append_inv [of s es c sid ex] log_room_step [OF assms(1,2), of c sid ex] assms(1-3)
    by (simp_all add: log_room_def)
  have inv2: "log_inv s2"
    using append_inv [OF inv1, of es' c' sid' ex'] assms(4,5) room1 by (auto simp: log_room_def)
  have "batch_persisted (global_log s1) c sid es \<and> es \<noteq> [] \<and> distinct (map ed_event_id es)"
    using mem_log.append_persists [OF assms(1), unfolded m, OF assms(3)] .
  moreover obtain new where "global_log s2 = global_log s1 @ new"
    using mem_log.append_grows [OF inv1, unfolded m] assms(4) by blast
  ultimately show ?thesis
    using append_redelivered [OF inv2] mem_log.persisted_mono by blast
qed

theorem append_redelivery_idempotent_witness:
  "\<exists>row \<in> set (global_log sample_store).
     append_to_stream ''order'' 9 NoStream [sample_event 1 JNull, sample_event 2 (JBool True)] sample_store =
       (Inr \<lparr> wr_position = re_position row, wr_revision = re_revision row \<rparr>, sample_store)"
proof -
  let ?es = "[sample_event 1 JNull, sample_event 2 (JBool True)]"
  have room: "log_room (length ?es + 0) memory_store_new"
    by (simp add: log_room_def memory_store_new_def)
  have app: "append_to_stream ''order'' 9 NoStream ?es memory_store_new =
        (Inr \<lparr> wr_position = 2, wr_revision = 1 \<rparr>, sample_store)"
    by (simp add: sample_store_def append_eval)
  have "snd (append_to_stream ''order'' 9 AnyState [] sample_store) = sample_store"
    by (simp add: append_to_stream_def)
  from append_redelivery_idempotent [OF log_inv_new room app this] show ?thesis by auto
qed

text \<open>C9: optimistic concurrency loses no update. When a fresh batch has been accepted under
  \<open>NoStream\<close> or \<open>StreamRevision n\<close>, a second fresh batch sent to the same stream under the same
  expectation is refused with a \<open>ConflictError\<close> naming the revision of the first batch's last row,
  and the store is unchanged.\<close>

theorem append_occ_no_lost_update:
  assumes inv: "log_inv s" and room: "log_room (length es) s"
    and ex: "ex = NoStream \<or> ex = StreamRevision n"
    and app: "append_to_stream c sid ex es s = (Inr r, s')" and new: "ids_fresh (global_log s) es"
    and new': "es' \<noteq> []" "distinct (map ed_event_id es')" "ids_fresh (global_log s') es'"
  shows "append_to_stream c sid ex es' s' = (Inl (ConflictError ex (Some (wr_revision r))), s')"
proof -
  have ne: "es \<noteq> []" using app by (auto simp: append_to_stream_def)
  then have none: "hget (li_by_event_id (log_idx s)) (ed_event_id (last es)) = None"
    using new batch_fresh_ids [OF inv, of es] by (simp add: batch_fresh_def)
  note rows = append_new_rows [OF inv app none]
  have inv': "log_inv s'" by (rule rows(7) [OF room])
  let ?old = "stream_rows (global_log s) (c, sid)" and ?cnt = "stream_count s (c, sid)"
  have "stream_rows (placed_rows c sid (global_position s) ?cnt es) (c, sid) =
        placed_rows c sid (global_position s) ?cnt es"
    by (auto simp: stream_rows_def filter_id_conv dest: placed_rows_key)
  then have str: "stream_rows (global_log s') (c, sid) =
        ?old @ placed_rows c sid (global_position s) ?cnt es"
    using rows(1) by simp
  have tail: "current_tail s' (c, sid) = Some (wr_revision r)"
    using ne rows(6) by (simp add: current_tail_rows [OF inv'] str last_placed_rows)
  have revs: "unat (wr_revision r) = length ?old + length es - 1"
  proof -
    let ?all = "stream_rows (global_log s') (c, sid)"
    have "?all \<noteq> []" using str ne by simp
    then have "unat (re_revision (last ?all)) = length ?all - 1"
      using stream_rows_nth_revision [OF log_inv_dense [OF inv'], of "length ?all - 1" "(c, sid)"]
      by (simp add: last_conv_nth)
    then show ?thesis using ne rows(6) by (simp add: str last_placed_rows)
  qed
  have "\<not> state_matches ex (Some (wr_revision r))"
  proof (cases ex)
    case (StreamRevision m)
    then have "last_revision (global_log s) (c, sid) = Some m"
      using rows(5) by (cases "last_revision (global_log s) (c, sid)") auto
    then have "m = re_revision (last ?old)" "?old \<noteq> []"
      by (auto simp: last_revision_def split: if_splits)
    then have "unat m = length ?old - 1"
      using stream_rows_nth_revision [OF log_inv_dense [OF inv], of "length ?old - 1" "(c, sid)"]
      by (simp add: last_conv_nth)
    then have "m \<noteq> wr_revision r"
      using revs ne \<open>?old \<noteq> []\<close> by (cases "?old"; cases es) auto
    then show ?thesis using StreamRevision by auto
  qed (use ex in auto)
  moreover have "batch_fresh s' es'" using new'(3) batch_fresh_ids [OF inv'] by simp
  moreover have "duplicate_in_batch es' = None" using new'(2) by (simp add: duplicate_in_batch_None)
  ultimately show ?thesis
    using new'(1) tail by (auto simp: append_to_stream_def Let_def batch_fresh_def)
qed

theorem append_occ_no_lost_update_witness:
  "snd (append_to_stream ''order'' 9 (StreamRevision 1) [sample_event 4 JNull]
      (snd (append_to_stream ''order'' 9 (StreamRevision 1) [sample_event 3 JNull] sample_store)))
   = snd (append_to_stream ''order'' 9 (StreamRevision 1) [sample_event 3 JNull] sample_store)"
proof -
  let ?s = "snd (append_to_stream ''order'' 9 (StreamRevision 1) [sample_event 3 JNull] sample_store)"
  have room: "log_room (length [sample_event 3 JNull]) sample_store"
    using log_room_sample by (simp add: log_room_def)
  have app: "append_to_stream ''order'' 9 (StreamRevision 1) [sample_event 3 JNull] sample_store =
      (Inr \<lparr> wr_position = 3, wr_revision = 2 \<rparr>, ?s)"
    by (simp add: sample_store_eq append_eval)
  have fresh: "ids_fresh (global_log sample_store) [sample_event 3 JNull]"
    "ids_fresh (global_log ?s) [sample_event 4 JNull]"
    by (simp_all add: sample_store_eq append_eval ids_fresh_def)
  show ?thesis
    using append_occ_no_lost_update [OF sample_store_inv room _ app fresh(1) _ _ fresh(2), of 1]
    by simp
qed

text \<open>A divergent redelivery is refused without a trace. When an event's id is persisted but the
  row differs in payload, event type, workflow, causation, category or subject, appending the event
  alone answers \<open>DivergentRedelivery\<close> with that id and the canonical row, names a difference that is
  really there, and leaves the store unchanged.\<close>

lemma append_divergent_redelivery:
  assumes "log_inv s" "row \<in> set (global_log s)" "re_event_id row = ed_event_id e"
    and "\<not> same_row c sid e row"
  shows "\<exists>d. append_to_stream c sid ex [e] s =
               (Inl (DivergentRedelivery (ed_event_id e) d (Some row)), s) \<and>
             (case d of
                PayloadAt p \<Rightarrow> re_payload row \<noteq> ed_payload e
              | EventTypeDiff x y \<Rightarrow> x = re_event_type row \<and> y = ed_event_type e \<and> x \<noteq> y
              | WorkflowIdDiff \<Rightarrow> re_workflow_id row \<noteq> ed_workflow_id e
              | CausationIdDiff \<Rightarrow> re_causation_id row \<noteq> ed_causation_id e
              | PlacementCategory x y \<Rightarrow> x = re_category row \<and> y = c \<and> x \<noteq> y
              | PlacementSubject x y \<Rightarrow> x = re_subject_id row \<and> y = sid \<and> x \<noteq> y)"
proof -
  obtain i where i: "hget (li_by_event_id (log_idx s)) (ed_event_id e) = Some i"
    and at: "global_log s ! i = row"
    using id_index_row [OF assms(1), of "ed_event_id e" "\<lambda>x. x = row"] assms(2,3) by auto
  obtain d where d: "row_divergence row e c sid = Some d"
    using assms(3,4) row_divergence_None [of row e c sid] by (auto simp: same_row_def)
  have "append_to_stream c sid ex [e] s =
          (Inl (DivergentRedelivery (ed_event_id e) d (Some row)), s)"
    using i at d by (simp add: append_to_stream_def Let_def)
  then show ?thesis
    using d by (intro exI [of _ d]) (auto simp: row_divergence_def split: if_splits)
qed

lemma append_divergent_redelivery_witness:
  "\<exists>d. append_to_stream ''order'' 9 AnyState [sample_event 1 (JBool False)] sample_store =
     (Inl (DivergentRedelivery 1 d (Some (placed_row ''order'' 9 1 0 (sample_event 1 JNull)))), sample_store)"
proof -
  let ?row = "placed_row ''order'' 9 1 0 (sample_event 1 JNull)"
  have "?row \<in> set (global_log sample_store)"
    by (simp add: sample_store_eq memory_store_new_def)
  from append_divergent_redelivery [OF sample_store_inv this,
      of "sample_event 1 (JBool False)" "''order''" 9 AnyState]
  show ?thesis by (auto simp: sample_event_def same_row_def)
qed

section \<open>Reads\<close>

text \<open>\<open>read_stream\<close> through the offset index is the log filtered to the stream and to the
  revisions after \<open>after\<close>, in log order: the index arithmetic (skip \<open>after + 1\<close> offsets) reads
  exactly the rows the trait promises. The excluded \<open>after\<close> is \<open>u64::MAX\<close>, no row's revision.\<close>

lemma read_stream_refines_filter:
  assumes "log_inv s" "after \<noteq> Some (- 1)"
  shows "read_stream c sid after s =
           filter (\<lambda>r. re_category r = c \<and> re_subject_id r = sid \<and>
                       (\<forall>m. after = Some m \<longrightarrow> m < re_revision r)) (global_log s)"
  by (subst read_stream_rows [OF assms])
     (auto simp: stream_rows_def intro: filter_cong split: option.splits)

lemma read_stream_refines_filter_witness:
  "read_stream ''order'' 9 (Some 0) sample_store =
     [placed_row ''order'' 9 2 1 (sample_event 2 (JBool True))]"
  using read_stream_refines_filter [OF sample_store_inv, of "Some 0" "''order''" 9]
  by (simp add: sample_store_eq memory_store_new_def)

lemma filter_after_page:
  fixes f :: "'a \<Rightarrow> 'b::linorder"
  assumes "sorted_wrt (\<lambda>x y. f x < f y) xs" "take n xs \<noteq> []"
  shows "filter (\<lambda>e. f (last (take n xs)) < f e) xs = drop n xs"
proof -
  obtain ys z where yz: "take n xs = ys @ [z]" using assms(2) by (metis rev_exhaust)
  then have xs: "xs = ys @ z # drop n xs" by (metis append_take_drop_id append_assoc append_Cons append_Nil)
  have "sorted_wrt (\<lambda>x y. f x < f y) (ys @ z # drop n xs)" using assms(1) xs by simp
  then have low: "\<forall>y \<in> set ys. \<not> f z < f y" and high: "\<forall>y \<in> set (drop n xs). f z < f y"
    by (auto simp: sorted_wrt_append)
  have "filter (\<lambda>e. f z < f e) xs = filter (\<lambda>e. f z < f e) (ys @ z # drop n xs)" using xs by simp
  also have "\<dots> = drop n xs"
    using low high by (auto simp: filter_empty_conv filter_id_conv)
  finally show ?thesis by (simp add: yz)
qed

text \<open>Polling \<open>read_all\<close> page by page misses and repeats nothing: what follows the last event of a
  page is what follows the page.\<close>

lemma read_all_next_page:
  assumes inv: "log_inv s" and ne: "read_all after n s \<noteq> []"
  shows "filter (\<lambda>e. re_position (last (read_all after n s)) < re_position e) (global_log s) =
         drop n (filter (\<lambda>e. after < re_position e) (global_log s))"
proof -
  define xs where "xs = filter (\<lambda>e. after < re_position e) (global_log s)"
  have sorted: "sorted_wrt (\<lambda>x y. re_position x < re_position y) xs"
    unfolding xs_def by (rule sorted_wrt_filter [OF log_inv_positions_sorted [OF inv]])
  have page: "read_all after n s = take n xs" by (simp add: read_all_rows [OF inv] xs_def)
  let ?p = "re_position (last (take n xs))"
  have "set (take n xs) \<subseteq> {e. after < re_position e}"
    using set_take_subset [of n xs] by (auto simp: xs_def)
  moreover have "last (take n xs) \<in> set (take n xs)" using ne by (intro last_in_set) (simp add: page)
  ultimately have "after < ?p" by blast
  then have "filter (\<lambda>e. ?p < re_position e) (global_log s) = filter (\<lambda>e. ?p < re_position e) xs"
    unfolding xs_def filter_filter by (intro filter_cong) auto
  also have "\<dots> = drop n xs" using filter_after_page [OF sorted] ne by (simp add: page)
  finally show ?thesis by (simp add: page xs_def)
qed

lemma read_all_pages_compose:
  assumes "log_inv s" "read_all after n s \<noteq> []"
  shows "read_all after (n + m) s =
         read_all after n s @ read_all (re_position (last (read_all after n s))) m s"
  using read_all_next_page [OF assms] by (simp add: read_all_rows [OF assms(1)] take_add)

text \<open>\<open>append_event\<close> files a bare fact under a non-empty category, always succeeds or reports
  that its id is taken by a different row, and is safe to retry: after a success the retry succeeds
  and changes nothing.\<close>

theorem append_event_safe_to_retry:
  assumes "log_inv s" "log_room 1 s"
  shows "fst (append_event_placement e) \<noteq> [] \<and>
         (case append_event memory_backend e s of
            (Inr r, s') \<Rightarrow> \<exists>r'. append_event memory_backend e s' = (Inr r', s')
          | (Inl err, s') \<Rightarrow> s' = s \<and> (\<exists>d row. row \<in> set (global_log s) \<and>
                              err = DivergentRedelivery (ed_event_id e) d (Some row)))"
  using mem_log.append_event_total [OF assms(1), of e] mem_log.append_event_retry [OF assms, of e]
    append_event_category_nonempty [of e]
  by (auto split: prod.splits sum.splits)

theorem append_event_safe_to_retry_witness:
  "log_inv sample_store \<and> log_room 1 sample_store \<and>
   fst (append_event_placement (sample_event 5 JNull)) \<noteq> []"
proof -
  have "log_room 1 sample_store" using log_room_sample by (simp add: log_room_def)
  then show ?thesis
    using append_event_safe_to_retry [OF sample_store_inv, of "sample_event 5 JNull"] sample_store_inv
    by blast
qed

end
