(* ===== verification/Checkpoints.thy ===== *)
theory Checkpoints
  imports Log_Properties
begin

text \<open>
  The checkpoint, retry-counter, snapshot and observer surfaces of \<open>MemoryStore\<close>
  (\<open>modules/causal/src/memory_store.rs\<close>) and the trait contracts of
  \<open>modules/causal/src/checkpoint_store.rs\<close>. None of these operations touches the event log.

  The locale \<open>checkpoints\<close> is what a runner relies on: \<open>advance\<close> is a maximum, \<open>set\<close> is absolute,
  \<open>clamp_ahead_of\<close> is a minimum with the tip.
\<close>

section \<open>Cursors\<close>

definition cursor_get :: "string \<Rightarrow> memory_store \<Rightarrow> log_cursor option" where
  "cursor_get consumer s = hget (projection_cursors s) consumer"

definition cursor_set :: "string \<Rightarrow> log_cursor \<Rightarrow> memory_store \<Rightarrow> memory_store" where
  "cursor_set consumer pos s =
     s\<lparr> projection_cursors := hput consumer pos (projection_cursors s) \<rparr>"

definition cursor_advance :: "string \<Rightarrow> log_cursor \<Rightarrow> memory_store \<Rightarrow> memory_store" where
  "cursor_advance consumer pos s =
     (case hget (projection_cursors s) consumer of
        Some cur \<Rightarrow>
          if cur < pos
          then s\<lparr> projection_cursors := hput consumer pos (projection_cursors s) \<rparr> else s
      | None \<Rightarrow> s\<lparr> projection_cursors := hput consumer pos (projection_cursors s) \<rparr>)"

definition clamp_ahead_of :: "log_cursor \<Rightarrow> memory_store \<Rightarrow> nat \<times> memory_store" where
  "clamp_ahead_of tip s =
     (length (filter (\<lambda>e. tip < snd e) (projection_cursors s)),
      s\<lparr> projection_cursors :=
           map (\<lambda>e. if tip < snd e then (fst e, tip) else e) (projection_cursors s) \<rparr>)"

definition cursor_consumers :: "memory_store \<Rightarrow> string list" where
  "cursor_consumers s = map fst (projection_cursors s)"

text \<open>The default \<open>advance\<close> of the trait, over any backend's \<open>get\<close> and \<open>set\<close>.\<close>

definition default_advance ::
  "(string \<Rightarrow> 's \<Rightarrow> log_cursor option) \<Rightarrow> (string \<Rightarrow> log_cursor \<Rightarrow> 's \<Rightarrow> 's) \<Rightarrow>
   string \<Rightarrow> log_cursor \<Rightarrow> 's \<Rightarrow> 's" where
  "default_advance get setc consumer pos s =
     (if (case get consumer s of None \<Rightarrow> True | Some c \<Rightarrow> c < pos) then setc consumer pos s else s)"

section \<open>Retry counters\<close>

definition record_reactor_attempt :: "string \<Rightarrow> uuid \<Rightarrow> memory_store \<Rightarrow> u32 \<times> memory_store" where
  "record_reactor_attempt consumer trigger s =
     (let n = (case hget (reactor_attempts s) (consumer, trigger) of Some k \<Rightarrow> k | None \<Rightarrow> 0) + 1
      in (n, s\<lparr> reactor_attempts := hput (consumer, trigger) n (reactor_attempts s) \<rparr>))"

definition clear_reactor_attempts :: "string \<Rightarrow> uuid \<Rightarrow> memory_store \<Rightarrow> memory_store" where
  "clear_reactor_attempts consumer trigger s =
     s\<lparr> reactor_attempts := hdel (consumer, trigger) (reactor_attempts s) \<rparr>"

section \<open>Snapshots\<close>

definition load_snapshot :: "string \<Rightarrow> uuid \<Rightarrow> memory_store \<Rightarrow> snapshot option" where
  "load_snapshot ty i s = hget (snapshots s) (ty, i)"

definition save_snapshot :: "snapshot \<Rightarrow> memory_store \<Rightarrow> memory_store" where
  "save_snapshot sn s =
     s\<lparr> snapshots := hput (sn_aggregate_type sn, sn_aggregate_id sn) sn (snapshots s) \<rparr>"

definition delete_snapshot :: "string \<Rightarrow> uuid \<Rightarrow> memory_store \<Rightarrow> memory_store" where
  "delete_snapshot ty i s = s\<lparr> snapshots := hdel (ty, i) (snapshots s) \<rparr>"

section \<open>Reactor observer\<close>

text \<open>\<open>DashMap::get_mut\<close> followed by field writes: update an entry that is there.\<close>

definition adjust_execution ::
  "uuid \<times> string \<Rightarrow> (execution \<Rightarrow> execution) \<Rightarrow> memory_store \<Rightarrow> memory_store" where
  "adjust_execution key f s =
     (case hget (reactor_executions s) key of
        Some e \<Rightarrow> s\<lparr> reactor_executions := hput key (f e) (reactor_executions s) \<rparr>
      | None \<Rightarrow> s)"

definition push_logs :: "uuid \<Rightarrow> string \<Rightarrow> log_entry list \<Rightarrow> memory_store \<Rightarrow> memory_store" where
  "push_logs event_id reactor logs s =
     s\<lparr> reactor_log_entries := reactor_log_entries s @ map (\<lambda>l. (event_id, reactor, l)) logs \<rparr>"

definition reactor_started ::
  "uuid \<Rightarrow> string \<Rightarrow> uuid \<Rightarrow> u32 \<Rightarrow> datetime \<Rightarrow> memory_store \<Rightarrow> memory_store" where
  "reactor_started event_id reactor wfl attempt started_at s =
     s\<lparr> reactor_executions := hput (event_id, reactor)
          \<lparr> ex_workflow = wfl, ex_started_at = started_at, ex_completed_at = None,
            ex_status = ''running'', ex_error = None, ex_attempts = attempt \<rparr>
          (reactor_executions s) \<rparr>"

definition reactor_completed ::
  "uuid \<Rightarrow> string \<Rightarrow> uuid \<Rightarrow> u32 \<Rightarrow> datetime \<Rightarrow> datetime \<Rightarrow> log_entry list \<Rightarrow>
   memory_store \<Rightarrow> memory_store" where
  "reactor_completed event_id reactor wfl attempt started_at completed_at logs s =
     (let s1 = adjust_execution (event_id, reactor)
                 (\<lambda>e. e\<lparr> ex_completed_at := Some completed_at, ex_status := ''completed'',
                         ex_attempts := attempt \<rparr>) s;
          s2 = s1\<lparr> reactor_attempt_history := reactor_attempt_history s1 @
                 [\<lparr> ar_event_id = event_id, ar_reactor_id = reactor, ar_workflow = wfl,
                    ar_attempt = attempt, ar_status = ''completed'', ar_error = None,
                    ar_started_at = started_at, ar_completed_at = completed_at \<rparr>] \<rparr>
      in push_logs event_id reactor logs s2)"

definition reactor_failed ::
  "uuid \<Rightarrow> string \<Rightarrow> uuid \<Rightarrow> u32 \<Rightarrow> datetime \<Rightarrow> datetime \<Rightarrow> string \<Rightarrow> log_entry list \<Rightarrow>
   memory_store \<Rightarrow> memory_store" where
  "reactor_failed event_id reactor wfl attempt started_at completed_at error logs s =
     (let s1 = adjust_execution (event_id, reactor)
                 (\<lambda>e. e\<lparr> ex_status := ''retry'', ex_error := Some error, ex_attempts := attempt \<rparr>) s;
          s2 = s1\<lparr> reactor_attempt_history := reactor_attempt_history s1 @
                 [\<lparr> ar_event_id = event_id, ar_reactor_id = reactor, ar_workflow = wfl,
                    ar_attempt = attempt, ar_status = ''retry'', ar_error = Some error,
                    ar_started_at = started_at, ar_completed_at = completed_at \<rparr>] \<rparr>
      in push_logs event_id reactor logs s2)"

definition reactor_terminal_failure ::
  "uuid \<Rightarrow> string \<Rightarrow> u32 \<Rightarrow> string \<Rightarrow> datetime \<Rightarrow> memory_store \<Rightarrow> memory_store" where
  "reactor_terminal_failure event_id reactor attempts error at1 s =
     adjust_execution (event_id, reactor)
       (\<lambda>e. e\<lparr> ex_completed_at := Some at1, ex_status := ''error'', ex_error := Some error,
               ex_attempts := attempts \<rparr>) s"

definition reactor_divergence ::
  "uuid \<Rightarrow> string \<Rightarrow> uuid \<Rightarrow> divergence \<Rightarrow> datetime \<Rightarrow> memory_store \<Rightarrow> memory_store" where
  "reactor_divergence event_id reactor wfl diff now s =
     s\<lparr> reactor_divergences := hput (event_id, reactor) (wfl, diff, now) (reactor_divergences s) \<rparr>"

definition aggregate_folded ::
  "uuid \<Rightarrow> log_cursor \<Rightarrow> uuid \<Rightarrow> string \<Rightarrow> json \<Rightarrow> memory_store \<Rightarrow> memory_store" where
  "aggregate_folded wfl position event_id key state s =
     s\<lparr> aggregate_state_snapshots :=
          aggregate_state_snapshots s @ [(wfl, position, event_id, key, state)] \<rparr>"

definition reactor_description ::
  "uuid \<Rightarrow> log_cursor \<Rightarrow> uuid \<Rightarrow> string \<Rightarrow> json \<Rightarrow> memory_store \<Rightarrow> memory_store" where
  "reactor_description wfl position event_id reactor description s =
     s\<lparr> reactor_description_snapshots :=
          reactor_description_snapshots s @ [(wfl, position, event_id, reactor, description)] \<rparr>"

section \<open>The checkpoint contract\<close>

locale checkpoints =
  fixes get :: "string \<Rightarrow> 's \<Rightarrow> log_cursor option"
    and setc :: "string \<Rightarrow> log_cursor \<Rightarrow> 's \<Rightarrow> 's"
    and advance :: "string \<Rightarrow> log_cursor \<Rightarrow> 's \<Rightarrow> 's"
    and clamp :: "log_cursor \<Rightarrow> 's \<Rightarrow> nat \<times> 's"
  assumes get_set: "get c (setc c' p s) = (if c = c' then Some p else get c s)"
    and get_advance: "get c (advance c' p s) =
          (if c = c' then Some (case get c s of None \<Rightarrow> p | Some q \<Rightarrow> max p q) else get c s)"
    and get_clamp: "get c (snd (clamp tip s)) = map_option (min tip) (get c s)"
begin

definition ckpt_le :: "'s \<Rightarrow> 's \<Rightarrow> bool" where
  "ckpt_le s s' \<longleftrightarrow> (\<forall>c p. get c s = Some p \<longrightarrow> (\<exists>q. get c s' = Some q \<and> p \<le> q))"

lemma ckpt_le_refl: "ckpt_le s s"
  by (auto simp: ckpt_le_def)

lemma ckpt_le_trans: "ckpt_le s s' \<Longrightarrow> ckpt_le s' s'' \<Longrightarrow> ckpt_le s s''"
  unfolding ckpt_le_def by (meson order_trans)

lemma advance_never_regresses: "ckpt_le s (advance c p s)"
  by (auto simp: ckpt_le_def get_advance)

lemma advance_idem: "get c (advance c' p (advance c' p s)) = get c (advance c' p s)"
  by (simp add: get_advance split: option.split)

lemma advance_commute:
  "get c (advance c1 p (advance c2 q s)) = get c (advance c2 q (advance c1 p s))"
  by (auto simp: get_advance max.left_commute max.commute split: option.split)

text \<open>Any sequence of advances, by any workers, leaves each consumer at the largest position.\<close>

lemma advances_max_Some:
  "get c s = Some q \<Longrightarrow>
     get c (fold (\<lambda>(c', p). advance c' p) ops s) =
       Some (fold max (map snd (filter (\<lambda>op. fst op = c) ops)) q)"
  by (induction ops arbitrary: s q) (auto simp: get_advance)

lemma advances_max_None:
  "get c s = None \<Longrightarrow>
     get c (fold (\<lambda>(c', p). advance c' p) ops s) =
       (case map snd (filter (\<lambda>op. fst op = c) ops) of
          [] \<Rightarrow> None | p # ps \<Rightarrow> Some (fold max ps p))"
proof (induction ops arbitrary: s)
  case (Cons op ops)
  obtain c' p where op: "op = (c', p)" by fastforce
  show ?case
  proof (cases "c' = c")
    case True
    then have "get c (advance c p s) = Some p" using Cons.prems by (simp add: get_advance)
    from advances_max_Some [OF this] show ?thesis using True op by simp
  next
    case False
    then have "get c (advance c' p s) = None" using Cons.prems by (simp add: get_advance)
    from Cons.IH [OF this] show ?thesis using False op by simp
  qed
qed simp

lemma advances_max:
  "get c (fold (\<lambda>(c', p). advance c' p) ops s) =
     (let ps = map snd (filter (\<lambda>op. fst op = c) ops)
      in case get c s of
           Some q \<Rightarrow> Some (Max (set (q # ps)))
         | None \<Rightarrow> if ps = [] then None else Some (Max (set ps)))"
proof (cases "get c s")
  case None
  show ?thesis
    unfolding advances_max_None [OF None]
    by (cases "map snd (filter (\<lambda>op. fst op = c) ops)")
      (simp_all only: None Let_def Max.set_eq_fold list.case option.case list.distinct if_False if_True
        simp_thms)
next
  case (Some q)
  then show ?thesis by (simp add: advances_max_Some Max.set_eq_fold del: set_simps)
qed

end

lemma hget_clamp:
  "hget (map (\<lambda>e. if tip < snd e then (fst e, tip) else e) m) c = map_option (min tip) (hget m c)"
  for tip :: "'a::linorder"
  by (induction m) (auto simp: min_def)

interpretation mem_ckpt: checkpoints cursor_get cursor_set cursor_advance clamp_ahead_of
  by unfold_locales
    (auto simp: cursor_get_def cursor_set_def cursor_advance_def clamp_ahead_of_def hget_clamp
      max_def split: option.split)

section \<open>Properties of the checkpoint store\<close>

text \<open>A consumer's cursor after any interleaving of \<open>advance\<close> calls, by any number of workers
  and for any consumers, is the largest of its start and the positions advanced to: a lagging
  worker cannot move it backwards, and the order of the calls does not matter.\<close>

theorem advance_any_order_is_max:
  "cursor_get c (fold (\<lambda>(c', p). cursor_advance c' p) ops s) =
     (let ps = map snd (filter (\<lambda>op. fst op = c) ops)
      in case cursor_get c s of
           Some q \<Rightarrow> Some (Max (set (q # ps)))
         | None \<Rightarrow> if ps = [] then None else Some (Max (set ps)))"
  by (rule mem_ckpt.advances_max)

text \<open>\<open>clamp_ahead_of\<close> heals exactly the cursors beyond the tip: afterwards every cursor is the
  minimum of what it was and the tip, the answer counts the cursors it moved, a second call moves
  none, and the log is untouched.\<close>

theorem clamp_ahead_of_heals:
  "cursor_get c (snd (clamp_ahead_of tip s)) = map_option (min tip) (cursor_get c s) \<and>
   fst (clamp_ahead_of tip s) = length (filter (\<lambda>e. tip < snd e) (projection_cursors s)) \<and>
   fst (clamp_ahead_of tip (snd (clamp_ahead_of tip s))) = 0 \<and>
   cursor_consumers (snd (clamp_ahead_of tip s)) = cursor_consumers s \<and>
   global_log (snd (clamp_ahead_of tip s)) = global_log s"
  using mem_ckpt.get_clamp [of c tip s]
  by (auto simp: clamp_ahead_of_def cursor_consumers_def filter_empty_conv split: if_splits)

text \<open>On a single writer, \<open>MemoryStore\<close>'s atomic \<open>advance\<close> is the default \<open>advance\<close> of the
  trait (get, compare, set).\<close>

theorem advance_refines_default:
  "cursor_advance c p s = default_advance cursor_get cursor_set c p s"
  by (simp add: cursor_advance_def default_advance_def cursor_get_def cursor_set_def
      split: option.split)

section \<open>Every operation of the store\<close>

inductive store_step :: "memory_store \<Rightarrow> memory_store \<Rightarrow> bool" where
  st_append: "log_room (length es) s \<Longrightarrow> store_step s (snd (append_to_stream c sid ex es s))"
| st_set: "store_step s (cursor_set c p s)"
| st_advance: "store_step s (cursor_advance c p s)"
| st_clamp: "store_step s (snd (clamp_ahead_of tip s))"
| st_attempt: "store_step s (snd (record_reactor_attempt c t s))"
| st_clear: "store_step s (clear_reactor_attempts c t s)"
| st_save: "store_step s (save_snapshot sn s)"
| st_delete: "store_step s (delete_snapshot ty i s)"
| st_started: "store_step s (reactor_started ev r wfl n st s)"
| st_completed: "store_step s (reactor_completed ev r wfl n st et logs s)"
| st_failed: "store_step s (reactor_failed ev r wfl n st et err logs s)"
| st_terminal: "store_step s (reactor_terminal_failure ev r n err t s)"
| st_divergence: "store_step s (reactor_divergence ev r wfl d t s)"
| st_folded: "store_step s (aggregate_folded wfl pos ev k j s)"
| st_description: "store_step s (reactor_description wfl pos ev r j s)"

inductive store_reach :: "memory_store \<Rightarrow> bool" where
  reach_new: "store_reach memory_store_new"
| reach_step: "store_reach s \<Longrightarrow> store_step s s' \<Longrightarrow> store_reach s'"

definition same_log :: "memory_store \<Rightarrow> memory_store \<Rightarrow> bool" where
  "same_log s s' \<longleftrightarrow> global_log s' = global_log s \<and> log_idx s' = log_idx s \<and>
                      global_position s' = global_position s"

lemma same_log_refl [simp]: "same_log s s"
  by (simp add: same_log_def)

lemma same_log_trans: "same_log s s' \<Longrightarrow> same_log s' s'' \<Longrightarrow> same_log s s''"
  by (simp add: same_log_def)

lemma cursor_advance_log: "same_log s (cursor_advance c p s)"
  by (simp add: same_log_def cursor_advance_def split: option.split)

lemma aggregate_folded_log: "same_log s (aggregate_folded wfl pos ev k j s)"
  by (simp add: same_log_def aggregate_folded_def)

lemma same_log_inv: "same_log s s' \<Longrightarrow> log_inv s \<Longrightarrow> log_inv s'"
  by (simp add: same_log_def log_inv_def id_index_ok_def stream_index_ok_def stream_offsets_def
      positions_ok_def)

lemma store_step_log:
  assumes "store_step s s'"
  shows "same_log s s' \<or>
         (\<exists>c sid ex es. log_room (length es) s \<and> s' = snd (append_to_stream c sid ex es s))"
  using assms
  by (cases rule: store_step.cases)
     (auto simp: same_log_def cursor_set_def cursor_advance_def clamp_ahead_of_def
        record_reactor_attempt_def clear_reactor_attempts_def save_snapshot_def delete_snapshot_def
        reactor_started_def reactor_completed_def reactor_failed_def reactor_terminal_failure_def
        reactor_divergence_def aggregate_folded_def reactor_description_def adjust_execution_def
        push_logs_def Let_def split: option.split)

lemma store_step_inv: "store_step s s' \<Longrightarrow> log_inv s \<Longrightarrow> log_inv s'"
  using store_step_log same_log_inv append_inv by blast

lemma store_step_grows: "store_step s s' \<Longrightarrow> log_inv s \<Longrightarrow> \<exists>new. global_log s' = global_log s @ new"
  using store_step_log [of s s'] mem_log.append_grows [of s]
  by (fastforce simp: same_log_def memory_backend_def)

text \<open>In every state the store can reach by any sequence of its operations, the log invariant
  holds, event ids are unique, and every further operation only appends to the log.\<close>

lemma store_reachable_append_only:
  assumes "store_reach s"
  shows "log_inv s \<and> distinct (map re_event_id (global_log s)) \<and>
         (\<forall>s'. store_step s s' \<longrightarrow> (\<exists>new. global_log s' = global_log s @ new))"
proof -
  have "log_inv s" using assms by induction (simp_all add: log_inv_new store_step_inv)
  then show ?thesis using log_inv_distinct_ids store_step_grows by blast
qed

lemma store_reachable_append_only_witness:
  "log_inv (cursor_advance ''c'' 5 sample_store) \<and>
   distinct (map re_event_id (global_log (cursor_advance ''c'' 5 sample_store)))"
proof -
  have "store_step memory_store_new sample_store"
    unfolding sample_store_def by (rule st_append) (simp add: log_room_def memory_store_new_def)
  then have "store_reach (cursor_advance ''c'' 5 sample_store)"
    by (meson reach_new reach_step st_advance)
  from store_reachable_append_only [OF this] show ?thesis by blast
qed

end
