(* ===== verification/First_Write.thy ===== *)
theory First_Write
  imports Prelude
begin

text \<open>
  The contract three stores of the program share (\<open>DecisionStore::seal\<close>, \<open>EffectStore::put\<close>,
  \<open>EventIdRegistry::register\<close>): insert if absent and answer the canonical value. The locale
  states it once; the decision store, the effect store and the event-id registry interpret it.
\<close>

definition or_insert :: "'k \<Rightarrow> 'v \<Rightarrow> ('k, 'v) hmap \<Rightarrow> 'v \<times> ('k, 'v) hmap" where
  "or_insert k v m = (case hget m k of Some w \<Rightarrow> (w, m) | None \<Rightarrow> (v, hput k v m))"

locale first_write =
  fixes get :: "'k \<Rightarrow> 's \<Rightarrow> 'v option"
    and put :: "'k \<Rightarrow> 'v \<Rightarrow> 's \<Rightarrow> 'v \<times> 's"
  assumes put_present: "get k s = Some w \<Longrightarrow> put k v s = (w, s)"
    and put_absent: "get k s = None \<Longrightarrow> fst (put k v s) = v \<and> get k (snd (put k v s)) = Some v"
    and put_other: "k \<noteq> k' \<Longrightarrow> get k' (snd (put k v s)) = get k' s"
begin

lemma put_get: "get k (snd (put k v s)) = Some (fst (put k v s))"
  using put_present put_absent by (cases "get k s") auto

lemma put_stable: "get k s = Some w \<Longrightarrow> get k (snd (put k' v s)) = Some w"
  using put_present put_other by (cases "k = k'") auto

lemma puts_stable:
  "get k s = Some w \<Longrightarrow> get k (fold (\<lambda>(k', v) s. snd (put k' v s)) ops s) = Some w"
  by (induction ops arbitrary: s) (auto simp: put_stable)

text \<open>Racing writers agree: every put to a key answers what the first one stored.\<close>

lemma puts_agree:
  "fst (put k v' (fold (\<lambda>(k', v) s. snd (put k' v s)) ops (snd (put k v s)))) = fst (put k v s)"
  using puts_stable [OF put_get] put_present by fastforce

lemma first_put_wins:
  assumes "get k s = None"
  shows "fst (put k v' (fold (\<lambda>(k', v) s. snd (put k' v s)) ops (snd (put k v s)))) = v"
  using puts_agree put_absent [OF assms] by simp

end

interpretation alist_first: first_write "\<lambda>k m. hget m k" or_insert
  by unfold_locales (auto simp: or_insert_def split: option.splits)

end
