(* ===== verification/Decision_Store.thy ===== *)
theory Decision_Store
  imports Checkpoints First_Write
begin

text \<open>
  The sealed decisions of \<open>modules/causal/src/decision_store.rs\<close>: \<open>DecisionRecord\<close> and its
  durable JSON conversion (\<open>OutputEnvelope\<close>, \<open>outputs_to_json\<close>, \<open>outputs_from_json\<close>,
  \<open>sanitize_nul\<close>), and \<open>InMemoryDecisionStore\<close> (\<open>seal\<close>, \<open>get\<close>, \<open>remove\<close>,
  \<open>remove_reclaimable\<close>, \<open>list_consumers\<close>).

  How a UUID and a timestamp are written as strings is the \<open>uuid\<close> and \<open>chrono\<close> crates' doing: the
  \<open>codec\<close> record is a parameter. \<open>codec_ok\<close> states what is relied on: parsing inverts printing,
  and the texts have no NUL byte. \<open>None\<close> is a \<open>serde_json\<close> error. Of the forms serde accepts for
  a struct only the object form is modelled, the one \<open>outputs_to_json\<close> writes.
\<close>

section \<open>Records\<close>

record decision_record =
  dr_consumer :: string
  dr_trigger :: uuid
  dr_trigger_position :: log_cursor
  dr_outputs :: "event_data list"
  dr_parked :: bool
  dr_sealed_at :: datetime

definition decision_new ::
  "string \<Rightarrow> uuid \<Rightarrow> log_cursor \<Rightarrow> event_data list \<Rightarrow> datetime \<Rightarrow> decision_record" where
  "decision_new consumer trigger position outputs sealed_at =
     \<lparr> dr_consumer = consumer, dr_trigger = trigger, dr_trigger_position = position,
       dr_outputs = outputs, dr_parked = False, dr_sealed_at = sealed_at \<rparr>"

definition with_parked :: "bool \<Rightarrow> decision_record \<Rightarrow> decision_record" where
  "with_parked p r = r\<lparr> dr_parked := p \<rparr>"

record output_envelope =
  oe_event_id :: uuid
  oe_causation_id :: "uuid option"
  oe_workflow_id :: uuid
  oe_event_type :: string
  oe_payload :: json
  oe_created_at :: datetime
  oe_category :: "string option"
  oe_subject_id :: "uuid option"
  oe_metadata :: jmap

definition envelope_from_event :: "event_data \<Rightarrow> output_envelope" where
  "envelope_from_event e =
     \<lparr> oe_event_id = ed_event_id e, oe_causation_id = ed_causation_id e,
       oe_workflow_id = ed_workflow_id e, oe_event_type = ed_event_type e,
       oe_payload = ed_payload e, oe_created_at = ed_created_at e, oe_category = ed_category e,
       oe_subject_id = ed_subject_id e, oe_metadata = ed_metadata e \<rparr>"

definition envelope_into_event :: "output_envelope \<Rightarrow> event_data" where
  "envelope_into_event v =
     \<lparr> ed_event_id = oe_event_id v, ed_causation_id = oe_causation_id v,
       ed_workflow_id = oe_workflow_id v, ed_event_type = oe_event_type v,
       ed_payload = oe_payload v, ed_created_at = oe_created_at v, ed_category = oe_category v,
       ed_subject_id = oe_subject_id v, ed_metadata = oe_metadata v,
       ed_ephemeral = None, ed_persistent = True \<rparr>"

section \<open>The durable JSON form\<close>

record codec =
  cd_uuid :: "uuid \<Rightarrow> string"
  cd_parse_uuid :: "string \<Rightarrow> uuid option"
  cd_time :: "datetime \<Rightarrow> string"
  cd_parse_time :: "string \<Rightarrow> datetime option"

definition codec_ok :: "codec \<Rightarrow> bool" where
  "codec_ok cd \<longleftrightarrow>
     (\<forall>u. cd_parse_uuid cd (cd_uuid cd u) = Some u \<and> CHR 0x00 \<notin> set (cd_uuid cd u)) \<and>
     (\<forall>t. cd_parse_time cd (cd_time cd t) = Some t \<and> CHR 0x00 \<notin> set (cd_time cd t))"

definition opt_field :: "string \<Rightarrow> json option \<Rightarrow> jmap" where
  "opt_field k v = (case v of None \<Rightarrow> [] | Some j \<Rightarrow> [(k, j)])"

definition envelope_to_json :: "codec \<Rightarrow> output_envelope \<Rightarrow> json" where
  "envelope_to_json cd v = JObject
     (opt_field ''category'' (map_option JString (oe_category v)) @
      opt_field ''causation_id'' (map_option (JString \<circ> cd_uuid cd) (oe_causation_id v)) @
      [(''created_at'', JString (cd_time cd (oe_created_at v))),
       (''event_id'', JString (cd_uuid cd (oe_event_id v))),
       (''event_type'', JString (oe_event_type v))] @
      opt_field ''metadata'' (if oe_metadata v = [] then None else Some (JObject (oe_metadata v))) @
      [(''payload'', oe_payload v)] @
      opt_field ''subject_id'' (map_option (JString \<circ> cd_uuid cd) (oe_subject_id v)) @
      [(''workflow_id'', JString (cd_uuid cd (oe_workflow_id v)))])"

definition outputs_to_json :: "codec \<Rightarrow> event_data list \<Rightarrow> json" where
  "outputs_to_json cd outputs =
     sanitize_nul (JArray (map (envelope_to_json cd \<circ> envelope_from_event) outputs))"

text \<open>Fields of a struct read back: a required string, an optional one, each with its parser.\<close>

definition req_field :: "(string \<Rightarrow> 'a option) \<Rightarrow> string \<Rightarrow> jmap \<Rightarrow> 'a option" where
  "req_field parse k m = (case hget m k of Some (JString s) \<Rightarrow> parse s | _ \<Rightarrow> None)"

definition opt_string_field :: "(string \<Rightarrow> 'a option) \<Rightarrow> string \<Rightarrow> jmap \<Rightarrow> 'a option option" where
  "opt_string_field parse k m =
     (case hget m k of
        None \<Rightarrow> Some None
      | Some JNull \<Rightarrow> Some None
      | Some (JString s) \<Rightarrow> map_option Some (parse s)
      | Some _ \<Rightarrow> None)"

definition metadata_field :: "jmap \<Rightarrow> jmap option" where
  "metadata_field m =
     (case hget m ''metadata'' of None \<Rightarrow> Some [] | Some (JObject o') \<Rightarrow> Some o' | Some _ \<Rightarrow> None)"

definition envelope_of_fields :: "codec \<Rightarrow> jmap \<Rightarrow> output_envelope option" where
  "envelope_of_fields cd m =
     (case (req_field (cd_parse_uuid cd) ''event_id'' m,
            opt_string_field (cd_parse_uuid cd) ''causation_id'' m,
            req_field (cd_parse_uuid cd) ''workflow_id'' m,
            req_field Some ''event_type'' m,
            hget m ''payload'') of
        (Some i, Some ca, Some w, Some ty, Some p) \<Rightarrow>
          (case (req_field (cd_parse_time cd) ''created_at'' m,
                 opt_string_field Some ''category'' m,
                 opt_string_field (cd_parse_uuid cd) ''subject_id'' m,
                 metadata_field m) of
             (Some t, Some c, Some sid, Some md) \<Rightarrow>
               Some \<lparr> oe_event_id = i, oe_causation_id = ca, oe_workflow_id = w,
                      oe_event_type = ty, oe_payload = p, oe_created_at = t, oe_category = c,
                      oe_subject_id = sid, oe_metadata = md \<rparr>
           | _ \<Rightarrow> None)
      | _ \<Rightarrow> None)"

definition envelope_of_json :: "codec \<Rightarrow> json \<Rightarrow> output_envelope option" where
  "envelope_of_json cd j = (case j of JObject m \<Rightarrow> envelope_of_fields cd m | _ \<Rightarrow> None)"

fun all_some :: "'a option list \<Rightarrow> 'a list option" where
  "all_some [] = Some []"
| "all_some (None # xs) = None"
| "all_some (Some x # xs) = map_option (\<lambda>ys. x # ys) (all_some xs)"

definition outputs_from_json :: "codec \<Rightarrow> json \<Rightarrow> event_data list option" where
  "outputs_from_json cd j =
     (case j of
        JArray xs \<Rightarrow> map_option (map envelope_into_event) (all_some (map (envelope_of_json cd) xs))
      | _ \<Rightarrow> None)"

text \<open>What the durable form keeps of an event.\<close>

definition durable_event :: "event_data \<Rightarrow> event_data" where
  "durable_event e =
     e\<lparr> ed_event_type := strip_nul (ed_event_type e), ed_payload := sanitize_nul (ed_payload e),
        ed_category := map_option strip_nul (ed_category e),
        ed_metadata := map (\<lambda>p. (fst p, sanitize_nul (snd p))) (ed_metadata e),
        ed_ephemeral := None, ed_persistent := True \<rparr>"

section \<open>The in-memory store\<close>

record stored_decision =
  sd_outputs_json :: json
  sd_sealed_at :: datetime
  sd_trigger_position :: log_cursor
  sd_parked :: bool

type_synonym decision_store = "(string \<times> uuid, stored_decision) hmap"

definition load_decision ::
  "codec \<Rightarrow> string \<Rightarrow> uuid \<Rightarrow> stored_decision \<Rightarrow> decision_record option" where
  "load_decision cd consumer trigger sd =
     (case outputs_from_json cd (sd_outputs_json sd) of
        None \<Rightarrow> None
      | Some outputs \<Rightarrow>
          Some \<lparr> dr_consumer = consumer, dr_trigger = trigger,
                 dr_trigger_position = sd_trigger_position sd, dr_outputs = outputs,
                 dr_parked = sd_parked sd, dr_sealed_at = sd_sealed_at sd \<rparr>)"

definition stored_of :: "codec \<Rightarrow> decision_record \<Rightarrow> stored_decision" where
  "stored_of cd rec =
     \<lparr> sd_outputs_json = outputs_to_json cd (dr_outputs rec), sd_sealed_at = dr_sealed_at rec,
       sd_trigger_position = dr_trigger_position rec, sd_parked = dr_parked rec \<rparr>"

definition seal ::
  "codec \<Rightarrow> decision_record \<Rightarrow> decision_store \<Rightarrow> decision_record option \<times> decision_store" where
  "seal cd rec m =
     (case or_insert (dr_consumer rec, dr_trigger rec) (stored_of cd rec) m of
        (canonical, m') \<Rightarrow> (load_decision cd (dr_consumer rec) (dr_trigger rec) canonical, m'))"

definition get_decision ::
  "codec \<Rightarrow> string \<Rightarrow> uuid \<Rightarrow> decision_store \<Rightarrow> decision_record option option" where
  "get_decision cd consumer trigger m =
     (case hget m (consumer, trigger) of
        Some sd \<Rightarrow> map_option Some (load_decision cd consumer trigger sd)
      | None \<Rightarrow> Some None)"

definition remove_decision :: "string \<Rightarrow> uuid \<Rightarrow> decision_store \<Rightarrow> decision_store" where
  "remove_decision consumer trigger m = hdel (consumer, trigger) m"

definition reclaimable :: "string \<Rightarrow> datetime \<Rightarrow> log_cursor \<Rightarrow> (string \<times> uuid) \<times> stored_decision \<Rightarrow> bool" where
  "reclaimable consumer aged_before fl p \<longleftrightarrow>
     fst (fst p) = consumer \<and> sd_sealed_at (snd p) < aged_before \<and>
     sd_trigger_position (snd p) \<le> fl \<and> \<not> sd_parked (snd p)"

definition remove_reclaimable ::
  "string \<Rightarrow> datetime \<Rightarrow> log_cursor \<Rightarrow> decision_store \<Rightarrow> nat \<times> decision_store" where
  "remove_reclaimable consumer aged_before fl m =
     (let m' = filter (\<lambda>p. \<not> reclaimable consumer aged_before fl p) m
      in (length m - length m', m'))"

definition decision_consumers :: "decision_store \<Rightarrow> string list" where
  "decision_consumers m = remdups (map (fst \<circ> fst) m)"

section \<open>The durable round trip\<close>

lemma strip_nul_id [simp]: "CHR 0x00 \<notin> set x \<Longrightarrow> strip_nul x = x"
  by (auto simp: strip_nul_def filter_id_conv)

lemma strip_nul_idem [simp]: "strip_nul (strip_nul x) = strip_nul x"
  by (simp add: strip_nul_def)

lemma sanitize_nul_idem [simp]: "sanitize_nul (sanitize_nul v) = sanitize_nul v"
  by (simp add: sanitize_nul_free_id nul_free_values_sanitize)

abbreviation sanitize_fields :: "jmap \<Rightarrow> jmap" where
  "sanitize_fields m \<equiv> map (\<lambda>p. (fst p, sanitize_nul (snd p))) m"

lemma hget_sanitize_fields: "hget (sanitize_fields m) k = map_option sanitize_nul (hget m k)"
  by (induction m) auto

lemma hget_append: "hget (xs @ ys) k = (case hget xs k of Some v \<Rightarrow> Some v | None \<Rightarrow> hget ys k)"
  by (simp add: map_add_def)

lemma hget_opt_field [simp]: "hget (opt_field k v) k' = (if k = k' then v else None)"
  by (simp add: opt_field_def split: option.split)

definition envelope_fields :: "codec \<Rightarrow> output_envelope \<Rightarrow> jmap" where
  "envelope_fields cd v = (case envelope_to_json cd v of JObject m \<Rightarrow> m | _ \<Rightarrow> [])"

lemma envelope_to_json_fields: "envelope_to_json cd v = JObject (envelope_fields cd v)"
  by (simp add: envelope_fields_def envelope_to_json_def)

lemma envelope_fields_get:
  "hget (envelope_fields cd v) ''category'' = map_option JString (oe_category v)"
  "hget (envelope_fields cd v) ''causation_id'' = map_option (JString \<circ> cd_uuid cd) (oe_causation_id v)"
  "hget (envelope_fields cd v) ''created_at'' = Some (JString (cd_time cd (oe_created_at v)))"
  "hget (envelope_fields cd v) ''event_id'' = Some (JString (cd_uuid cd (oe_event_id v)))"
  "hget (envelope_fields cd v) ''event_type'' = Some (JString (oe_event_type v))"
  "hget (envelope_fields cd v) ''metadata'' =
     (if oe_metadata v = [] then None else Some (JObject (oe_metadata v)))"
  "hget (envelope_fields cd v) ''payload'' = Some (oe_payload v)"
  "hget (envelope_fields cd v) ''subject_id'' = map_option (JString \<circ> cd_uuid cd) (oe_subject_id v)"
  "hget (envelope_fields cd v) ''workflow_id'' = Some (JString (cd_uuid cd (oe_workflow_id v)))"
  by (simp_all add: envelope_fields_def envelope_to_json_def hget_append option.case_eq_if
      del: map_of_append)

lemma envelope_round_trip:
  assumes "codec_ok cd"
  shows "envelope_of_json cd (sanitize_nul (envelope_to_json cd (envelope_from_event e))) =
           Some (envelope_from_event (durable_event e))"
proof -
  have cd: "\<And>u. cd_parse_uuid cd (cd_uuid cd u) = Some u" "\<And>u. CHR 0x00 \<notin> set (cd_uuid cd u)"
    "\<And>t. cd_parse_time cd (cd_time cd t) = Some t" "\<And>t. CHR 0x00 \<notin> set (cd_time cd t)"
    using assms by (simp_all add: codec_ok_def)
  let ?m = "sanitize_fields (envelope_fields cd (envelope_from_event e))"
  have req: "req_field (cd_parse_uuid cd) ''event_id'' ?m = Some (ed_event_id e)"
    "req_field (cd_parse_uuid cd) ''workflow_id'' ?m = Some (ed_workflow_id e)"
    "req_field Some ''event_type'' ?m = Some (strip_nul (ed_event_type e))"
    "req_field (cd_parse_time cd) ''created_at'' ?m = Some (ed_created_at e)"
    "hget ?m ''payload'' = Some (sanitize_nul (ed_payload e))"
    by (simp_all add: req_field_def hget_sanitize_fields envelope_fields_get envelope_from_event_def cd)
  have opt: "opt_string_field (cd_parse_uuid cd) ''causation_id'' ?m = Some (ed_causation_id e)"
    "opt_string_field (cd_parse_uuid cd) ''subject_id'' ?m = Some (ed_subject_id e)"
    "opt_string_field Some ''category'' ?m = Some (map_option strip_nul (ed_category e))"
    by (simp_all add: opt_string_field_def hget_sanitize_fields envelope_fields_get
        envelope_from_event_def cd option.map_comp comp_def split: option.split)
  have md: "metadata_field ?m = Some (sanitize_fields (ed_metadata e))"
    by (simp add: metadata_field_def hget_sanitize_fields envelope_fields_get envelope_from_event_def)
  have "envelope_of_fields cd ?m = Some
      \<lparr> oe_event_id = ed_event_id e, oe_causation_id = ed_causation_id e,
        oe_workflow_id = ed_workflow_id e, oe_event_type = strip_nul (ed_event_type e),
        oe_payload = sanitize_nul (ed_payload e), oe_created_at = ed_created_at e,
        oe_category = map_option strip_nul (ed_category e), oe_subject_id = ed_subject_id e,
        oe_metadata = sanitize_fields (ed_metadata e) \<rparr>"
    unfolding envelope_of_fields_def req opt md by simp
  then have "envelope_of_json cd (JObject ?m) = Some (envelope_from_event (durable_event e))"
    by (simp add: envelope_of_json_def envelope_from_event_def durable_event_def)
  then show ?thesis by (simp add: envelope_to_json_fields)
qed

lemma envelope_into_from: "envelope_into_event (envelope_from_event (durable_event e)) = durable_event e"
  by (simp add: envelope_into_event_def envelope_from_event_def durable_event_def)

lemma all_some_map: "(\<And>x. f x = Some (g x)) \<Longrightarrow> all_some (map f xs) = Some (map g xs)"
  by (induction xs) auto

lemma outputs_round_trip:
  assumes "codec_ok cd"
  shows "outputs_from_json cd (outputs_to_json cd es) = Some (map durable_event es)"
proof -
  have "all_some (map (\<lambda>e. envelope_of_json cd
          (sanitize_nul (envelope_to_json cd (envelope_from_event e)))) es) =
        Some (map (\<lambda>e. envelope_from_event (durable_event e)) es)"
    by (rule all_some_map) (rule envelope_round_trip [OF assms])
  then show ?thesis
    by (simp add: outputs_to_json_def outputs_from_json_def comp_def envelope_into_from)
qed

lemma durable_event_idem [simp]: "durable_event (durable_event e) = durable_event e"
  by (simp add: durable_event_def option.map_comp comp_def)

lemma durable_event_id [simp]: "ed_event_id (durable_event e) = ed_event_id e"
  by (simp add: durable_event_def)

section \<open>The canonical record\<close>

definition durable_record :: "decision_record \<Rightarrow> decision_record" where
  "durable_record r = r\<lparr> dr_outputs := map durable_event (dr_outputs r) \<rparr>"

lemma load_stored:
  "codec_ok cd \<Longrightarrow>
     load_decision cd (dr_consumer r) (dr_trigger r) (stored_of cd r) = Some (durable_record r)"
  by (simp add: load_decision_def stored_of_def outputs_round_trip durable_record_def)

lemma seal_absent:
  assumes "codec_ok cd" "hget m (dr_consumer r, dr_trigger r) = None"
  shows "fst (seal cd r m) = Some (durable_record r)"
  using load_stored [OF assms(1), of r] assms(2) by (simp add: seal_def or_insert_def)

lemma seal_present:
  assumes "hget m (dr_consumer r, dr_trigger r) = Some sd"
  shows "seal cd r m = (load_decision cd (dr_consumer r) (dr_trigger r) sd, m)"
  using assms by (simp add: seal_def or_insert_def)

lemma seal_store: "snd (seal cd r m) = snd (or_insert (dr_consumer r, dr_trigger r) (stored_of cd r) m)"
  by (simp add: seal_def split: prod.split)

lemma get_after_seal:
  "get_decision cd (dr_consumer r) (dr_trigger r) (snd (seal cd r m)) =
     map_option Some (fst (seal cd r m))"
  by (simp add: get_decision_def seal_def or_insert_def split: option.split prod.split)

lemma hget_filter_key:
  "distinct (map fst m) \<Longrightarrow>
     hget (filter P m) k = (case hget m k of None \<Rightarrow> None | Some v \<Rightarrow> if P (k, v) then Some v else None)"
  by (induction m) (auto simp: map_of_eq_None_iff rev_image_eqI split: option.split)

section \<open>Properties\<close>

definition sample_codec :: codec where
  "sample_codec =
     \<lparr> cd_uuid = (\<lambda>u. replicate (unat u) CHR ''a''), cd_parse_uuid = (\<lambda>s. Some (of_nat (length s))),
       cd_time = (\<lambda>t. replicate (nat (2 * \<bar>t\<bar> + (if t < 0 then 1 else 0))) CHR ''a''),
       cd_parse_time = (\<lambda>s. Some ((if odd (length s) then - 1 else 1) * (int (length s) div 2))) \<rparr>"

lemma sample_codec_ok: "codec_ok sample_codec"
proof -
  have "(if odd (nat (2 * \<bar>t\<bar> + (if t < 0 then 1 else 0))) then - 1 else 1) *
        (int (nat (2 * \<bar>t\<bar> + (if t < 0 then 1 else 0))) div 2) = t" for t :: int
    by (simp add: even_nat_iff)
  then show ?thesis by (simp add: codec_ok_def sample_codec_def)
qed

text \<open>C26: a record's outputs survive the durable JSON form. Parsing what \<open>outputs_to_json\<close> wrote
  gives every event back, with its NUL bytes stripped, its in-process handle dropped and
  \<open>persistent\<close> set; doing it twice gives nothing further, so a replayed batch is the appended one.\<close>

theorem outputs_json_round_trip:
  assumes "codec_ok cd"
  shows "outputs_from_json cd (outputs_to_json cd es) = Some (map durable_event es) \<and>
         outputs_from_json cd (outputs_to_json cd (map durable_event es)) = Some (map durable_event es)"
  by (simp_all add: outputs_round_trip [OF assms] comp_def)

theorem outputs_json_round_trip_witness:
  "outputs_from_json sample_codec (outputs_to_json sample_codec [sample_event 3 (JString ''x'')]) =
     Some [sample_event 3 (JString ''x'')]"
  by (subst outputs_json_round_trip [OF sample_codec_ok, THEN conjunct1])
     (simp add: durable_event_def sample_event_def strip_nul_def)

text \<open>Exactly one decision per consumer and trigger. Whatever seals follow, for this key or any
  other, every later \<open>seal\<close> and \<open>get\<close> for the key answer the record the first seal made canonical,
  so racing executions append the same outputs.\<close>

lemma seal_first_write_wins:
  assumes "codec_ok cd" "get_decision cd (dr_consumer r) (dr_trigger r) m = Some None"
    and "dr_consumer r' = dr_consumer r" "dr_trigger r' = dr_trigger r"
  shows "let m' = fold (\<lambda>x n. snd (seal cd x n)) others (snd (seal cd r m))
         in fst (seal cd r m) = Some (durable_record r) \<and>
            fst (seal cd r' m') = Some (durable_record r) \<and> snd (seal cd r' m') = m' \<and>
            get_decision cd (dr_consumer r) (dr_trigger r) m' = Some (Some (durable_record r))"
proof -
  let ?k = "(dr_consumer r, dr_trigger r)"
  have none: "hget m ?k = None"
    using assms(2) by (auto simp: get_decision_def split: option.splits)
  have kept: "hget (fold (\<lambda>x n. snd (seal cd x n)) xs n) ?k = Some sd"
    if "hget n ?k = Some sd" for xs n sd
    using that by (induction xs arbitrary: n) (auto simp: seal_store alist_first.put_stable)
  have "hget (snd (seal cd r m)) ?k = Some (stored_of cd r)"
    using alist_first.put_absent [OF none] by (simp add: seal_store)
  from kept [OF this] show ?thesis
    using seal_absent [OF assms(1) none] load_stored [OF assms(1), of r] assms(3,4)
    by (simp add: seal_present Let_def get_decision_def)
qed

lemma seal_first_write_wins_witness:
  "let r = decision_new ''reactor'' 1 1 [sample_event 3 JNull] 0;
       r' = decision_new ''reactor'' 1 1 [sample_event 4 JNull] 5
   in fst (seal sample_codec r' (snd (seal sample_codec r []))) = Some (durable_record r)"
  using seal_first_write_wins [OF sample_codec_ok, of "decision_new ''reactor'' 1 1 [sample_event 3 JNull] 0"
      "[]" "decision_new ''reactor'' 1 1 [sample_event 4 JNull] 5" "[]"]
  by (simp add: decision_new_def get_decision_def Let_def)

text \<open>Retention removes exactly the reclaimable records: a lookup after \<open>remove_reclaimable\<close>
  misses only when the record was this consumer's, sealed before the cutoff, at or below the
  ack-floor and not parked; every other record, and every parked one, is still found.\<close>

lemma remove_reclaimable_exact:
  assumes "distinct (map fst m)"
  shows "hget (snd (remove_reclaimable consumer aged fl m)) (c, t) =
           (case hget m (c, t) of
              None \<Rightarrow> None
            | Some sd \<Rightarrow> if c = consumer \<and> sd_sealed_at sd < aged \<and> sd_trigger_position sd \<le> fl \<and>
                            \<not> sd_parked sd then None else Some sd) \<and>
         fst (remove_reclaimable consumer aged fl m) = length (filter (reclaimable consumer aged fl) m)"
proof
  show "hget (snd (remove_reclaimable consumer aged fl m)) (c, t) =
           (case hget m (c, t) of
              None \<Rightarrow> None
            | Some sd \<Rightarrow> if c = consumer \<and> sd_sealed_at sd < aged \<and> sd_trigger_position sd \<le> fl \<and>
                            \<not> sd_parked sd then None else Some sd)"
    by (simp add: remove_reclaimable_def Let_def hget_filter_key [OF assms] reclaimable_def
        split: option.split)
  show "fst (remove_reclaimable consumer aged fl m) = length (filter (reclaimable consumer aged fl) m)"
    using sum_length_filter_compl [of "reclaimable consumer aged fl" m]
    by (simp add: remove_reclaimable_def Let_def)
qed

text \<open>\<open>sanitize_nul\<close> strips the string values of a JSON value and leaves its object keys as they
  are: no string value of the result has a NUL byte, a value that has none is unchanged, but a key
  with a NUL byte keeps it.\<close>

theorem sanitize_nul_values_not_keys:
  "nul_free_values (sanitize_nul v) \<and> sanitize_nul (sanitize_nul v) = sanitize_nul v \<and>
   \<not> nul_free_keys (sanitize_nul (JObject [(CHR 0x00 # k, v)]))"
  by (simp add: nul_free_values_sanitize)

end
