(* ===== verification/Output_Ids.thy ===== *)
theory Output_Ids
  imports Event_Types
begin

text \<open>
  The identity of a reactor's outputs (\<open>modules/causal/src/reactor_runner.rs\<close>): the byte string
  \<open>derive_output_event_id\<close> hashes, the metadata stamped on an output, and the projection of a log
  row back into an event. UUID v5 is the \<open>uuid\<close> crate's: the function \<open>v5\<close> is a parameter, from
  the namespace and the key to the id.
\<close>

section \<open>Bytes\<close>

fun le_bytes :: "nat \<Rightarrow> nat \<Rightarrow> string" where
  "le_bytes 0 n = []"
| "le_bytes (Suc k) n = char_of (n mod 256) # le_bytes k (n div 256)"

definition uuid_bytes :: "uuid \<Rightarrow> string" where
  "uuid_bytes u = rev (le_bytes 16 (unat u))"

definition u32_le_bytes :: "u32 \<Rightarrow> string" where
  "u32_le_bytes n = le_bytes 4 (unat n)"

lemma length_le_bytes [simp]: "length (le_bytes k n) = k"
  by (induction k arbitrary: n) auto

lemma le_bytes_inj: "n < 256 ^ k \<Longrightarrow> m < 256 ^ k \<Longrightarrow> le_bytes k n = le_bytes k m \<Longrightarrow> n = m"
proof (induction k arbitrary: n m)
  case (Suc k)
  have "n mod 256 = m mod 256"
    using Suc.prems(3) by (metis le_bytes.simps(2) list.inject mod_mod_trivial of_char_of)
  moreover have "n div 256 = m div 256"
    using Suc by (intro Suc.IH) (auto simp: less_mult_imp_div_less mult.commute)
  ultimately show ?case by (metis div_mult_mod_eq)
qed simp

lemma uuid_bytes_inj: "uuid_bytes u = uuid_bytes w \<longleftrightarrow> u = w"
proof
  assume "uuid_bytes u = uuid_bytes w"
  then have "le_bytes 16 (unat u) = le_bytes 16 (unat w)" by (simp add: uuid_bytes_def)
  moreover have "unat u < 256 ^ 16" "unat w < 256 ^ 16"
    using unsigned_less [of u] unsigned_less [of w] by simp_all
  ultimately show "u = w" using le_bytes_inj [of "unat u" 16 "unat w"] by (simp add: word_unat_eq_iff)
qed simp

lemma u32_le_bytes_inj: "u32_le_bytes u = u32_le_bytes w \<longleftrightarrow> u = w"
proof
  assume "u32_le_bytes u = u32_le_bytes w"
  moreover have "unat u < 256 ^ 4" "unat w < 256 ^ 4"
    using unsigned_less [of u] unsigned_less [of w] by simp_all
  ultimately show "u = w"
    using le_bytes_inj [of "unat u" 4 "unat w"] by (simp add: word_unat_eq_iff u32_le_bytes_def)
qed simp

lemma length_uuid_bytes [simp]: "length (uuid_bytes u) = 16"
  by (simp add: uuid_bytes_def)

lemma length_u32_le_bytes [simp]: "length (u32_le_bytes n) = 4"
  by (simp add: u32_le_bytes_def)

lemma uuid_bytes_0: "uuid_bytes 0 =
    [CHR 0x00, CHR 0x00, CHR 0x00, CHR 0x00, CHR 0x00, CHR 0x00, CHR 0x00, CHR 0x00,
     CHR 0x00, CHR 0x00, CHR 0x00, CHR 0x00, CHR 0x00, CHR 0x00, CHR 0x00, CHR 0x00]"
  by code_simp

section \<open>Output ids\<close>

definition output_id_key :: "string \<Rightarrow> uuid \<Rightarrow> string \<Rightarrow> uuid \<Rightarrow> u32 \<Rightarrow> string" where
  "output_id_key consumer trigger kind subject ordinal =
     consumer @ [CHR 0x00] @ uuid_bytes trigger @ [CHR 0x00] @ kind @ [CHR 0x00] @
     uuid_bytes subject @ [CHR 0x00] @ u32_le_bytes ordinal"

definition ns_reactor_output :: uuid where
  "ns_reactor_output = 0x4dfec4f26e884f3aa9b17c5eb339210a"

definition derive_output_event_id ::
  "(uuid \<Rightarrow> string \<Rightarrow> uuid) \<Rightarrow> string \<Rightarrow> uuid \<Rightarrow> string \<Rightarrow> uuid \<Rightarrow> u32 \<Rightarrow> uuid" where
  "derive_output_event_id v5 consumer trigger kind subject ordinal =
     v5 ns_reactor_output (output_id_key consumer trigger kind subject ordinal)"

definition reaction_failed_kind :: string where
  "reaction_failed_kind = ''causal:reaction_failed''"

definition causation_depth_key :: string where
  "causation_depth_key = ''causal:causation_depth''"

definition reactor_output_metadata :: "string \<Rightarrow> u64 \<Rightarrow> jmap" where
  "reactor_output_metadata reactor_id depth =
     bt_insert causation_depth_key (JNumber (JPosInt depth))
       (bt_insert ''reactor_id'' (JString reactor_id) [])"

definition causation_depth_of :: "jmap \<Rightarrow> u64" where
  "causation_depth_of md =
     (case hget md causation_depth_key of Some (JNumber (JPosInt n)) \<Rightarrow> n | _ \<Rightarrow> 0)"

lemma causation_depth_round_trip: "causation_depth_of (reactor_output_metadata r d) = d"
  by (simp add: causation_depth_of_def reactor_output_metadata_def)

definition recorded_to_output :: "recorded_event \<Rightarrow> event_data" where
  "recorded_to_output r =
     \<lparr> ed_event_id = re_event_id r, ed_causation_id = re_causation_id r,
       ed_workflow_id = re_workflow_id r, ed_event_type = re_event_type r,
       ed_payload = re_payload r, ed_created_at = re_created_at r,
       ed_category = Some (re_category r), ed_subject_id = Some (re_subject_id r),
       ed_metadata = re_metadata r, ed_ephemeral = None, ed_persistent = True \<rparr>"

section \<open>Properties\<close>

text \<open>For consumers whose name has no NUL byte, the key \<open>derive_output_event_id\<close> hashes
  determines consumer, trigger, kind, subject and ordinal, whatever bytes the UUIDs and the kind
  have: two outputs share an id only through a collision of UUID v5 itself.\<close>

lemma output_id_key_injective:
  assumes "CHR 0x00 \<notin> set c" "CHR 0x00 \<notin> set c'"
    and "output_id_key c t k s n = output_id_key c' t' k' s' n'"
  shows "c = c' \<and> t = t' \<and> k = k' \<and> s = s' \<and> n = n'"
proof -
  have tail: "c @ CHR 0x00 # xs = c' @ CHR 0x00 # ys \<Longrightarrow> c = c' \<and> xs = ys" for xs ys
    using assms(1,2)
  proof (induction c arbitrary: c')
    case Nil
    then show ?case by (cases c') auto
  next
    case (Cons a c)
    then show ?case by (cases c') auto
  qed
  let ?r = "\<lambda>t k s n. uuid_bytes t @ CHR 0x00 # k @ CHR 0x00 # uuid_bytes s @ CHR 0x00 # u32_le_bytes n"
  have cc: "c = c'" and r: "?r t k s n = ?r t' k' s' n'"
    using tail [of "?r t k s n" "?r t' k' s' n'"] assms(3) by (simp_all add: output_id_key_def)
  have t: "t = t'" and k: "k @ CHR 0x00 # uuid_bytes s @ CHR 0x00 # u32_le_bytes n =
                           k' @ CHR 0x00 # uuid_bytes s' @ CHR 0x00 # u32_le_bytes n'"
    using r by (simp_all add: append_eq_append_conv uuid_bytes_inj)
  have "k = k' \<and> CHR 0x00 # uuid_bytes s @ CHR 0x00 # u32_le_bytes n =
                  CHR 0x00 # uuid_bytes s' @ CHR 0x00 # u32_le_bytes n'"
    using k by (simp add: append_eq_append_conv)
  then show ?thesis using cc t by (simp add: append_eq_append_conv uuid_bytes_inj u32_le_bytes_inj)
qed

lemma output_id_key_injective_witness:
  "output_id_key ''r'' 0 ''k'' 0 0 \<noteq> output_id_key ''r'' 0 ''k'' 0 1"
  using output_id_key_injective [of "''r''" "''r''" 0 "''k''" 0 0 0 "''k''" 0 1] by auto

text \<open>With a NUL byte in the consumer's name the key is ambiguous: two different consumers with
  different triggers and kinds hash the same bytes.\<close>

theorem output_id_key_ambiguous_with_nul:
  "\<exists>c t k c' t' k'. c \<noteq> c' \<and> k \<noteq> k' \<and>
     (\<forall>s n. output_id_key c t k s n = output_id_key c' t' k' s n)"
proof (intro exI conjI allI)
  show "(''r'' :: string) \<noteq> ''r'' @ [CHR 0x00]" by simp
  show "CHR 0x00 # ''k'' \<noteq> (''k'' :: string)" by simp
  fix s n
  show "output_id_key ''r'' 0 (CHR 0x00 # ''k'') s n = output_id_key (''r'' @ [CHR 0x00]) 0 ''k'' s n"
    by (simp add: output_id_key_def uuid_bytes_0)
qed

end
