(* ===== verification/Effect_Store.thy ===== *)
theory Effect_Store
  imports First_Write Output_Ids
begin

text \<open>
  The effect memo of \<open>modules/causal/src/effect_store.rs\<close>: \<open>EffectKey\<close>, \<open>InMemoryEffectStore\<close>
  (\<open>get\<close>, \<open>put\<close>, \<open>remove\<close>, \<open>scan_by_trigger\<close>, \<open>list_consumers\<close>) and \<open>remember\<close>. In \<open>remember\<close>
  the caller's \<open>compute\<close> is a parameter acting on the world; as other reactions run while it is
  awaited, it may also change the memo.
\<close>

record effect_key =
  ek_consumer :: string
  ek_trigger :: uuid
  ek_label :: string

definition output_event_id :: "(uuid \<Rightarrow> string \<Rightarrow> uuid) \<Rightarrow> effect_key \<Rightarrow> string \<Rightarrow> uuid \<Rightarrow> u32 \<Rightarrow> uuid" where
  "output_event_id v5 k kind subject ordinal =
     derive_output_event_id v5 (ek_consumer k) (ek_trigger k) kind subject ordinal"

type_synonym effect_store = "(effect_key, json) hmap"

definition effect_get :: "effect_key \<Rightarrow> effect_store \<Rightarrow> json option" where
  "effect_get k m = hget m k"

definition effect_put :: "effect_key \<Rightarrow> json \<Rightarrow> effect_store \<Rightarrow> json \<times> effect_store" where
  "effect_put k v m = or_insert k v m"

definition effect_remove :: "effect_key \<Rightarrow> effect_store \<Rightarrow> effect_store" where
  "effect_remove k m = hdel k m"

definition scan_by_trigger :: "uuid \<Rightarrow> effect_store \<Rightarrow> (effect_key \<times> json) list" where
  "scan_by_trigger t m = filter (\<lambda>p. ek_trigger (fst p) = t) m"

definition effect_consumers :: "effect_store \<Rightarrow> string list" where
  "effect_consumers m = remdups (map (ek_consumer \<circ> fst) m)"

datatype 'e remember_error = SerdeFailed | ComputeFailed 'e

definition remember ::
  "('t \<Rightarrow> json option) \<Rightarrow> (json \<Rightarrow> 't option) \<Rightarrow> effect_key \<Rightarrow>
   (effect_store \<times> 'w \<Rightarrow> ('e + 't) \<times> effect_store \<times> 'w) \<Rightarrow> effect_store \<times> 'w \<Rightarrow>
   ('e remember_error + 't) \<times> effect_store \<times> 'w" where
  "remember to_value from_value key compute \<sigma> =
     (case effect_get key (fst \<sigma>) of
        Some cached \<Rightarrow>
          ((case from_value cached of Some t \<Rightarrow> Inr t | None \<Rightarrow> Inl SerdeFailed), \<sigma>)
      | None \<Rightarrow>
          (case compute \<sigma> of
             (Inl e, \<sigma>') \<Rightarrow> (Inl (ComputeFailed e), \<sigma>')
           | (Inr result, (m, w)) \<Rightarrow>
               (case to_value result of
                  None \<Rightarrow> (Inl SerdeFailed, (m, w))
                | Some v \<Rightarrow>
                    (case effect_put key v m of
                       (canonical, m') \<Rightarrow>
                         ((case from_value canonical of Some t \<Rightarrow> Inr t | None \<Rightarrow> Inl SerdeFailed),
                          (m', w))))))"

interpretation effects: first_write effect_get effect_put
  by unfold_locales (auto simp: effect_get_def effect_put_def or_insert_def split: option.splits)

text \<open>A memoized effect runs once. After a \<open>remember\<close> that succeeded, and any later puts to the
  memo, \<open>remember\<close> under the same key answers the same value without running its computation: the
  memo and the world stay as they are, whatever the second computation would do.\<close>

theorem remember_runs_once:
  assumes "remember to_value from_value key compute \<sigma> = (Inr t, \<sigma>1)"
    and "m2 = fold (\<lambda>(k, v) m. snd (effect_put k v m)) others (fst \<sigma>1)"
  shows "remember to_value from_value key compute' (m2, w2) = (Inr t, (m2, w2))"
proof -
  have "\<exists>v. effect_get key (fst \<sigma>1) = Some v \<and> from_value v = Some t"
  proof (cases "effect_get key (fst \<sigma>)")
    case None
    then obtain r m w where c: "compute \<sigma> = (Inr r, (m, w))"
      using assms(1) by (auto simp: remember_def split: prod.splits sum.splits)
    with None obtain v where v: "to_value r = Some v"
      using assms(1) by (auto simp: remember_def split: option.splits)
    have "from_value (fst (effect_put key v m)) = Some t \<and> \<sigma>1 = (snd (effect_put key v m), w)"
      using None c v assms(1) by (auto simp: remember_def split: prod.splits option.splits)
    then show ?thesis using effects.put_get by fastforce
  qed (use assms(1) in \<open>auto simp: remember_def split: option.splits\<close>)
  then obtain v where "effect_get key m2 = Some v" "from_value v = Some t"
    using effects.puts_stable assms(2) by blast
  then show ?thesis by (simp add: remember_def)
qed

definition sample_effect_key :: effect_key where
  "sample_effect_key = \<lparr> ek_consumer = ''r'', ek_trigger = 1, ek_label = ''ocr'' \<rparr>"

theorem remember_runs_once_witness:
  "remember Some Some sample_effect_key (\<lambda>(m, w). (Inr (JString ''second'') :: unit + json, (m, Suc w)))
     ([(sample_effect_key, JString ''first'')], 1) =
   (Inr (JString ''first''), ([(sample_effect_key, JString ''first'')], 1))"
proof -
  have "remember Some Some sample_effect_key (\<lambda>(m, w). (Inr (JString ''first'') :: unit + json, (m, Suc w)))
          ([], 0) = (Inr (JString ''first''), ([(sample_effect_key, JString ''first'')], 1))"
    by (simp add: remember_def effect_get_def effect_put_def or_insert_def)
  from remember_runs_once [OF this, where others = "[]", OF refl] show ?thesis by simp
qed

end
