(* ===== verification/Redelivery.thy ===== *)
theory Redelivery
  imports First_Write Event_Types "HOL-Library.Sublist"
begin

text \<open>
  How a backend tells a crash-redelivery from a conflict: the event-id registry of
  \<open>modules/causal/src/event_id_registry.rs\<close> (\<open>lookup\<close>, \<open>register\<close>, \<open>classify_batch\<close>) and the window
  decision procedure \<open>reconcile\<close> of \<open>modules/causal_replay/src/reconcile.rs\<close>.
\<close>

section \<open>The registry\<close>

record event_id_entry =
  ei_event_id :: uuid
  ei_position :: log_cursor
  ei_revision :: stream_revision

type_synonym event_id_registry = "(uuid, event_id_entry) hmap"

definition registry_lookup :: "uuid list \<Rightarrow> event_id_registry \<Rightarrow> event_id_entry option list" where
  "registry_lookup ids m = map (hget m) ids"

fun register_ids :: "event_id_entry list \<Rightarrow> event_id_registry \<Rightarrow> event_id_registry" where
  "register_ids [] m = m"
| "register_ids (e # es) m = register_ids es (snd (or_insert (ei_event_id e) e m))"

datatype batch_presence = Absent | Redelivered event_id_entry | BatchPartialOverlap

definition classify_batch :: "event_id_registry \<Rightarrow> uuid list \<Rightarrow> batch_presence" where
  "classify_batch m ids =
     (if ids = [] then Absent
      else let found = registry_lookup ids m;
               present = length (filter (\<lambda>e. e \<noteq> None) found)
           in if present = 0 then Absent
              else if present = length ids then Redelivered (the (last found))
              else BatchPartialOverlap)"

section \<open>Reconciliation over a window\<close>

datatype reconciliation = Redelivery | Conflict | PartialOverlap

text \<open>\<open>Iterator::any\<close> on the shared window iterator: it consumes up to the first match.\<close>

fun iter_any :: "uuid \<Rightarrow> uuid list \<Rightarrow> bool \<times> uuid list" where
  "iter_any i [] = (False, [])"
| "iter_any i (w # ws) = (if w = i then (True, ws) else iter_any i ws)"

fun in_order_count :: "uuid list \<Rightarrow> uuid list \<Rightarrow> nat" where
  "in_order_count [] window = 0"
| "in_order_count (i # ids) window =
     (case iter_any i window of
        (found, rest) \<Rightarrow> (if found then 1 else 0) + in_order_count ids rest)"

definition reconcile :: "uuid list \<Rightarrow> uuid list \<Rightarrow> reconciliation" where
  "reconcile batch window =
     (if in_order_count batch window = length batch then Redelivery
      else if \<exists>i \<in> set batch. i \<in> set window then PartialOverlap
      else Conflict)"

lemma in_order_count_le: "in_order_count ids window \<le> length ids"
proof (induction ids arbitrary: window)
  case (Cons i ids)
  show ?case using Cons [of "snd (iter_any i window)"] by (simp add: split_beta)
qed simp

lemma subseq_Cons_iter_any:
  "subseq (i # ids) window \<longleftrightarrow> fst (iter_any i window) \<and> subseq ids (snd (iter_any i window))"
  by (induction window) auto

lemma in_order_count_iff_subseq: "in_order_count ids window = length ids \<longleftrightarrow> subseq ids window"
proof (induction ids arbitrary: window)
  case (Cons i ids)
  then show ?case
    using in_order_count_le [of ids "snd (iter_any i window)"]
    by (auto simp: split_beta subseq_Cons_iter_any)
qed simp

lemma register_ids_keeps: "hget m k = Some e \<Longrightarrow> hget (register_ids es m) k = Some e"
  by (induction es arbitrary: m) (simp_all add: alist_first.put_stable)

lemma register_ids_get:
  "hget (register_ids es m) k =
     (case hget m k of Some e \<Rightarrow> Some e | None \<Rightarrow> find (\<lambda>e. ei_event_id e = k) es)"
proof (induction es arbitrary: m)
  case (Cons e es)
  show ?case
    by (cases "hget m (ei_event_id e)")
       (auto simp: Cons.IH or_insert_def split: option.splits)
qed (simp split: option.split)

lemma last_map_the: "xs \<noteq> [] \<Longrightarrow> last (map f xs) = f (last xs)"
  by (simp add: last_map)

section \<open>Properties\<close>

text \<open>C27: \<open>reconcile\<close> decides as specified. It answers \<open>Redelivery\<close> exactly when the batch occurs in
  the window in batch order (as a subsequence), \<open>Conflict\<close> exactly when the batch is not empty and
  shares no id with the window, and \<open>PartialOverlap\<close> in every other case: its one pass with a
  shared iterator is a complete subsequence test.\<close>

theorem reconcile_spec:
  "reconcile batch window =
     (if subseq batch window then Redelivery
      else if set batch \<inter> set window = {} then Conflict
      else PartialOverlap)"
  by (auto simp: reconcile_def in_order_count_iff_subseq)

text \<open>After registering a batch of distinct new ids, classifying the batch, or the batch after any
  further registrations, answers a redelivery with the coordinates registered first for its last id;
  a batch none of whose ids is registered is \<open>Absent\<close>.\<close>

theorem classify_after_register:
  assumes "es \<noteq> []" "distinct (map ei_event_id es)" "\<forall>e \<in> set es. hget m (ei_event_id e) = None"
  shows "classify_batch (register_ids es' (register_ids es m)) (map ei_event_id es) =
           Redelivered (last es) \<and>
         classify_batch m (map ei_event_id es) = Absent"
proof -
  let ?m = "register_ids es' (register_ids es m)"
  have get: "hget ?m (ei_event_id e) = Some e" if "e \<in> set es" for e
  proof -
    have "find (\<lambda>x. ei_event_id x = ei_event_id e) es = Some e"
      using that assms(2) by (induction es) auto
    then have "hget (register_ids es m) (ei_event_id e) = Some e"
      using that assms(3) by (simp add: register_ids_get)
    then show ?thesis by (rule register_ids_keeps)
  qed
  have found: "registry_lookup (map ei_event_id es) ?m = map Some es"
    using get by (simp add: registry_lookup_def)
  have hit: "classify_batch ?m (map ei_event_id es) = Redelivered (last es)"
    using assms(1) by (simp add: classify_batch_def found Let_def last_map_the)
  have "registry_lookup (map ei_event_id es) m = map (\<lambda>_. None) es"
    using assms(3) by (simp add: registry_lookup_def)
  then have "classify_batch m (map ei_event_id es) = Absent"
    using assms(1) by (simp add: classify_batch_def Let_def)
  with hit show ?thesis by blast
qed

theorem classify_after_register_witness:
  "classify_batch (register_ids [\<lparr> ei_event_id = 1, ei_position = 9, ei_revision = 9 \<rparr>]
      (register_ids [\<lparr> ei_event_id = 1, ei_position = 4, ei_revision = 2 \<rparr>] [])) [1] =
   Redelivered \<lparr> ei_event_id = 1, ei_position = 4, ei_revision = 2 \<rparr>"
  using classify_after_register [of "[\<lparr> ei_event_id = 1, ei_position = 4, ei_revision = 2 \<rparr>]" "[]"
      "[\<lparr> ei_event_id = 1, ei_position = 9, ei_revision = 9 \<rparr>]"]
  by simp

end
