(* ===== verification/Failure.thy ===== *)
theory Failure
  imports Output_Ids
begin

text \<open>
  The retry taxonomy: error classes and chains (\<open>modules/causal/src/failure.rs\<close>), the retry policy
  and its backoff (\<open>modules/causal/src/reactor.rs\<close>), and the failure accounting of the serial
  projection runners (\<open>FailureState\<close> in \<open>modules/causal/src/projection_failure.rs\<close>).

  An \<open>anyhow::Error\<close> is the list of the links of its \<open>source()\<close> chain, outermost first; a chain
  the walk follows is finite here. An \<open>Instant\<close> is a natural number of nanoseconds. An \<open>f64\<close> of a
  retry policy is the rational it denotes and its products are exact: only the rounding of \<open>f64\<close>
  arithmetic is left out, the overflow panic of \<open>Duration::mul_f64\<close> is the value \<open>None\<close>.
\<close>

section \<open>Classes and chains\<close>

datatype error_class = Transient | Poison | Domain

datatype failure_class = TransientExhausted | PoisonFailure | DomainFailure | Unclassified

definition failure_class_str :: "failure_class \<Rightarrow> string" where
  "failure_class_str c =
     (case c of
        TransientExhausted \<Rightarrow> ''transient_exhausted''
      | PoisonFailure \<Rightarrow> ''poison''
      | DomainFailure \<Rightarrow> ''domain''
      | Unclassified \<Rightarrow> ''unclassified'')"

datatype link_kind = Classified error_class | SerdeJson | OtherError

record error_link =
  el_kind :: link_kind
  el_message :: string

type_synonym error_chain = "error_link list"

definition classify_as :: "error_class \<Rightarrow> error_chain \<Rightarrow> error_chain" where
  "classify_as c e =
     \<lparr> el_kind = Classified c, el_message = (case e of [] \<Rightarrow> [] | l # _ \<Rightarrow> el_message l) \<rparr> # e"

definition transient :: "error_chain \<Rightarrow> error_chain" where "transient = classify_as Transient"
definition poison :: "error_chain \<Rightarrow> error_chain" where "poison = classify_as Poison"
definition domain :: "error_chain \<Rightarrow> error_chain" where "domain = classify_as Domain"

definition link_class :: "error_link \<Rightarrow> error_class option" where
  "link_class l = (case el_kind l of Classified c \<Rightarrow> Some c | _ \<Rightarrow> None)"

definition classify :: "error_chain \<Rightarrow> error_class option" where
  "classify e = find_map link_class e"

definition classify_structural :: "error_chain \<Rightarrow> error_class option" where
  "classify_structural e =
     (if \<exists>l \<in> set e. el_kind l = SerdeJson then Some Poison else classify e)"

definition transient_ceiling :: nat where
  "transient_ceiling = 6 * 60 * 60 * 10 ^ 9"

section \<open>Rendering a chain\<close>

definition max_chain_hops :: nat where "max_chain_hops = 32"
definition max_message_len :: nat where "max_message_len = 8 * 1024"

definition ellipsis :: string where
  "ellipsis = [CHR 0xE2, CHR 0x80, CHR 0xA6]"

fun join :: "string \<Rightarrow> string list \<Rightarrow> string" where
  "join sep [] = []"
| "join sep [x] = x"
| "join sep (x # xs) = x @ sep @ join sep xs"

text \<open>\<open>str::is_char_boundary\<close>: an end of the string, or not a UTF-8 continuation byte.\<close>

definition is_char_boundary :: "string \<Rightarrow> nat \<Rightarrow> bool" where
  "is_char_boundary s i \<longleftrightarrow>
     i = 0 \<or> i = length s \<or>
     (i < length s \<and> \<not> (128 \<le> (of_char (s ! i) :: nat) \<and> (of_char (s ! i) :: nat) < 192))"

fun cut_back :: "string \<Rightarrow> nat \<Rightarrow> nat" where
  "cut_back s 0 = 0"
| "cut_back s (Suc c) = (if is_char_boundary s (Suc c) then Suc c else cut_back s c)"

definition bounded_error_chain :: "error_chain \<Rightarrow> string" where
  "bounded_error_chain e =
     (let parts = map el_message (take max_chain_hops e);
          out = join '': '' parts;
          out = (if length e > max_chain_hops then out @ '': '' @ ellipsis else out)
      in if length out > max_message_len
         then take (cut_back out max_message_len) out @ ellipsis
         else out)"

lemma cut_back_le: "cut_back s c \<le> c"
  by (induction s c rule: cut_back.induct) auto

lemma cut_back_boundary: "is_char_boundary s (cut_back s c)"
  by (induction s c rule: cut_back.induct) (auto simp: is_char_boundary_def)

lemma link_class_Some: "link_class l = Some c \<longleftrightarrow> el_kind l = Classified c"
  by (simp add: link_class_def split: link_kind.split)

lemma link_class_None: "link_class l = None \<longleftrightarrow> (\<forall>d. el_kind l \<noteq> Classified d)"
  by (simp add: link_class_def split: link_kind.split)

lemma classify_classify_as [simp]: "classify (classify_as c e) = Some c"
  by (simp add: classify_def classify_as_def link_class_def)

section \<open>Retry policy\<close>

record retry_policy =
  rp_max_attempts :: u32
  rp_initial_backoff_ms :: u64
  rp_backoff_multiplier :: rat
  rp_max_backoff_ms :: u64

definition exponential :: "u32 \<Rightarrow> u64 \<Rightarrow> retry_policy" where
  "exponential n ms = \<lparr> rp_max_attempts = n, rp_initial_backoff_ms = ms,
                        rp_backoff_multiplier = 2, rp_max_backoff_ms = 60000 \<rparr>"

definition fixed :: "u32 \<Rightarrow> u64 \<Rightarrow> retry_policy" where
  "fixed n ms = \<lparr> rp_max_attempts = n, rp_initial_backoff_ms = ms,
                  rp_backoff_multiplier = 1, rp_max_backoff_ms = ms \<rparr>"

definition from_max_attempts :: "u32 \<Rightarrow> retry_policy" where
  "from_max_attempts n = \<lparr> rp_max_attempts = n, rp_initial_backoff_ms = 25,
                           rp_backoff_multiplier = 2, rp_max_backoff_ms = 5000 \<rparr>"

text \<open>\<open>Duration::mul_f64\<close> on nanoseconds: it panics on a negative product and from \<open>2 ^ 64\<close> seconds.\<close>

definition duration_mul :: "nat \<Rightarrow> rat \<Rightarrow> nat option" where
  "duration_mul ns q =
     (let r = of_nat ns * q
      in if r < 0 \<or> 2 ^ 64 * 10 ^ 9 \<le> r then None else Some (nat (round r)))"

definition ms_to_ns :: "u64 \<Rightarrow> nat" where
  "ms_to_ns ms = unat ms * 10 ^ 6"

definition backoff_for :: "retry_policy \<Rightarrow> u32 \<Rightarrow> nat option" where
  "backoff_for p attempt =
     map_option (\<lambda>d. min d (ms_to_ns (rp_max_backoff_ms p)))
       (duration_mul (ms_to_ns (rp_initial_backoff_ms p))
          (rp_backoff_multiplier p ^ min (unat attempt) 63))"

lemma duration_mul_nat:
  "duration_mul ns (of_nat q) = (if 2 ^ 64 * 10 ^ 9 \<le> ns * q then None else Some (ns * q))"
proof -
  have r: "(of_nat ns * of_nat q :: rat) = of_nat (ns * q)" by simp
  have "(2 ^ 64 * 10 ^ 9 \<le> (of_nat (ns * q) :: rat)) = (2 ^ 64 * 10 ^ 9 \<le> ns * q)"
  proof -
    have "(2 ^ 64 * 10 ^ 9 :: rat) = of_nat (2 ^ 64 * 10 ^ 9)" by simp
    then show ?thesis by (simp only: of_nat_le_iff)
  qed
  then show ?thesis
    unfolding duration_mul_def Let_def r by (simp only: of_nat_less_0_iff round_of_nat nat_int if_False simp_thms)
qed

lemma backoff_pow2:
  assumes "rp_backoff_multiplier p = 2"
  shows "backoff_for p k =
     (let d = ms_to_ns (rp_initial_backoff_ms p) * 2 ^ min (unat k) 63
      in if 2 ^ 64 * 10 ^ 9 \<le> d then None else Some (min d (ms_to_ns (rp_max_backoff_ms p))))"
proof -
  have "rp_backoff_multiplier p ^ min (unat k) 63 = of_nat (2 ^ min (unat k) 63)"
    by (simp add: assms)
  then show ?thesis
    unfolding backoff_for_def
    by (simp only: duration_mul_nat Let_def if_distrib [where f = "map_option _"] option.map)
qed

section \<open>Failure accounting of the projection runners\<close>

datatype failure_decision = Park failure_class u32 | Retry

record failure_state =
  fs_retry_policy :: retry_policy
  fs_attempts :: "(uuid \<times> u32) option"
  fs_transient_since :: "(uuid \<times> nat) option"

definition failure_state_new :: "retry_policy \<Rightarrow> failure_state" where
  "failure_state_new p = \<lparr> fs_retry_policy = p, fs_attempts = None, fs_transient_since = None \<rparr>"

definition on_failure ::
  "nat \<Rightarrow> uuid \<Rightarrow> error_chain \<Rightarrow> failure_state \<Rightarrow> failure_decision \<times> failure_state" where
  "on_failure now event_id err s =
     (let attempts = (case fs_attempts s of
                        Some (i, n) \<Rightarrow> if i = event_id then n + 1 else 1
                      | None \<Rightarrow> 1);
          s = s\<lparr> fs_attempts := Some (event_id, attempts) \<rparr>
      in case classify_structural err of
           Some Poison \<Rightarrow> (Park PoisonFailure attempts, s)
         | Some Transient \<Rightarrow>
             (let since = (case fs_transient_since s of
                             Some (i, t) \<Rightarrow> if i = event_id then t else now
                           | None \<Rightarrow> now);
                  s = s\<lparr> fs_transient_since := Some (event_id, since) \<rparr>
              in if transient_ceiling \<le> now - since
                 then (Park TransientExhausted attempts, s) else (Retry, s))
         | Some Domain \<Rightarrow>
             (if rp_max_attempts (fs_retry_policy s) \<le> attempts
              then (Park DomainFailure attempts, s) else (Retry, s))
         | None \<Rightarrow>
             (if rp_max_attempts (fs_retry_policy s) \<le> attempts
              then (Park Unclassified attempts, s) else (Retry, s)))"

definition failure_clear :: "uuid \<Rightarrow> failure_state \<Rightarrow> failure_state" where
  "failure_clear event_id s =
     s\<lparr> fs_attempts := (case fs_attempts s of
                          Some (i, n) \<Rightarrow> if i = event_id then None else Some (i, n) | None \<Rightarrow> None),
        fs_transient_since := (case fs_transient_since s of
                          Some (i, t) \<Rightarrow> if i = event_id then None else Some (i, t) | None \<Rightarrow> None) \<rparr>"

text \<open>A run of consecutive failures of one event, at the given instants.\<close>

fun failures :: "uuid \<Rightarrow> (nat \<times> error_chain) list \<Rightarrow> failure_state \<Rightarrow> failure_state" where
  "failures event_id [] s = s"
| "failures event_id ((now, err) # fs) s = failures event_id fs (snd (on_failure now event_id err s))"

lemma on_failure_attempts:
  "fs_attempts (snd (on_failure now i err s)) =
     Some (i, case fs_attempts s of Some (j, n) \<Rightarrow> if j = i then n + 1 else 1 | None \<Rightarrow> 1)"
  by (simp add: on_failure_def Let_def split: option.splits error_class.splits)

lemma on_failure_policy [simp]:
  "fs_retry_policy (snd (on_failure now i err s)) = fs_retry_policy s"
  by (simp add: on_failure_def Let_def split: option.splits error_class.splits)

lemma failures_policy [simp]: "fs_retry_policy (failures i fs s) = fs_retry_policy s"
  by (induction i fs s rule: failures.induct) auto

lemma failures_count:
  "fs_attempts s = Some (i, n) \<Longrightarrow> fs_attempts (failures i fs s) = Some (i, n + of_nat (length fs))"
  by (induction i fs s arbitrary: n rule: failures.induct) (simp_all add: on_failure_attempts algebra_simps)

lemma failures_count_fresh:
  assumes "\<forall>n. fs_attempts s \<noteq> Some (i, n)" "fs \<noteq> []"
  shows "fs_attempts (failures i fs s) = Some (i, of_nat (length fs))"
proof -
  obtain now err fs' where fs: "fs = (now, err) # fs'" using assms(2) by (cases fs) auto
  have "fs_attempts (snd (on_failure now i err s)) = Some (i, 1)"
    using assms(1) by (auto simp: on_failure_attempts split: option.splits)
  from failures_count [OF this] show ?thesis by (simp add: fs)
qed

section \<open>Properties\<close>

text \<open>An event that keeps failing is not retried forever. On a serial runner, after \<open>k\<close> earlier
  consecutive failures of the event, the next failure parks it when the error is poison (or has a
  \<open>serde_json\<close> error anywhere in its chain), or when it is not transient and \<open>k + 1\<close> reaches
  \<open>max_attempts\<close>; a declared class is recorded as that class and an undeclared one as
  \<open>unclassified\<close>, with the attempt count \<open>k + 1\<close>.\<close>

lemma on_failure_parks:
  assumes "\<forall>n. fs_attempts s \<noteq> Some (i, n)" "length fs + 1 < 2 ^ 32"
  shows "fst (on_failure now i err (failures i fs s)) =
           (let n = of_nat (length fs + 1); budget = rp_max_attempts (fs_retry_policy s) \<le> n
            in case classify_structural err of
                 Some Poison \<Rightarrow> Park PoisonFailure n
               | Some Transient \<Rightarrow>
                   (case fs_transient_since (failures i fs s) of
                      Some (j, t) \<Rightarrow> if j = i \<and> transient_ceiling \<le> now - t
                                     then Park TransientExhausted n else Retry
                    | None \<Rightarrow> Retry)
               | Some Domain \<Rightarrow> if budget then Park DomainFailure n else Retry
               | None \<Rightarrow> if budget then Park Unclassified n else Retry)"
proof -
  have "(case fs_attempts (failures i fs s) of
           Some (j, n) \<Rightarrow> if j = i then n + 1 else 1 | None \<Rightarrow> 1) = (of_nat (length fs + 1) :: u32)"
  proof (cases "fs = []")
    case True
    then show ?thesis using assms(1) by (auto split: option.splits)
  next
    case False
    then show ?thesis using failures_count_fresh [OF assms(1) False] by simp
  qed
  moreover have "\<not> transient_ceiling \<le> 0" by (simp add: transient_ceiling_def)
  ultimately show ?thesis
    by (simp add: on_failure_def Let_def split: option.splits error_class.splits)
qed

lemma on_failure_parks_witness:
  "fst (on_failure 5 7 [] (failures 7 [(1, []), (2, [])] (failure_state_new (from_max_attempts 3)))) =
     Park Unclassified 3"
proof -
  have "\<forall>n. fs_attempts (failure_state_new (from_max_attempts 3)) \<noteq> Some (7, n)"
    by (simp add: failure_state_new_def)
  from on_failure_parks [OF this, of "[(1, []), (2, [])]" 5 "[]"] show ?thesis
    by (simp add: Let_def classify_structural_def classify_def failure_state_new_def
        from_max_attempts_def)
qed

text \<open>The outermost declared class wins, so re-wrapping overrides; and for the projection
  runners a \<open>serde_json\<close> error anywhere below makes the chain poison, whatever is declared.\<close>

theorem classify_outermost:
  "classify (transient e) = Some Transient \<and> classify (poison e) = Some Poison \<and>
   classify (domain e) = Some Domain \<and>
   (classify e = Some c \<longleftrightarrow>
      (\<exists>pre l post. e = pre @ l # post \<and> el_kind l = Classified c \<and>
                    (\<forall>x \<in> set pre. \<forall>d. el_kind x \<noteq> Classified d))) \<and>
   ((\<exists>l \<in> set e. el_kind l = SerdeJson) \<longrightarrow> classify_structural (classify_as d e) = Some Poison)"
proof -
  have "classify e = Some c \<longleftrightarrow>
      (\<exists>pre l post. e = pre @ l # post \<and> el_kind l = Classified c \<and>
                    (\<forall>x \<in> set pre. \<forall>d. el_kind x \<noteq> Classified d))"
    unfolding classify_def find_map_Some_iff link_class_Some link_class_None ..
  moreover have "classify_structural (classify_as d e) = Some Poison"
    if "\<exists>l \<in> set e. el_kind l = SerdeJson"
    using that by (simp add: classify_structural_def classify_as_def)
  ultimately show ?thesis by (simp add: transient_def poison_def domain_def)
qed

theorem classify_outermost_witness:
  "classify_structural (classify_as Transient [\<lparr> el_kind = SerdeJson, el_message = ''eof'' \<rparr>]) =
     Some Poison"
  using classify_outermost [of "[\<lparr> el_kind = SerdeJson, el_message = ''eof'' \<rparr>]" Transient Transient]
  by simp

text \<open>A rendered error chain is bounded: at most \<open>MAX_MESSAGE_LEN\<close> bytes and an ellipsis, and a
  cut never falls inside a UTF-8 character.\<close>

theorem bounded_error_chain_bounded:
  "length (bounded_error_chain e) \<le> max_message_len + 3 \<and>
   (bounded_error_chain e = join '': '' (map el_message e) \<or>
    (\<exists>s c. bounded_error_chain e = take c s @ ellipsis \<and> is_char_boundary s c \<and> c \<le> length s))"
proof -
  define out where "out = (let o' = join '': '' (map el_message (take max_chain_hops e))
     in if length e > max_chain_hops then o' @ '': '' @ ellipsis else o')"
  have b: "bounded_error_chain e =
     (if length out > max_message_len then take (cut_back out max_message_len) out @ ellipsis else out)"
    by (simp add: bounded_error_chain_def out_def Let_def)
  have e3: "length ellipsis = 3" by (simp add: ellipsis_def)
  have "length (bounded_error_chain e) \<le> max_message_len + 3"
    using cut_back_le [of out max_message_len] by (simp add: b e3)
  moreover have "bounded_error_chain e = join '': '' (map el_message e) \<or>
    (\<exists>s c. bounded_error_chain e = take c s @ ellipsis \<and> is_char_boundary s c \<and> c \<le> length s)"
  proof (cases "length out > max_message_len")
    case True
    then show ?thesis
      using cut_back_boundary [of out max_message_len] cut_back_le [of out max_message_len]
      by (intro disjI2 exI [of _ out] exI [of _ "cut_back out max_message_len"]) (simp add: b)
  next
    case False
    show ?thesis
    proof (cases "length e > max_chain_hops")
      case True
      let ?s = "join '': '' (map el_message (take max_chain_hops e)) @ '': ''"
      have "bounded_error_chain e = take (length ?s) ?s @ ellipsis"
        using False True by (simp add: b out_def Let_def)
      then show ?thesis by (auto simp: is_char_boundary_def intro!: exI [of _ ?s] exI [of _ "length ?s"])
    next
      case False
      then show ?thesis using \<open>\<not> length out > max_message_len\<close> by (simp add: b out_def Let_def)
    qed
  qed
  ultimately show ?thesis by blast
qed

text \<open>The engine's default backoff is bounded for every attempt number, without the overflow
  panic: 25 ms doubled per attempt up to 5 s; it never shrinks from one attempt to the next.\<close>

theorem default_backoff_bounded:
  "backoff_for (from_max_attempts n) k = Some (min (25 * 10 ^ 6 * 2 ^ min (unat k) 63) (5 * 10 ^ 9))"
proof -
  have "2 ^ min (unat k) 63 \<le> (2 ^ 63 :: nat)" by (intro power_increasing) auto
  then have "\<not> 2 ^ 64 * 10 ^ 9 \<le> 25 * 10 ^ 6 * (2 ^ min (unat k) 63 :: nat)" by simp
  then show ?thesis
    by (simp only: backoff_pow2 from_max_attempts_def retry_policy.simps Let_def ms_to_ns_def) simp
qed

text \<open>The exponent cap does not prevent the overflow panic it is there for: with the public
  constructor \<open>RetryPolicy::exponential\<close> and an initial backoff of two seconds or more, the delay
  computed for the 63rd and every later retry panics instead of being cut to the 60 s ceiling.\<close>

lemma exponential_backoff_panics:
  assumes "2000 \<le> unat ms" "63 \<le> unat k"
  shows "backoff_for (exponential n ms) k = None"
proof -
  have "2000 * 10 ^ 6 * 2 ^ 63 \<le> ms_to_ns ms * (2 ^ 63 :: nat)"
    using assms(1) by (simp add: ms_to_ns_def)
  moreover have "min (unat k) 63 = 63" using assms(2) by simp
  ultimately show ?thesis
    by (simp only: backoff_pow2 exponential_def retry_policy.simps Let_def) simp
qed

lemma exponential_backoff_panics_witness: "backoff_for (exponential 10 5000) 63 = None"
  by (rule exponential_backoff_panics) simp_all

end
