(* ===== verification/Reactor_Dispatch.thy ===== *)
theory Reactor_Dispatch
  imports Checkpoints Effect_Store
begin

text \<open>
  The dispatch half of the reactor runner (\<open>modules/causal/src/reactor_runner.rs\<close>): ingestion into
  partitions under the pending window, the workers' queues, the ack-floor and its durable
  checkpoint, the \<open>drained\<close> probe and the cancellation fence. What a worker does with the trigger
  in its hand is the theory \<open>Reactor_Exec\<close>; here it finishes with an outcome.

  A \<open>tokio\<close> channel is the list of the messages in it. A partition's worker is part of its handle:
  the receiving end of its queue, the trigger in its hand, and whether the task is alive. The I/O
  results the code propagates with \<open>?\<close> are the booleans of the record \<open>step_io\<close>. The consumer
  lease (an external lock) is taken as granted: one runner per consumer. \<open>ru_start\<close>,
  \<open>ru_scanned\<close>, \<open>ru_finished\<close> and \<open>ru_skipped\<close> are history variables (the cursor the runner was
  created at, the events it scanned, the triggers its workers finished, in order, and those the
  dispatch gate skipped): written and never read by the operations.
\<close>

section \<open>Kinds and partitions\<close>

definition matches_kind :: "string \<Rightarrow> string \<Rightarrow> bool" where
  "matches_kind event_type name \<longleftrightarrow> event_type = name"

definition validate_name :: "string \<Rightarrow> bool" where
  "validate_name name \<longleftrightarrow> name \<noteq> []"

datatype step_outcome =
    Progressed nat
  | Idle
  | WaitOnDep string log_cursor log_cursor

datatype trigger_ordering = PerSubject | PerWorkflow | Unordered

datatype partition_key =
    SubjectKey string uuid
  | WorkflowKey uuid
  | EventKey uuid

definition partition_key_for :: "trigger_ordering \<Rightarrow> recorded_event \<Rightarrow> partition_key" where
  "partition_key_for ord e =
     (case ord of
        PerSubject \<Rightarrow> SubjectKey (re_category e) (re_subject_id e)
      | PerWorkflow \<Rightarrow> WorkflowKey (re_workflow_id e)
      | Unordered \<Rightarrow> EventKey (re_event_id e))"

definition max_pending :: nat where "max_pending = 4096"

definition workflow_cancelled_kind :: string where
  "workflow_cancelled_kind = ''causal:workflow_cancelled''"

section \<open>State\<close>

record partition_handle =
  ph_gen :: u64
  ph_queue :: "recorded_event list"
  ph_hand :: "recorded_event option"
  ph_alive :: bool

record pending_trigger =
  pt_event_id :: uuid
  pt_acked :: bool
  pt_parked :: bool
  pt_effect_labels :: "string list"

record dispatch_state =
  ds_started :: bool
  ds_ingest_pos :: log_cursor
  ds_pending :: "(log_cursor \<times> pending_trigger) list"
  ds_floor :: log_cursor
  ds_persisted_floor :: "log_cursor option"
  ds_partitions :: "(partition_key, partition_handle) hmap"
  ds_next_gen :: u64
  ds_wf_pending :: "(uuid, u32) hmap"

record completion =
  cp_position :: log_cursor
  cp_workflow :: uuid
  cp_parked :: bool
  cp_effect_labels :: "string list"

record runner_config =
  rc_consumer :: string
  rc_kind :: string
  rc_ordering :: trigger_ordering
  rc_decision_store :: bool
  rc_effect_store :: bool
  rc_parse_uuid :: "string \<Rightarrow> uuid option"

record runner =
  ru_dispatch :: dispatch_state
  ru_completions :: "completion list"
  ru_fence :: "uuid list option"
  ru_store :: memory_store
  ru_effects :: effect_store
  ru_start :: log_cursor
  ru_scanned :: "recorded_event list"
  ru_finished :: "recorded_event list"
  ru_skipped :: "recorded_event list"

definition dispatch_new :: dispatch_state where
  "dispatch_new =
     \<lparr> ds_started = False, ds_ingest_pos = cursor_zero, ds_pending = [], ds_floor = cursor_zero,
       ds_persisted_floor = None, ds_partitions = [], ds_next_gen = 0, ds_wf_pending = [] \<rparr>"

definition stored_cursor :: "runner_config \<Rightarrow> memory_store \<Rightarrow> log_cursor" where
  "stored_cursor cfg s =
     (case cursor_get (rc_consumer cfg) s of Some c \<Rightarrow> c | None \<Rightarrow> cursor_zero)"

definition runner_new ::
  "runner_config \<Rightarrow> uuid list option \<Rightarrow> memory_store \<Rightarrow> effect_store \<Rightarrow> runner" where
  "runner_new cfg fence s eff =
     \<lparr> ru_dispatch = dispatch_new, ru_completions = [], ru_fence = fence, ru_store = s,
       ru_effects = eff, ru_start = stored_cursor cfg s, ru_scanned = [], ru_finished = [],
       ru_skipped = [] \<rparr>"

section \<open>Start\<close>

definition ensure_started :: "runner_config \<Rightarrow> runner \<Rightarrow> runner" where
  "ensure_started cfg r =
     (let d = ru_dispatch r in
      if ds_started d then r
      else let cursor = stored_cursor cfg (ru_store r)
           in r\<lparr> ru_dispatch := d\<lparr> ds_ingest_pos := cursor, ds_floor := cursor,
                                   ds_persisted_floor := Some cursor, ds_started := True \<rparr> \<rparr>)"

section \<open>Ingestion\<close>

definition enqueue :: "partition_key \<Rightarrow> recorded_event \<Rightarrow> dispatch_state \<Rightarrow> dispatch_state" where
  "enqueue key e d =
     (let spawn = d\<lparr> ds_partitions :=
                       hput key \<lparr> ph_gen = ds_next_gen d, ph_queue = [e], ph_hand = None,
                                  ph_alive = True \<rparr> (ds_partitions d),
                     ds_next_gen := ds_next_gen d + 1 \<rparr>
      in case hget (ds_partitions d) key of
           Some h \<Rightarrow>
             if ph_alive h
             then d\<lparr> ds_partitions := hput key (h\<lparr> ph_queue := ph_queue h @ [e] \<rparr>) (ds_partitions d) \<rparr>
             else spawn
         | None \<Rightarrow> spawn)"

definition fence_target :: "runner_config \<Rightarrow> json \<Rightarrow> uuid option" where
  "fence_target cfg payload =
     (case payload of
        JObject m \<Rightarrow> (case hget m ''target'' of Some (JString s) \<Rightarrow> rc_parse_uuid cfg s | _ \<Rightarrow> None)
      | _ \<Rightarrow> None)"

definition learn_cancel :: "runner_config \<Rightarrow> recorded_event \<Rightarrow> uuid list option \<Rightarrow> uuid list option" where
  "learn_cancel cfg e fence =
     (if re_event_type e = workflow_cancelled_kind
      then (case fence of
              None \<Rightarrow> None
            | Some f \<Rightarrow> (case fence_target cfg (re_payload e) of
                           Some t \<Rightarrow> Some (List.insert t f) | None \<Rightarrow> Some f))
      else fence)"

definition is_fenced :: "uuid list option \<Rightarrow> uuid \<Rightarrow> bool" where
  "is_fenced fence w = (case fence of Some f \<Rightarrow> w \<in> set f | None \<Rightarrow> False)"

definition add_pending :: "recorded_event \<Rightarrow> dispatch_state \<Rightarrow> dispatch_state" where
  "add_pending e d =
     d\<lparr> ds_pending := bt_insert (re_position e)
          \<lparr> pt_event_id = re_event_id e, pt_acked = False, pt_parked = False,
            pt_effect_labels = [] \<rparr> (ds_pending d),
        ds_wf_pending := hput (re_workflow_id e)
          ((case hget (ds_wf_pending d) (re_workflow_id e) of Some n \<Rightarrow> n | None \<Rightarrow> 0) + 1)
          (ds_wf_pending d),
        ds_ingest_pos := re_position e \<rparr>"

text \<open>One event of the batch; \<open>None\<close> is the \<open>break\<close> on a full window.\<close>

definition ingest_event :: "runner_config \<Rightarrow> recorded_event \<Rightarrow> runner \<Rightarrow> runner option" where
  "ingest_event cfg e r =
     (let d = ru_dispatch r; r = r\<lparr> ru_scanned := ru_scanned r @ [e] \<rparr> in
      if matches_kind (re_event_type e) (rc_kind cfg) then
        if max_pending \<le> length (ds_pending d) then None
        else if is_fenced (ru_fence r) (re_workflow_id e) \<and> \<not> rc_decision_store cfg then
          Some (r\<lparr> ru_dispatch := d\<lparr> ds_ingest_pos := re_position e \<rparr>,
                   ru_skipped := ru_skipped r @ [e] \<rparr>)
        else
          Some (r\<lparr> ru_dispatch := enqueue (partition_key_for (rc_ordering cfg) e) e (add_pending e d) \<rparr>)
      else
        Some (r\<lparr> ru_fence := learn_cancel cfg e (ru_fence r),
                 ru_dispatch := d\<lparr> ds_ingest_pos := re_position e \<rparr> \<rparr>))"

fun ingest :: "runner_config \<Rightarrow> recorded_event list \<Rightarrow> runner \<Rightarrow> nat \<times> runner" where
  "ingest cfg [] r = (0, r)"
| "ingest cfg (e # es) r =
     (case ingest_event cfg e r of
        None \<Rightarrow> (0, r)
      | Some r' \<Rightarrow> (case ingest cfg es r' of (n, r'') \<Rightarrow> (Suc n, r'')))"

section \<open>Completions and the floor\<close>

definition ack :: "completion \<Rightarrow> dispatch_state \<Rightarrow> dispatch_state" where
  "ack c d =
     (let d = (case hget (ds_pending d) (cp_position c) of
                 Some p \<Rightarrow> d\<lparr> ds_pending := bt_insert (cp_position c)
                             (p\<lparr> pt_acked := True, pt_parked := cp_parked c,
                                pt_effect_labels := cp_effect_labels c \<rparr>) (ds_pending d) \<rparr>
               | None \<Rightarrow> d)
      in case hget (ds_wf_pending d) (cp_workflow c) of
           Some n \<Rightarrow>
             if n - 1 = 0 then d\<lparr> ds_wf_pending := hdel (cp_workflow c) (ds_wf_pending d) \<rparr>
             else d\<lparr> ds_wf_pending := hput (cp_workflow c) (n - 1) (ds_wf_pending d) \<rparr>
         | None \<Rightarrow> d)"

fun ack_all :: "completion list \<Rightarrow> dispatch_state \<Rightarrow> dispatch_state" where
  "ack_all [] d = d"
| "ack_all (c # cs) d = ack_all cs (ack c d)"

text \<open>The \<open>while let\<close> over \<open>first_entry\<close>: the acked prefix, the floor it moves to, the effect keys
  to collect, and what stays pending.\<close>

fun pop_acked ::
  "runner_config \<Rightarrow> (log_cursor \<times> pending_trigger) list \<Rightarrow> log_cursor \<Rightarrow> effect_key list \<Rightarrow>
   (log_cursor \<times> pending_trigger) list \<times> log_cursor \<times> effect_key list" where
  "pop_acked cfg [] fl gc = ([], fl, gc)"
| "pop_acked cfg ((pos, p) # m) fl gc =
     (if \<not> pt_acked p then ((pos, p) # m, fl, gc)
      else pop_acked cfg m (if fl < pos then pos else fl)
             (if \<not> pt_parked p \<and> rc_effect_store cfg
              then gc @ map (\<lambda>l. \<lparr> ek_consumer = rc_consumer cfg, ek_trigger = pt_event_id p,
                                   ek_label = l \<rparr>) (pt_effect_labels p)
              else gc))"

definition advance_floor :: "runner_config \<Rightarrow> bool \<Rightarrow> runner \<Rightarrow> bool \<times> runner" where
  "advance_floor cfg persist_ok r =
     (let d = ru_dispatch r in
      if \<not> ds_started d then (True, r)
      else case pop_acked cfg (ds_pending d) (ds_floor d) [] of
        (m, fl, gc) \<Rightarrow>
          let fl' = (if m = [] \<and> fl < ds_ingest_pos d then ds_ingest_pos d else fl);
              d' = d\<lparr> ds_pending := m, ds_floor := fl' \<rparr>
          in if ds_persisted_floor d' = Some fl'
             then (True, r\<lparr> ru_dispatch := d', ru_effects := fold effect_remove gc (ru_effects r) \<rparr>)
             else if \<not> persist_ok then (False, r\<lparr> ru_dispatch := d' \<rparr>)
             else (True, r\<lparr> ru_store := cursor_advance (rc_consumer cfg) fl' (ru_store r),
                            ru_dispatch := d'\<lparr> ds_persisted_floor :=
                              (case ds_persisted_floor d' of
                                 None \<Rightarrow> Some fl'
                               | Some p \<Rightarrow> if p < fl' then Some fl' else Some p) \<rparr>,
                            ru_effects := fold effect_remove gc (ru_effects r) \<rparr>))"

definition reap :: "runner_config \<Rightarrow> bool \<Rightarrow> runner \<Rightarrow> nat option \<times> runner" where
  "reap cfg persist_ok r =
     (let acks = ru_completions r;
          r1 = r\<lparr> ru_completions := [],
                  ru_dispatch := ack_all acks (ru_dispatch r) \<rparr>
      in case advance_floor cfg persist_ok r1 of
           (ok, r2) \<Rightarrow> (if ok then Some (length acks) else None, r2))"

record step_io =
  io_cursor_ok :: bool
  io_reap_ok :: bool
  io_read_ok :: bool
  io_floor_ok :: bool

definition runner_step :: "runner_config \<Rightarrow> nat \<Rightarrow> step_io \<Rightarrow> runner \<Rightarrow> step_outcome option \<times> runner" where
  "runner_step cfg batch io r =
     (if \<not> ds_started (ru_dispatch r) \<and> \<not> io_cursor_ok io then (None, r)
      else case reap cfg (io_reap_ok io) (ensure_started cfg r) of
        (None, r1) \<Rightarrow> (None, r1)
      | (Some reaped, r1) \<Rightarrow>
          let room = max_pending - length (ds_pending (ru_dispatch r1)) in
          if room > 0 \<and> \<not> io_read_ok io then (None, r1)
          else case (if room > 0
                     then ingest cfg (read_all (ds_ingest_pos (ru_dispatch r1)) batch (ru_store r1)) r1
                     else (0, r1)) of
            (ingested, r2) \<Rightarrow>
              (case advance_floor cfg (io_floor_ok io) r2 of
                 (ok, r3) \<Rightarrow>
                   (if \<not> ok then None
                    else if reaped + ingested > 0 then Some (Progressed reaped) else Some Idle, r3)))"

definition drained :: "runner_config \<Rightarrow> uuid \<Rightarrow> log_cursor \<Rightarrow> bool \<Rightarrow> runner \<Rightarrow> bool option \<times> runner" where
  "drained cfg w hw io_ok r =
     (if \<not> ds_started (ru_dispatch r) then
        (if io_ok then Some (hw \<le> stored_cursor cfg (ru_store r)) else None, r)
      else case reap cfg io_ok r of
        (None, r1) \<Rightarrow> (None, r1)
      | (Some _, r1) \<Rightarrow>
          (Some (hw \<le> ds_ingest_pos (ru_dispatch r1) \<and> hget (ds_wf_pending (ru_dispatch r1)) w = None),
           r1))"

section \<open>Workers\<close>

definition map_handle ::
  "partition_key \<Rightarrow> (partition_handle \<Rightarrow> partition_handle) \<Rightarrow> runner \<Rightarrow> runner" where
  "map_handle key f r =
     (case hget (ds_partitions (ru_dispatch r)) key of
        Some h \<Rightarrow> r\<lparr> ru_dispatch := (ru_dispatch r)\<lparr> ds_partitions :=
                      hput key (f h) (ds_partitions (ru_dispatch r)) \<rparr> \<rparr>
      | None \<Rightarrow> r)"

text \<open>\<open>try_recv\<close> of a live, idle worker: the front of the queue into its hand.\<close>

definition worker_take :: "partition_key \<Rightarrow> runner \<Rightarrow> runner option" where
  "worker_take key r =
     (case hget (ds_partitions (ru_dispatch r)) key of
        Some h \<Rightarrow>
          (case (ph_alive h, ph_hand h, ph_queue h) of
             (True, None, e # q) \<Rightarrow> Some (map_handle key (\<lambda>h. h\<lparr> ph_queue := q, ph_hand := Some e \<rparr>) r)
           | _ \<Rightarrow> None)
      | None \<Rightarrow> None)"

text \<open>\<open>process_trigger\<close> returned \<open>Some(done)\<close>: the completion is sent.\<close>

definition worker_done :: "partition_key \<Rightarrow> bool \<Rightarrow> string list \<Rightarrow> runner \<Rightarrow> runner option" where
  "worker_done key parked labels r =
     (case hget (ds_partitions (ru_dispatch r)) key of
        Some h \<Rightarrow>
          (case (ph_alive h, ph_hand h) of
             (True, Some e) \<Rightarrow>
               Some (let r1 = map_handle key (\<lambda>h. h\<lparr> ph_hand := None \<rparr>) r
                     in r1\<lparr> ru_completions := ru_completions r1 @
                              [\<lparr> cp_position = re_position e, cp_workflow = re_workflow_id e,
                                 cp_parked = parked, cp_effect_labels = labels \<rparr>],
                            ru_finished := ru_finished r1 @ [e] \<rparr>)
           | _ \<Rightarrow> None)
      | None \<Rightarrow> None)"

text \<open>Queue empty under the dispatch lock: the worker deregisters its own generation and exits.\<close>

definition worker_exit :: "partition_key \<Rightarrow> u64 \<Rightarrow> runner \<Rightarrow> runner option" where
  "worker_exit key gen r =
     (case hget (ds_partitions (ru_dispatch r)) key of
        Some h \<Rightarrow>
          if ph_alive h \<and> ph_hand h = None \<and> ph_queue h = [] \<and> ph_gen h = gen
          then Some (r\<lparr> ru_dispatch := (ru_dispatch r)\<lparr> ds_partitions :=
                         hdel key (ds_partitions (ru_dispatch r)) \<rparr> \<rparr>)
          else None
      | None \<Rightarrow> None)"

text \<open>A halt or a killed task: the receiver is dropped with all it holds, the handle stays.\<close>

definition worker_dies :: "partition_key \<Rightarrow> runner \<Rightarrow> runner" where
  "worker_dies key r = map_handle key (\<lambda>h. h\<lparr> ph_queue := [], ph_hand := None, ph_alive := False \<rparr>) r"

end
