(* ===== verification/Reactor_Floor.thy ===== *)
theory Reactor_Floor
  imports Reactor_Dispatch "HOL-Library.Sublist"
begin

text \<open>
  The invariant of the dispatch half of the reactor runner (\<open>Reactor_Dispatch\<close>) and the properties
  that rest on it: the durable ack-floor never passes a trigger that is neither finished nor
  skipped, partitions finish in log order, \<open>drained\<close> tells the truth, the window bounds the work
  outstanding. The invariant is split into the floor, the scan, the coverage, the queues and the
  per-workflow counts; each operation preserves each part.
\<close>

section \<open>The invariant\<close>

abbreviation pend :: "runner \<Rightarrow> (log_cursor \<times> pending_trigger) list" where
  "pend r \<equiv> ds_pending (ru_dispatch r)"

definition unacked :: "dispatch_state \<Rightarrow> log_cursor \<Rightarrow> bool" where
  "unacked d p \<longleftrightarrow> (\<exists>pt. hget (ds_pending d) p = Some pt \<and> \<not> pt_acked pt)"

definition is_trigger :: "runner_config \<Rightarrow> recorded_event \<Rightarrow> bool" where
  "is_trigger cfg e \<longleftrightarrow> matches_kind (re_event_type e) (rc_kind cfg)"

definition floor_inv :: "dispatch_state \<Rightarrow> bool" where
  "floor_inv d \<longleftrightarrow>
     bt_wf (ds_pending d) \<and> length (ds_pending d) \<le> max_pending \<and> ds_floor d \<le> ds_ingest_pos d \<and>
     (\<forall>p \<in> fst ` set (ds_pending d). ds_floor d < p \<and> p \<le> ds_ingest_pos d)"

definition scan_inv :: "runner_config \<Rightarrow> runner \<Rightarrow> bool" where
  "scan_inv cfg r \<longleftrightarrow>
     log_inv (ru_store r) \<and> ru_start r \<le> ds_floor (ru_dispatch r) \<and>
     stored_cursor cfg (ru_store r) \<le> ds_floor (ru_dispatch r) \<and>
     ds_ingest_pos (ru_dispatch r) \<le> latest_position (ru_store r) \<and>
     ru_scanned r = filter (\<lambda>e. ru_start r < re_position e \<and>
                                re_position e \<le> ds_ingest_pos (ru_dispatch r))
                      (global_log (ru_store r))"

definition cover_inv :: "runner_config \<Rightarrow> runner \<Rightarrow> bool" where
  "cover_inv cfg r \<longleftrightarrow>
     (\<forall>e \<in> set (ru_scanned r). is_trigger cfg e \<longrightarrow>
        re_position e \<in> fst ` set (pend r) \<or> e \<in> set (ru_finished r) \<or> e \<in> set (ru_skipped r)) \<and>
     (\<forall>p pt. hget (pend r) p = Some pt \<longrightarrow>
        (\<exists>e \<in> set (ru_scanned r). re_position e = p \<and> (pt_acked pt \<longrightarrow> e \<in> set (ru_finished r))))"

definition handle_events :: "partition_handle \<Rightarrow> recorded_event list" where
  "handle_events h = (case ph_hand h of Some e \<Rightarrow> [e] | None \<Rightarrow> []) @ ph_queue h"

definition in_work :: "runner_config \<Rightarrow> runner \<Rightarrow> recorded_event \<Rightarrow> bool" where
  "in_work cfg r e \<longleftrightarrow>
     e \<in> set (ru_scanned r) \<and> is_trigger cfg e \<and> unacked (ru_dispatch r) (re_position e)"

abbreviation key_of :: "runner_config \<Rightarrow> recorded_event \<Rightarrow> partition_key" where
  "key_of cfg e \<equiv> partition_key_for (rc_ordering cfg) e"

definition handle_inv :: "runner_config \<Rightarrow> runner \<Rightarrow> partition_key \<Rightarrow> partition_handle \<Rightarrow> bool" where
  "handle_inv cfg r key h \<longleftrightarrow>
     sorted_wrt (\<lambda>x y. re_position x < re_position y) (handle_events h) \<and>
     (\<forall>e \<in> set (handle_events h). in_work cfg r e \<and> key_of cfg e = key \<and>
        (\<forall>x \<in> set (ru_finished r). key_of cfg x = key \<longrightarrow> re_position x < re_position e) \<and>
        re_position e \<notin> cp_position ` set (ru_completions r))"

definition channel_inv :: "runner_config \<Rightarrow> runner \<Rightarrow> bool" where
  "channel_inv cfg r \<longleftrightarrow>
     distinct (map cp_position (ru_completions r)) \<and>
     (\<forall>c \<in> set (ru_completions r). \<exists>e \<in> set (ru_finished r).
        in_work cfg r e \<and> re_position e = cp_position c \<and> re_workflow_id e = cp_workflow c)"

definition finished_inv :: "runner_config \<Rightarrow> runner \<Rightarrow> bool" where
  "finished_inv cfg r \<longleftrightarrow>
     set (ru_finished r) \<subseteq> set (ru_scanned r) \<and>
     sorted_wrt (\<lambda>x y. key_of cfg x = key_of cfg y \<longrightarrow> re_position x < re_position y) (ru_finished r)"

definition queue_inv :: "runner_config \<Rightarrow> runner \<Rightarrow> bool" where
  "queue_inv cfg r \<longleftrightarrow>
     (\<forall>key h. hget (ds_partitions (ru_dispatch r)) key = Some h \<longrightarrow> handle_inv cfg r key h) \<and>
     channel_inv cfg r \<and> finished_inv cfg r"

lemmas queue_defs = queue_inv_def handle_inv_def channel_inv_def finished_inv_def

definition wf_count :: "dispatch_state \<Rightarrow> recorded_event list \<Rightarrow> uuid \<Rightarrow> nat" where
  "wf_count d es w = length (filter (\<lambda>e. unacked d (re_position e) \<and> re_workflow_id e = w) es)"

definition wf_inv :: "runner \<Rightarrow> bool" where
  "wf_inv r \<longleftrightarrow>
     (\<forall>w. hget (ds_wf_pending (ru_dispatch r)) w =
        (let n = wf_count (ru_dispatch r) (ru_scanned r) w in if n = 0 then None else Some (of_nat n)))"

definition runner_inv :: "runner_config \<Rightarrow> runner \<Rightarrow> bool" where
  "runner_inv cfg r \<longleftrightarrow>
     (if ds_started (ru_dispatch r)
      then floor_inv (ru_dispatch r) \<and> scan_inv cfg r \<and> cover_inv cfg r \<and> queue_inv cfg r \<and> wf_inv r
      else ru_dispatch r = dispatch_new \<and> ru_completions r = [] \<and> ru_scanned r = [] \<and>
           ru_finished r = [] \<and> log_inv (ru_store r) \<and> ru_start r = stored_cursor cfg (ru_store r) \<and>
           ru_start r \<le> latest_position (ru_store r))"

lemma scanned_sorted:
  "scan_inv cfg r \<Longrightarrow> sorted_wrt (\<lambda>x y. re_position x < re_position y) (ru_scanned r)"
  by (simp add: scan_inv_def log_inv_positions_sorted sorted_wrt_filter)

lemma sorted_wrt_pos_distinct:
  "sorted_wrt (\<lambda>x y. f x < (f y :: 'b::linorder)) xs \<Longrightarrow> distinct (map f xs)"
  by (induction xs) (auto dest!: bspec)

lemma sorted_wrt_pos_inj:
  assumes "sorted_wrt (\<lambda>x y. f x < (f y :: 'b::linorder)) xs" "x \<in> set xs" "y \<in> set xs" "f x = f y"
  shows "x = y"
  using sorted_wrt_pos_distinct [OF assms(1)] assms(2-4) by (simp add: distinct_map inj_on_def)

lemmas scanned_pos_inj = sorted_wrt_pos_inj [where f = re_position, OF scanned_sorted]

lemma in_work_inj:
  "scan_inv cfg r \<Longrightarrow> in_work cfg r x \<Longrightarrow> in_work cfg r y \<Longrightarrow> re_position x = re_position y \<Longrightarrow> x = y"
  using scanned_pos_inj by (auto simp: in_work_def)

section \<open>Start\<close>

lemma ensure_started_inv:
  assumes "runner_inv cfg r"
  shows "runner_inv cfg (ensure_started cfg r) \<and> ds_started (ru_dispatch (ensure_started cfg r))"
proof (cases "ds_started (ru_dispatch r)")
  case False
  then have new: "ru_dispatch r = dispatch_new" "ru_completions r = []" "ru_scanned r = []"
    "ru_finished r = []" "log_inv (ru_store r)" "ru_start r = stored_cursor cfg (ru_store r)"
    "ru_start r \<le> latest_position (ru_store r)"
    using assms unfolding runner_inv_def by auto
  let ?r = "ensure_started cfg r"
  have eq: "?r = r\<lparr> ru_dispatch := dispatch_new\<lparr> ds_ingest_pos := ru_start r, ds_floor := ru_start r,
      ds_persisted_floor := Some (ru_start r), ds_started := True \<rparr> \<rparr>"
    using False new by (simp add: ensure_started_def Let_def)
  have "floor_inv (ru_dispatch ?r)"
    by (simp add: eq floor_inv_def dispatch_new_def)
  moreover have "scan_inv cfg ?r"
    using new by (simp add: eq scan_inv_def dispatch_new_def) (simp add: filter_empty_conv not_less)
  moreover have "cover_inv cfg ?r" using new by (simp add: eq cover_inv_def dispatch_new_def)
  moreover have "queue_inv cfg ?r" using new by (simp add: eq queue_defs dispatch_new_def)
  moreover have "wf_inv ?r" using new by (simp add: eq wf_inv_def dispatch_new_def wf_count_def)
  ultimately show ?thesis by (simp add: runner_inv_def eq dispatch_new_def)
qed (use assms in \<open>simp add: ensure_started_def Let_def\<close>)

section \<open>The floor moves over acked triggers only\<close>

lemma pop_acked_spec:
  assumes "pop_acked cfg m fl gc = (m', fl', gc')" "bt_wf m" "\<forall>p \<in> fst ` set m. fl < p"
  shows "\<exists>pre. m = pre @ m' \<and> (\<forall>x \<in> set pre. pt_acked (snd x) \<and> fst x \<le> fl') \<and> fl \<le> fl' \<and>
               (fl' = fl \<or> fl' \<in> fst ` set pre) \<and> (\<forall>p \<in> fst ` set m'. fl' < p)"
  using assms
proof (induction cfg m fl gc rule: pop_acked.induct)
  case (2 cfg pos p m fl gc)
  show ?case
  proof (cases "pt_acked p")
    case False
    then show ?thesis using 2 by (intro exI [of _ "[]"]) auto
  next
    case True
    have "fl < pos" using 2(4) by simp
    moreover have "\<forall>q \<in> fst ` set m. pos < q" "bt_wf m" using 2(3) by (auto simp: bt_wf_Cons)
    moreover have "pop_acked cfg m (if fl < pos then pos else fl)
             (if \<not> pt_parked p \<and> rc_effect_store cfg
              then gc @ map (\<lambda>l. \<lparr> ek_consumer = rc_consumer cfg, ek_trigger = pt_event_id p,
                                   ek_label = l \<rparr>) (pt_effect_labels p)
              else gc) = (m', fl', gc')"
      using 2(2) True by simp
    ultimately have "\<exists>pre. m = pre @ m' \<and> (\<forall>x \<in> set pre. pt_acked (snd x) \<and> fst x \<le> fl') \<and> pos \<le> fl' \<and>
               (fl' = pos \<or> fl' \<in> fst ` set pre) \<and> (\<forall>p \<in> fst ` set m'. fl' < p)"
      using 2(1) True by simp
    then obtain pre where "m = pre @ m'" "\<forall>x \<in> set pre. pt_acked (snd x) \<and> fst x \<le> fl'" "pos \<le> fl'"
      "fl' = pos \<or> fl' \<in> fst ` set pre" "\<forall>p \<in> fst ` set m'. fl' < p"
      by blast
    with True \<open>fl < pos\<close> show ?thesis by (intro exI [of _ "(pos, p) # pre"]) auto
  qed
qed auto

lemma unacked_iff:
  "bt_wf (ds_pending d) \<Longrightarrow>
     unacked d p \<longleftrightarrow> (\<exists>pt. (p, pt) \<in> set (ds_pending d) \<and> \<not> pt_acked pt)"
  by (simp add: unacked_def bt_wf_hget_iff)

lemma bt_wf_append: "bt_wf (xs @ ys) \<Longrightarrow> bt_wf xs \<and> bt_wf ys"
  by (simp add: bt_wf_def sorted_wrt_append)

lemma unacked_drop_acked:
  assumes "bt_wf (ds_pending d)" "ds_pending d = pre @ m'" "\<forall>x \<in> set pre. pt_acked (snd x)"
    "ds_pending d' = m'"
  shows "unacked d' = unacked d"
proof -
  have "bt_wf (ds_pending d')" using assms(1,2,4) bt_wf_append [of pre m'] by simp
  then show ?thesis
    using assms by (auto simp: unacked_iff fun_eq_iff)
qed

lemma stored_cursor_advance:
  "stored_cursor cfg (cursor_advance (rc_consumer cfg) p s) \<le> max (stored_cursor cfg s) p"
  by (auto simp: stored_cursor_def mem_ckpt.get_advance split: option.split)

text \<open>The part of the invariant that only looks at the pending map through \<open>unacked\<close>.\<close>

lemma queue_inv_cong:
  assumes "queue_inv cfg r" "unacked (ru_dispatch r') = unacked (ru_dispatch r)"
    "ds_partitions (ru_dispatch r') = ds_partitions (ru_dispatch r)"
    "ru_scanned r' = ru_scanned r" "ru_finished r' = ru_finished r"
    "ru_completions r' = ru_completions r"
  shows "queue_inv cfg r'"
proof -
  have "in_work cfg r' = in_work cfg r" using assms(2,4) by (auto simp: in_work_def fun_eq_iff)
  then show ?thesis using assms unfolding queue_defs by simp
qed

lemma wf_inv_cong:
  assumes "wf_inv r" "unacked (ru_dispatch r') = unacked (ru_dispatch r)"
    "ds_wf_pending (ru_dispatch r') = ds_wf_pending (ru_dispatch r)" "ru_scanned r' = ru_scanned r"
  shows "wf_inv r'"
  using assms by (simp add: wf_inv_def wf_count_def)

lemma advance_floor_shape:
  assumes "ds_started (ru_dispatch r)" "floor_inv (ru_dispatch r)" "advance_floor cfg ok r = (b, r')"
  shows "\<exists>pre m' fl'. pend r = pre @ m' \<and> (\<forall>x \<in> set pre. pt_acked (snd x)) \<and>
           pend r' = m' \<and> ds_floor (ru_dispatch r') = fl' \<and> ds_floor (ru_dispatch r) \<le> fl' \<and>
           fl' \<le> ds_ingest_pos (ru_dispatch r) \<and> (\<forall>p \<in> fst ` set m'. fl' < p) \<and>
           ds_started (ru_dispatch r') \<and> ds_ingest_pos (ru_dispatch r') = ds_ingest_pos (ru_dispatch r) \<and>
           ds_partitions (ru_dispatch r') = ds_partitions (ru_dispatch r) \<and>
           ds_wf_pending (ru_dispatch r') = ds_wf_pending (ru_dispatch r) \<and>
           ru_scanned r' = ru_scanned r \<and> ru_finished r' = ru_finished r \<and> ru_skipped r' = ru_skipped r \<and>
           ru_completions r' = ru_completions r \<and> ru_start r' = ru_start r \<and> ru_fence r' = ru_fence r \<and>
           (ru_store r' = ru_store r \<or> ru_store r' = cursor_advance (rc_consumer cfg) fl' (ru_store r))"
proof -
  let ?d = "ru_dispatch r"
  obtain m' fl1 gc where pop: "pop_acked cfg (ds_pending ?d) (ds_floor ?d) [] = (m', fl1, gc)"
    by (metis prod_cases3)
  from pop_acked_spec [OF pop] assms(2)
  obtain pre where pre: "ds_pending ?d = pre @ m'" "\<forall>x \<in> set pre. pt_acked (snd x) \<and> fst x \<le> fl1"
    "ds_floor ?d \<le> fl1" "fl1 = ds_floor ?d \<or> fl1 \<in> fst ` set pre" "\<forall>p \<in> fst ` set m'. fl1 < p"
    by (auto simp: floor_inv_def)
  have le: "fl1 \<le> ds_ingest_pos ?d"
    using pre(1,4) assms(2) by (auto simp: floor_inv_def)
  define fl' where "fl' = (if m' = [] \<and> fl1 < ds_ingest_pos ?d then ds_ingest_pos ?d else fl1)"
  have fl': "ds_floor ?d \<le> fl'" "fl' \<le> ds_ingest_pos ?d" "\<forall>p \<in> fst ` set m'. fl' < p"
    using pre le by (auto simp: fl'_def)
  have r': "ru_dispatch r' = ?d\<lparr> ds_pending := m', ds_floor := fl',
                ds_persisted_floor := ds_persisted_floor (ru_dispatch r') \<rparr>"
    "ru_scanned r' = ru_scanned r" "ru_finished r' = ru_finished r" "ru_skipped r' = ru_skipped r"
    "ru_completions r' = ru_completions r" "ru_start r' = ru_start r" "ru_fence r' = ru_fence r"
    "ru_store r' = ru_store r \<or> ru_store r' = cursor_advance (rc_consumer cfg) fl' (ru_store r)"
    using assms(3) unfolding advance_floor_def Let_def pop fl'_def [symmetric] case_prod_conv
    by (auto simp: assms(1) split: if_splits)
  show ?thesis
    using pre(1,2) fl' r'(2-) assms(1)
    by (intro exI [of _ pre] exI [of _ m'] exI [of _ fl']) (subst r'(1), simp)+
qed

lemma advance_floor_inv:
  assumes started: "ds_started (ru_dispatch r)" and inv: "runner_inv cfg r"
    and adv: "advance_floor cfg ok r = (b, r')"
  shows "runner_inv cfg r' \<and> ds_started (ru_dispatch r')"
proof -
  have parts: "floor_inv (ru_dispatch r)" "scan_inv cfg r" "cover_inv cfg r" "queue_inv cfg r" "wf_inv r"
    using inv started by (simp_all add: runner_inv_def)
  obtain pre m' fl' where sh: "pend r = pre @ m'" "\<forall>x \<in> set pre. pt_acked (snd x)" "pend r' = m'"
    "ds_floor (ru_dispatch r') = fl'" "ds_floor (ru_dispatch r) \<le> fl'"
    "fl' \<le> ds_ingest_pos (ru_dispatch r)" "\<forall>p \<in> fst ` set m'. fl' < p"
    "ds_started (ru_dispatch r')" "ds_ingest_pos (ru_dispatch r') = ds_ingest_pos (ru_dispatch r)"
    "ds_partitions (ru_dispatch r') = ds_partitions (ru_dispatch r)"
    "ds_wf_pending (ru_dispatch r') = ds_wf_pending (ru_dispatch r)"
    "ru_scanned r' = ru_scanned r" "ru_finished r' = ru_finished r" "ru_skipped r' = ru_skipped r"
    "ru_completions r' = ru_completions r" "ru_start r' = ru_start r"
    "ru_store r' = ru_store r \<or> ru_store r' = cursor_advance (rc_consumer cfg) fl' (ru_store r)"
    using advance_floor_shape [OF started parts(1) adv] by blast
  have wf: "bt_wf (pend r)" "bt_wf m'"
    using parts(1) sh(1) bt_wf_append [of pre m'] by (simp_all add: floor_inv_def)
  have un: "unacked (ru_dispatch r') = unacked (ru_dispatch r)"
    by (rule unacked_drop_acked [OF wf(1) sh(1,2,3)])
  have "floor_inv (ru_dispatch r')"
    using parts(1) sh wf(2) by (auto simp: floor_inv_def)
  moreover have "scan_inv cfg r'"
  proof -
    have "same_log (ru_store r) (ru_store r')"
      using sh(17) cursor_advance_log by (auto simp: same_log_def)
    then have l: "log_inv (ru_store r')" "global_log (ru_store r') = global_log (ru_store r)"
      using parts(2) same_log_inv by (auto simp: scan_inv_def same_log_def)
    have "latest_position (ru_store r') = latest_position (ru_store r)"
      using l(2) by (simp add: latest_position_def)
    moreover have "stored_cursor cfg (ru_store r') \<le> fl'"
      using sh(5,17) parts(2) stored_cursor_advance [of cfg fl' "ru_store r"]
      by (auto simp: scan_inv_def max_def split: if_splits)
    moreover have "ru_start r \<le> fl'" using parts(2) sh(5) by (auto simp: scan_inv_def)
    ultimately show ?thesis using parts(2) sh l by (simp add: scan_inv_def)
  qed
  moreover have "cover_inv cfg r'"
  proof -
    have *: "re_position e \<in> fst ` set m' \<or> e \<in> set (ru_finished r)"
      if e: "e \<in> set (ru_scanned r)" "re_position e \<in> fst ` set (pend r)" for e
    proof (cases "re_position e \<in> fst ` set m'")
      case False
      with e sh(1) obtain pt where pt: "(re_position e, pt) \<in> set pre" by auto
      then have "(re_position e, pt) \<in> set (pend r)" "pt_acked pt" using sh(1,2) by auto
      then have "hget (pend r) (re_position e) = Some pt" "pt_acked pt"
        using bt_wf_hget_iff [OF wf(1)] by blast+
      then obtain x where "x \<in> set (ru_scanned r)" "re_position x = re_position e" "x \<in> set (ru_finished r)"
        using parts(3) unfolding cover_inv_def by blast
      then show ?thesis using scanned_pos_inj [OF parts(2), of x e] e by simp
    qed simp
    have "hget m' p = Some pt \<Longrightarrow> hget (pend r) p = Some pt" for p pt
      using bt_wf_hget_iff [OF wf(1)] bt_wf_hget_iff [OF wf(2)] sh(1) by simp
    then show ?thesis using parts(3) * unfolding cover_inv_def sh by blast
  qed
  moreover have "queue_inv cfg r'" by (rule queue_inv_cong [OF parts(4) un sh(10,12,13,15)])
  moreover have "wf_inv r'" by (rule wf_inv_cong [OF parts(5) un sh(11,12)])
  ultimately show ?thesis using sh(8) by (simp add: runner_inv_def)
qed

section \<open>Acks\<close>

lemma ack_pending:
  assumes "bt_wf (ds_pending d)"
  shows "hget (ds_pending (ack c d)) p =
           (if p = cp_position c
            then map_option (\<lambda>pt. pt\<lparr> pt_acked := True, pt_parked := cp_parked c,
                                      pt_effect_labels := cp_effect_labels c \<rparr>) (hget (ds_pending d) p)
            else hget (ds_pending d) p)"
    and "bt_wf (ds_pending (ack c d))"
    and "fst ` set (ds_pending (ack c d)) = fst ` set (ds_pending d)"
    and "length (ds_pending (ack c d)) = length (ds_pending d)"
proof -
  have keys: "fst ` set (bt_insert k v m) = fst ` set m" if "hget m k = Some w" for k v w
    and m :: "(log_cursor \<times> pending_trigger) list"
    using that by (auto simp: keys_bt_insert rev_image_eqI dest: map_of_SomeD)
  have len: "length (bt_insert k v m) = length m" if "hget m k = Some w" "bt_wf m" for k v w
    and m :: "(log_cursor \<times> pending_trigger) list"
  proof -
    have "length m' = card (fst ` set m')" if "bt_wf m'" for m' :: "(log_cursor \<times> pending_trigger) list"
      using bt_wf_distinct [OF that] by (metis distinct_card length_map list.set_map)
    then show ?thesis using that keys by simp
  qed
  show "bt_wf (ds_pending (ack c d))"
    using assms by (simp add: ack_def Let_def split: option.split)
  show "fst ` set (ds_pending (ack c d)) = fst ` set (ds_pending d)"
    using keys by (auto simp: ack_def Let_def split: option.split)
  show "length (ds_pending (ack c d)) = length (ds_pending d)"
    using len assms by (auto simp: ack_def Let_def split: option.split)
  show "hget (ds_pending (ack c d)) p =
           (if p = cp_position c
            then map_option (\<lambda>pt. pt\<lparr> pt_acked := True, pt_parked := cp_parked c,
                                      pt_effect_labels := cp_effect_labels c \<rparr>) (hget (ds_pending d) p)
            else hget (ds_pending d) p)"
    using assms by (auto simp: ack_def Let_def split: option.split)
qed

lemma ack_other [simp]:
  "ds_started (ack c d) = ds_started d" "ds_floor (ack c d) = ds_floor d"
  "ds_ingest_pos (ack c d) = ds_ingest_pos d" "ds_partitions (ack c d) = ds_partitions d"
  by (simp_all add: ack_def Let_def split: option.split)

lemma ack_unacked:
  "bt_wf (ds_pending d) \<Longrightarrow> unacked (ack c d) p \<longleftrightarrow> unacked d p \<and> p \<noteq> cp_position c"
  by (auto simp: unacked_def ack_pending)

lemma ack_wf_pending:
  "hget (ds_wf_pending (ack c d)) w =
     (if w = cp_workflow c
      then (case hget (ds_wf_pending d) w of
              Some n \<Rightarrow> if n - 1 = 0 then None else Some (n - 1) | None \<Rightarrow> None)
      else hget (ds_wf_pending d) w)"
  by (auto simp: ack_def Let_def split: option.split)

lemma length_filter_but:
  "distinct xs \<Longrightarrow> e \<in> set xs \<Longrightarrow> P e \<Longrightarrow>
     length (filter P xs) = Suc (length (filter (\<lambda>x. P x \<and> x \<noteq> e) xs))"
proof (induction xs)
  case (Cons x xs)
  show ?case
  proof (cases "x = e")
    case True
    then have "filter (\<lambda>x. P x \<and> x \<noteq> e) xs = filter P xs"
      using Cons.prems(1) by (auto intro: filter_cong)
    then show ?thesis using True Cons.prems(3) by simp
  qed (use Cons in auto)
qed simp

lemma wf_count_le:
  assumes "floor_inv (ru_dispatch r)" "scan_inv cfg r"
  shows "wf_count (ru_dispatch r) (ru_scanned r) w \<le> max_pending"
proof -
  let ?es = "filter (\<lambda>e. unacked (ru_dispatch r) (re_position e) \<and> re_workflow_id e = w) (ru_scanned r)"
  have "distinct (map re_position ?es)"
    by (rule sorted_wrt_pos_distinct, rule sorted_wrt_filter, rule scanned_sorted, rule assms)
  then have "card (set (map re_position ?es)) = length (map re_position ?es)" by (rule distinct_card)
  then have "length ?es = card (set (map re_position ?es))" by (simp only: length_map)
  also have "\<dots> \<le> card (fst ` set (pend r))"
    by (rule card_mono) (auto simp: unacked_def rev_image_eqI dest: map_of_SomeD)
  also have "\<dots> \<le> length (pend r)" using card_length [of "map fst (pend r)"] by simp
  finally show ?thesis using assms(1) by (simp add: wf_count_def floor_inv_def)
qed

lemma word_of_nat_pred:
  assumes "n \<le> max_pending"
  shows "(of_nat (Suc n) - 1 :: u32) = of_nat n" "(of_nat n :: u32) = 0 \<longleftrightarrow> n = 0"
proof -
  show "(of_nat (Suc n) - 1 :: u32) = of_nat n" by simp
  have "unat (of_nat n :: u32) = n"
    using assms by (simp add: unsigned_of_nat take_bit_nat_eq_self_iff max_pending_def)
  then show "(of_nat n :: u32) = 0 \<longleftrightarrow> n = 0" unfolding word_unat_eq_iff by simp
qed

lemma ack_inv:
  assumes started: "ds_started (ru_dispatch r)" and inv: "runner_inv cfg r"
    and cs: "ru_completions r = c # cs"
  shows "runner_inv cfg (r\<lparr> ru_completions := cs, ru_dispatch := ack c (ru_dispatch r) \<rparr>)"
proof -
  let ?r = "r\<lparr> ru_completions := cs, ru_dispatch := ack c (ru_dispatch r) \<rparr>" and ?d = "ru_dispatch r"
  have parts: "floor_inv ?d" "scan_inv cfg r" "cover_inv cfg r" "queue_inv cfg r" "wf_inv r"
    using inv started by (simp_all add: runner_inv_def)
  have wf: "bt_wf (ds_pending ?d)" using parts(1) by (simp add: floor_inv_def)
  note ap = ack_pending [OF wf, of c]
  obtain e where e: "e \<in> set (ru_finished r)" "in_work cfg r e" "re_position e = cp_position c"
      "re_workflow_id e = cp_workflow c"
    using parts(4) cs by (auto simp: queue_inv_def channel_inv_def)
  have scan': "scan_inv cfg ?r" using parts(2) by (simp add: scan_inv_def)
  have work: "in_work cfg ?r x \<longleftrightarrow> in_work cfg r x \<and> re_position x \<noteq> cp_position c" for x
    using ack_unacked [OF wf, of c] by (auto simp: in_work_def)
  have "floor_inv (ru_dispatch ?r)"
    using parts(1) ap(2-4) by (simp add: floor_inv_def)
  moreover have "cover_inv cfg ?r"
    using parts(3) e ap(1,3) unfolding cover_inv_def in_work_def
    by (auto split: if_splits)
  moreover have "queue_inv cfg ?r"
    unfolding queue_inv_def
  proof (intro conjI allI impI)
    show "handle_inv cfg ?r key h" if "hget (ds_partitions (ru_dispatch ?r)) key = Some h" for key h
    proof -
      have "handle_inv cfg r key h" using that parts(4) by (simp add: queue_inv_def)
      then show ?thesis using cs unfolding handle_inv_def work by simp
    qed
    have ch: "cp_position c' \<noteq> cp_position c" if "c' \<in> set cs" for c'
      using parts(4) cs that by (auto simp: queue_inv_def channel_inv_def rev_image_eqI)
    have chan: "channel_inv cfg r" using parts(4) by (simp add: queue_inv_def)
    have "\<exists>x \<in> set (ru_finished r). (in_work cfg r x \<and> re_position x \<noteq> cp_position c) \<and>
            re_position x = cp_position c' \<and> re_workflow_id x = cp_workflow c'" if "c' \<in> set cs" for c'
    proof -
      obtain x where "x \<in> set (ru_finished r)" "in_work cfg r x" "re_position x = cp_position c'"
        "re_workflow_id x = cp_workflow c'"
        using chan cs \<open>c' \<in> set cs\<close> by (auto simp: channel_inv_def)
      with ch [OF that] show ?thesis by auto
    qed
    then show "channel_inv cfg ?r"
      using chan cs unfolding channel_inv_def work by simp
    show "finished_inv cfg ?r"
      using parts(4) by (simp add: queue_inv_def finished_inv_def)
  qed
  moreover have "wf_inv ?r"
    unfolding wf_inv_def
  proof
    fix w
    let ?n = "wf_count ?d (ru_scanned r) w" and ?n' = "wf_count (ack c ?d) (ru_scanned r) w"
    have same: "unacked (ack c ?d) (re_position x) \<longleftrightarrow> unacked ?d (re_position x) \<and> x \<noteq> e"
      if "x \<in> set (ru_scanned r)" for x
      using ack_unacked [OF wf, of c "re_position x"] scanned_pos_inj [OF parts(2), of x e] that e
      by (auto simp: in_work_def)
    have n': "?n' = length (filter (\<lambda>x. (unacked ?d (re_position x) \<and> re_workflow_id x = w) \<and> x \<noteq> e) (ru_scanned r))"
      unfolding wf_count_def by (rule arg_cong [where f = length], rule filter_cong) (auto simp: same)
    have dist: "distinct (ru_scanned r)"
      using sorted_wrt_pos_distinct [OF scanned_sorted [OF parts(2)]] by (simp add: distinct_map)
    have old: "hget (ds_wf_pending ?d) w = (if ?n = 0 then None else Some (of_nat ?n))"
      using parts(5) by (simp add: wf_inv_def Let_def)
    have "hget (ds_wf_pending (ack c ?d)) w = (if ?n' = 0 then None else Some (of_nat ?n'))"
    proof (cases "w = cp_workflow c")
      case True
      have n: "?n = Suc ?n'"
        unfolding n' unfolding wf_count_def
        by (rule length_filter_but) (use dist e True in \<open>auto simp: in_work_def\<close>)
      have "?n' \<le> max_pending" using wf_count_le [OF parts(1,2), of w] n by simp
      note pred = word_of_nat_pred [OF this]
      have "hget (ds_wf_pending ?d) w = Some (of_nat (Suc ?n'))" using old n by simp
      then have "hget (ds_wf_pending (ack c ?d)) w =
          (if (of_nat (Suc ?n') - 1 :: u32) = 0 then None else Some (of_nat (Suc ?n') - 1))"
        by (simp only: ack_wf_pending True option.case if_True simp_thms)
      then show ?thesis unfolding pred .
    next
      case False
      have "?n' = ?n" unfolding n' unfolding wf_count_def
        by (rule arg_cong [where f = length], rule filter_cong) (use False e in auto)
      then show ?thesis using old False by (simp add: ack_wf_pending)
    qed
    then show "hget (ds_wf_pending (ru_dispatch ?r)) w =
        (let n = wf_count (ru_dispatch ?r) (ru_scanned ?r) w in if n = 0 then None else Some (of_nat n))"
      by (simp add: Let_def)
  qed
  ultimately show ?thesis using started scan' by (simp add: runner_inv_def)
qed

lemma ack_all_inv:
  assumes "ds_started (ru_dispatch r)" "runner_inv cfg r" "ru_completions r = cs"
  shows "runner_inv cfg (r\<lparr> ru_completions := [], ru_dispatch := ack_all cs (ru_dispatch r) \<rparr>) \<and>
         ds_started (ack_all cs (ru_dispatch r))"
  using assms
proof (induction cs arbitrary: r)
  case (Cons c cs)
  let ?r = "r\<lparr> ru_completions := cs, ru_dispatch := ack c (ru_dispatch r) \<rparr>"
  have "runner_inv cfg ?r" using ack_inv [OF Cons.prems] .
  from Cons.IH [OF _ this] Cons.prems(1) show ?case by simp
next
  case Nil
  then have eq: "r\<lparr> ru_completions := [], ru_dispatch := ack_all [] (ru_dispatch r) \<rparr> = r"
    by (cases r) simp
  show ?case unfolding eq using Nil by simp
qed

lemma reap_inv:
  assumes "ds_started (ru_dispatch r)" "runner_inv cfg r" "reap cfg ok r = (n, r')"
  shows "runner_inv cfg r' \<and> ds_started (ru_dispatch r')"
proof -
  let ?r1 = "r\<lparr> ru_completions := [], ru_dispatch := ack_all (ru_completions r) (ru_dispatch r) \<rparr>"
  have "runner_inv cfg ?r1 \<and> ds_started (ru_dispatch ?r1)"
    using ack_all_inv [OF assms(1,2) refl] by simp
  moreover obtain b where "advance_floor cfg ok ?r1 = (b, r')"
    using assms(3) by (auto simp: reap_def Let_def split: prod.splits)
  ultimately show ?thesis using advance_floor_inv by blast
qed

section \<open>Ingestion\<close>

lemma latest_position_ge:
  assumes "log_inv s" "e \<in> set (global_log s)"
  shows "re_position e \<le> latest_position s"
proof -
  obtain xs x where xs: "global_log s = xs @ [x]" using assms(2) by (metis list.set(1) empty_iff rev_exhaust)
  then have "e = x \<or> re_position e < re_position x"
    using log_inv_positions_sorted [OF assms(1)] assms(2) by (auto simp: sorted_wrt_append)
  then show ?thesis using xs by (auto simp: latest_position_def)
qed

lemma length_bt_insert_le: "length (bt_insert k v m) \<le> Suc (length m)"
  by (induction k v m rule: bt_insert.induct) auto

lemma next_scanned:
  assumes sorted: "sorted_wrt (\<lambda>x y. re_position x < re_position y) rows"
    and nxt: "filter (\<lambda>x. c < re_position x) rows = e # rest" and le: "start \<le> c"
  shows "filter (\<lambda>x. start < re_position x \<and> re_position x \<le> re_position e) rows =
           filter (\<lambda>x. start < re_position x \<and> re_position x \<le> c) rows @ [e]"
    and "filter (\<lambda>x. re_position e < re_position x) rows = rest" and "c < re_position e"
proof -
  obtain us vs where split: "rows = us @ e # vs" "\<forall>u \<in> set us. \<not> c < re_position u" "c < re_position e"
    "rest = filter (\<lambda>x. c < re_position x) vs"
    using filter_eq_ConsD [OF nxt] by blast
  have vs: "\<forall>v \<in> set vs. re_position e < re_position v"
    and us: "\<forall>u \<in> set us. re_position u < re_position e"
    using sorted split(1) by (auto simp: sorted_wrt_append)
  have "filter (\<lambda>x. start < re_position x \<and> re_position x \<le> re_position e) us =
        filter (\<lambda>x. start < re_position x \<and> re_position x \<le> c) us"
    using us split(2) by (intro filter_cong) (auto simp: not_less)
  moreover have "filter (\<lambda>x. start < re_position x \<and> re_position x \<le> re_position e) vs = []"
    "filter (\<lambda>x. start < re_position x \<and> re_position x \<le> c) vs = []"
    using vs split(3) by (fastforce simp: filter_empty_conv)+
  ultimately show "filter (\<lambda>x. start < re_position x \<and> re_position x \<le> re_position e) rows =
           filter (\<lambda>x. start < re_position x \<and> re_position x \<le> c) rows @ [e]"
    using split(1,3) le le_less_trans [OF le split(3)] by (simp add: not_le)
  have "filter (\<lambda>x. re_position e < re_position x) us = []"
    using us by (auto simp: filter_empty_conv)
  moreover have "filter (\<lambda>x. re_position e < re_position x) vs = filter (\<lambda>x. c < re_position x) vs"
    using vs split(3) by (intro filter_cong) auto
  ultimately show "filter (\<lambda>x. re_position e < re_position x) rows = rest"
    using split(1,4) by simp
  show "c < re_position e" by (rule split(3))
qed

text \<open>What scanning one more event does to the parts that do not depend on what it is.\<close>

lemma scan_next:
  assumes "scan_inv cfg r" "floor_inv (ru_dispatch r)"
    "filter (\<lambda>x. ds_ingest_pos (ru_dispatch r) < re_position x) (global_log (ru_store r)) = e # rest"
    "ru_scanned r' = ru_scanned r @ [e]" "ru_store r' = ru_store r" "ru_start r' = ru_start r"
    "ds_ingest_pos (ru_dispatch r') = re_position e" "ds_floor (ru_dispatch r') = ds_floor (ru_dispatch r)"
  shows "scan_inv cfg r'"
    and "filter (\<lambda>x. re_position e < re_position x) (global_log (ru_store r)) = rest"
    and "\<forall>x \<in> set (ru_scanned r). re_position x < re_position e"
    and "\<forall>p \<in> fst ` set (pend r). p < re_position e"
    and "ds_floor (ru_dispatch r) < re_position e"
proof -
  have si: "log_inv (ru_store r)" "ru_start r \<le> ds_floor (ru_dispatch r)"
     "ru_scanned r = filter (\<lambda>e. ru_start r < re_position e \<and>
                                re_position e \<le> ds_ingest_pos (ru_dispatch r)) (global_log (ru_store r))"
    using assms(1) by (simp_all add: scan_inv_def)
  have fl: "ds_floor (ru_dispatch r) \<le> ds_ingest_pos (ru_dispatch r)"
    "\<forall>p \<in> fst ` set (pend r). p \<le> ds_ingest_pos (ru_dispatch r)"
    using assms(2) by (auto simp: floor_inv_def)
  have le: "ru_start r \<le> ds_ingest_pos (ru_dispatch r)" using si(2) fl(1) by simp
  note nxt = next_scanned [OF log_inv_positions_sorted [OF si(1)] assms(3) le]
  have "e \<in> set (global_log (ru_store r))"
    using assms(3) by (metis list.set_intros(1) filter_is_subset subsetD)
  from latest_position_ge [OF si(1) this] show "scan_inv cfg r'"
    using assms(1,4-8) nxt(1) by (simp add: scan_inv_def)
  show "filter (\<lambda>x. re_position e < re_position x) (global_log (ru_store r)) = rest" by (rule nxt(2))
  show "\<forall>x \<in> set (ru_scanned r). re_position x < re_position e" using nxt(3) si(3) by auto
  show "\<forall>p \<in> fst ` set (pend r). p < re_position e" using nxt(3) fl(2) by (meson le_less_trans)
  show "ds_floor (ru_dispatch r) < re_position e" using nxt(3) fl(1) by simp
qed

lemma enqueue_other [simp]:
  "ds_started (enqueue k e d) = ds_started d" "ds_ingest_pos (enqueue k e d) = ds_ingest_pos d"
  "ds_pending (enqueue k e d) = ds_pending d" "ds_floor (enqueue k e d) = ds_floor d"
  "ds_wf_pending (enqueue k e d) = ds_wf_pending d"
  by (simp_all add: enqueue_def Let_def split: option.split)

lemma enqueue_handle:
  assumes "hget (ds_partitions (enqueue k e d)) key = Some h"
  shows "(key \<noteq> k \<and> hget (ds_partitions d) key = Some h) \<or>
         (key = k \<and> (handle_events h = [e] \<or>
            (\<exists>h'. hget (ds_partitions d) key = Some h' \<and> handle_events h = handle_events h' @ [e])))"
  using assms
  by (auto simp: enqueue_def Let_def handle_events_def split: option.splits if_splits)

lemma ingest_quiet_inv:
  assumes started: "ds_started (ru_dispatch r)" and inv: "runner_inv cfg r"
    and nxt: "filter (\<lambda>x. ds_ingest_pos (ru_dispatch r) < re_position x) (global_log (ru_store r)) = e # rest"
    and r': "ru_dispatch r' = (ru_dispatch r)\<lparr> ds_ingest_pos := re_position e \<rparr>"
      "ru_scanned r' = ru_scanned r @ [e]" "ru_store r' = ru_store r" "ru_start r' = ru_start r"
      "ru_finished r' = ru_finished r" "ru_completions r' = ru_completions r"
      "set (ru_skipped r) \<subseteq> set (ru_skipped r')"
    and e: "is_trigger cfg e \<Longrightarrow> e \<in> set (ru_skipped r')"
  shows "runner_inv cfg r'"
proof -
  have parts: "floor_inv (ru_dispatch r)" "scan_inv cfg r" "cover_inv cfg r" "queue_inv cfg r" "wf_inv r"
    using inv started by (simp_all add: runner_inv_def)
  have scan: "scan_inv cfg r'" "\<forall>x \<in> set (ru_scanned r). re_position x < re_position e"
    "\<forall>p \<in> fst ` set (pend r). p < re_position e" "ds_floor (ru_dispatch r) < re_position e"
    using scan_next [OF parts(2,1) nxt r'(2-4)] r'(1) by simp_all
  have new: "\<not> unacked (ru_dispatch r) (re_position e)"
    using scan(3) by (fastforce simp: unacked_def dest: map_of_SomeD)
  have un: "unacked (ru_dispatch r') = unacked (ru_dispatch r)"
    using r'(1) by (simp add: unacked_def fun_eq_iff)
  have work: "in_work cfg r' = in_work cfg r"
    using new un r'(2) by (auto simp: in_work_def fun_eq_iff)
  have "floor_inv (ru_dispatch r')"
    using parts(1) r'(1) scan(3,4) by (auto simp: floor_inv_def)
  moreover have "cover_inv cfg r'"
    using parts(3) r' e unfolding cover_inv_def by fastforce
  moreover have "queue_inv cfg r'"
    using parts(4) r' work unfolding queue_defs by fastforce
  moreover have "wf_inv r'"
    using parts(5) r' un new by (simp add: wf_inv_def wf_count_def)
  ultimately show ?thesis using scan(1) started r'(1) by (simp add: runner_inv_def)
qed

lemma ingest_trigger_inv:
  assumes started: "ds_started (ru_dispatch r)" and inv: "runner_inv cfg r"
    and nxt: "filter (\<lambda>x. ds_ingest_pos (ru_dispatch r) < re_position x) (global_log (ru_store r)) = e # rest"
    and r': "ru_dispatch r' = enqueue (key_of cfg e) e (add_pending e (ru_dispatch r))"
      "ru_scanned r' = ru_scanned r @ [e]" "ru_store r' = ru_store r" "ru_start r' = ru_start r"
      "ru_finished r' = ru_finished r" "ru_completions r' = ru_completions r"
      "ru_skipped r' = ru_skipped r"
    and e: "is_trigger cfg e" and window: "length (pend r) < max_pending"
  shows "runner_inv cfg r'"
proof -
  let ?d = "ru_dispatch r" and ?d' = "ru_dispatch r'"
  have parts: "floor_inv ?d" "scan_inv cfg r" "cover_inv cfg r" "queue_inv cfg r" "wf_inv r"
    using inv started by (simp_all add: runner_inv_def)
  have d': "ds_started ?d'" "ds_ingest_pos ?d' = re_position e" "ds_floor ?d' = ds_floor ?d"
    using r'(1) started by (simp_all add: add_pending_def)
  have scan: "scan_inv cfg r'" "\<forall>x \<in> set (ru_scanned r). re_position x < re_position e"
    "\<forall>p \<in> fst ` set (pend r). p < re_position e" "ds_floor ?d < re_position e"
    using scan_next [OF parts(2,1) nxt r'(2-4)] d' by simp_all
  have wf: "bt_wf (pend r)" using parts(1) by (simp add: floor_inv_def)
  define pt where "pt = \<lparr> pt_event_id = re_event_id e, pt_acked = False, pt_parked = False,
            pt_effect_labels = [] \<rparr>"
  have pend': "pend r' = bt_insert (re_position e) pt (pend r)"
    using r'(1) by (simp add: add_pending_def pt_def)
  have get': "hget (pend r') p = (if p = re_position e then Some pt else hget (pend r) p)" for p
    using wf by (auto simp: pend')
  have old: "\<not> unacked ?d (re_position e)"
    using scan(3) by (fastforce simp: unacked_def dest: map_of_SomeD)
  have un: "unacked ?d' p \<longleftrightarrow> unacked ?d p \<or> p = re_position e" for p
    using get' by (auto simp: unacked_def pt_def)
  have work: "in_work cfg r' x \<longleftrightarrow> in_work cfg r x \<or> x = e" for x
    using un r'(2) e old scan(2) by (auto simp: in_work_def)
  have lt: "re_position x < re_position e" if "in_work cfg r x \<or> x \<in> set (ru_finished r)" for x
    using that scan(2) parts(4) by (auto simp: in_work_def queue_inv_def finished_inv_def)
  have "floor_inv ?d'"
    using parts(1) window d' wf scan(3,4) length_bt_insert_le [of "re_position e" pt "pend r"]
    by (auto simp: floor_inv_def pend' keys_bt_insert)
  moreover have "cover_inv cfg r'"
    unfolding cover_inv_def
  proof (intro conjI ballI allI impI)
    fix x assume "x \<in> set (ru_scanned r')" "is_trigger cfg x"
    then show "re_position x \<in> fst ` set (pend r') \<or> x \<in> set (ru_finished r') \<or> x \<in> set (ru_skipped r')"
      using parts(3) r'(2,5,7) by (auto simp: cover_inv_def pend' keys_bt_insert)
  next
    fix p q assume q: "hget (pend r') p = Some q"
    show "\<exists>x \<in> set (ru_scanned r'). re_position x = p \<and> (pt_acked q \<longrightarrow> x \<in> set (ru_finished r'))"
    proof (cases "p = re_position e")
      case True
      then show ?thesis using q r'(2) by (auto simp: get' pt_def)
    next
      case False
      then have "hget (pend r) p = Some q" using q by (simp add: get')
      then show ?thesis using parts(3) r'(2,5) unfolding cover_inv_def by fastforce
    qed
  qed
  moreover have "queue_inv cfg r'"
    unfolding queue_inv_def
  proof (intro conjI allI impI)
    fix key h assume h: "hget (ds_partitions ?d') key = Some h"
    have ok: "handle_inv cfg r key h'" if "hget (ds_partitions ?d) key = Some h'" for h'
      using that parts(4) by (simp add: queue_inv_def)
    have comp: "re_position e \<notin> cp_position ` set (ru_completions r)"
    proof
      assume "re_position e \<in> cp_position ` set (ru_completions r)"
      then obtain x where "x \<in> set (ru_finished r)" "re_position x = re_position e"
        using parts(4) by (auto simp: queue_inv_def channel_inv_def)
      then show False using lt [of x] by simp
    qed
    have "(key \<noteq> key_of cfg e \<and> hget (ds_partitions ?d) key = Some h) \<or>
         (key = key_of cfg e \<and> (handle_events h = [e] \<or>
            (\<exists>h'. hget (ds_partitions ?d) key = Some h' \<and> handle_events h = handle_events h' @ [e])))"
      using enqueue_handle [of "key_of cfg e" e "add_pending e ?d" key h] h r'(1)
      by (simp add: add_pending_def)
    then show "handle_inv cfg r' key h"
    proof (elim disjE conjE exE)
      assume "hget (ds_partitions ?d) key = Some h"
      from ok [OF this] show ?thesis using r' work by (simp add: handle_inv_def)
    next
      assume "key = key_of cfg e" "handle_events h = [e]"
      then show ?thesis using r' work lt comp by (simp add: handle_inv_def)
    next
      fix h' assume k: "key = key_of cfg e" "hget (ds_partitions ?d) key = Some h'"
        "handle_events h = handle_events h' @ [e]"
      have "\<forall>x \<in> set (handle_events h'). re_position x < re_position e"
        using ok [OF k(2)] lt by (simp add: handle_inv_def)
      then show ?thesis using ok [OF k(2)] k(1,3) r' work lt comp
        by (auto simp: handle_inv_def sorted_wrt_append)
    qed
  next
    show "channel_inv cfg r'"
      using parts(4) r' work unfolding queue_inv_def channel_inv_def by fastforce
    show "finished_inv cfg r'"
      using parts(4) r' by (auto simp: queue_inv_def finished_inv_def)
  qed
  moreover have "wf_inv r'"
    unfolding wf_inv_def
  proof
    fix w
    have "wf_count ?d' (ru_scanned r) w = wf_count ?d (ru_scanned r) w"
      unfolding wf_count_def
      by (rule arg_cong [where f = length], rule filter_cong) (use un scan(2) in auto)
    then have n: "wf_count ?d' (ru_scanned r') w =
        wf_count ?d (ru_scanned r) w + (if re_workflow_id e = w then 1 else 0)"
      using un r'(2) by (simp add: wf_count_def)
    have old: "hget (ds_wf_pending ?d) w =
        (if wf_count ?d (ru_scanned r) w = 0 then None else Some (of_nat (wf_count ?d (ru_scanned r) w)))"
      using parts(5) by (simp add: wf_inv_def Let_def)
    have wp: "hget (ds_wf_pending ?d') w =
        (if w = re_workflow_id e
         then Some ((case hget (ds_wf_pending ?d) w of Some k \<Rightarrow> k | None \<Rightarrow> 0) + 1)
         else hget (ds_wf_pending ?d) w)"
      using r'(1) by (simp add: add_pending_def)
    show "hget (ds_wf_pending ?d') w =
        (let n = wf_count ?d' (ru_scanned r') w in if n = 0 then None else Some (of_nat n))"
      unfolding n Let_def wp old by (simp add: eq_commute [of w])
  qed
  ultimately show ?thesis using scan(1) d'(1) by (simp add: runner_inv_def)
qed

lemma ingest_event_inv:
  assumes "ds_started (ru_dispatch r)" "runner_inv cfg r" "ingest_event cfg e r = Some r'"
    "filter (\<lambda>x. ds_ingest_pos (ru_dispatch r) < re_position x) (global_log (ru_store r)) = e # rest"
  shows "runner_inv cfg r' \<and> ds_started (ru_dispatch r') \<and> ru_store r' = ru_store r \<and>
         filter (\<lambda>x. ds_ingest_pos (ru_dispatch r') < re_position x) (global_log (ru_store r')) = rest"
proof -
  have parts: "floor_inv (ru_dispatch r)" "scan_inv cfg r"
    using assms(1,2) by (simp_all add: runner_inv_def)
  have sh: "ds_started (ru_dispatch r') \<and> ru_store r' = ru_store r \<and>
        ds_ingest_pos (ru_dispatch r') = re_position e \<and> ds_floor (ru_dispatch r') = ds_floor (ru_dispatch r) \<and>
        ru_scanned r' = ru_scanned r @ [e] \<and> ru_start r' = ru_start r"
    using assms(1,3)
    by (auto simp: ingest_event_def Let_def add_pending_def split: if_splits)
  have "runner_inv cfg r'"
  proof (cases "is_trigger cfg e \<and> \<not> (is_fenced (ru_fence r) (re_workflow_id e) \<and> \<not> rc_decision_store cfg)")
    case True
    then show ?thesis using assms(3)
      by (intro ingest_trigger_inv [OF assms(1,2,4)])
         (auto simp: ingest_event_def Let_def is_trigger_def split: if_splits)
  next
    case False
    then show ?thesis using assms(3)
      by (intro ingest_quiet_inv [OF assms(1,2,4)])
         (auto simp: ingest_event_def Let_def is_trigger_def split: if_splits)
  qed
  moreover have "filter (\<lambda>x. re_position e < re_position x) (global_log (ru_store r)) = rest"
    using scan_next(2) [OF parts(2,1) assms(4)] sh by blast
  ultimately show ?thesis using sh by simp
qed

lemma ingest_inv:
  assumes "ds_started (ru_dispatch r)" "runner_inv cfg r"
    "filter (\<lambda>x. ds_ingest_pos (ru_dispatch r) < re_position x) (global_log (ru_store r)) = es @ rest"
    "ingest cfg es r = (n, r')"
  shows "runner_inv cfg r' \<and> ds_started (ru_dispatch r')"
  using assms
proof (induction es arbitrary: r n)
  case (Cons e es)
  show ?case
  proof (cases "ingest_event cfg e r")
    case None
    then show ?thesis using Cons.prems by simp
  next
    case (Some r1)
    note one = ingest_event_inv [OF Cons.prems(1,2) Some, of "es @ rest"]
    obtain m where "ingest cfg es r1 = (m, r')"
      using Cons.prems(4) Some by (auto split: prod.splits)
    then show ?thesis using Cons.IH [of r1 m] one [THEN conjunct1] one Cons.prems(3)
      by (simp only: append_Cons) metis
  qed
qed simp

section \<open>A whole step, and the probe\<close>

lemma runner_step_path:
  assumes "runner_step cfg batch io r = (res, r')"
  shows "r' = r \<or> (\<exists>n1 r1. reap cfg (io_reap_ok io) (ensure_started cfg r) = (n1, r1) \<and>
           (r' = r1 \<or> (\<exists>n2 r2 ok.
              (r2 = r1 \<or>
               ingest cfg (read_all (ds_ingest_pos (ru_dispatch r1)) batch (ru_store r1)) r1 = (n2, r2)) \<and>
              advance_floor cfg (io_floor_ok io) r2 = (ok, r'))))"
  using assms
  by (auto simp: runner_step_def Let_def split: if_splits option.splits prod.splits)

lemma runner_ingest_inv:
  assumes "runner_inv cfg r1" "ds_started (ru_dispatch r1)"
    "ingest cfg (read_all (ds_ingest_pos (ru_dispatch r1)) batch (ru_store r1)) r1 = (n2, r2)"
  shows "runner_inv cfg r2 \<and> ds_started (ru_dispatch r2)"
proof -
  let ?all = "filter (\<lambda>x. ds_ingest_pos (ru_dispatch r1) < re_position x) (global_log (ru_store r1))"
  have "log_inv (ru_store r1)" using assms(1,2) by (simp add: runner_inv_def scan_inv_def)
  then have "?all = read_all (ds_ingest_pos (ru_dispatch r1)) batch (ru_store r1) @ drop batch ?all"
    by (simp only: read_all_rows append_take_drop_id)
  from ingest_inv [OF assms(2,1) this assms(3)] show ?thesis .
qed

lemma runner_step_inv:
  assumes "runner_inv cfg r" "runner_step cfg batch io r = (res, r')"
  shows "runner_inv cfg r'"
proof -
  have start: "runner_inv cfg (ensure_started cfg r)" "ds_started (ru_dispatch (ensure_started cfg r))"
    using ensure_started_inv [OF assms(1)] by blast+
  from runner_step_path [OF assms(2)] show ?thesis
    using assms(1) reap_inv [OF start(2,1)] runner_ingest_inv advance_floor_inv by metis
qed

lemma drained_inv:
  assumes "runner_inv cfg r" "drained cfg w hw ok r = (res, r')"
  shows "runner_inv cfg r'"
proof (cases "ds_started (ru_dispatch r)")
  case True
  obtain n r1 where "reap cfg ok r = (n, r1)" by fastforce
  with reap_inv [OF True assms(1) this] assms(2) True show ?thesis
    by (auto simp: drained_def split: option.splits)
qed (use assms in \<open>simp add: drained_def\<close>)

section \<open>Workers\<close>

lemma subseq_subset: "subseq xs ys \<Longrightarrow> set xs \<subseteq> set ys"
  using list_emb_set [of "(=)" xs ys] by blast

lemma sorted_wrt_subseq: "subseq xs ys \<Longrightarrow> sorted_wrt P ys \<Longrightarrow> sorted_wrt P xs"
  by (induction rule: list_emb.induct) (use subseq_subset in \<open>fastforce+\<close>)

text \<open>A change of one handle that keeps the events it holds, or drops some of them.\<close>

lemma handles_shrink_inv:
  assumes started: "ds_started (ru_dispatch r)" and inv: "runner_inv cfg r"
    and d': "ru_dispatch r' = (ru_dispatch r)\<lparr> ds_partitions := ps \<rparr>"
    and r': "ru_scanned r' = ru_scanned r" "ru_store r' = ru_store r" "ru_start r' = ru_start r"
      "ru_finished r' = ru_finished r" "ru_completions r' = ru_completions r" "ru_skipped r' = ru_skipped r"
    and shrink: "\<And>key h. hget ps key = Some h \<Longrightarrow>
        \<exists>h'. hget (ds_partitions (ru_dispatch r)) key = Some h' \<and> subseq (handle_events h) (handle_events h')"
  shows "runner_inv cfg r'"
proof -
  have parts: "floor_inv (ru_dispatch r)" "scan_inv cfg r" "cover_inv cfg r" "queue_inv cfg r" "wf_inv r"
    using inv started by (simp_all add: runner_inv_def)
  have un: "unacked (ru_dispatch r') = unacked (ru_dispatch r)" by (simp add: d' unacked_def fun_eq_iff)
  then have work: "in_work cfg r' = in_work cfg r" using r' by (simp add: in_work_def fun_eq_iff)
  have "queue_inv cfg r'"
    unfolding queue_inv_def
  proof (intro conjI allI impI)
    fix key h assume "hget (ds_partitions (ru_dispatch r')) key = Some h"
    then obtain h' where h': "hget (ds_partitions (ru_dispatch r)) key = Some h'"
      "subseq (handle_events h) (handle_events h')" using shrink d' by auto
    have ok: "handle_inv cfg r key h'" using h'(1) parts(4) by (simp add: queue_inv_def)
    have "sorted_wrt (\<lambda>x y. re_position x < re_position y) (handle_events h)"
      using ok h'(2) by (simp add: handle_inv_def sorted_wrt_subseq)
    moreover have "set (handle_events h) \<subseteq> set (handle_events h')"
      using h'(2) by (rule subseq_subset)
    ultimately show "handle_inv cfg r' key h"
      using ok r' work by (auto simp: handle_inv_def)
  next
    show "channel_inv cfg r'" "finished_inv cfg r'"
      using parts(4) r' work by (simp_all add: queue_inv_def channel_inv_def finished_inv_def)
  qed
  moreover have "wf_inv r'" using wf_inv_cong [OF parts(5) un] d' r' by simp
  ultimately show ?thesis
    using parts(1-3) started d' r'
    by (simp add: runner_inv_def floor_inv_def scan_inv_def cover_inv_def)
qed

lemma not_started_no_workers:
  "runner_inv cfg r \<Longrightarrow> \<not> ds_started (ru_dispatch r) \<Longrightarrow> ds_partitions (ru_dispatch r) = []"
  by (simp add: runner_inv_def dispatch_new_def)

lemma worker_take_inv:
  assumes "runner_inv cfg r" "worker_take key r = Some r'"
  shows "runner_inv cfg r'"
proof -
  obtain h e q where h: "hget (ds_partitions (ru_dispatch r)) key = Some h" "ph_hand h = None"
    "ph_queue h = e # q" "r' = map_handle key (\<lambda>h. h\<lparr> ph_queue := q, ph_hand := Some e \<rparr>) r"
    using assms(2) by (auto simp: worker_take_def split: option.splits prod.splits bool.splits list.splits)
  have started: "ds_started (ru_dispatch r)" using not_started_no_workers [OF assms(1)] h(1) by force
  show ?thesis
    by (rule handles_shrink_inv [OF started assms(1)])
       (use h in \<open>auto simp: map_handle_def handle_events_def split: if_splits\<close>)
qed

lemma worker_exit_inv:
  assumes "runner_inv cfg r" "worker_exit key gen r = Some r'"
  shows "runner_inv cfg r'"
proof -
  have h: "hget (ds_partitions (ru_dispatch r)) key \<noteq> None"
    "r' = r\<lparr> ru_dispatch := (ru_dispatch r)\<lparr> ds_partitions := hdel key (ds_partitions (ru_dispatch r)) \<rparr> \<rparr>"
    using assms(2) by (auto simp: worker_exit_def split: option.splits if_splits)
  have started: "ds_started (ru_dispatch r)" using not_started_no_workers [OF assms(1)] h(1) by force
  show ?thesis
    by (rule handles_shrink_inv [OF started assms(1)]) (use h in \<open>auto split: if_splits\<close>)
qed

lemma worker_dies_inv:
  assumes "runner_inv cfg r"
  shows "runner_inv cfg (worker_dies key r)"
proof (cases "hget (ds_partitions (ru_dispatch r)) key")
  case (Some h)
  have started: "ds_started (ru_dispatch r)" using not_started_no_workers [OF assms] Some by force
  show ?thesis
    by (rule handles_shrink_inv [OF started assms])
       (use Some in \<open>auto simp: worker_dies_def map_handle_def handle_events_def split: if_splits\<close>)
qed (use assms in \<open>simp add: worker_dies_def map_handle_def\<close>)

lemma worker_done_inv:
  assumes "runner_inv cfg r" "worker_done key parked labels r = Some r'"
  shows "runner_inv cfg r'"
proof -
  let ?ps = "ds_partitions (ru_dispatch r)"
  obtain h e where h: "hget ?ps key = Some h" "ph_hand h = Some e"
    using assms(2) by (auto simp: worker_done_def split: option.splits prod.splits bool.splits)
  have r': "ru_dispatch r' = (ru_dispatch r)\<lparr> ds_partitions := hput key (h\<lparr> ph_hand := None \<rparr>) ?ps \<rparr>"
    "ru_scanned r' = ru_scanned r" "ru_store r' = ru_store r" "ru_start r' = ru_start r"
    "ru_skipped r' = ru_skipped r" "ru_finished r' = ru_finished r @ [e]"
    "ru_completions r' = ru_completions r @ [\<lparr> cp_position = re_position e, cp_workflow = re_workflow_id e,
                                 cp_parked = parked, cp_effect_labels = labels \<rparr>]"
    using assms(2) h by (auto simp: worker_done_def map_handle_def split: bool.splits)
  have started: "ds_started (ru_dispatch r)" using not_started_no_workers [OF assms(1)] h(1) by force
  have parts: "floor_inv (ru_dispatch r)" "scan_inv cfg r" "cover_inv cfg r" "queue_inv cfg r" "wf_inv r"
    using assms(1) started by (simp_all add: runner_inv_def)
  have ok: "handle_inv cfg r key h" using h(1) parts(4) by (simp add: queue_inv_def)
  have ev: "handle_events h = e # ph_queue h" using h(2) by (simp add: handle_events_def)
  have e: "in_work cfg r e" "key_of cfg e = key" "re_position e \<notin> cp_position ` set (ru_completions r)"
    "\<forall>x \<in> set (ru_finished r). key_of cfg x = key \<longrightarrow> re_position x < re_position e"
    "\<forall>x \<in> set (ph_queue h). re_position e < re_position x"
    using ok ev by (simp_all add: handle_inv_def)
  have un: "unacked (ru_dispatch r') = unacked (ru_dispatch r)" by (simp add: r' unacked_def fun_eq_iff)
  then have work: "in_work cfg r' = in_work cfg r" using r' by (simp add: in_work_def fun_eq_iff)
  have "queue_inv cfg r'"
    unfolding queue_inv_def
  proof (intro conjI allI impI)
    fix k g assume g: "hget (ds_partitions (ru_dispatch r')) k = Some g"
    show "handle_inv cfg r' k g"
    proof (cases "k = key")
      case True
      then have "g = h\<lparr> ph_hand := None \<rparr>" using g r'(1) by simp
      then have "handle_events g = ph_queue h" by (simp add: handle_events_def)
      then have g: "handle_events g = ph_queue h" .
      have q: "in_work cfg r x \<and> key_of cfg x = key" "re_position e < re_position x"
        "\<forall>y \<in> set (ru_finished r). key_of cfg y = key \<longrightarrow> re_position y < re_position x"
        "re_position x \<notin> cp_position ` set (ru_completions r)" if "x \<in> set (ph_queue h)" for x
        using ok e(5) that unfolding handle_inv_def ev by simp_all
      have "re_position x \<notin> cp_position ` set (ru_completions r')" if "x \<in> set (ph_queue h)" for x
        using q(2,4) [OF that] r'(7) by simp
      moreover have "\<forall>y \<in> set (ru_finished r'). key_of cfg y = key \<longrightarrow> re_position y < re_position x"
        if "x \<in> set (ph_queue h)" for x
        using q(2,3) [OF that] r'(6) by simp
      moreover have "sorted_wrt (\<lambda>x y. re_position x < re_position y) (ph_queue h)"
        using ok ev by (simp add: handle_inv_def)
      ultimately show ?thesis
        using q(1) unfolding handle_inv_def g work True by blast
    next
      case False
      then have gk: "handle_inv cfg r k g" using g r'(1) parts(4) by (simp add: queue_inv_def)
      have "re_position x \<noteq> re_position e" if "x \<in> set (handle_events g)" for x
      proof
        assume "re_position x = re_position e"
        moreover have "in_work cfg r x" "key_of cfg x = k" using gk that by (simp_all add: handle_inv_def)
        ultimately show False using in_work_inj [OF parts(2), of x e] e(1,2) False by blast
      qed
      then show ?thesis using gk r' work e(2) False by (auto simp: handle_inv_def)
    qed
  next
    have "e \<in> set (ru_scanned r)" using e(1) by (simp add: in_work_def)
    then show "finished_inv cfg r'"
      using parts(4) e(2,4) r' by (auto simp: queue_inv_def finished_inv_def sorted_wrt_append)
    show "channel_inv cfg r'"
      using parts(4) e(1,3) r' work by (auto simp: queue_inv_def channel_inv_def)
  qed
  moreover have "wf_inv r'" using wf_inv_cong [OF parts(5) un] r' by simp
  moreover have "cover_inv cfg r'"
    using parts(3) r' unfolding cover_inv_def by fastforce
  ultimately show ?thesis
    using parts(1-3) started r' by (simp add: runner_inv_def floor_inv_def scan_inv_def)
qed

section \<open>Reachable states\<close>

text \<open>What the rest of the process does to the stores: the log grows, other consumers move, the
  effect memo changes, workflows are cancelled; this consumer's cursor is its runner's alone.\<close>

inductive runner_trans :: "runner_config \<Rightarrow> runner \<Rightarrow> runner \<Rightarrow> bool" for cfg where
  tr_step: "runner_step cfg batch io r = (res, r') \<Longrightarrow> runner_trans cfg r r'"
| tr_drained: "drained cfg w hw ok r = (res, r') \<Longrightarrow> runner_trans cfg r r'"
| tr_take: "worker_take key r = Some r' \<Longrightarrow> runner_trans cfg r r'"
| tr_done: "worker_done key parked labels r = Some r' \<Longrightarrow> runner_trans cfg r r'"
| tr_exit: "worker_exit key gen r = Some r' \<Longrightarrow> runner_trans cfg r r'"
| tr_dies: "runner_trans cfg r (worker_dies key r)"
| tr_store: "log_inv s \<Longrightarrow> global_log s = global_log (ru_store r) @ new \<Longrightarrow>
     cursor_get (rc_consumer cfg) s = cursor_get (rc_consumer cfg) (ru_store r) \<Longrightarrow>
     runner_trans cfg r (r\<lparr> ru_store := s \<rparr>)"
| tr_effects: "runner_trans cfg r (r\<lparr> ru_effects := eff \<rparr>)"
| tr_cancel: "runner_trans cfg r (r\<lparr> ru_fence := map_option (List.insert w) (ru_fence r) \<rparr>)"

inductive runner_reach :: "runner_config \<Rightarrow> runner \<Rightarrow> bool" for cfg where
  rr_new: "log_inv s \<Longrightarrow> stored_cursor cfg s \<le> latest_position s \<Longrightarrow> runner_reach cfg (runner_new cfg fence s eff)"
| rr_step: "runner_reach cfg r \<Longrightarrow> runner_trans cfg r r' \<Longrightarrow> runner_reach cfg r'"

lemma latest_position_grows:
  assumes "log_inv s'" "global_log s' = global_log s @ new"
  shows "latest_position s \<le> latest_position s'"
    and "\<forall>e \<in> set new. latest_position s < re_position e \<or> latest_position s = 0"
proof -
  show "latest_position s \<le> latest_position s'"
    using latest_position_ge [OF assms(1), of "last (global_log s)"] assms(2)
    by (auto simp: latest_position_def cursor_zero_def split: if_splits)
  show "\<forall>e \<in> set new. latest_position s < re_position e \<or> latest_position s = 0"
    using log_inv_positions_sorted [OF assms(1)] assms(2)
    by (auto simp: latest_position_def cursor_zero_def sorted_wrt_append)
qed

lemma store_grows_inv:
  assumes inv: "runner_inv cfg r" and s: "log_inv s" "global_log s = global_log (ru_store r) @ new"
    "cursor_get (rc_consumer cfg) s = cursor_get (rc_consumer cfg) (ru_store r)"
  shows "runner_inv cfg (r\<lparr> ru_store := s \<rparr>)"
proof -
  let ?r = "r\<lparr> ru_store := s \<rparr>"
  have cur: "stored_cursor cfg s = stored_cursor cfg (ru_store r)" using s(3) by (simp add: stored_cursor_def)
  note grow = latest_position_grows [OF s(1,2)]
  have "scan_inv cfg ?r" if scan: "scan_inv cfg r"
  proof -
    have "ds_ingest_pos (ru_dispatch r) \<le> latest_position (ru_store r)" using scan by (simp add: scan_inv_def)
    then have "\<forall>e \<in> set new. ds_ingest_pos (ru_dispatch r) < re_position e"
      using grow(2) log_inv_position_pos [OF s(1)] s(2) by (fastforce simp: word_le_0_iff)
    then have "filter (\<lambda>e. ru_start r < re_position e \<and> re_position e \<le> ds_ingest_pos (ru_dispatch r)) new = []"
      by (auto simp: filter_empty_conv not_le)
    then show ?thesis
      using scan s(1,2) cur order_trans [OF _ grow(1), of "ds_ingest_pos (ru_dispatch r)"]
      by (simp add: scan_inv_def)
  qed
  moreover have "cover_inv cfg ?r = cover_inv cfg r" "wf_inv ?r = wf_inv r"
    by (simp_all add: cover_inv_def wf_inv_def)
  moreover have "queue_inv cfg ?r" if "queue_inv cfg r"
    by (rule queue_inv_cong [OF that]) simp_all
  moreover have "ru_start r \<le> latest_position s" if "ru_start r \<le> latest_position (ru_store r)"
    using that grow(1) by (rule order_trans)
  ultimately show ?thesis using inv s(1) cur unfolding runner_inv_def by (cases "ds_started (ru_dispatch r)") auto
qed

lemma other_fields_inv:
  assumes "runner_inv cfg r"
  shows "runner_inv cfg (r\<lparr> ru_effects := eff \<rparr>)" "runner_inv cfg (r\<lparr> ru_fence := f \<rparr>)"
proof -
  have q: "queue_inv cfg (r\<lparr> ru_effects := eff \<rparr>)" "queue_inv cfg (r\<lparr> ru_fence := f \<rparr>)"
    if "queue_inv cfg r"
    by (rule queue_inv_cong [OF that]; simp)+
  have eqs: "scan_inv cfg (r\<lparr> ru_effects := eff \<rparr>) = scan_inv cfg r"
    "scan_inv cfg (r\<lparr> ru_fence := f \<rparr>) = scan_inv cfg r"
    "cover_inv cfg (r\<lparr> ru_effects := eff \<rparr>) = cover_inv cfg r"
    "cover_inv cfg (r\<lparr> ru_fence := f \<rparr>) = cover_inv cfg r"
    "wf_inv (r\<lparr> ru_effects := eff \<rparr>) = wf_inv r" "wf_inv (r\<lparr> ru_fence := f \<rparr>) = wf_inv r"
    by (simp_all add: scan_inv_def cover_inv_def wf_inv_def)
  show "runner_inv cfg (r\<lparr> ru_effects := eff \<rparr>)" "runner_inv cfg (r\<lparr> ru_fence := f \<rparr>)"
    using assms q unfolding runner_inv_def by (cases "ds_started (ru_dispatch r)"; auto simp: eqs)+
qed

lemma runner_reach_inv: "runner_reach cfg r \<Longrightarrow> runner_inv cfg r"
proof (induction rule: runner_reach.induct)
  case (rr_new s fence eff)
  then show ?case by (simp add: runner_inv_def runner_new_def dispatch_new_def)
next
  case (rr_step r r')
  from rr_step.hyps(2) show ?case
    by (cases rule: runner_trans.cases)
       (use rr_step.IH other_fields_inv in \<open>auto intro: runner_step_inv drained_inv worker_take_inv
          worker_done_inv worker_exit_inv worker_dies_inv store_grows_inv\<close>)
qed

end
