(* ===== verification/Reactor_Properties.thy ===== *)
theory Reactor_Properties
  imports Reactor_Floor Log_Properties
begin

text \<open>
  What the dispatch half of the reactor runner promises, over every state reachable by its steps,
  its workers and the rest of the process: the durable cursor passes finished or cancelled triggers
  only, a partition finishes in log order, \<open>drained\<close> is sound, an idle consumer persists the head
  it has scanned, and the window bounds what is outstanding. The sample runner at the end is the
  concrete instance of each.
\<close>

section \<open>What is skipped, and what is persisted\<close>

definition skip_inv :: "runner_config \<Rightarrow> runner \<Rightarrow> bool" where
  "skip_inv cfg r \<longleftrightarrow>
     (\<forall>e \<in> set (ru_skipped r). is_fenced (ru_fence r) (re_workflow_id e) \<and> \<not> rc_decision_store cfg)"

definition persist_inv :: "runner_config \<Rightarrow> runner \<Rightarrow> bool" where
  "persist_inv cfg r \<longleftrightarrow>
     (ds_started (ru_dispatch r) \<longrightarrow>
        ds_persisted_floor (ru_dispatch r) = Some (stored_cursor cfg (ru_store r)))"

lemma is_fenced_learn: "is_fenced f w \<Longrightarrow> is_fenced (learn_cancel cfg e f) w"
  by (auto simp: is_fenced_def learn_cancel_def split: option.splits)

lemma ensure_started_hist:
  "skip_inv cfg r \<Longrightarrow> skip_inv cfg (ensure_started cfg r)"
  "persist_inv cfg r \<Longrightarrow> persist_inv cfg (ensure_started cfg r)"
  by (auto simp: ensure_started_def Let_def skip_inv_def persist_inv_def)

lemma ack_all_other [simp]:
  "ds_started (ack_all cs d) = ds_started d" "ds_ingest_pos (ack_all cs d) = ds_ingest_pos d"
  "ds_persisted_floor (ack_all cs d) = ds_persisted_floor d"
proof -
  have "ds_persisted_floor (ack c d) = ds_persisted_floor d" for c d
    by (simp add: ack_def Let_def split: option.split)
  then show "ds_persisted_floor (ack_all cs d) = ds_persisted_floor d"
    by (induction cs arbitrary: d) simp_all
qed (induction cs arbitrary: d; simp)+

lemma advance_floor_keeps:
  assumes "advance_floor cfg ok r = (b, r')"
  shows "ru_start r' = ru_start r" "ru_scanned r' = ru_scanned r" "ru_finished r' = ru_finished r"
    "ru_skipped r' = ru_skipped r" "ru_fence r' = ru_fence r"
    "global_log (ru_store r') = global_log (ru_store r)"
  using assms cursor_advance_log
  by (auto simp: advance_floor_def Let_def same_log_def split: if_splits prod.splits)

lemma reap_keeps:
  assumes "reap cfg ok r = (b, r')"
  shows "ru_start r' = ru_start r" "ru_scanned r' = ru_scanned r" "ru_finished r' = ru_finished r"
    "ru_skipped r' = ru_skipped r" "ru_fence r' = ru_fence r"
    "global_log (ru_store r') = global_log (ru_store r)"
proof -
  obtain b' where "advance_floor cfg ok
      (r\<lparr> ru_completions := [], ru_dispatch := ack_all (ru_completions r) (ru_dispatch r) \<rparr>) = (b', r')"
    using assms by (auto simp: reap_def Let_def split: prod.splits)
  from advance_floor_keeps [OF this] show
    "ru_start r' = ru_start r" "ru_scanned r' = ru_scanned r" "ru_finished r' = ru_finished r"
    "ru_skipped r' = ru_skipped r" "ru_fence r' = ru_fence r"
    "global_log (ru_store r') = global_log (ru_store r)"
    by simp_all
qed

lemma ingest_event_hist:
  assumes "ingest_event cfg e r = Some r'" "skip_inv cfg r" "persist_inv cfg r"
  shows "skip_inv cfg r'" "persist_inv cfg r'"
proof -
  have "ds_persisted_floor (enqueue k e d) = ds_persisted_floor d" for k d
    by (simp add: enqueue_def Let_def split: option.split)
  then show "persist_inv cfg r'"
    using assms(1,3) by (auto simp: ingest_event_def Let_def persist_inv_def add_pending_def split: if_splits)
  show "skip_inv cfg r'"
    using assms(1,2) is_fenced_learn
    by (auto simp: ingest_event_def Let_def skip_inv_def split: if_splits)
qed

lemma ingest_hist:
  "ingest cfg es r = (n, r') \<Longrightarrow> skip_inv cfg r \<Longrightarrow> persist_inv cfg r \<Longrightarrow>
     skip_inv cfg r' \<and> persist_inv cfg r'"
proof (induction es arbitrary: r n)
  case (Cons e es)
  then show ?case
    using ingest_event_hist [of cfg e r] by (fastforce split: option.splits prod.splits)
qed simp

lemma stored_cursor_advance_eq:
  "stored_cursor cfg (cursor_advance (rc_consumer cfg) p s) = max (stored_cursor cfg s) p"
  by (auto simp: stored_cursor_def mem_ckpt.get_advance cursor_zero_def max_def split: option.split)

lemma advance_floor_hist:
  assumes "runner_inv cfg r" "skip_inv cfg r" "persist_inv cfg r" "advance_floor cfg ok r = (b, r')"
  shows "skip_inv cfg r'" "persist_inv cfg r'"
proof -
  show "skip_inv cfg r'"
    using assms(2) advance_floor_keeps [OF assms(4)] by (simp add: skip_inv_def)
  show "persist_inv cfg r'"
  proof (cases "ds_started (ru_dispatch r)")
    case True
    let ?d = "ru_dispatch r"
    have inv: "floor_inv ?d" "stored_cursor cfg (ru_store r) \<le> ds_floor ?d"
      using assms(1) True by (simp_all add: runner_inv_def scan_inv_def)
    obtain m fl gc where pop: "pop_acked cfg (ds_pending ?d) (ds_floor ?d) [] = (m, fl, gc)"
      by (metis prod_cases3)
    from pop_acked_spec [OF pop] inv(1) have "ds_floor ?d \<le> fl" by (auto simp: floor_inv_def)
    then have "stored_cursor cfg (ru_store r) \<le>
        (if m = [] \<and> fl < ds_ingest_pos ?d then ds_ingest_pos ?d else fl)"
      using inv(2) by auto
    then show ?thesis
      using assms(3,4) True pop
      by (auto simp: persist_inv_def advance_floor_def Let_def stored_cursor_advance_eq max_def
          split: if_splits)
  qed (use assms in \<open>simp add: advance_floor_def\<close>)
qed

lemma reap_hist:
  assumes "runner_inv cfg r" "ds_started (ru_dispatch r)" "skip_inv cfg r" "persist_inv cfg r"
    "reap cfg ok r = (b, r')"
  shows "skip_inv cfg r'" "persist_inv cfg r'"
proof -
  let ?r = "r\<lparr> ru_completions := [], ru_dispatch := ack_all (ru_completions r) (ru_dispatch r) \<rparr>"
  obtain b' where adv: "advance_floor cfg ok ?r = (b', r')"
    using assms(5) by (auto simp: reap_def Let_def split: prod.splits)
  have "runner_inv cfg ?r" using ack_all_inv [OF assms(2,1) refl] by blast
  moreover have "skip_inv cfg ?r" "persist_inv cfg ?r"
    using assms(3,4) by (simp_all add: skip_inv_def persist_inv_def)
  ultimately show "skip_inv cfg r'" "persist_inv cfg r'"
    using advance_floor_hist [OF _ _ _ adv] by blast+
qed

lemma runner_step_hist:
  assumes "runner_inv cfg r" "skip_inv cfg r" "persist_inv cfg r" "runner_step cfg batch io r = (res, r')"
  shows "skip_inv cfg r' \<and> persist_inv cfg r'"
proof -
  let ?s = "ensure_started cfg r"
  have start: "runner_inv cfg ?s" "ds_started (ru_dispatch ?s)" "skip_inv cfg ?s" "persist_inv cfg ?s"
    using ensure_started_inv [OF assms(1)] ensure_started_hist assms(2,3) by blast+
  from runner_step_path [OF assms(4)] consider "r' = r"
    | n1 where "reap cfg (io_reap_ok io) ?s = (n1, r')"
    | n1 r1 n2 r2 ok where "reap cfg (io_reap_ok io) ?s = (n1, r1)"
        "r2 = r1 \<or>
         ingest cfg (read_all (ds_ingest_pos (ru_dispatch r1)) batch (ru_store r1)) r1 = (n2, r2)"
        "advance_floor cfg (io_floor_ok io) r2 = (ok, r')"
    by blast
  then show ?thesis
  proof cases
    case 3
    have r1: "runner_inv cfg r1" "ds_started (ru_dispatch r1)" "skip_inv cfg r1 \<and> persist_inv cfg r1"
      using reap_inv [OF start(2,1) 3(1)] reap_hist [OF start 3(1)] by blast+
    have "runner_inv cfg r2" using 3(2) r1(1,2) runner_ingest_inv by blast
    moreover have "skip_inv cfg r2 \<and> persist_inv cfg r2" using 3(2) r1(3) ingest_hist by blast
    ultimately show ?thesis using advance_floor_hist [OF _ _ _ 3(3)] by blast
  qed (use assms reap_hist [OF start] in blast)+
qed

lemma drained_hist:
  assumes "runner_inv cfg r" "skip_inv cfg r" "persist_inv cfg r" "drained cfg w hw ok r = (res, r')"
  shows "skip_inv cfg r' \<and> persist_inv cfg r'"
proof (cases "ds_started (ru_dispatch r)")
  case True
  obtain n r1 where "reap cfg ok r = (n, r1)" by fastforce
  with reap_hist [OF assms(1) True assms(2,3) this] assms(4) True show ?thesis
    by (auto simp: drained_def split: option.splits)
qed (use assms in \<open>simp add: drained_def\<close>)

lemma map_handle_hist:
  "skip_inv cfg (map_handle key f r) = skip_inv cfg r"
  "persist_inv cfg (map_handle key f r) = persist_inv cfg r"
  by (simp_all add: map_handle_def skip_inv_def persist_inv_def split: option.split)

lemma worker_hist:
  assumes "worker_take key r = Some r' \<or> worker_done key parked labels r = Some r' \<or>
           worker_exit key gen r = Some r'"
  shows "skip_inv cfg r' = skip_inv cfg r" "persist_inv cfg r' = persist_inv cfg r"
proof -
  have "skip_inv cfg r' = skip_inv cfg r \<and> persist_inv cfg r' = persist_inv cfg r"
    if "worker_take key r = Some r'"
    using that map_handle_hist
    by (auto simp: worker_take_def split: option.splits prod.splits bool.splits list.splits)
  moreover have "skip_inv cfg r' = skip_inv cfg r \<and> persist_inv cfg r' = persist_inv cfg r"
    if "worker_done key parked labels r = Some r'"
    using that
    by (auto simp: worker_done_def map_handle_def skip_inv_def persist_inv_def
        split: option.splits prod.splits bool.splits)
  moreover have "skip_inv cfg r' = skip_inv cfg r \<and> persist_inv cfg r' = persist_inv cfg r"
    if "worker_exit key gen r = Some r'"
    using that by (auto simp: worker_exit_def skip_inv_def persist_inv_def split: option.splits if_splits)
  ultimately show "skip_inv cfg r' = skip_inv cfg r" "persist_inv cfg r' = persist_inv cfg r"
    using assms by blast+
qed

lemma runner_reach_hist: "runner_reach cfg r \<Longrightarrow> skip_inv cfg r \<and> persist_inv cfg r"
proof (induction rule: runner_reach.induct)
  case (rr_step r r')
  note inv = runner_reach_inv [OF rr_step.hyps(1)]
  from rr_step.hyps(2) show ?case
  proof (cases rule: runner_trans.cases)
    case tr_step
    then show ?thesis using runner_step_hist inv rr_step.IH by blast
  next
    case tr_drained
    then show ?thesis using drained_hist inv rr_step.IH by blast
  next
    case tr_dies
    then show ?thesis using rr_step.IH map_handle_hist by (simp add: worker_dies_def)
  next
    case tr_store
    then show ?thesis using rr_step.IH by (simp add: skip_inv_def persist_inv_def stored_cursor_def)
  next
    case (tr_cancel w)
    then show ?thesis using rr_step.IH
      by (auto simp: skip_inv_def persist_inv_def is_fenced_def split: option.splits)
  next
    case tr_effects
    then show ?thesis using rr_step.IH by (simp add: skip_inv_def persist_inv_def)
  qed (use rr_step.IH worker_hist in blast)+
qed (simp add: skip_inv_def persist_inv_def runner_new_def dispatch_new_def)

section \<open>The properties\<close>

text \<open>A trigger the stored cursor has passed was finished, or skipped behind the fence.\<close>

lemma cursor_passed_finished:
  assumes "runner_reach cfg r" "e \<in> set (global_log (ru_store r))"
    "matches_kind (re_event_type e) (rc_kind cfg)"
    "ru_start r < re_position e" "re_position e \<le> stored_cursor cfg (ru_store r)"
  shows "e \<in> set (ru_finished r) \<or>
         is_fenced (ru_fence r) (re_workflow_id e) \<and> \<not> rc_decision_store cfg"
proof -
  note inv = runner_reach_inv [OF assms(1)]
  have started: "ds_started (ru_dispatch r)"
    using inv assms(4,5) by (auto simp: runner_inv_def split: if_splits)
  then have parts: "floor_inv (ru_dispatch r)" "scan_inv cfg r" "cover_inv cfg r"
    using inv by (simp_all add: runner_inv_def)
  have fl: "re_position e \<le> ds_floor (ru_dispatch r)"
    using parts(2) assms(5) by (auto simp: scan_inv_def)
  then have "e \<in> set (ru_scanned r)"
    using parts(1,2) assms(2,4) by (auto simp: scan_inv_def floor_inv_def)
  moreover have "re_position e \<notin> fst ` set (pend r)"
    using parts(1) fl by (auto simp: floor_inv_def)
  ultimately have "e \<in> set (ru_finished r) \<or> e \<in> set (ru_skipped r)"
    using parts(3) assms(3) by (auto simp: cover_inv_def is_trigger_def)
  then show ?thesis
    using runner_reach_hist [OF assms(1)] by (auto simp: skip_inv_def)
qed

text \<open>C2: the durable checkpoint is safe. In every reachable state of the runner, every trigger of the
  log between the cursor the runner started from and the cursor now stored was finished by a worker
  (its completion reached the floor), or its workflow is cancelled on a runner without a decision
  store. A restart therefore skips no trigger whose work was still outstanding, however the workers
  interleave and die, and whichever I/O of the runner fails.\<close>

theorem durable_cursor_safe:
  assumes "runner_reach cfg r" "e \<in> set (global_log (ru_store r))"
    "matches_kind (re_event_type e) (rc_kind cfg)"
    "ru_start r < re_position e" "re_position e \<le> stored_cursor cfg (ru_store r)"
  shows "e \<in> set (ru_finished r) \<or>
         is_fenced (ru_fence r) (re_workflow_id e) \<and> \<not> rc_decision_store cfg"
  using assms by (rule cursor_passed_finished)

text \<open>C22: within a partition (a subject, a workflow, or a single event, by the reactor's ordering)
  the workers finish triggers in log order, and no runner finishes one trigger twice, although
  workers are spawned, exit, die and are respawned freely.\<close>

theorem partition_finishes_in_log_order:
  assumes "runner_reach cfg r"
  shows "sorted_wrt (\<lambda>x y. partition_key_for (rc_ordering cfg) x = partition_key_for (rc_ordering cfg) y
           \<longrightarrow> re_position x < re_position y) (ru_finished r)
         \<and> distinct (ru_finished r) \<and> set (ru_finished r) \<subseteq> set (global_log (ru_store r))"
proof -
  note inv = runner_reach_inv [OF assms]
  have sub: "finished_inv cfg r \<and> set (ru_scanned r) \<subseteq> set (global_log (ru_store r))"
    using inv
    by (auto simp: runner_inv_def queue_inv_def finished_inv_def scan_inv_def split: if_splits)
  have "distinct es"
    if "sorted_wrt (\<lambda>x y. key_of cfg x = key_of cfg y \<longrightarrow> re_position x < re_position y) es" for es
    using that by (induction es) auto
  then show ?thesis using sub by (auto simp: finished_inv_def)
qed

text \<open>C21: \<open>drained\<close> is sound: when the probe answers yes for a workflow at a high-water
  mark, every trigger of that workflow up to the mark that lies beyond the position at which this runner
  started has been finished, or, on a runner without a decision store only, its workflow is cancelled.
  Triggers at or below the start position (an earlier life's, or those a \<open>Latest\<close> seed leaves
  out) are not this runner's and are not covered. The per-workflow \<open>u32\<close> counters never wrap or
  lose an entry on the way there.\<close>

theorem drained_sound:
  assumes "runner_reach cfg r" "drained cfg w hw ok r = (Some True, r')"
    "e \<in> set (global_log (ru_store r))" "matches_kind (re_event_type e) (rc_kind cfg)"
    "re_workflow_id e = w" "ru_start r < re_position e" "re_position e \<le> hw"
  shows "e \<in> set (ru_finished r) \<or> is_fenced (ru_fence r) w \<and> \<not> rc_decision_store cfg"
proof -
  note inv = runner_reach_inv [OF assms(1)]
  have started: "ds_started (ru_dispatch r)"
    using inv assms(2,6,7) by (auto simp: runner_inv_def drained_def split: if_splits)
  obtain n where reap: "reap cfg ok r = (Some n, r')" and
    hw: "hw \<le> ds_ingest_pos (ru_dispatch r')" "hget (ds_wf_pending (ru_dispatch r')) w = None"
    using assms(2) started by (auto simp: drained_def split: prod.splits option.splits)
  note keep = reap_keeps [OF reap]
  from reap_inv [OF started inv reap] have parts: "floor_inv (ru_dispatch r')" "scan_inv cfg r'"
    "cover_inv cfg r'" "wf_inv r'"
    by (auto simp: runner_inv_def)
  have e: "e \<in> set (ru_scanned r')"
    using parts(2) keep hw(1) assms(3,6,7) by (auto simp: scan_inv_def)
  have "wf_count (ru_dispatch r') (ru_scanned r') w = 0"
    using parts(4) hw(2) by (auto simp: wf_inv_def Let_def split: if_splits)
  then have acked: "\<not> unacked (ru_dispatch r') (re_position e)"
    using e assms(5) by (auto simp: wf_count_def filter_empty_conv)
  have "e \<in> set (ru_finished r') \<or> e \<in> set (ru_skipped r')"
  proof (cases "re_position e \<in> fst ` set (pend r')")
    case True
    then obtain pt where "hget (pend r') (re_position e) = Some pt"
      using parts(1) bt_wf_hget_iff [of "pend r'"] by (fastforce simp: floor_inv_def)
    then obtain x where "x \<in> set (ru_scanned r')" "re_position x = re_position e" "x \<in> set (ru_finished r')"
      using acked parts(3) unfolding unacked_def cover_inv_def by metis
    then show ?thesis using scanned_pos_inj [OF parts(2), of x e] e by simp
  qed (use parts(3) e assms(4) in \<open>auto simp: cover_inv_def is_trigger_def\<close>)
  then show ?thesis
    using runner_reach_hist [OF assms(1)] keep assms(5) by (auto simp: skip_inv_def)
qed

text \<open>The pending window is a bound: a reachable runner never holds more than \<open>MAX_PENDING\<close>
  triggers, and everything in a worker's hand or queue is one of them, so the queues are bounded
  with it.\<close>

lemma pending_window_bounded:
  assumes "runner_reach cfg r"
  shows "length (ds_pending (ru_dispatch r)) \<le> max_pending \<and>
         (\<forall>key h e. hget (ds_partitions (ru_dispatch r)) key = Some h \<longrightarrow>
            ph_hand h = Some e \<or> e \<in> set (ph_queue h) \<longrightarrow>
            hget (ds_pending (ru_dispatch r)) (re_position e) \<noteq> None)"
proof (cases "ds_started (ru_dispatch r)")
  case True
  then have parts: "floor_inv (ru_dispatch r)" "queue_inv cfg r"
    using runner_reach_inv [OF assms] by (simp_all add: runner_inv_def)
  have "hget (ds_pending (ru_dispatch r)) (re_position e) \<noteq> None"
    if h: "hget (ds_partitions (ru_dispatch r)) key = Some h" "ph_hand h = Some e \<or> e \<in> set (ph_queue h)"
    for key h e
  proof -
    have "handle_inv cfg r key h" using parts(2) h(1) by (simp add: queue_inv_def)
    moreover have "e \<in> set (handle_events h)" using h(2) by (auto simp: handle_events_def)
    ultimately have "in_work cfg r e" by (simp add: handle_inv_def)
    then show ?thesis by (auto simp: in_work_def unacked_def)
  qed
  then show ?thesis
    using parts(1) by (simp add: floor_inv_def)
next
  case False
  then show ?thesis
    using runner_reach_inv [OF assms] by (simp add: runner_inv_def dispatch_new_def)
qed

lemma ack_all_unacked:
  assumes "bt_wf (ds_pending d)"
  shows "bt_wf (ds_pending (ack_all cs d)) \<and>
         (\<forall>p. unacked (ack_all cs d) p \<longleftrightarrow> unacked d p \<and> p \<notin> cp_position ` set cs)"
  using assms
proof (induction cs arbitrary: d)
  case (Cons c cs)
  have "bt_wf (ds_pending (ack c d))" using ack_pending(2) [OF Cons.prems] .
  from Cons.IH [OF this] show ?case by (auto simp: ack_unacked [OF Cons.prems])
qed simp

lemma pop_acked_all:
  "\<forall>x \<in> set m. pt_acked (snd x) \<Longrightarrow> fst (pop_acked cfg m fl gc) = []"
  by (induction cfg m fl gc rule: pop_acked.induct) auto

text \<open>The durable cursor makes progress. When every pending trigger is acked or its completion is in
  the channel, one successful \<open>reap\<close> empties the window and stores the position the runner has
  scanned to, non-trigger events included: an idle consumer has no lag.\<close>

lemma reap_persists_scanned_head:
  assumes "runner_reach cfg r" "ds_started (ru_dispatch r)"
    "\<forall>p pt. hget (ds_pending (ru_dispatch r)) p = Some pt \<longrightarrow>
       pt_acked pt \<or> p \<in> cp_position ` set (ru_completions r)"
    "reap cfg True r = (n, r')"
  shows "n = Some (length (ru_completions r)) \<and> ds_pending (ru_dispatch r') = [] \<and>
         stored_cursor cfg (ru_store r') = ds_ingest_pos (ru_dispatch r)"
proof -
  let ?d = "ru_dispatch r" and ?cs = "ru_completions r"
  let ?d1 = "ack_all ?cs ?d"
  let ?r1 = "r\<lparr> ru_completions := [], ru_dispatch := ?d1 \<rparr>"
  note inv = runner_reach_inv [OF assms(1)]
  have wf: "bt_wf (ds_pending ?d)" using inv assms(2) by (simp add: runner_inv_def floor_inv_def)
  have "unacked ?d p \<Longrightarrow> p \<in> cp_position ` set ?cs" for p
    using assms(3) unfolding unacked_def by blast
  then have "\<not> unacked ?d1 p" for p
    using ack_all_unacked [OF wf, of ?cs] by blast
  then have acked: "\<forall>x \<in> set (ds_pending ?d1). pt_acked (snd x)"
    using unacked_iff [of ?d1] ack_all_unacked [OF wf, of ?cs] by (metis prod.collapse)
  have inv1: "floor_inv ?d1" "scan_inv cfg ?r1"
    using ack_all_inv [OF assms(2) inv refl] by (auto simp: runner_inv_def)
  obtain fl gc where pop: "pop_acked cfg (ds_pending ?d1) (ds_floor ?d1) [] = ([], fl, gc)"
    using pop_acked_all [OF acked] by (metis prod_cases3 fst_conv)
  from pop_acked_spec [OF pop] inv1(1) have fl: "ds_floor ?d1 \<le> fl" "fl \<le> ds_ingest_pos ?d"
    by (auto simp: floor_inv_def)
  have "stored_cursor cfg (ru_store r) \<le> ds_floor ?d1" using inv1(2) by (simp add: scan_inv_def)
  then have le: "stored_cursor cfg (ru_store r) \<le> ds_ingest_pos ?d" using fl by auto
  have persisted: "ds_persisted_floor ?d = Some (stored_cursor cfg (ru_store r))"
    using runner_reach_hist [OF assms(1)] assms(2) by (simp add: persist_inv_def)
  have head: "(if [] = [] \<and> fl < ds_ingest_pos ?d then ds_ingest_pos ?d else fl) = ds_ingest_pos ?d"
    using fl(2) by auto
  show ?thesis
    using assms(2,4) pop head persisted le
    by (auto simp: reap_def advance_floor_def Let_def stored_cursor_advance_eq max_def split: if_splits)
qed

section \<open>A runner at work\<close>

definition sample_cfg :: runner_config where
  "sample_cfg = \<lparr> rc_consumer = ''billing'', rc_kind = ''order_placed'', rc_ordering = PerWorkflow,
     rc_decision_store = True, rc_effect_store = False, rc_parse_uuid = (\<lambda>_. None) \<rparr>"

definition io_ok :: step_io where
  "io_ok = \<lparr> io_cursor_ok = True, io_reap_ok = True, io_read_ok = True, io_floor_ok = True \<rparr>"

text \<open>Both sample events are triggers of workflow 7. The runner ingests them, the partition's worker
  takes and finishes the first, and a step reaps it; then the worker finishes the second.\<close>

definition sample_runner :: runner where
  "sample_runner = runner_new sample_cfg (Some []) sample_store []"

definition sample_ingested :: runner where
  "sample_ingested = snd (runner_step sample_cfg 10 io_ok sample_runner)"

definition work_one :: "runner \<Rightarrow> runner" where
  "work_one r = the (worker_done (WorkflowKey 7) False [] (the (worker_take (WorkflowKey 7) r)))"

definition sample_half :: runner where
  "sample_half = snd (runner_step sample_cfg 10 io_ok (work_one sample_ingested))"

definition sample_all :: runner where "sample_all = work_one sample_half"

lemmas runner_eval =
  runner_step_def ensure_started_def Let_def reap_def advance_floor_def ingest_event_def
  matches_kind_def max_pending_def is_fenced_def add_pending_def enqueue_def partition_key_for_def
  stored_cursor_def cursor_get_def dispatch_new_def read_all_def partition_point_def

definition sample_row1 :: recorded_event where
  "sample_row1 = placed_row ''order'' 9 1 0 (sample_event 1 JNull)"

definition sample_row2 :: recorded_event where
  "sample_row2 = placed_row ''order'' 9 2 1 (sample_event 2 (JBool True))"

definition pending_row :: "recorded_event \<Rightarrow> pending_trigger" where
  "pending_row e = \<lparr> pt_event_id = re_event_id e, pt_acked = False, pt_parked = False, pt_effect_labels = [] \<rparr>"

lemmas sample_eval =
  runner_new_def runner_eval sample_store_eq sample_cfg_def io_ok_def placed_row_def sample_event_def
  memory_store_new_def cursor_zero_def sample_row1_def sample_row2_def pending_row_def sample_runner_def

lemma sample_ingested_eq:
  "sample_ingested = sample_runner\<lparr>
     ru_dispatch := \<lparr> ds_started = True, ds_ingest_pos = 2,
       ds_pending = [(1, pending_row sample_row1), (2, pending_row sample_row2)], ds_floor = 0,
       ds_persisted_floor = Some 0,
       ds_partitions = [(WorkflowKey 7, \<lparr> ph_gen = 0, ph_queue = [sample_row1, sample_row2],
                           ph_hand = None, ph_alive = True \<rparr>)],
       ds_next_gen = 1, ds_wf_pending = [(7, 2)] \<rparr>,
     ru_scanned := [sample_row1, sample_row2] \<rparr>"
  by (simp add: sample_ingested_def sample_eval)

lemma sample_half_eq:
  "sample_half = sample_runner\<lparr>
     ru_dispatch := \<lparr> ds_started = True, ds_ingest_pos = 2, ds_pending = [(2, pending_row sample_row2)],
       ds_floor = 1, ds_persisted_floor = Some 1,
       ds_partitions = [(WorkflowKey 7, \<lparr> ph_gen = 0, ph_queue = [sample_row2],
                           ph_hand = None, ph_alive = True \<rparr>)],
       ds_next_gen = 1, ds_wf_pending = [(7, 1)] \<rparr>,
     ru_store := sample_store\<lparr> projection_cursors := [(''billing'', 1)] \<rparr>,
     ru_scanned := [sample_row1, sample_row2], ru_finished := [sample_row1] \<rparr>"
  by (simp add: sample_half_def work_one_def sample_ingested_eq worker_take_def worker_done_def
      map_handle_def ack_def cursor_advance_def sample_eval)

lemma sample_all_eq:
  "sample_all = sample_half\<lparr>
     ru_dispatch := (ru_dispatch sample_half)\<lparr>
       ds_partitions := [(WorkflowKey 7, \<lparr> ph_gen = 0, ph_queue = [], ph_hand = None,
                                            ph_alive = True \<rparr>)] \<rparr>,
     ru_completions := [\<lparr> cp_position = 2, cp_workflow = 7, cp_parked = False,
                           cp_effect_labels = [] \<rparr>],
     ru_finished := [sample_row1, sample_row2] \<rparr>"
  by (simp add: sample_all_def work_one_def sample_half_eq worker_take_def worker_done_def
      map_handle_def sample_eval)

lemma sample_reach:
  "runner_reach sample_cfg sample_half" "runner_reach sample_cfg sample_all"
proof -
  have step: "runner_reach sample_cfg (snd (runner_step sample_cfg n io_ok r))"
    if "runner_reach sample_cfg r" for r n
    by (rule rr_step [OF that tr_step [OF surjective_pairing]])
  have one: "runner_reach sample_cfg (work_one r)"
    if "runner_reach sample_cfg r" "worker_take (WorkflowKey 7) r = Some r1"
      "worker_done (WorkflowKey 7) False [] r1 = Some r2" for r r1 r2
    unfolding work_one_def that(2,3) option.sel
    by (rule rr_step [OF rr_step [OF that(1) tr_take [OF that(2)]] tr_done [OF that(3)]])
  have "runner_reach sample_cfg sample_runner"
    unfolding sample_runner_def
    by (rule rr_new) (simp_all add: sample_store_inv, simp add: sample_eval latest_position_def)
  then have "runner_reach sample_cfg sample_ingested"
    unfolding sample_ingested_def by (rule step)
  from one [OF this] have "runner_reach sample_cfg (work_one sample_ingested)"
    by (simp add: sample_ingested_eq worker_take_def worker_done_def map_handle_def)
  then show "runner_reach sample_cfg sample_half"
    unfolding sample_half_def by (rule step)
  from one [OF this] show "runner_reach sample_cfg sample_all"
    unfolding sample_all_def by (simp add: sample_half_eq worker_take_def worker_done_def map_handle_def)
qed

theorem durable_cursor_safe_witness:
  "runner_reach sample_cfg sample_half \<and> sample_row1 \<in> set (global_log (ru_store sample_half)) \<and>
   matches_kind (re_event_type sample_row1) (rc_kind sample_cfg) \<and>
   ru_start sample_half < re_position sample_row1 \<and>
   re_position sample_row1 \<le> stored_cursor sample_cfg (ru_store sample_half) \<and>
   sample_row1 \<in> set (ru_finished sample_half)"
proof -
  have "sample_row1 \<in> set (global_log (ru_store sample_half))"
    "matches_kind (re_event_type sample_row1) (rc_kind sample_cfg)"
    "ru_start sample_half < re_position sample_row1"
    "re_position sample_row1 \<le> stored_cursor sample_cfg (ru_store sample_half)"
    "\<not> is_fenced (ru_fence sample_half) (re_workflow_id sample_row1)"
    by (simp_all add: sample_half_eq sample_eval)
  with durable_cursor_safe [OF sample_reach(1), of sample_row1] sample_reach(1) show ?thesis by simp
qed

theorem partition_finishes_in_log_order_witness:
  "ru_finished sample_all = [sample_row1, sample_row2] \<and>
   partition_key_for PerWorkflow sample_row1 = partition_key_for PerWorkflow sample_row2 \<and>
   re_position sample_row1 < re_position sample_row2"
proof -
  have eqs: "ru_finished sample_all = [sample_row1, sample_row2]" "rc_ordering sample_cfg = PerWorkflow"
    "partition_key_for PerWorkflow sample_row1 = partition_key_for PerWorkflow sample_row2"
    by (simp_all add: sample_all_eq sample_eval)
  with partition_finishes_in_log_order [OF sample_reach(2)] show ?thesis by simp
qed

theorem drained_sound_witness:
  "runner_reach sample_cfg sample_all \<and> fst (drained sample_cfg 7 2 True sample_all) = Some True \<and>
   sample_row2 \<in> set (ru_finished sample_all)"
proof -
  have dr: "fst (drained sample_cfg 7 2 True sample_all) = Some True"
    by (simp add: drained_def sample_all_eq sample_half_eq ack_def sample_eval)
  have hyps: "sample_row2 \<in> set (global_log (ru_store sample_all))"
    "matches_kind (re_event_type sample_row2) (rc_kind sample_cfg)" "re_workflow_id sample_row2 = 7"
    "ru_start sample_all < re_position sample_row2" "re_position sample_row2 \<le> 2"
    "rc_decision_store sample_cfg"
    by (simp_all add: sample_all_eq sample_half_eq sample_eval)
  have "drained sample_cfg 7 2 True sample_all = (Some True, snd (drained sample_cfg 7 2 True sample_all))"
    using dr by (metis prod.collapse)
  from drained_sound [OF sample_reach(2) this hyps(1-5)] hyps(6) dr sample_reach(2) show ?thesis by simp
qed

lemma pending_window_bounded_witness:
  "runner_reach sample_cfg sample_half \<and> length (ds_pending (ru_dispatch sample_half)) = 1 \<and>
   hget (ds_pending (ru_dispatch sample_half)) (re_position sample_row2) \<noteq> None"
proof -
  have "hget (ds_partitions (ru_dispatch sample_half)) (WorkflowKey 7) =
      Some \<lparr> ph_gen = 0, ph_queue = [sample_row2], ph_hand = None, ph_alive = True \<rparr>"
    "length (ds_pending (ru_dispatch sample_half)) = 1"
    by (simp_all add: sample_half_eq)
  with pending_window_bounded [OF sample_reach(1)] sample_reach(1) show ?thesis by force
qed

lemma reap_persists_scanned_head_witness:
  "ds_pending (ru_dispatch sample_all) \<noteq> [] \<and>
   stored_cursor sample_cfg (ru_store sample_all) = 1 \<and>
   stored_cursor sample_cfg (ru_store (snd (reap sample_cfg True sample_all))) = 2"
proof -
  have facts: "ds_started (ru_dispatch sample_all)" "ds_pending (ru_dispatch sample_all) \<noteq> []"
    "ds_ingest_pos (ru_dispatch sample_all) = 2" "stored_cursor sample_cfg (ru_store sample_all) = 1"
    by (simp_all add: sample_all_eq sample_half_eq sample_eval)
  have "\<forall>p pt. hget (ds_pending (ru_dispatch sample_all)) p = Some pt \<longrightarrow>
       pt_acked pt \<or> p \<in> cp_position ` set (ru_completions sample_all)"
    by (simp add: sample_all_eq sample_half_eq)
  from reap_persists_scanned_head [OF sample_reach(2) facts(1) this surjective_pairing] facts
  show ?thesis by simp
qed

end
