(* ===== verification/Aggregates.thy ===== *)
theory Aggregates
  imports Log_Interface
begin

text \<open>
  Aggregators (\<open>modules/causal/src/aggregator.rs\<close>, \<open>aggregate.rs\<close>): the type-erased fold of one event
  kind into one aggregate type. The closures of the struct are its functions over the state type
  \<open>'a\<close>, supplied by the application; \<open>None\<close> is their \<open>Err\<close>.
\<close>

record 'a aggregator =
  ag_event_prefix :: string
  ag_aggregate_type :: string
  ag_subject :: string
  ag_invariant :: bool
  ag_event_subject :: string
  ag_custom_id :: bool
  ag_extract_id :: "json \<Rightarrow> uuid option"
  ag_apply :: "'a \<Rightarrow> json \<Rightarrow> 'a option"
  ag_default :: 'a
  ag_serialize :: "'a \<Rightarrow> json option"
  ag_deserialize :: "json \<Rightarrow> 'a option"

definition find_by_durable_name :: "string \<Rightarrow> 'a aggregator list \<Rightarrow> 'a aggregator list" where
  "find_by_durable_name name ags = filter (\<lambda>a. ag_event_prefix a = name) ags"

definition find_first_by_aggregate_type :: "string \<Rightarrow> 'a aggregator list \<Rightarrow> 'a aggregator option" where
  "find_first_by_aggregate_type ty ags = find (\<lambda>a. ag_aggregate_type a = ty) ags"

definition restore_targets ::
  "string \<Rightarrow> json \<Rightarrow> 'a aggregator list \<Rightarrow> (string \<times> string \<times> uuid) list" where
  "restore_targets event_type payload ags =
     List.map_filter (\<lambda>a. map_option (\<lambda>i. (ag_aggregate_type a, ag_subject a, i)) (ag_extract_id a payload))
       (find_by_durable_name event_type ags)"

text \<open>\<open>unique_aggregate_types\<close>: the first occurrences, in registration order.\<close>

fun unique_types :: "string list \<Rightarrow> 'a aggregator list \<Rightarrow> string list" where
  "unique_types seen [] = []"
| "unique_types seen (a # ags) =
     (if ag_aggregate_type a \<in> set seen then unique_types seen ags
      else ag_aggregate_type a # unique_types (ag_aggregate_type a # seen) ags)"

text \<open>\<open>replay_events_onto\<close>: every matching aggregator applies, in registration order; the first error
  ends the replay.\<close>

fun apply_all :: "'a aggregator list \<Rightarrow> json \<Rightarrow> 'a \<Rightarrow> 'a option" where
  "apply_all [] payload st = Some st"
| "apply_all (a # ags) payload st =
     (case ag_apply a st payload of None \<Rightarrow> None | Some st' \<Rightarrow> apply_all ags payload st')"

fun replay_events_onto ::
  "string \<Rightarrow> 'a aggregator list \<Rightarrow> (string \<times> json) list \<Rightarrow> 'a \<Rightarrow> 'a option" where
  "replay_events_onto ty ags [] st = Some st"
| "replay_events_onto ty ags ((event_type, payload) # es) st =
     (case apply_all (filter (\<lambda>a. ag_aggregate_type a = ty \<and> ag_event_prefix a = event_type) ags) payload st of
        None \<Rightarrow> None
      | Some st' \<Rightarrow> replay_events_onto ty ags es st')"

lemma replay_append:
  "replay_events_onto ty ags (xs @ ys) st =
     (case replay_events_onto ty ags xs st of None \<Rightarrow> None | Some st' \<Rightarrow> replay_events_onto ty ags ys st')"
  by (induction ty ags xs st rule: replay_events_onto.induct) (auto split: option.split)

end
