(* ===== verification/Fold_On_Read.thy ===== *)
theory Fold_On_Read
  imports Aggregates "HOL-Library.Multiset"
begin

text \<open>
  \<open>fold_bounded\<close> and its worker-local cache (\<open>modules/causal/src/aggregator.rs\<close>): the state behind
  \<open>ctx.state_of\<close> in a partitioned reactor, the fold of a subject's history up to the trigger's
  position. The specification is the fold of the rows of the log; the cache is an optimisation
  whose coherence (\<open>entry_ok\<close>) is kept by every call.
\<close>

section \<open>The operation\<close>

datatype fold_error =
    NotRegistered string                   \<comment> \<open>the panic for an unregistered type\<close>
  | CustomIdFn string
  | LogRead append_error
  | FoldApplyFailed
  | SerializeFailed
  | NonDeterministicFold                   \<comment> \<open>the panic of the self check\<close>

record 'a fold_cache_entry =
  fc_state :: 'a
  fc_folded_to :: log_cursor
  fc_stream_tails :: "(string, stream_revision) hmap"

type_synonym 'a fold_cache = "(string \<times> uuid, 'a fold_cache_entry) hmap"

definition event_streams :: "'a aggregator list \<Rightarrow> string list" where
  "event_streams ags = remdups_adj (sort (map ag_event_subject ags))"

fun read_tails ::
  "'s backend \<Rightarrow> 's \<Rightarrow> uuid \<Rightarrow> log_cursor \<Rightarrow> log_cursor \<Rightarrow> (string, stream_revision) hmap \<Rightarrow>
   string list \<Rightarrow> append_error + recorded_event list" where
  "read_tails B s i bound folded_to tails [] = Inr []"
| "read_tails B s i bound folded_to tails (c # cs) =
     (case b_read_stream B c i (hget tails c) s of
        Inl err \<Rightarrow> Inl err
      | Inr events \<Rightarrow>
          (case read_tails B s i bound folded_to tails cs of
             Inl err \<Rightarrow> Inl err
           | Inr rest \<Rightarrow>
               Inr (filter (\<lambda>e. re_position e \<le> bound \<and> folded_to < re_position e) events @ rest)))"

definition agg_for :: "'a aggregator list \<Rightarrow> recorded_event \<Rightarrow> 'a aggregator option" where
  "agg_for ags e = find (\<lambda>a. ag_event_prefix a = re_event_type e) ags"

fun fold_merged ::
  "'a aggregator list \<Rightarrow> log_cursor \<Rightarrow> recorded_event list \<Rightarrow> 'a \<Rightarrow> log_cursor \<Rightarrow>
   (string, stream_revision) hmap \<Rightarrow> 'a option \<Rightarrow>
   ('a \<times> log_cursor \<times> (string, stream_revision) hmap \<times> 'a option) option" where
  "fold_merged ags bound [] st folded_to tails prev = Some (st, folded_to, tails, prev)"
| "fold_merged ags bound (e # es) st folded_to tails prev =
     (case agg_for ags e of
        None \<Rightarrow>
          fold_merged ags bound es st (re_position e) (hput (re_category e) (re_revision e) tails) prev
      | Some a \<Rightarrow>
          (case ag_apply a st (re_payload e) of
             None \<Rightarrow> None
           | Some st' \<Rightarrow>
               fold_merged ags bound es st' (re_position e)
                 (hput (re_category e) (re_revision e) tails)
                 (if re_position e = bound then Some st else prev)))"

fun refold :: "'a aggregator list \<Rightarrow> recorded_event list \<Rightarrow> 'a \<Rightarrow> 'a option" where
  "refold ags [] st = Some st"
| "refold ags (e # es) st =
     (case agg_for ags e of
        None \<Rightarrow> refold ags es st
      | Some a \<Rightarrow>
          (case ag_apply a st (re_payload e) of None \<Rightarrow> None | Some st' \<Rightarrow> refold ags es st'))"

definition self_check_result ::
  "bool \<Rightarrow> 'a aggregator list \<Rightarrow> recorded_event list \<Rightarrow> 'a \<Rightarrow> 'a \<Rightarrow> fold_error option" where
  "self_check_result on ags merged start st =
     (if \<not> on then None
      else case refold ags merged start of
        None \<Rightarrow> Some FoldApplyFailed
      | Some recheck \<Rightarrow>
          (case (ag_serialize (hd ags) st, ag_serialize (hd ags) recheck) of
             (Some a, Some b) \<Rightarrow> if a = b then None else Some NonDeterministicFold
           | _ \<Rightarrow> Some SerializeFailed))"

text \<open>After the cache lookup: read the unfolded tails, merge them by position, fold, check, store.\<close>

definition fold_from ::
  "'a aggregator list \<Rightarrow> bool \<Rightarrow> 's backend \<Rightarrow> 's \<Rightarrow> string \<Rightarrow> uuid \<Rightarrow> log_cursor \<Rightarrow> bool \<Rightarrow>
   'a fold_cache \<Rightarrow> 'a fold_cache_entry \<Rightarrow> (fold_error + 'a \<times> 'a) \<times> 'a fold_cache" where
  "fold_from ags self_check B s ty i bound cacheable cache e =
     (case read_tails B s i bound (fc_folded_to e) (fc_stream_tails e) (event_streams ags) of
        Inl err \<Rightarrow> (Inl (LogRead err), cache)
      | Inr events \<Rightarrow>
          let merged = sort_key re_position events in
          (case fold_merged ags bound merged (fc_state e) (fc_folded_to e) (fc_stream_tails e) None of
             None \<Rightarrow> (Inl FoldApplyFailed, cache)
           | Some (st, folded_to, tails, prev) \<Rightarrow>
               (case self_check_result self_check ags merged (fc_state e) st of
                  Some err \<Rightarrow> (Inl err, cache)
                | None \<Rightarrow>
                    (Inr (case prev of Some p \<Rightarrow> p | None \<Rightarrow> st, st),
                     if cacheable
                     then hput (ty, i) \<lparr> fc_state = st, fc_folded_to = folded_to,
                                         fc_stream_tails = tails \<rparr> cache
                     else cache))))"

definition cold_entry :: "'a aggregator list \<Rightarrow> 'a fold_cache_entry" where
  "cold_entry ags =
     \<lparr> fc_state = ag_default (hd ags), fc_folded_to = cursor_zero, fc_stream_tails = [] \<rparr>"

definition fold_bounded ::
  "'a aggregator list \<Rightarrow> bool \<Rightarrow> 's backend \<Rightarrow> 's \<Rightarrow> string \<Rightarrow> uuid \<Rightarrow> log_cursor \<Rightarrow> 'a fold_cache \<Rightarrow>
   (fold_error + 'a \<times> 'a) \<times> 'a fold_cache" where
  "fold_bounded registered self_check B s ty i bound cache =
     (let ags = filter (\<lambda>a. ag_aggregate_type a = ty) registered in
      if ags = [] then (Inl (NotRegistered ty), cache)
      else case find ag_custom_id ags of
        Some bad \<Rightarrow> (Inl (CustomIdFn (ag_event_prefix bad)), cache)
      | None \<Rightarrow>
          (case hget cache (ty, i) of
             Some e \<Rightarrow>
               if fc_folded_to e \<le> bound
               then fold_from ags self_check B s ty i bound True (hdel (ty, i) cache) e
               else fold_from ags self_check B s ty i bound False cache (cold_entry ags)
           | None \<Rightarrow> fold_from ags self_check B s ty i bound True cache (cold_entry ags)))"

section \<open>The specification\<close>

definition feeds :: "'a aggregator list \<Rightarrow> uuid \<Rightarrow> recorded_event \<Rightarrow> bool" where
  "feeds ags i r \<longleftrightarrow> re_subject_id r = i \<and> re_category r \<in> ag_event_subject ` set ags"

text \<open>The history of the subject: the rows of its streams in log order.\<close>

definition history :: "'a aggregator list \<Rightarrow> uuid \<Rightarrow> recorded_event list \<Rightarrow> recorded_event list" where
  "history ags i rows = filter (feeds ags i) rows"

definition entry_ok ::
  "'a aggregator list \<Rightarrow> recorded_event list \<Rightarrow> uuid \<Rightarrow> 'a fold_cache_entry \<Rightarrow> bool" where
  "entry_ok ags rows i e \<longleftrightarrow>
     refold ags (filter (\<lambda>r. re_position r \<le> fc_folded_to e) (history ags i rows)) (ag_default (hd ags)) =
       Some (fc_state e) \<and>
     (fc_folded_to e = 0 \<or> fc_folded_to e \<in> re_position ` set rows) \<and>
     (\<forall>c rv. hget (fc_stream_tails e) c = Some rv \<longrightarrow>
        (\<exists>x \<in> set rows. row_key x = (c, i) \<and> re_revision x = rv \<and> re_position x \<le> fc_folded_to e))"

definition cache_ok :: "'a aggregator list \<Rightarrow> recorded_event list \<Rightarrow> 'a fold_cache \<Rightarrow> bool" where
  "cache_ok registered rows cache \<longleftrightarrow>
     (\<forall>ty i e. hget cache (ty, i) = Some e \<longrightarrow>
        entry_ok (filter (\<lambda>a. ag_aggregate_type a = ty) registered) rows i e)"

lemma refold_append:
  "refold ags (xs @ ys) st = (case refold ags xs st of None \<Rightarrow> None | Some st' \<Rightarrow> refold ags ys st')"
  by (induction ags xs st rule: refold.induct) (auto split: option.split)

section \<open>The loop against the specification\<close>

lemma fold_merged_refold:
  "map_option fst (fold_merged ags bound es st fl tails prev) = refold ags es st"
  by (induction ags bound es st fl tails prev rule: fold_merged.induct) (auto split: option.split)

lemma fold_merged_of_refold:
  "refold ags es st = None \<Longrightarrow> fold_merged ags bound es st fl tails prev = None"
  "refold ags es st = Some st' \<Longrightarrow>
     \<exists>fl' tails' prev'. fold_merged ags bound es st fl tails prev = Some (st', fl', tails', prev')"
  using fold_merged_refold [of ags bound es st fl tails prev]
  by (cases "fold_merged ags bound es st fl tails prev"; auto)+

lemma fold_merged_Some:
  assumes "fold_merged ags bound es st fl tails prev = Some (st', fl', tails', prev')"
  shows "refold ags es st = Some st'"
    and "fl' = (if es = [] then fl else re_position (last es))"
    and "tails' = fold (\<lambda>e. hput (re_category e) (re_revision e)) es tails"
    and "\<forall>e \<in> set es. re_position e \<noteq> bound \<Longrightarrow> prev' = prev"
proof -
  show "refold ags es st = Some st'" using fold_merged_refold [of ags bound es st fl tails prev] assms by simp
  show "fl' = (if es = [] then fl else re_position (last es))"
    using assms by (induction ags bound es st fl tails prev rule: fold_merged.induct)
      (auto split: option.splits if_splits)
  show "tails' = fold (\<lambda>e. hput (re_category e) (re_revision e)) es tails"
    using assms by (induction ags bound es st fl tails prev rule: fold_merged.induct)
      (auto split: option.splits)
  show "prev' = prev" if "\<forall>e \<in> set es. re_position e \<noteq> bound"
    using assms that by (induction ags bound es st fl tails prev rule: fold_merged.induct)
      (auto split: option.splits)
qed

lemma fold_merged_append:
  "fold_merged ags bound (xs @ ys) st fl tails prev =
     (case fold_merged ags bound xs st fl tails prev of
        None \<Rightarrow> None | Some (st', fl', tails', prev') \<Rightarrow> fold_merged ags bound ys st' fl' tails' prev')"
  by (induction ags bound xs st fl tails prev rule: fold_merged.induct) (auto split: option.split)

text \<open>On ascending events up to the bound, the captured pre-state is the fold of those below it.\<close>

lemma fold_merged_prev:
  assumes "fold_merged ags bound es st fl tails None = Some (st', fl', tails', prev')"
    and "sorted_wrt (\<lambda>x y. re_position x < re_position y) es" "\<forall>e \<in> set es. re_position e \<le> bound"
  shows "refold ags (filter (\<lambda>e. re_position e < bound) es) st =
           Some (case prev' of Some p \<Rightarrow> p | None \<Rightarrow> st')"
proof (cases "\<exists>e \<in> set es. re_position e = bound")
  case False
  then have "filter (\<lambda>e. re_position e < bound) es = es"
    using assms(3) by (fastforce intro: filter_True)
  then show ?thesis using fold_merged_Some(1,4) [OF assms(1)] False by simp
next
  case True
  then obtain xs e ys where es: "es = xs @ e # ys" "re_position e = bound" by (metis split_list)
  have "ys = []"
  proof (rule ccontr)
    assume "ys \<noteq> []"
    then obtain y where "y \<in> set ys" by (cases ys) auto
    then have "bound < re_position y" "re_position y \<le> bound"
      using assms(2,3) es by (auto simp: sorted_wrt_append)
    then show False by simp
  qed
  have below: "\<forall>x \<in> set xs. re_position x < bound"
    using assms(2) es by (auto simp: sorted_wrt_append)
  then have flt: "filter (\<lambda>e. re_position e < bound) es = xs"
    using es \<open>ys = []\<close> by (simp add: filter_True)
  obtain st1 fl1 tails1 p1 where one: "fold_merged ags bound xs st fl tails None = Some (st1, fl1, tails1, p1)"
    and two: "fold_merged ags bound [e] st1 fl1 tails1 p1 = Some (st', fl', tails', prev')"
    using assms(1) es \<open>ys = []\<close> by (auto simp: fold_merged_append split: option.splits)
  have "p1 = None" using fold_merged_Some(4) [OF one] below by blast
  then show ?thesis
    using two es(2) flt fold_merged_Some(1) [OF one] by (auto split: option.splits)
qed

section \<open>What is read\<close>

lemma event_streams_set: "set (event_streams ags) = ag_event_subject ` set ags"
  by (simp add: event_streams_def)

lemma event_streams_distinct: "distinct (event_streams ags)"
proof -
  have "distinct ys" if "sorted ys" "distinct_adj ys" for ys :: "string list"
    using that
  proof (induction ys rule: induct_list012)
    case (3 x y ys)
    then have "x < y" "sorted (y # ys)" by auto
    then show ?case using 3 by fastforce
  qed auto
  then show ?thesis by (simp add: event_streams_def)
qed

lemma mset_by_stream:
  assumes "distinct cs"
  shows "mset (concat (map (\<lambda>c. filter Q (stream_rows rows (c, i))) cs)) =
         mset (filter (\<lambda>r. Q r \<and> re_category r \<in> set cs \<and> re_subject_id r = i) rows)"
  using assms
proof (induction cs)
  case (Cons c cs)
  have "filter Q (stream_rows rows (c, i)) = filter (\<lambda>r. Q r \<and> re_category r = c \<and> re_subject_id r = i) rows"
    unfolding stream_rows_def filter_filter by (rule filter_cong) auto
  moreover have "mset (filter (\<lambda>r. Q r \<and> re_category r = c \<and> re_subject_id r = i) rows) +
      mset (filter (\<lambda>r. Q r \<and> re_category r \<in> set cs \<and> re_subject_id r = i) rows) =
      mset (filter (\<lambda>r. Q r \<and> re_category r \<in> set (c # cs) \<and> re_subject_id r = i) rows)"
    using Cons.prems by (induction rows) auto
  ultimately show ?case using Cons by simp
qed simp

lemma fold_hput_get:
  "hget (fold (\<lambda>e. hput (f e) (g e)) es tails) c =
     (case find (\<lambda>e. f e = c) (List.rev es) of Some e \<Rightarrow> Some (g e) | None \<Rightarrow> hget tails c)"
  by (induction es arbitrary: tails rule: rev_induct) auto

lemma find_in: "find P xs = Some x \<Longrightarrow> x \<in> set xs \<and> P x"
  by (induction xs) (auto split: if_splits)

context event_log
begin

lemma read_tails_eq:
  assumes "inv s"
    and tails: "\<forall>c rv. hget tails c = Some rv \<longrightarrow> rv \<noteq> - 1 \<and>
        (\<forall>r \<in> set (rows s). re_category r = c \<and> re_subject_id r = i \<and> re_revision r \<le> rv \<longrightarrow>
           re_position r \<le> fl)"
  shows "read_tails B s i bound fl tails cs =
     Inr (concat (map (\<lambda>c. filter (\<lambda>r. re_position r \<le> bound \<and> fl < re_position r)
                             (stream_rows (rows s) (c, i))) cs))"
proof (induction cs)
  case (Cons c cs)
  have "filter (\<lambda>r. re_position r \<le> bound \<and> fl < re_position r)
          (filter (\<lambda>r. rv < re_revision r) (stream_rows (rows s) (c, i))) =
        filter (\<lambda>r. re_position r \<le> bound \<and> fl < re_position r) (stream_rows (rows s) (c, i))"
    if "hget tails c = Some rv" for rv
    unfolding filter_filter
    by (rule filter_cong [OF refl]) (use tails that in \<open>fastforce simp: stream_rows_def not_less\<close>)
  then show ?case
    using Cons read_whole [OF assms(1)] read_after [OF assms(1)] tails
    by (cases "hget tails c") (auto split: option.split)
qed simp

text \<open>The merged, sorted tail is a segment of the history.\<close>

lemma merged_history:
  assumes "inv s"
    and "read_tails B s i bound fl tails (event_streams ags) = Inr events"
    and tails: "\<forall>c rv. hget tails c = Some rv \<longrightarrow> rv \<noteq> - 1 \<and>
        (\<forall>r \<in> set (rows s). re_category r = c \<and> re_subject_id r = i \<and> re_revision r \<le> rv \<longrightarrow>
           re_position r \<le> fl)"
  shows "sort_key re_position events =
           filter (\<lambda>r. re_position r \<le> bound \<and> fl < re_position r) (history ags i (rows s))"
proof (rule sort_key_inj_key_eq)
  let ?seg = "filter (\<lambda>r. re_position r \<le> bound \<and> fl < re_position r) (history ags i (rows s))"
  have seg: "?seg = filter (\<lambda>r. (re_position r \<le> bound \<and> fl < re_position r) \<and>
      re_category r \<in> set (event_streams ags) \<and> re_subject_id r = i) (rows s)"
    unfolding history_def filter_filter feeds_def event_streams_set by (rule filter_cong) auto
  have asc: "sorted_wrt (\<lambda>x y. re_position x < re_position y) ?seg"
    unfolding history_def by (intro sorted_wrt_filter ascending assms(1))
  show ms: "mset events = mset ?seg"
    using assms(2) mset_by_stream [OF event_streams_distinct,
        of "\<lambda>r. re_position r \<le> bound \<and> fl < re_position r" "rows s" i ags]
    unfolding seg read_tails_eq [OF assms(1) tails] by (simp only: sum.inject)
  have "sorted_wrt (<) (map re_position ?seg)" using asc by (simp add: sorted_wrt_map)
  then have "distinct (map re_position ?seg) \<and> sorted (map re_position ?seg)"
    unfolding strict_sorted_iff by blast
  then show "inj_on re_position (set events)" "sorted (map re_position ?seg)"
    using mset_eq_setD [OF ms] by (simp_all add: distinct_map)
qed

lemma filter_segments:
  fixes p :: "'x \<Rightarrow> 'y::linorder"
  assumes "sorted_wrt (\<lambda>x y. p x < p y) xs" "fl \<le> bound"
  shows "filter (\<lambda>r. p r \<le> fl) xs @ filter (\<lambda>r. p r \<le> bound \<and> fl < p r) xs =
         filter (\<lambda>r. p r \<le> bound) xs"
  using assms(1)
proof (induction xs)
  case (Cons x xs)
  have rest: "filter (\<lambda>r. p r \<le> fl) xs = []" if "fl < p x"
    using Cons.prems that by (auto simp: filter_empty_conv)
  show ?case using Cons assms(2) rest by (cases "p x \<le> fl") auto
qed simp

lemma segments_below:
  fixes p :: "'x \<Rightarrow> 'y::linorder"
  assumes "sorted_wrt (\<lambda>x y. p x < p y) xs" "fl < bound"
  shows "filter (\<lambda>r. p r < bound) xs =
         filter (\<lambda>r. p r \<le> fl) xs @ filter (\<lambda>r. p r < bound) (filter (\<lambda>r. p r \<le> bound \<and> fl < p r) xs)"
  using assms(1)
proof (induction xs)
  case (Cons x xs)
  have rest: "filter (\<lambda>r. p r \<le> fl) xs = []" if "fl < p x"
    using Cons.prems that by (auto simp: filter_empty_conv)
  show ?case using Cons assms(2) rest by (cases "p x \<le> fl") auto
qed simp

lemma last_is_top:
  fixes p :: "'x \<Rightarrow> 'y::linorder"
  assumes "sorted_wrt (\<lambda>x y. p x < p y) xs" "\<forall>x \<in> set xs. p x \<le> m" "\<exists>x \<in> set xs. p x = m"
  shows "p (last xs) = m"
  using assms by (induction xs rule: rev_induct) (fastforce simp: sorted_wrt_append)+

lemma history_ascending:
  "inv s \<Longrightarrow> sorted_wrt (\<lambda>x y. re_position x < re_position y) (history ags i (rows s))"
  unfolding history_def by (intro sorted_wrt_filter ascending)

lemma revision_order:
  assumes "inv s" "x \<in> set (rows s)" "y \<in> set (rows s)" "row_key x = row_key y"
    "re_revision x \<le> re_revision y"
  shows "re_position x \<le> re_position y"
proof -
  let ?P = "\<lambda>r. row_key r = row_key x"
  obtain i j where ij: "i < length (rows s)" "x = rows s ! i" "j < length (rows s)" "y = rows s ! j"
    using assms(2,3) by (auto simp: in_set_conv_nth)
  have rv: "unat (re_revision x) = length (filter ?P (take i (rows s)))"
    "unat (re_revision y) = length (filter ?P (take j (rows s)))"
    using dense [OF assms(1)] ij assms(4) by (simp_all add: revisions_dense_def)
  have "i \<le> j"
  proof (rule ccontr)
    assume "\<not> i \<le> j"
    then obtain k where k: "i = Suc j + k" using less_iff_Suc_add [of j i] by auto
    have "take i (rows s) = take (Suc j) (rows s) @ take k (drop (Suc j) (rows s))"
      unfolding k by (rule take_add)
    moreover have "take (Suc j) (rows s) = take j (rows s) @ [y]"
      using ij by (simp add: take_Suc_conv_app_nth)
    ultimately have "length (filter ?P (take i (rows s))) > length (filter ?P (take j (rows s)))"
      using assms(4) by simp
    then show False using rv assms(5) by (simp add: word_le_nat_alt)
  qed
  then show ?thesis
    using ascending [OF assms(1)] ij
    by (cases "i = j") (auto simp: sorted_wrt_iff_nth_less intro!: order_less_imp_le)
qed

lemma entry_tails:
  assumes inv: "inv s" and e: "entry_ok ags (rows s) i e" and get: "hget (fc_stream_tails e) c = Some rv"
  shows "rv \<noteq> - 1 \<and> (\<forall>r \<in> set (rows s). re_category r = c \<and> re_subject_id r = i \<and> re_revision r \<le> rv \<longrightarrow>
           re_position r \<le> fc_folded_to e)"
proof -
  obtain x where x: "x \<in> set (rows s)" "row_key x = (c, i)" "re_revision x = rv"
    "re_position x \<le> fc_folded_to e"
    using e get by (auto simp: entry_ok_def)
  have "re_position r \<le> fc_folded_to e"
    if r: "r \<in> set (rows s)" "re_category r = c" "re_subject_id r = i" "re_revision r \<le> rv" for r
  proof -
    have "re_position r \<le> re_position x"
      using revision_order [OF inv r(1) x(1)] r x(2,3) by simp
    then show ?thesis using x(4) by simp
  qed
  then show ?thesis using revision_room [OF inv x(1)] x(3) by blast
qed

text \<open>One coherent start state, cached or cold: the fold continues it to the bound.\<close>

lemma entry_continues:
  assumes inv: "inv s" and e: "entry_ok ags (rows s) i e" and le: "fc_folded_to e \<le> bound"
  obtains events where
    "read_tails B s i bound (fc_folded_to e) (fc_stream_tails e) (event_streams ags) = Inr events"
    "sort_key re_position events =
       filter (\<lambda>r. re_position r \<le> bound \<and> fc_folded_to e < re_position r) (history ags i (rows s))"
    "refold ags (sort_key re_position events) (fc_state e) =
       refold ags (filter (\<lambda>r. re_position r \<le> bound) (history ags i (rows s))) (ag_default (hd ags))"
proof -
  have tails: "\<forall>c rv. hget (fc_stream_tails e) c = Some rv \<longrightarrow> rv \<noteq> - 1 \<and>
        (\<forall>r \<in> set (rows s). re_category r = c \<and> re_subject_id r = i \<and> re_revision r \<le> rv \<longrightarrow>
           re_position r \<le> fc_folded_to e)"
    using entry_tails [OF inv e] by blast
  obtain events where ev: "read_tails B s i bound (fc_folded_to e) (fc_stream_tails e) (event_streams ags) =
      Inr events"
    using read_tails_eq [OF inv tails] by blast
  note mg = merged_history [OF inv ev tails]
  have "refold ags (filter (\<lambda>r. re_position r \<le> bound) (history ags i (rows s))) (ag_default (hd ags)) =
        refold ags (sort_key re_position events) (fc_state e)"
    using e unfolding mg filter_segments [OF history_ascending [OF inv] le, symmetric] refold_append
    by (simp add: entry_ok_def)
  then show thesis using that [OF ev mg] by simp
qed

lemma entry_ok_cold:
  assumes "inv s"
  shows "entry_ok ags (rows s) i (cold_entry ags)"
proof -
  have "filter (\<lambda>r. re_position r \<le> 0) (history ags i (rows s)) = []"
    using positive [OF assms] by (fastforce simp: filter_empty_conv history_def)
  then show ?thesis by (simp add: entry_ok_def cold_entry_def cursor_zero_def)
qed

lemma entry_ok_next:
  assumes inv: "inv s" and e: "entry_ok ags (rows s) i e" and le: "fc_folded_to e \<le> bound"
    and mg: "merged = filter (\<lambda>r. re_position r \<le> bound \<and> fc_folded_to e < re_position r)
                        (history ags i (rows s))"
    and st: "refold ags (filter (\<lambda>r. re_position r \<le> bound) (history ags i (rows s)))
               (ag_default (hd ags)) = Some st"
    and fl: "fl = (if merged = [] then fc_folded_to e else re_position (last merged))"
    and tails: "tails = fold (\<lambda>e. hput (re_category e) (re_revision e)) merged (fc_stream_tails e)"
  shows "entry_ok ags (rows s) i \<lparr> fc_state = st, fc_folded_to = fl, fc_stream_tails = tails \<rparr> \<and> fl \<le> bound"
proof -
  let ?h = "history ags i (rows s)"
  have asc: "sorted_wrt (\<lambda>x y. re_position x < re_position y) merged"
    unfolding mg by (intro sorted_wrt_filter history_ascending inv)
  have in_mg: "r \<in> set merged \<longleftrightarrow> r \<in> set ?h \<and> re_position r \<le> bound \<and> fc_folded_to e < re_position r" for r
    by (auto simp: mg)
  have top: "re_position r \<le> fl" if r: "r \<in> set merged" for r
  proof -
    obtain xs z where m: "merged = xs @ [z]" using r by (metis list.set(1) empty_iff rev_exhaust)
    then have "fl = re_position z" using fl by simp
    moreover have "\<forall>x \<in> set xs. re_position x < re_position z"
      using asc unfolding m sorted_wrt_append by simp
    moreover have "r \<in> set xs \<or> r = z" using r m by auto
    ultimately show ?thesis by auto
  qed
  have last: "merged \<noteq> [] \<Longrightarrow> last merged \<in> set merged" by simp
  have bounds: "fc_folded_to e \<le> fl" "fl \<le> bound"
    using fl le in_mg last by (auto split: if_splits)
  have "(re_position r \<le> fl) = (re_position r \<le> bound)" if "r \<in> set ?h" for r
    using that in_mg [of r] top [of r] bounds by (meson linorder_not_le order_trans)
  then have "filter (\<lambda>r. re_position r \<le> fl) ?h = filter (\<lambda>r. re_position r \<le> bound) ?h"
    by (rule filter_cong [OF refl])
  moreover have "fl = 0 \<or> fl \<in> re_position ` set (rows s)"
    using e fl last in_mg by (auto simp: entry_ok_def history_def split: if_splits)
  moreover have "\<exists>x \<in> set (rows s). row_key x = (c, i) \<and> re_revision x = rv \<and> re_position x \<le> fl"
    if "hget tails c = Some rv" for c rv
  proof (cases "find (\<lambda>e. re_category e = c) (List.rev merged)")
    case None
    then have "hget (fc_stream_tails e) c = Some rv" using that by (simp add: tails fold_hput_get)
    then show ?thesis using e bounds(1) by (fastforce simp: entry_ok_def)
  next
    case (Some x)
    then have x: "x \<in> set merged" "re_category x = c" "re_revision x = rv"
      using that find_in [OF Some] by (simp_all add: tails fold_hput_get)
    then have "x \<in> set (rows s)" "re_subject_id x = i" using in_mg by (auto simp: history_def feeds_def)
    then show ?thesis using x top [OF x(1)] by auto
  qed
  ultimately show ?thesis using st bounds(2) by (simp add: entry_ok_def)
qed

lemma cache_ok_get:
  "cache_ok registered rws cache \<Longrightarrow> hget cache (ty, i) = Some e \<Longrightarrow>
     entry_ok (filter (\<lambda>a. ag_aggregate_type a = ty) registered) rws i e"
  by (simp add: cache_ok_def)

lemma cache_ok_hdel: "cache_ok registered rws cache \<Longrightarrow> cache_ok registered rws (hdel k cache)"
  by (simp add: cache_ok_def)

text \<open>From a coherent start entry, cached or cold.\<close>

lemma fold_from_spec:
  fixes registered :: "'a aggregator list"
  assumes inv: "inv s" and cache1: "cache_ok registered (rows s) cache"
    and ags: "ags = filter (\<lambda>a. ag_aggregate_type a = ty) registered"
    and e: "entry_ok ags (rows s) i e" and le: "fc_folded_to e \<le> bound"
    and ser: "sc \<longrightarrow> (\<forall>st. ag_serialize (hd ags) st \<noteq> None)"
    and run_def: "run = fold_from ags sc B s ty i bound cacheable cache e"
  shows "(case refold ags (filter (\<lambda>r. re_position r \<le> bound) (history ags i (rows s))) (ag_default (hd ags)) of
            None \<Rightarrow> fst run = Inl FoldApplyFailed
          | Some cur \<Rightarrow> \<exists>prev. fst run = Inr (prev, cur) \<and>
              (fc_folded_to e \<noteq> bound \<longrightarrow>
                 refold ags (filter (\<lambda>r. re_position r < bound) (history ags i (rows s)))
                   (ag_default (hd ags)) = Some prev) \<and>
              (fc_folded_to e = bound \<longrightarrow> prev = cur) \<and>
              (cacheable \<longrightarrow> (\<exists>e'. hget (snd run) (ty, i) = Some e' \<and> fc_folded_to e' \<le> bound \<and>
                 (bound \<in> re_position ` set (history ags i (rows s)) \<longrightarrow> fc_folded_to e' = bound)))) \<and>
         cache_ok registered (rows s) (snd run)"
proof -
  let ?h = "history ags i (rows s)"
  obtain events where ev:
    "read_tails B s i bound (fc_folded_to e) (fc_stream_tails e) (event_streams ags) = Inr events"
    "sort_key re_position events =
       filter (\<lambda>r. re_position r \<le> bound \<and> fc_folded_to e < re_position r) ?h"
    "refold ags (sort_key re_position events) (fc_state e) =
       refold ags (filter (\<lambda>r. re_position r \<le> bound) ?h) (ag_default (hd ags))"
    using entry_continues [OF inv e le] by blast
  let ?m = "sort_key re_position events"
  show ?thesis
  proof (cases "refold ags ?m (fc_state e)")
    case None
    then have "fold_merged ags bound ?m (fc_state e) (fc_folded_to e) (fc_stream_tails e) None = None"
      by (rule fold_merged_of_refold(1))
    then show ?thesis using None ev(1,3) cache1 by (simp add: run_def fold_from_def)
  next
    case (Some cur)
    then obtain fl tails prev where fm:
      "fold_merged ags bound ?m (fc_state e) (fc_folded_to e) (fc_stream_tails e) None =
         Some (cur, fl, tails, prev)"
      using fold_merged_of_refold(2) [OF Some, where bound = bound and fl = "fc_folded_to e" and
          tails = "fc_stream_tails e" and prev = None]
      by auto
    note fs = fold_merged_Some [OF fm]
    have asc: "sorted_wrt (\<lambda>x y. re_position x < re_position y) ?m"
      unfolding ev(2) by (intro sorted_wrt_filter history_ascending inv)
    have below: "\<forall>x \<in> set ?m. re_position x \<le> bound" unfolding ev(2) by simp
    have whole: "refold ags (filter (\<lambda>r. re_position r \<le> bound) ?h) (ag_default (hd ags)) = Some cur"
      using ev(3) Some by simp
    have next_ok: "entry_ok ags (rows s) i \<lparr> fc_state = cur, fc_folded_to = fl, fc_stream_tails = tails \<rparr> \<and>
        fl \<le> bound"
      by (rule entry_ok_next [OF inv e le ev(2) whole fs(2,3)])
    have self: "self_check_result sc ags ?m (fc_state e) cur = None"
    proof (cases sc)
      case True
      then obtain j where "ag_serialize (hd ags) cur = Some j" using ser by blast
      then show ?thesis using Some by (simp add: self_check_result_def)
    qed (simp add: self_check_result_def)
    have run: "run = (Inr (case prev of Some p \<Rightarrow> p | None \<Rightarrow> cur, cur),
        if cacheable then hput (ty, i) \<lparr> fc_state = cur, fc_folded_to = fl, fc_stream_tails = tails \<rparr> cache
        else cache)"
      using ev(1) fm self by (simp add: run_def fold_from_def)
    have cache': "cache_ok registered (rows s) (snd run)"
      using cache1 next_ok ags unfolding run by (simp add: cache_ok_def)
    have prev1: "refold ags (filter (\<lambda>r. re_position r < bound) ?h) (ag_default (hd ags)) =
        Some (case prev of Some p \<Rightarrow> p | None \<Rightarrow> cur)" if "fc_folded_to e \<noteq> bound"
    proof -
      have "fc_folded_to e < bound" using that le by simp
      from segments_below [OF history_ascending [OF inv] this, of ags i] show ?thesis
        using e fold_merged_prev [OF fm asc below] unfolding ev(2)
        by (simp add: refold_append entry_ok_def)
    qed
    have prev2: "(case prev of Some p \<Rightarrow> p | None \<Rightarrow> cur) = cur" if "fc_folded_to e = bound"
    proof -
      have "?m = []" unfolding ev(2) using that by (auto simp: filter_empty_conv)
      then show ?thesis using fm by simp
    qed
    have reached: "fl = bound" if "bound \<in> re_position ` set ?h"
    proof (cases "?m = []")
      case True
      then have "\<not> fc_folded_to e < bound" using that unfolding ev(2) by (force simp: filter_empty_conv)
      then show ?thesis using fs(2) True le by simp
    next
      case False
      then have "\<exists>r \<in> set ?m. re_position r = bound"
        using that fs(2) next_ok unfolding ev(2) by (force simp: filter_empty_conv)
      then have "re_position (last ?m) = bound" using last_is_top [OF asc below] by blast
      then show ?thesis using fs(2) False by simp
    qed
    show ?thesis
      using whole prev1 prev2 reached cache' next_ok unfolding run by (cases cacheable) auto
  qed
qed

lemma fold_bounded_start:
  assumes inv: "inv s" and cache: "cache_ok registered (rows s) cache"
    and ags: "ags = filter (\<lambda>a. ag_aggregate_type a = ty) registered" "ags \<noteq> []" "find ag_custom_id ags = None"
  obtains e cacheable cache1 where
    "fold_bounded registered sc B s ty i bound cache = fold_from ags sc B s ty i bound cacheable cache1 e"
    "entry_ok ags (rows s) i e" "fc_folded_to e \<le> bound" "cache_ok registered (rows s) cache1"
    "fc_folded_to e = bound \<longrightarrow> bound = 0 \<or> (\<exists>e. hget cache (ty, i) = Some e \<and> fc_folded_to e = bound)"
    "cacheable \<longleftrightarrow> (\<forall>e. hget cache (ty, i) = Some e \<longrightarrow> fc_folded_to e \<le> bound)"
    "\<And>e'. hget cache (ty, i) = Some e' \<Longrightarrow> fc_folded_to e' \<le> bound \<Longrightarrow> e = e'"
proof (cases "\<exists>e. hget cache (ty, i) = Some e \<and> fc_folded_to e \<le> bound")
  case True
  then obtain e where e: "hget cache (ty, i) = Some e" "fc_folded_to e \<le> bound" by blast
  show thesis
    by (rule that [of True "hdel (ty, i) cache" e])
       (use e ags cache cache_ok_get [OF cache e(1)] in
         \<open>auto simp: fold_bounded_def Let_def cache_ok_hdel\<close>)
next
  case False
  have cold: "entry_ok ags (rows s) i (cold_entry ags)" by (rule entry_ok_cold [OF inv])
  show thesis
    by (rule that [of "hget cache (ty, i) = None" cache "cold_entry ags"])
       (use False ags cache cold in
         \<open>auto simp: fold_bounded_def Let_def cold_entry_def cursor_zero_def split: option.split\<close>)
qed

lemma fold_bounded_spec:
  assumes inv: "inv s" and cache: "cache_ok registered (rows s) cache"
    and ags: "ags = filter (\<lambda>a. ag_aggregate_type a = ty) registered" "ags \<noteq> []" "find ag_custom_id ags = None"
    and ser: "sc \<longrightarrow> (\<forall>st. ag_serialize (hd ags) st \<noteq> None)" and bound: "0 < bound"
    and run: "run = fold_bounded registered sc B s ty i bound cache"
  shows "cache_ok registered (rows s) (snd run) \<and>
    (case refold ags (filter (\<lambda>r. re_position r \<le> bound) (history ags i (rows s))) (ag_default (hd ags)) of
       None \<Rightarrow> fst run = Inl FoldApplyFailed
     | Some cur \<Rightarrow> \<exists>prev. fst run = Inr (prev, cur) \<and>
         ((\<forall>e. hget cache (ty, i) = Some e \<longrightarrow> fc_folded_to e \<noteq> bound) \<longrightarrow>
            refold ags (filter (\<lambda>r. re_position r < bound) (history ags i (rows s)))
              (ag_default (hd ags)) = Some prev))"
proof -
  obtain e cacheable cache1 where
    eq: "fold_bounded registered sc B s ty i bound cache = fold_from ags sc B s ty i bound cacheable cache1 e"
    and e: "entry_ok ags (rows s) i e" "fc_folded_to e \<le> bound" "cache_ok registered (rows s) cache1"
    "fc_folded_to e = bound \<longrightarrow> bound = 0 \<or> (\<exists>e. hget cache (ty, i) = Some e \<and> fc_folded_to e = bound)"
    by (rule fold_bounded_start [OF inv cache ags])
  show ?thesis
    using fold_from_spec [OF inv e(3) ags(1) e(1,2) ser run [unfolded eq]] e(4) bound
    by (auto split: option.splits)
qed

text \<open>The second read of an aggregate at the trigger's own position.\<close>

lemma fold_bounded_again:
  assumes inv: "inv s" and cache: "cache_ok registered (rows s) cache"
    and ags: "ags = filter (\<lambda>a. ag_aggregate_type a = ty) registered" "ags \<noteq> []" "find ag_custom_id ags = None"
    and ser: "sc \<longrightarrow> (\<forall>st. ag_serialize (hd ags) st \<noteq> None)"
    and trigger: "bound \<in> re_position ` set (history ags i (rows s))"
    and first: "fold_bounded registered sc B s ty i bound cache = (Inr (prev, cur), cache')"
    and start: "\<forall>e. hget cache (ty, i) = Some e \<longrightarrow> fc_folded_to e \<le> bound"
  shows "fst (fold_bounded registered sc B s ty i bound cache') = Inr (cur, cur)"
proof -
  obtain e cacheable cache1 where
    eq: "fold_bounded registered sc B s ty i bound cache = fold_from ags sc B s ty i bound cacheable cache1 e"
    and e: "entry_ok ags (rows s) i e" "fc_folded_to e \<le> bound" "cache_ok registered (rows s) cache1"
    "cacheable"
    by (rule fold_bounded_start [OF inv cache ags]) (use start in blast)
  note one = fold_from_spec [OF inv e(3) ags(1) e(1,2) ser first [unfolded eq, symmetric]]
  have cur: "refold ags (filter (\<lambda>r. re_position r \<le> bound) (history ags i (rows s)))
      (ag_default (hd ags)) = Some cur"
    using one by (auto split: option.splits)
  obtain e' where e': "hget cache' (ty, i) = Some e'" "fc_folded_to e' = bound"
    "cache_ok registered (rows s) cache'"
    using one cur e(4) trigger by auto
  obtain e2 cacheable2 cache2 where
    eq2: "fold_bounded registered sc B s ty i bound cache' =
            fold_from ags sc B s ty i bound cacheable2 cache2 e2"
    and e2: "entry_ok ags (rows s) i e2" "fc_folded_to e2 \<le> bound" "cache_ok registered (rows s) cache2"
    "\<And>e'. hget cache' (ty, i) = Some e' \<Longrightarrow> fc_folded_to e' \<le> bound \<Longrightarrow> e2 = e'"
    by (rule fold_bounded_start [OF inv e'(3) ags]) blast
  have "fc_folded_to e2 = bound" using e2(4) [OF e'(1)] e'(2) by simp
  then show ?thesis
    using fold_from_spec [OF inv e2(3) ags(1) e2(1,2) ser eq2] cur by auto
qed

lemma fold_from_check_or_not:
  "snd (fold_from ags sc B s ty i bound cacheable cache e) = cache \<or>
   snd (fold_from ags sc B s ty i bound cacheable cache e) =
     snd (fold_from ags False B s ty i bound cacheable cache e)"
  by (simp add: fold_from_def Let_def self_check_result_def split: sum.split option.split prod.split)

lemma fold_bounded_cache_ok:
  assumes inv: "inv s" and cache: "cache_ok registered (rows s) cache"
  shows "cache_ok registered (rows s) (snd (fold_bounded registered sc B s ty i bound cache))"
proof -
  let ?ags = "filter (\<lambda>a. ag_aggregate_type a = ty) registered"
  show ?thesis
  proof (cases "?ags \<noteq> [] \<and> find ag_custom_id ?ags = None")
    case True
    obtain e cacheable cache1 where
      eq: "fold_bounded registered sc B s ty i bound cache = fold_from ?ags sc B s ty i bound cacheable cache1 e"
      and e: "entry_ok ?ags (rows s) i e" "fc_folded_to e \<le> bound" "cache_ok registered (rows s) cache1"
      using fold_bounded_start [OF inv cache refl] True by metis
    have "cache_ok registered (rows s) (snd (fold_from ?ags False B s ty i bound cacheable cache1 e))"
      using fold_from_spec [OF inv e(3) refl e(1,2), of False _ cacheable] by simp
    then show ?thesis
      unfolding eq using fold_from_check_or_not [where cache = cache1] e(3) by metis
  qed (use cache in \<open>auto simp: fold_bounded_def Let_def split: option.split\<close>)
qed

end

text \<open>A coherent cache stays coherent as the log grows.\<close>

lemma entry_ok_grows:
  assumes "entry_ok ags rows i e"
    and "sorted_wrt (\<lambda>x y. re_position x < re_position y) (rows @ new)"
    and "\<forall>r \<in> set new. 0 < re_position r"
  shows "entry_ok ags (rows @ new) i e"
proof -
  have late: "fc_folded_to e < re_position r" if "r \<in> set new" for r
    using assms(1-3) that by (auto simp: entry_ok_def sorted_wrt_append)
  then have "filter (\<lambda>r. re_position r \<le> fc_folded_to e) (history ags i new) = []"
    by (auto simp: filter_empty_conv history_def not_le)
  then have "refold ags (filter (\<lambda>r. re_position r \<le> fc_folded_to e) (history ags i (rows @ new)))
      (ag_default (hd ags)) = Some (fc_state e)"
    using assms(1) by (simp add: entry_ok_def history_def)
  then show ?thesis using assms(1) by (auto simp: entry_ok_def)
qed

end
