(* ===== verification/Fold_Properties.thy ===== *)
theory Fold_Properties
  imports Fold_On_Read Log_Properties
begin

text \<open>
  What \<open>ctx.state_of\<close> answers in a reactor body (\<open>fold_bounded\<close>, \<open>aggregator.rs\<close>), over every log and
  worker cache that can arise: \<open>cache_reach\<close> lets the log grow and any aggregate be read at any bound.
\<close>

inductive cache_reach :: "'a aggregator list \<Rightarrow> memory_store \<Rightarrow> 'a fold_cache \<Rightarrow> bool" for ags where
  cr_new: "log_inv s \<Longrightarrow> cache_reach ags s []"
| cr_grow: "cache_reach ags s cache \<Longrightarrow> log_inv s' \<Longrightarrow> global_log s' = global_log s @ new \<Longrightarrow>
     cache_reach ags s' cache"
| cr_read: "cache_reach ags s cache \<Longrightarrow>
     cache_reach ags s (snd (fold_bounded ags sc memory_backend s ty i bound cache))"

lemma cache_reach_ok:
  "cache_reach ags s cache \<Longrightarrow> log_inv s \<and> cache_ok ags (global_log s) cache"
proof (induction rule: cache_reach.induct)
  case (cr_grow s cache s' new)
  have "sorted_wrt (\<lambda>x y. re_position x < re_position y) (global_log s @ new)"
    "\<forall>r \<in> set new. 0 < re_position r"
    using mem_log.ascending [OF cr_grow.hyps(2)] mem_log.positive [OF cr_grow.hyps(2)] cr_grow.hyps(3)
    by simp_all
  note grow = entry_ok_grows [OF _ this]
  have "cache_ok ags (global_log s @ new) cache"
    unfolding cache_ok_def using cr_grow.IH grow unfolding cache_ok_def by blast
  then show ?case using cr_grow.hyps(2,3) by simp
next
  case (cr_read s cache sc ty i bound)
  then show ?case using mem_log.fold_bounded_cache_ok by blast
qed (simp add: cache_ok_def)

definition before :: "log_cursor \<Rightarrow> recorded_event list \<Rightarrow> recorded_event list" where
  "before bound es = filter (\<lambda>r. re_position r < bound) es"

definition upto_pos :: "log_cursor \<Rightarrow> recorded_event list \<Rightarrow> recorded_event list" where
  "upto_pos bound es = filter (\<lambda>r. re_position r \<le> bound) es"

text \<open>C28: the cached, incremental, position-bounded fold is the fold, on the memory log, at a
  positive position and for an aggregate type whose aggregators have no custom id and, where snapshots are
  cached, serialize. Whatever the worker cache has seen, the current state answered is the fold of the
  subject's history up to the trigger; an error is answered exactly when that fold fails. The previous state
  is the fold of the history below the trigger if the cache does not already stand at that very position;
  where it does, nothing is claimed of the previous state (see the lemma after this).\<close>

theorem fold_bounded_exact:
  assumes "cache_reach registered s cache" "0 < bound"
    and "ags = filter (\<lambda>a. ag_aggregate_type a = ty) registered" "ags \<noteq> []" "find ag_custom_id ags = None"
    and "sc \<longrightarrow> (\<forall>st. ag_serialize (hd ags) st \<noteq> None)"
  shows "case refold ags (upto_pos bound (history ags i (global_log s))) (ag_default (hd ags)) of
           None \<Rightarrow> fst (fold_bounded registered sc memory_backend s ty i bound cache) = Inl FoldApplyFailed
         | Some cur \<Rightarrow> \<exists>prev.
             fst (fold_bounded registered sc memory_backend s ty i bound cache) = Inr (prev, cur) \<and>
             ((\<forall>e. hget cache (ty, i) = Some e \<longrightarrow> fc_folded_to e \<noteq> bound) \<longrightarrow>
                refold ags (before bound (history ags i (global_log s))) (ag_default (hd ags)) = Some prev)"
  using mem_log.fold_bounded_spec [OF _ _ assms(3-6,2) refl] cache_reach_ok [OF assms(1)]
  unfolding before_def upto_pos_def by blast

text \<open>Reading an aggregate a second time at the trigger's position loses the transition. After a
  first \<open>state_of\<close> at the position of an event of the subject, every further one through the same
  cache, in the same body or in a retry of the trigger by the same worker, answers the current state
  as the previous one too, although the first answer's previous state is the fold below the trigger.\<close>

lemma fold_bounded_second_read:
  assumes "cache_reach registered s cache"
    and "ags = filter (\<lambda>a. ag_aggregate_type a = ty) registered" "ags \<noteq> []" "find ag_custom_id ags = None"
    and "sc \<longrightarrow> (\<forall>st. ag_serialize (hd ags) st \<noteq> None)"
    and "bound \<in> re_position ` set (history ags i (global_log s))"
    and "fold_bounded registered sc memory_backend s ty i bound cache = (Inr (prev, cur), cache')"
    and "\<forall>e. hget cache (ty, i) = Some e \<longrightarrow> fc_folded_to e < bound"
  shows "refold ags (before bound (history ags i (global_log s))) (ag_default (hd ags)) = Some prev \<and>
         fst (fold_bounded registered sc memory_backend s ty i bound cache') = Inr (cur, cur)"
proof -
  have ok: "log_inv s" "cache_ok registered (global_log s) cache" using cache_reach_ok [OF assms(1)] by simp_all
  have "0 < bound" using mem_log.positive [OF ok(1)] assms(6) by (auto simp: history_def)
  from mem_log.fold_bounded_spec [OF ok assms(2-5) this refl, of i] assms(7,8)
  have "refold ags (before bound (history ags i (global_log s))) (ag_default (hd ags)) = Some prev"
    unfolding before_def by (auto split: option.splits)
  moreover have "\<forall>e. hget cache (ty, i) = Some e \<longrightarrow> fc_folded_to e \<le> bound"
    using assms(8) by (auto intro: order_less_imp_le)
  ultimately show ?thesis
    using mem_log.fold_bounded_again [OF ok assms(2-7)] by blast
qed

section \<open>A counting aggregate\<close>

definition counter_agg :: "nat aggregator" where
  "counter_agg =
     \<lparr> ag_event_prefix = ''order_placed'', ag_aggregate_type = ''OrderCount'', ag_subject = ''order'',
       ag_invariant = False, ag_event_subject = ''order'', ag_custom_id = False,
       ag_extract_id = (\<lambda>_. Some 9), ag_apply = (\<lambda>n _. Some (Suc n)), ag_default = 0,
       ag_serialize = (\<lambda>n. Some (JString (show_nat n))), ag_deserialize = (\<lambda>_. None) \<rparr>"

lemma counter_sel [simp]:
  "ag_event_prefix counter_agg = ''order_placed''" "ag_aggregate_type counter_agg = ''OrderCount''"
  "ag_event_subject counter_agg = ''order''" "ag_apply counter_agg n v = Some (Suc n)"
  "ag_default counter_agg = 0" "\<not> ag_custom_id counter_agg" "ag_serialize counter_agg n \<noteq> None"
  by (simp_all add: counter_agg_def)

lemma counter_history:
  "history [counter_agg] 9 (global_log sample_store) = global_log sample_store"
  by (simp add: history_def feeds_def sample_store_eq memory_store_new_def placed_row_def)

lemma counter_refold: "refold [counter_agg] (upto_pos 2 (global_log sample_store)) 0 = Some 2"
  "refold [counter_agg] (before 2 (global_log sample_store)) 0 = Some 1"
  by (simp_all add: upto_pos_def before_def sample_store_eq memory_store_new_def placed_row_def
      sample_event_def agg_for_def)

lemma sample_cache: "cache_reach [counter_agg] sample_store []"
  by (rule cr_new [OF sample_store_inv])

theorem fold_bounded_exact_witness:
  "fst (fold_bounded [counter_agg] True memory_backend sample_store ''OrderCount'' 9 2 []) = Inr (1, 2)"
  using fold_bounded_exact [OF sample_cache, of 2 "[counter_agg]" "''OrderCount''" True 9]
  by (simp add: counter_history counter_refold)

lemma fold_bounded_second_read_witness:
  "let (first, cache) = fold_bounded [counter_agg] True memory_backend sample_store ''OrderCount'' 9 2 []
   in first = Inr (1, 2) \<and>
      fst (fold_bounded [counter_agg] True memory_backend sample_store ''OrderCount'' 9 2 cache) = Inr (2, 2)"
proof -
  let ?run = "fold_bounded [counter_agg] True memory_backend sample_store ''OrderCount'' 9 2 []"
  have first: "?run = (Inr (1, 2), snd ?run)"
    using mem_log.fold_bounded_spec [of sample_store "[counter_agg]" "[]" "[counter_agg]" "''OrderCount''"
        True 2 ?run 9]
    by (simp add: sample_store_inv cache_ok_def counter_history counter_refold [unfolded upto_pos_def before_def]
        prod_eq_iff)
  have pos: "2 \<in> re_position ` set (history [counter_agg] 9 (global_log sample_store))"
    unfolding counter_history by (simp add: sample_store_eq memory_store_new_def placed_row_def)
  have "fst (fold_bounded [counter_agg] True memory_backend sample_store ''OrderCount'' 9 2 (snd ?run)) = Inr (2, 2)"
    using fold_bounded_second_read [OF sample_cache _ _ _ _ pos first] by simp
  then show ?thesis using arg_cong [OF first, of fst] by (simp add: split_beta)
qed

end
