(* ===== verification/Aggregate_Registry.thy ===== *)
theory Aggregate_Registry
  imports Aggregates Decision_Store
begin

text \<open>
  The aggregator registry (\<open>AggregatorRegistry\<close> in \<open>modules/causal/src/aggregator.rs\<close>): the folded
  state of every aggregate with its watermarks, the idempotent fold \<open>apply_event\<close>, the gap repair of
  \<open>fold_event\<close>, the restore from snapshot and stream, and the saving of snapshots. A \<open>DashMap\<close> entry
  is atomic, so each of its operations is a function of the registry; the calls here run one after
  the other. Keys are strings, as in the code: how a UUID is printed is the \<open>codec\<close>'s.
\<close>

section \<open>Building an aggregator\<close>

text \<open>\<open>for_type_with_id_fn\<close>: the closures are made from the decoder of the event type \<open>F\<close>, the id
  function and \<open>Apply::apply\<close>; the constants are those of the traits \<open>Aggregate\<close> and \<open>Event\<close>.\<close>

record 'a aggregate_type =
  aty_name :: string
  aty_subject :: string
  aty_invariant :: bool
  aty_default :: 'a
  aty_to_value :: "'a \<Rightarrow> json option"
  aty_from_value :: "json \<Rightarrow> 'a option"

record 'f event_type_def =
  ety_name :: string
  ety_subject :: string
  ety_subject_id :: "'f \<Rightarrow> uuid"
  ety_from_value :: "json \<Rightarrow> 'f option"

definition for_type_with_id_fn ::
  "'a aggregate_type \<Rightarrow> 'f event_type_def \<Rightarrow> ('a \<Rightarrow> 'f \<Rightarrow> 'a) \<Rightarrow> ('f \<Rightarrow> uuid option) \<Rightarrow> 'a aggregator" where
  "for_type_with_id_fn A F apply id_fn =
     \<lparr> ag_event_prefix = ety_name F, ag_aggregate_type = aty_name A, ag_subject = aty_subject A,
       ag_invariant = aty_invariant A, ag_event_subject = ety_subject F, ag_custom_id = True,
       ag_extract_id = (\<lambda>payload. case ety_from_value F payload of None \<Rightarrow> None | Some f \<Rightarrow> id_fn f),
       ag_apply = (\<lambda>st payload. map_option (apply st) (ety_from_value F payload)),
       ag_default = aty_default A, ag_serialize = aty_to_value A,
       ag_deserialize = aty_from_value A \<rparr>"

definition for_type ::
  "'a aggregate_type \<Rightarrow> 'f event_type_def \<Rightarrow> ('a \<Rightarrow> 'f \<Rightarrow> 'a) \<Rightarrow> 'a aggregator" where
  "for_type A F apply =
     (for_type_with_id_fn A F apply (\<lambda>f. Some (ety_subject_id F f)))\<lparr> ag_custom_id := False \<rparr>"

section \<open>State\<close>

record 'a state_entry =
  se_state :: 'a
  se_version :: stream_revision
  se_last_pos :: log_cursor
  se_snapshot_at :: stream_revision

record 'a registry =
  rg_aggregators :: "'a aggregator list"
  rg_state :: "(string, 'a state_entry) hmap"

definition registry_new :: "'a aggregator list \<Rightarrow> 'a registry" where
  "registry_new ags = \<lparr> rg_aggregators = ags, rg_state = [] \<rparr>"

definition agg_key :: "codec \<Rightarrow> string \<Rightarrow> uuid \<Rightarrow> string" where
  "agg_key cd ty i = ty @ '':'' @ cd_uuid cd i"

definition prev_key :: "string \<Rightarrow> string" where
  "prev_key key = key @ '':prev''"

record fold_gap =
  fg_type :: string
  fg_subject :: string
  fg_id :: uuid
  fg_expected :: stream_revision

record 'a fold_outcome =
  fo_snapshots :: "(string, 'a \<times> 'a) hmap"
  fo_applied :: bool
  fo_gaps :: "fold_gap list"

definition outcome_new :: "'a fold_outcome" where
  "outcome_new = \<lparr> fo_snapshots = [], fo_applied = False, fo_gaps = [] \<rparr>"

datatype registry_error =
    MisalignedFold string uuid
  | FoldFailed string stream_revision
  | ReplayFailed string
  | StreamRead append_error
  | SnapshotLoad string
  | NotConverged

text \<open>The arguments of \<open>apply_event\<close>: a fact and where it sits in the log.\<close>

record fold_fact =
  ff_type :: string
  ff_payload :: json
  ff_subject_id :: uuid
  ff_category :: string
  ff_revision :: stream_revision
  ff_position :: log_cursor

definition fact_of_row :: "recorded_event \<Rightarrow> fold_fact" where
  "fact_of_row r =
     \<lparr> ff_type = re_event_type r, ff_payload = re_payload r, ff_subject_id = re_subject_id r,
       ff_category = re_category r, ff_revision = re_revision r, ff_position = re_position r \<rparr>"

section \<open>Reading and installing entries\<close>

definition get_version :: "string \<Rightarrow> 'a registry \<Rightarrow> stream_revision" where
  "get_version key rg = (case hget (rg_state rg) key of Some e \<Rightarrow> se_version e | None \<Rightarrow> 0)"

definition get_snapshot_at_version :: "string \<Rightarrow> 'a registry \<Rightarrow> stream_revision" where
  "get_snapshot_at_version key rg =
     (case hget (rg_state rg) key of Some e \<Rightarrow> se_snapshot_at e | None \<Rightarrow> 0)"

definition update_snapshot_at_version :: "string \<Rightarrow> stream_revision \<Rightarrow> 'a registry \<Rightarrow> 'a registry" where
  "update_snapshot_at_version key v rg =
     (case hget (rg_state rg) key of
        Some e \<Rightarrow> rg\<lparr> rg_state := hput key (e\<lparr> se_snapshot_at := v \<rparr>) (rg_state rg) \<rparr>
      | None \<Rightarrow> rg)"

definition remove_state :: "string \<Rightarrow> 'a registry \<Rightarrow> 'a registry" where
  "remove_state key rg = rg\<lparr> rg_state := hdel (prev_key key) (hdel key (rg_state rg)) \<rparr>"

text \<open>\<open>get_transition\<close> and \<open>get_transition_arc\<close>; \<open>None\<close> is the panic of \<open>assert_registered\<close>.\<close>

definition get_transition :: "codec \<Rightarrow> string \<Rightarrow> uuid \<Rightarrow> 'a registry \<Rightarrow> ('a \<times> 'a) option" where
  "get_transition cd ty i rg =
     (case find_first_by_aggregate_type ty (rg_aggregators rg) of
        None \<Rightarrow> None
      | Some a \<Rightarrow>
          let key = agg_key cd ty i;
              at1 = (\<lambda>k. case hget (rg_state rg) k of Some e \<Rightarrow> se_state e | None \<Rightarrow> ag_default a)
          in Some (at1 (prev_key key), at1 key))"

definition set_state ::
  "string \<Rightarrow> 'a \<Rightarrow> stream_revision \<Rightarrow> stream_revision \<Rightarrow> 'a registry \<Rightarrow> 'a registry" where
  "set_state key st version snapshot_at rg =
     (case hget (rg_state rg) key of
        Some e \<Rightarrow>
          if se_version e < version
          then rg\<lparr> rg_state := hput key \<lparr> se_state = st, se_version = version,
                     se_last_pos = se_last_pos e, se_snapshot_at = snapshot_at \<rparr> (rg_state rg) \<rparr>
          else rg
      | None \<Rightarrow>
          rg\<lparr> rg_state := hput key \<lparr> se_state = st, se_version = version, se_last_pos = cursor_zero,
                se_snapshot_at = snapshot_at \<rparr> (rg_state rg) \<rparr>)"

definition advance_watermark ::
  "string \<Rightarrow> stream_revision \<Rightarrow> log_cursor \<Rightarrow> 'a registry \<Rightarrow> 'a registry" where
  "advance_watermark key rv pos rg =
     (case hget (rg_state rg) key of
        None \<Rightarrow> rg
      | Some e \<Rightarrow>
          rg\<lparr> rg_state := hput key
                (e\<lparr> se_version := (if se_version e < rv + 1 then rv + 1 else se_version e),
                    se_last_pos := (if se_last_pos e < pos then pos else se_last_pos e) \<rparr>)
                (rg_state rg) \<rparr>)"

section \<open>Folding one event\<close>

datatype fold_gate = FoldNow | SkipFold bool | GapAt stream_revision

definition gate :: "bool \<Rightarrow> 'a state_entry option \<Rightarrow> stream_revision \<Rightarrow> log_cursor \<Rightarrow> fold_gate" where
  "gate aligned existing rv pos =
     (if aligned then
        let version = (case existing of Some e \<Rightarrow> se_version e | None \<Rightarrow> 0)
        in if rv < version then SkipFold (rv + 1 = version)
           else if version < rv then GapAt version
           else FoldNow
      else case existing of
        None \<Rightarrow> FoldNow
      | Some e \<Rightarrow>
          if se_last_pos e < pos \<or> (pos = se_last_pos e \<and> se_version e < rv + 1) then FoldNow
          else SkipFold (pos = se_last_pos e \<and> rv + 1 = se_version e))"

text \<open>The body of the loop of \<open>apply_event\<close> for one matching aggregator.\<close>

definition apply_agg ::
  "codec \<Rightarrow> fold_fact \<Rightarrow> 'a aggregator \<Rightarrow> 'a fold_outcome \<Rightarrow> 'a registry \<Rightarrow>
   (registry_error + 'a fold_outcome) \<times> 'a registry" where
  "apply_agg cd f a out rg =
     (case ag_extract_id a (ff_payload f) of
        None \<Rightarrow> (Inr out, rg)
      | Some i \<Rightarrow>
          if ag_subject a \<noteq> [] \<and> (i \<noteq> ff_subject_id f \<or> ag_subject a \<noteq> ff_category f)
          then (Inl (MisalignedFold (ag_aggregate_type a) i), rg)
          else
            let key = agg_key cd (ag_aggregate_type a) i;
                existing = hget (rg_state rg) key
            in case gate (ag_subject a \<noteq> []) existing (ff_revision f) (ff_position f) of
                 FoldNow \<Rightarrow>
                   let pre = (case existing of Some e \<Rightarrow> se_state e | None \<Rightarrow> ag_default a);
                       snapshot_at = (case existing of Some e \<Rightarrow> se_snapshot_at e | None \<Rightarrow> 0)
                   in (case ag_apply a pre (ff_payload f) of
                         None \<Rightarrow> (Inl (FoldFailed key (ff_revision f)), rg)
                       | Some post \<Rightarrow>
                           (Inr (out\<lparr> fo_applied := True,
                                      fo_snapshots := hput key (pre, post) (fo_snapshots out) \<rparr>),
                            rg\<lparr> rg_state :=
                                  hput (prev_key key)
                                    \<lparr> se_state = pre, se_version = 0, se_last_pos = cursor_zero,
                                      se_snapshot_at = 0 \<rparr>
                                    (hput key
                                      \<lparr> se_state = post, se_version = ff_revision f + 1,
                                        se_last_pos = ff_position f, se_snapshot_at = snapshot_at \<rparr>
                                      (rg_state rg)) \<rparr>))
               | SkipFold exact_prev \<Rightarrow>
                   let cur = (case existing of Some e \<Rightarrow> se_state e | None \<Rightarrow> ag_default a);
                       prev = (if exact_prev
                               then (case hget (rg_state rg) (prev_key key) of
                                       Some e \<Rightarrow> se_state e | None \<Rightarrow> cur)
                               else cur)
                   in (Inr (out\<lparr> fo_snapshots := hput key (prev, cur) (fo_snapshots out) \<rparr>), rg)
               | GapAt expected \<Rightarrow>
                   (Inr (out\<lparr> fo_gaps := fo_gaps out @
                      [\<lparr> fg_type = ag_aggregate_type a, fg_subject = ag_subject a, fg_id = i,
                         fg_expected = expected \<rparr>] \<rparr>), rg))"

fun apply_aggs ::
  "codec \<Rightarrow> fold_fact \<Rightarrow> 'a aggregator list \<Rightarrow> 'a fold_outcome \<Rightarrow> 'a registry \<Rightarrow>
   (registry_error + 'a fold_outcome) \<times> 'a registry" where
  "apply_aggs cd f [] out rg = (Inr out, rg)"
| "apply_aggs cd f (a # ags) out rg =
     (case apply_agg cd f a out rg of
        (Inl err, rg') \<Rightarrow> (Inl err, rg')
      | (Inr out', rg') \<Rightarrow> apply_aggs cd f ags out' rg')"

definition apply_event ::
  "codec \<Rightarrow> fold_fact \<Rightarrow> 'a registry \<Rightarrow> (registry_error + 'a fold_outcome) \<times> 'a registry" where
  "apply_event cd f rg =
     apply_aggs cd f (find_by_durable_name (ff_type f) (rg_aggregators rg)) outcome_new rg"

section \<open>Restore and gap repair\<close>

text \<open>The snapshot store of \<open>snapshot_store.rs\<close>, as the operations over the backend's state.\<close>

record 's snapshot_store =
  ss_load :: "string \<Rightarrow> uuid \<Rightarrow> 's \<Rightarrow> string + snapshot option"
  ss_save :: "snapshot \<Rightarrow> 's \<Rightarrow> bool \<times> 's"
  ss_delete :: "string \<Rightarrow> uuid \<Rightarrow> 's \<Rightarrow> 's"

definition memory_snapshots :: "memory_store snapshot_store" where
  "memory_snapshots =
     \<lparr> ss_load = (\<lambda>ty i s. Inr (load_snapshot ty i s)),
       ss_save = (\<lambda>sn s. (True, save_snapshot sn s)),
       ss_delete = delete_snapshot \<rparr>"

definition event_pairs :: "recorded_event list \<Rightarrow> (string \<times> json) list" where
  "event_pairs es = map (\<lambda>e. (re_event_type e, re_payload e)) es"

text \<open>The seed of a restore: the snapshot's state, or the default after a snapshot that does not
  deserialize was deleted.\<close>

definition restore_seed ::
  "'s snapshot_store option \<Rightarrow> 'a aggregator \<Rightarrow> string \<Rightarrow> uuid \<Rightarrow> snapshot option \<Rightarrow> 's \<Rightarrow>
   ('a \<times> stream_revision option) \<times> 's" where
  "restore_seed S a ty i snap s =
     (case snap of
        None \<Rightarrow> ((ag_default a, None), s)
      | Some sn \<Rightarrow>
          (case ag_deserialize a (sn_state sn) of
             Some st \<Rightarrow> ((st, Some (sn_revision sn)), s)
           | None \<Rightarrow>
               ((ag_default a, None), case S of Some st \<Rightarrow> ss_delete st ty i s | None \<Rightarrow> s)))"

definition restore_aggregate ::
  "codec \<Rightarrow> 's snapshot_store option \<Rightarrow> 's backend \<Rightarrow> string \<Rightarrow> string \<Rightarrow> uuid \<Rightarrow> 'a registry \<Rightarrow> 's \<Rightarrow>
   (registry_error + bool) \<times> 'a registry \<times> 's" where
  "restore_aggregate cd S B ty subject i rg s =
     (let key = agg_key cd ty i in
      if subject = [] then (Inr False, rg, s)
      else if hget (rg_state rg) key \<noteq> None then (Inr True, rg, s)
      else case find_first_by_aggregate_type ty (rg_aggregators rg) of
        None \<Rightarrow> (Inr False, rg, s)
      | Some a \<Rightarrow>
          (case (case S of Some st \<Rightarrow> ss_load st ty i s | None \<Rightarrow> Inr None) of
             Inl err \<Rightarrow> (Inl (SnapshotLoad err), rg, s)
           | Inr snap \<Rightarrow>
               (case restore_seed S a ty i snap s of
                  ((st0, after), s1) \<Rightarrow>
                    (case b_read_stream B subject i after s1 of
                       Inl err \<Rightarrow> (Inl (StreamRead err), rg, s1)
                     | Inr tail \<Rightarrow>
                         (case replay_events_onto ty (rg_aggregators rg) (event_pairs tail) st0 of
                            None \<Rightarrow> (Inl (ReplayFailed key), rg, s1)
                          | Some st \<Rightarrow>
                              if after = None \<and> tail = [] then (Inr False, rg, s1)
                              else
                                let last_rev = (if tail = [] then after else Some (re_revision (last tail)));
                                    version = (case last_rev of Some rv \<Rightarrow> rv + 1 | None \<Rightarrow> 0);
                                    snapshot_at = (case snap of Some sn \<Rightarrow> sn_revision sn + 1 | None \<Rightarrow> 0)
                                in (Inr True, set_state key st version snapshot_at rg, s1))))))"

text \<open>The loop of \<open>repair_gap\<close> over the missing range.\<close>

fun repair_tail ::
  "codec \<Rightarrow> fold_gap \<Rightarrow> stream_revision option \<Rightarrow> recorded_event list \<Rightarrow> 'a registry \<Rightarrow>
   registry_error option \<times> 'a registry" where
  "repair_tail cd g limit [] rg = (None, rg)"
| "repair_tail cd g limit (e # es) rg =
     (if (case limit of Some bound \<Rightarrow> bound \<le> re_revision e | None \<Rightarrow> False) then (None, rg)
      else case apply_event cd (fact_of_row e) rg of
        (Inl err, rg') \<Rightarrow> (Some err, rg')
      | (Inr out, rg') \<Rightarrow>
          if \<exists>h \<in> set (fo_gaps out). fg_type h = fg_type g \<and> fg_id h = fg_id g
          then repair_tail cd g limit es rg'
          else repair_tail cd g limit es
                 (advance_watermark (agg_key cd (fg_type g) (fg_id g)) (re_revision e) (re_position e) rg'))"

text \<open>The seed of the strict mode: an empty base for a vacant entry.\<close>

definition seed_vacant :: "codec \<Rightarrow> fold_gap \<Rightarrow> stream_revision option \<Rightarrow> 'a registry \<Rightarrow> 'a registry" where
  "seed_vacant cd g limit rg =
     (let key = agg_key cd (fg_type g) (fg_id g) in
      if limit \<noteq> None \<and> hget (rg_state rg) key = None
      then (case find_first_by_aggregate_type (fg_type g) (rg_aggregators rg) of
              Some a \<Rightarrow> set_state key (ag_default a) 0 0 rg
            | None \<Rightarrow> rg)
      else rg)"

definition repair_range ::
  "codec \<Rightarrow> 's backend \<Rightarrow> fold_gap \<Rightarrow> stream_revision option \<Rightarrow> 'a registry \<Rightarrow> 's \<Rightarrow>
   registry_error option \<times> 'a registry \<times> 's" where
  "repair_range cd B g limit rg s =
     (let rg1 = seed_vacant cd g limit rg;
          after = (if fg_expected g = 0 then None else Some (fg_expected g - 1))
      in case b_read_stream B (fg_subject g) (fg_id g) after s of
           Inl err \<Rightarrow> (Some (StreamRead err), rg1, s)
         | Inr tail \<Rightarrow> (case repair_tail cd g limit tail rg1 of (err, rg2) \<Rightarrow> (err, rg2, s)))"

definition repair_gap ::
  "codec \<Rightarrow> 's snapshot_store option \<Rightarrow> 's backend \<Rightarrow> fold_gap \<Rightarrow> stream_revision option \<Rightarrow>
   'a registry \<Rightarrow> 's \<Rightarrow> registry_error option \<times> 'a registry \<times> 's" where
  "repair_gap cd S B g limit rg s =
     (if limit = None \<and> hget (rg_state rg) (agg_key cd (fg_type g) (fg_id g)) = None
      then (case restore_aggregate cd S B (fg_type g) (fg_subject g) (fg_id g) rg s of
              (Inl err, rg1, s1) \<Rightarrow> (Some err, rg1, s1)
            | (Inr True, rg1, s1) \<Rightarrow> (None, rg1, s1)
            | (Inr False, rg1, s1) \<Rightarrow> repair_range cd B g limit rg1 s1)
      else repair_range cd B g limit rg s)"

fun repair_gaps ::
  "codec \<Rightarrow> 's snapshot_store option \<Rightarrow> 's backend \<Rightarrow> stream_revision option \<Rightarrow> fold_gap list \<Rightarrow>
   'a registry \<Rightarrow> 's \<Rightarrow> registry_error option \<times> 'a registry \<times> 's" where
  "repair_gaps cd S B limit [] rg s = (None, rg, s)"
| "repair_gaps cd S B limit (g # gs) rg s =
     (case repair_gap cd S B g limit rg s of
        (Some err, rg1, s1) \<Rightarrow> (Some err, rg1, s1)
      | (None, rg1, s1) \<Rightarrow> repair_gaps cd S B limit gs rg1 s1)"

fun fold_rounds ::
  "codec \<Rightarrow> 's snapshot_store option \<Rightarrow> 's backend \<Rightarrow> fold_fact \<Rightarrow> bool \<Rightarrow> nat \<Rightarrow> 'a registry \<Rightarrow> 's \<Rightarrow>
   (registry_error + 'a fold_outcome) \<times> 'a registry \<times> 's" where
  "fold_rounds cd S B f strict 0 rg s = (Inl NotConverged, rg, s)"
| "fold_rounds cd S B f strict (Suc n) rg s =
     (case apply_event cd f rg of
        (Inl err, rg1) \<Rightarrow> (Inl err, rg1, s)
      | (Inr out, rg1) \<Rightarrow>
          if fo_gaps out = [] then (Inr out, rg1, s)
          else (case repair_gaps cd S B (if strict then Some (ff_revision f) else None)
                       (fo_gaps out) rg1 s of
                  (Some err, rg2, s2) \<Rightarrow> (Inl err, rg2, s2)
                | (None, rg2, s2) \<Rightarrow> fold_rounds cd S B f strict n rg2 s2))"

definition fold_event ::
  "codec \<Rightarrow> 's snapshot_store option \<Rightarrow> 's backend \<Rightarrow> fold_fact \<Rightarrow> bool \<Rightarrow> 'a registry \<Rightarrow> 's \<Rightarrow>
   (registry_error + 'a fold_outcome) \<times> 'a registry \<times> 's" where
  "fold_event cd S B f strict rg s = fold_rounds cd S B f strict 8 rg s"

section \<open>Observers and snapshots\<close>

text \<open>\<open>str::split(':').next()\<close> and \<open>str::split_once(':')\<close>.\<close>

definition before_colon :: "string \<Rightarrow> string" where
  "before_colon key = takeWhile (\<lambda>c. c \<noteq> CHR '':'') key"

definition split_colon :: "string \<Rightarrow> (string \<times> string) option" where
  "split_colon key =
     (case dropWhile (\<lambda>c. c \<noteq> CHR '':'') key of [] \<Rightarrow> None | _ # rest \<Rightarrow> Some (before_colon key, rest))"

text \<open>The calls of \<open>aggregate_folded\<close> that \<open>notify_observer\<close> makes, as their keys and states.\<close>

definition notify_observer :: "'a registry \<Rightarrow> (string, 'a \<times> 'a) hmap \<Rightarrow> (string \<times> json) list" where
  "notify_observer rg snaps =
     List.map_filter (\<lambda>(key, prev, post).
        case find_first_by_aggregate_type (before_colon key) (rg_aggregators rg) of
          None \<Rightarrow> None
        | Some a \<Rightarrow> map_option (Pair key) (ag_serialize a post)) snaps"

definition save_one_snapshot ::
  "codec \<Rightarrow> 's snapshot_store \<Rightarrow> u64 \<Rightarrow> datetime \<Rightarrow> string \<Rightarrow> 'a registry \<times> 's \<Rightarrow> 'a registry \<times> 's" where
  "save_one_snapshot cd S every now key rs =
     (case rs of (rg, s) \<Rightarrow>
      case split_colon key of
        None \<Rightarrow> (rg, s)
      | Some (ty, id_str) \<Rightarrow>
          (case cd_parse_uuid cd id_str of
             None \<Rightarrow> (rg, s)
           | Some i \<Rightarrow>
               let version = get_version key rg;
                   snapshot_at = get_snapshot_at_version key rg;
                   since = (if version < snapshot_at then 0 else version - snapshot_at)
               in if since < every then (rg, s)
                  else case find_first_by_aggregate_type ty (rg_aggregators rg) of
                    None \<Rightarrow> (rg, s)
                  | Some a \<Rightarrow>
                      if ag_subject a = [] then (rg, s)
                      else case hget (rg_state rg) key of
                        None \<Rightarrow> (rg, s)
                      | Some e \<Rightarrow>
                          (case ag_serialize a (se_state e) of
                             None \<Rightarrow> (rg, s)
                           | Some j \<Rightarrow>
                               (case ss_save S
                                       \<lparr> sn_aggregate_type = ty, sn_aggregate_id = i,
                                         sn_revision = (if version = 0 then 0 else version - 1),
                                         sn_state = j, sn_created_at = now \<rparr> s of
                                  (True, s') \<Rightarrow> (update_snapshot_at_version key version rg, s')
                                | (False, s') \<Rightarrow> (rg, s')))))"

definition maybe_save_snapshots ::
  "codec \<Rightarrow> 's snapshot_store \<Rightarrow> u64 \<Rightarrow> datetime \<Rightarrow> (string, 'a \<times> 'a) hmap \<Rightarrow> 'a registry \<times> 's \<Rightarrow>
   'a registry \<times> 's" where
  "maybe_save_snapshots cd S every now snaps rs =
     (if every = 0 then rs else fold (save_one_snapshot cd S every now) (map fst snaps) rs)"

end
