(* ===== verification/Registry_Laws.thy ===== *)
theory Registry_Laws
  imports Aggregate_Registry
begin

text \<open>
  The registry against the log: \<open>coherent\<close> says that every entry of a restorable aggregate (one with a
  declared subject) is the replay of the first \<open>version\<close> events of its own stream, the promise of the
  comments of \<open>aggregator.rs\<close> that live fold, gap repair and restore agree. Every operation keeps it.
\<close>

section \<open>Keys\<close>

definition keys_ok :: "codec \<Rightarrow> bool" where
  "keys_ok cd \<longleftrightarrow> inj (cd_uuid cd) \<and> (\<forall>i. CHR '':'' \<notin> set (cd_uuid cd i) \<and> cd_uuid cd i \<noteq> ''prev'')"

lemma split_last_eq:
  assumes "xs @ c # ys = xs' @ c # ys'" "c \<notin> set ys" "c \<notin> set ys'"
  shows "xs = xs' \<and> ys = ys'"
proof -
  have "takeWhile (\<lambda>x. x \<noteq> c) (rev (xs @ c # ys)) = rev ys"
    "takeWhile (\<lambda>x. x \<noteq> c) (rev (xs' @ c # ys')) = rev ys'"
    using assms(2,3) by (auto simp: takeWhile_append)
  then have "ys = ys'" using assms(1) by simp
  then show ?thesis using assms(1) by simp
qed

lemma agg_key_inj: "keys_ok cd \<Longrightarrow> agg_key cd ty i = agg_key cd ty' i' \<longleftrightarrow> ty = ty' \<and> i = i'"
  using split_last_eq [of ty "CHR '':''" "cd_uuid cd i" ty' "cd_uuid cd i'"]
  by (auto simp: agg_key_def keys_ok_def dest: injD)

lemma prev_key_neq: "keys_ok cd \<Longrightarrow> prev_key k \<noteq> agg_key cd ty i"
  using split_last_eq [of k "CHR '':''" "''prev''" ty "cd_uuid cd i"]
  by (auto simp: agg_key_def prev_key_def keys_ok_def)

section \<open>Well-formed registrations\<close>

text \<open>What \<open>EngineBuilder::with_aggregators\<close> enforces (no aggregate folds one kind twice) and what the
  constants of \<open>trait Aggregate\<close> give (subject, default and serialization belong to the type).\<close>

definition aggs_wf :: "'a aggregator list \<Rightarrow> bool" where
  "aggs_wf ags \<longleftrightarrow>
     distinct (map (\<lambda>a. (ag_aggregate_type a, ag_event_prefix a)) ags) \<and>
     (\<forall>a \<in> set ags. \<forall>b \<in> set ags. ag_aggregate_type a = ag_aggregate_type b \<longrightarrow>
        ag_subject a = ag_subject b \<and> ag_default a = ag_default b \<and>
        ag_serialize a = ag_serialize b \<and> ag_deserialize a = ag_deserialize b)"

definition type_of :: "'a aggregator list \<Rightarrow> string \<Rightarrow> 'a aggregator option" where
  "type_of ags ty = (case find_first_by_aggregate_type ty ags of
     Some a \<Rightarrow> if ag_subject a = [] then None else Some a | None \<Rightarrow> None)"

lemma find_first_in:
  "find_first_by_aggregate_type ty ags = Some a \<Longrightarrow> a \<in> set ags \<and> ag_aggregate_type a = ty"
  unfolding find_first_by_aggregate_type_def by (induction ags) (auto split: if_splits)

lemma find_first_None:
  "find_first_by_aggregate_type ty ags = None \<longleftrightarrow> (\<forall>a \<in> set ags. ag_aggregate_type a \<noteq> ty)"
  unfolding find_first_by_aggregate_type_def by (induction ags) auto

lemma type_of_Some:
  "type_of ags ty = Some a \<Longrightarrow>
     find_first_by_aggregate_type ty ags = Some a \<and> a \<in> set ags \<and> ag_aggregate_type a = ty \<and> ag_subject a \<noteq> []"
  by (auto simp: type_of_def dest: find_first_in split: option.splits if_splits)

lemma type_of_member:
  assumes "aggs_wf ags" "a \<in> set ags" "ag_subject a \<noteq> []"
  shows "\<exists>b. type_of ags (ag_aggregate_type a) = Some b \<and> ag_subject b = ag_subject a \<and>
             ag_default b = ag_default a"
proof -
  obtain b where b: "find_first_by_aggregate_type (ag_aggregate_type a) ags = Some b"
    using assms(2) find_first_None by (cases "find_first_by_aggregate_type (ag_aggregate_type a) ags") auto
  then have "b \<in> set ags" "ag_aggregate_type b = ag_aggregate_type a" using find_first_in by blast+
  then have "ag_subject b = ag_subject a" "ag_default b = ag_default a"
    using assms(1,2) unfolding aggs_wf_def by blast+
  then show ?thesis using b assms(3) by (auto simp: type_of_def)
qed

lemma only_aggregator:
  assumes "aggs_wf ags" "a \<in> set ags"
  shows "filter (\<lambda>b. ag_aggregate_type b = ag_aggregate_type a \<and> ag_event_prefix b = ag_event_prefix a) ags = [a]"
proof -
  have "distinct (map f ags) \<Longrightarrow> a \<in> set ags \<Longrightarrow> filter (\<lambda>b. f b = f a) ags = [a]" for f :: "'a aggregator \<Rightarrow> _"
  proof (induction ags)
    case (Cons x xs)
    show ?case
    proof (cases "x = a")
      case True
      then have "filter (\<lambda>b. f b = f a) xs = []" using Cons.prems(1) by (auto simp: filter_empty_conv image_iff)
      then show ?thesis using True by simp
    next
      case False
      then have "a \<in> set xs" using Cons.prems(2) by simp
      moreover have "f x \<noteq> f a" using Cons.prems(1) calculation by (auto simp: image_iff)
      ultimately show ?thesis using Cons by simp
    qed
  qed simp
  from this [of "\<lambda>a. (ag_aggregate_type a, ag_event_prefix a)"] show ?thesis
    using assms by (simp add: aggs_wf_def)
qed

lemma replay_one:
  assumes "aggs_wf ags" "a \<in> set ags"
  shows "replay_events_onto (ag_aggregate_type a) ags [(ag_event_prefix a, p)] st = ag_apply a st p"
  by (simp add: only_aggregator [OF assms] split: option.split)

lemma replay_foreign:
  assumes "\<forall>a \<in> set ags. ag_aggregate_type a = ty \<longrightarrow> ag_event_prefix a \<noteq> k"
  shows "replay_events_onto ty ags [(k, p)] st = Some st"
proof -
  have "filter (\<lambda>a. ag_aggregate_type a = ty \<and> ag_event_prefix a = k) ags = []"
    using assms by (auto simp: filter_empty_conv)
  then show ?thesis by simp
qed

section \<open>Coherence\<close>

definition fold_upto :: "'a aggregator list \<Rightarrow> 'a aggregator \<Rightarrow> recorded_event list \<Rightarrow> nat \<Rightarrow> 'a option" where
  "fold_upto ags a hist k =
     replay_events_onto (ag_aggregate_type a) ags (event_pairs (take k hist)) (ag_default a)"

definition tracks :: "'a aggregator list \<Rightarrow> 'a aggregator \<Rightarrow> recorded_event list \<Rightarrow> 'a state_entry \<Rightarrow> bool" where
  "tracks ags a hist e \<longleftrightarrow>
     unat (se_version e) \<le> length hist \<and> fold_upto ags a hist (unat (se_version e)) = Some (se_state e)"

definition coherent :: "codec \<Rightarrow> recorded_event list \<Rightarrow> 'a registry \<Rightarrow> bool" where
  "coherent cd rows rg \<longleftrightarrow>
     (\<forall>ty i a e. type_of (rg_aggregators rg) ty = Some a \<longrightarrow> hget (rg_state rg) (agg_key cd ty i) = Some e \<longrightarrow>
        tracks (rg_aggregators rg) a (stream_rows rows (ag_subject a, i)) e)"

text \<open>No event of a restorable aggregate's own stream is skipped by its id function.\<close>

definition keyed :: "'a aggregator list \<Rightarrow> recorded_event list \<Rightarrow> bool" where
  "keyed ags rows \<longleftrightarrow>
     (\<forall>r \<in> set rows. \<forall>a \<in> set ags. ag_event_prefix a = re_event_type r \<longrightarrow>
        ag_subject a = re_category r \<longrightarrow> ag_extract_id a (re_payload r) \<noteq> None)"

abbreviation ver :: "codec \<Rightarrow> 'a registry \<Rightarrow> string \<Rightarrow> uuid \<Rightarrow> nat" where
  "ver cd rg ty i \<equiv> unat (get_version (agg_key cd ty i) rg)"

text \<open>How an operation may move the watermarks of restorable aggregates: forward, up to a bound, and
  never dropping an entry.\<close>

definition reg_step :: "codec \<Rightarrow> nat \<Rightarrow> 'a registry \<Rightarrow> 'a registry \<Rightarrow> bool" where
  "reg_step cd bound rg rg' \<longleftrightarrow>
     rg_aggregators rg' = rg_aggregators rg \<and>
     (\<forall>ty i. type_of (rg_aggregators rg) ty \<noteq> None \<longrightarrow>
        ver cd rg ty i \<le> ver cd rg' ty i \<and> ver cd rg' ty i \<le> max (ver cd rg ty i) bound \<and>
        (hget (rg_state rg) (agg_key cd ty i) \<noteq> None \<longrightarrow> hget (rg_state rg') (agg_key cd ty i) \<noteq> None))"

lemma reg_step_refl [simp]: "reg_step cd b rg rg"
  by (simp add: reg_step_def)

lemma reg_step_trans:
  assumes "reg_step cd b rg rg1" "reg_step cd b rg1 rg2"
  shows "reg_step cd b rg rg2"
proof -
  have ags: "rg_aggregators rg1 = rg_aggregators rg" "rg_aggregators rg2 = rg_aggregators rg"
    using assms by (simp_all add: reg_step_def)
  show ?thesis
    unfolding reg_step_def
  proof (intro conjI allI impI)
    fix ty i assume ty: "type_of (rg_aggregators rg) ty \<noteq> None"
    then have "ver cd rg ty i \<le> ver cd rg1 ty i" "ver cd rg1 ty i \<le> max (ver cd rg ty i) b"
      "ver cd rg1 ty i \<le> ver cd rg2 ty i" "ver cd rg2 ty i \<le> max (ver cd rg1 ty i) b"
      using assms ags unfolding reg_step_def by auto
    then show "ver cd rg ty i \<le> ver cd rg2 ty i" "ver cd rg2 ty i \<le> max (ver cd rg ty i) b" by linarith+
    assume "hget (rg_state rg) (agg_key cd ty i) \<noteq> None"
    then show "hget (rg_state rg2) (agg_key cd ty i) \<noteq> None"
      using assms ags ty unfolding reg_step_def by metis
  qed (use ags in simp)
qed

lemma reg_step_mono: "reg_step cd b rg rg' \<Longrightarrow> b \<le> b' \<Longrightarrow> reg_step cd b' rg rg'"
  unfolding reg_step_def by (meson max.mono order_refl order_trans)

lemma stream_row_at:
  assumes "revisions_dense rows" "r \<in> set rows"
  shows "unat (re_revision r) < length (stream_rows rows (row_key r)) \<and>
         stream_rows rows (row_key r) ! unat (re_revision r) = r"
proof -
  have "r \<in> set (stream_rows rows (row_key r))" using assms(2) by (simp add: stream_rows_def)
  then obtain k where "k < length (stream_rows rows (row_key r))" "stream_rows rows (row_key r) ! k = r"
    by (auto simp: in_set_conv_nth)
  then show ?thesis using stream_rows_nth_revision [OF assms(1)] by metis
qed

lemma unat_inc: "rv \<noteq> - 1 \<Longrightarrow> unat (rv + 1 :: u64) = Suc (unat rv)"
  by (simp add: unatSuc add.commute unat_eq_zero add_eq_0_iff)

section \<open>Folding one event\<close>

lemma type_of_agg:
  assumes "aggs_wf ags" "a \<in> set ags" "type_of ags (ag_aggregate_type a) = Some b"
  shows "ag_subject a = ag_subject b \<and> ag_default a = ag_default b \<and> ag_aggregate_type b = ag_aggregate_type a"
  using assms type_of_Some [OF assms(3)] unfolding aggs_wf_def by metis

lemma fold_upto_Suc:
  assumes wf: "aggs_wf ags" and a: "a \<in> set ags" and b: "type_of ags (ag_aggregate_type a) = Some b"
    and k: "k < length hist" "re_event_type (hist ! k) = ag_event_prefix a"
    and pre: "fold_upto ags b hist k = Some st"
  shows "fold_upto ags b hist (Suc k) = ag_apply a st (re_payload (hist ! k))"
proof -
  have ty: "ag_aggregate_type b = ag_aggregate_type a" using type_of_Some [OF b] by simp
  have "event_pairs (take (Suc k) hist) = event_pairs (take k hist) @ [(ag_event_prefix a, re_payload (hist ! k))]"
    using k by (simp add: event_pairs_def take_Suc_conv_app_nth)
  then show ?thesis
    using pre replay_one [OF wf a] by (simp add: fold_upto_def replay_append ty del: replay_events_onto.simps)
qed

lemma fold_upto_foreign:
  assumes "\<forall>a \<in> set ags. ag_aggregate_type a = ag_aggregate_type b \<longrightarrow> ag_event_prefix a \<noteq> re_event_type (hist ! k)"
    and "k < length hist"
  shows "fold_upto ags b hist (Suc k) = fold_upto ags b hist k"
proof -
  have "event_pairs (take (Suc k) hist) = event_pairs (take k hist) @ [(re_event_type (hist ! k), re_payload (hist ! k))]"
    using assms(2) by (simp add: event_pairs_def take_Suc_conv_app_nth)
  then show ?thesis
    using replay_foreign [OF assms(1)]
    by (simp add: fold_upto_def replay_append del: replay_events_onto.simps split: option.split)
qed

text \<open>Replacing the entry of one key, and any \<open>:prev\<close> slot, by an entry that tracks.\<close>

lemma coherent_put:
  assumes "keys_ok cd" "coherent cd rows rg" "type_of (rg_aggregators rg) ty = Some b"
    and "tracks (rg_aggregators rg) b (stream_rows rows (ag_subject b, i)) e"
    and "rg_aggregators rg' = rg_aggregators rg"
    and "\<And>ty' i'. hget (rg_state rg') (agg_key cd ty' i') =
           (if ty' = ty \<and> i' = i then Some e else hget (rg_state rg) (agg_key cd ty' i'))"
  shows "coherent cd rows rg'"
  using assms unfolding coherent_def by auto

lemma reg_step_put:
  assumes "rg_aggregators rg' = rg_aggregators rg"
    and "\<And>ty' i'. hget (rg_state rg') (agg_key cd ty' i') =
           (if ty' = ty \<and> i' = i then Some e else hget (rg_state rg) (agg_key cd ty' i'))"
    and "ver cd rg ty i \<le> unat (se_version e)" "unat (se_version e) \<le> max (ver cd rg ty i) bound"
  shows "reg_step cd bound rg rg'"
  using assms unfolding reg_step_def get_version_def by auto

lemma unrestorable_put:
  assumes "type_of (rg_aggregators rg) ty = None" "rg_aggregators rg' = rg_aggregators rg"
    and "\<And>ty' i'. hget (rg_state rg') (agg_key cd ty' i') =
           (if ty' = ty \<and> i' = i then Some e else hget (rg_state rg) (agg_key cd ty' i'))"
  shows "coherent cd rows rg \<Longrightarrow> coherent cd rows rg'" "reg_step cd bound rg rg'"
proof -
  show "coherent cd rows rg'" if "coherent cd rows rg"
    using that assms unfolding coherent_def by (metis option.distinct(1))
  show "reg_step cd bound rg rg'"
    unfolding reg_step_def
  proof (intro conjI allI impI)
    fix ty' i' assume "type_of (rg_aggregators rg) ty' \<noteq> None"
    then have "ty' \<noteq> ty" using assms(1) by auto
    then have same: "hget (rg_state rg') (agg_key cd ty' i') = hget (rg_state rg) (agg_key cd ty' i')"
      using assms(3) by simp
    then show "ver cd rg ty' i' \<le> ver cd rg' ty' i'" "ver cd rg' ty' i' \<le> max (ver cd rg ty' i') bound"
      by (simp_all add: get_version_def)
    show "hget (rg_state rg') (agg_key cd ty' i') \<noteq> None" if "hget (rg_state rg) (agg_key cd ty' i') \<noteq> None"
      using that same by simp
  qed (use assms in simp)
qed

definition gap_of ::
  "codec \<Rightarrow> recorded_event \<Rightarrow> 'a registry \<Rightarrow> 'a registry \<Rightarrow> 'a aggregator \<Rightarrow> fold_gap \<Rightarrow> bool" where
  "gap_of cd r rg rg' a g \<longleftrightarrow>
     ag_subject a \<noteq> [] \<and> ag_extract_id a (re_payload r) \<noteq> None \<and>
     fg_type g = ag_aggregate_type a \<and> fg_subject g = ag_subject a \<and> fg_subject g = re_category r \<and> fg_id g = re_subject_id r \<and>
     ver cd rg (fg_type g) (fg_id g) \<le> unat (fg_expected g) \<and>
     unat (fg_expected g) \<le> ver cd rg' (fg_type g) (fg_id g) \<and> fg_expected g < re_revision r"

lemma gap_of_step:
  assumes "gap_of cd r rg1 rg2 a g" "reg_step cd b rg rg1" "reg_step cd b rg2 rg3"
    "aggs_wf (rg_aggregators rg)" "a \<in> set (rg_aggregators rg)" "rg_aggregators rg2 = rg_aggregators rg"
  shows "gap_of cd r rg rg3 a g"
proof -
  have ty: "type_of (rg_aggregators rg) (fg_type g) \<noteq> None"
    using type_of_member [OF assms(4,5)] assms(1) unfolding gap_of_def by auto
  then have "ver cd rg (fg_type g) (fg_id g) \<le> ver cd rg1 (fg_type g) (fg_id g)"
    "ver cd rg2 (fg_type g) (fg_id g) \<le> ver cd rg3 (fg_type g) (fg_id g)"
    using assms(2,3,6) unfolding reg_step_def by auto
  then show ?thesis using assms(1) unfolding gap_of_def by linarith
qed

text \<open>After the body for one aggregator, its restorable target has folded the event, or a gap is noted.\<close>

definition folded_past :: "codec \<Rightarrow> recorded_event \<Rightarrow> 'a registry \<Rightarrow> 'a aggregator \<Rightarrow> bool" where
  "folded_past cd r rg a \<longleftrightarrow>
     (ag_subject a \<noteq> [] \<longrightarrow> ag_extract_id a (re_payload r) \<noteq> None \<longrightarrow>
        ag_extract_id a (re_payload r) = Some (re_subject_id r) \<and> ag_subject a = re_category r \<and>
        unat (re_revision r) < ver cd rg (ag_aggregate_type a) (re_subject_id r))"

lemma folded_past_step:
  assumes "folded_past cd r rg a" "reg_step cd b rg rg'" "aggs_wf (rg_aggregators rg)"
    "a \<in> set (rg_aggregators rg)"
  shows "folded_past cd r rg' a"
proof -
  have "ver cd rg (ag_aggregate_type a) (re_subject_id r) \<le> ver cd rg' (ag_aggregate_type a) (re_subject_id r)"
    if "ag_subject a \<noteq> []"
    using type_of_member [OF assms(3,4) that] assms(2) unfolding reg_step_def by auto
  then show ?thesis using assms(1) unfolding folded_past_def by (meson less_le_trans)
qed

definition stored_fold :: "codec \<Rightarrow> fold_fact \<Rightarrow> string \<Rightarrow> 'a \<Rightarrow> 'a \<Rightarrow> stream_revision \<Rightarrow> 'a registry \<Rightarrow> 'a registry" where
  "stored_fold cd f key pre post snap rg =
     rg\<lparr> rg_state :=
       hput (prev_key key) \<lparr> se_state = pre, se_version = 0, se_last_pos = cursor_zero, se_snapshot_at = 0 \<rparr>
         (hput key \<lparr> se_state = post, se_version = ff_revision f + 1, se_last_pos = ff_position f,
            se_snapshot_at = snap \<rparr> (rg_state rg)) \<rparr>"

lemma stored_fold_get:
  assumes "keys_ok cd"
  shows "hget (rg_state (stored_fold cd f (agg_key cd ty i) pre post snap rg)) (agg_key cd ty' i') =
           (if ty' = ty \<and> i' = i
            then Some \<lparr> se_state = post, se_version = ff_revision f + 1, se_last_pos = ff_position f,
                        se_snapshot_at = snap \<rparr>
            else hget (rg_state rg) (agg_key cd ty' i'))"
  using prev_key_neq [OF assms] agg_key_inj [OF assms] by (auto simp: stored_fold_def)

text \<open>The ways the body for one aggregator can go.\<close>

lemma apply_agg_cases:
  assumes "apply_agg cd f a out rg = (res, rg')"
  obtains (err) err where "res = Inl err" "rg' = rg"
  | (skip_id) "ag_extract_id a (ff_payload f) = None" "res = Inr out" "rg' = rg"
  | (skip) i exact ts where "ag_extract_id a (ff_payload f) = Some i"
      "ag_subject a \<noteq> [] \<longrightarrow> i = ff_subject_id f \<and> ag_subject a = ff_category f"
      "gate (ag_subject a \<noteq> []) (hget (rg_state rg) (agg_key cd (ag_aggregate_type a) i))
         (ff_revision f) (ff_position f) = SkipFold exact"
      "res = Inr (out\<lparr> fo_snapshots := ts \<rparr>)" "rg' = rg"
  | (gap) i expected where "ag_extract_id a (ff_payload f) = Some i"
      "ag_subject a \<noteq> [] \<longrightarrow> i = ff_subject_id f \<and> ag_subject a = ff_category f"
      "gate (ag_subject a \<noteq> []) (hget (rg_state rg) (agg_key cd (ag_aggregate_type a) i))
         (ff_revision f) (ff_position f) = GapAt expected"
      "res = Inr (out\<lparr> fo_gaps := fo_gaps out @ [\<lparr> fg_type = ag_aggregate_type a,
         fg_subject = ag_subject a, fg_id = i, fg_expected = expected \<rparr>] \<rparr>)" "rg' = rg"
  | (fold) i pre post snap ts where "ag_extract_id a (ff_payload f) = Some i"
      "ag_subject a \<noteq> [] \<longrightarrow> i = ff_subject_id f \<and> ag_subject a = ff_category f"
      "gate (ag_subject a \<noteq> []) (hget (rg_state rg) (agg_key cd (ag_aggregate_type a) i))
         (ff_revision f) (ff_position f) = FoldNow"
      "pre = (case hget (rg_state rg) (agg_key cd (ag_aggregate_type a) i) of
                Some e \<Rightarrow> se_state e | None \<Rightarrow> ag_default a)"
      "ag_apply a pre (ff_payload f) = Some post"
      "res = Inr (out\<lparr> fo_applied := True, fo_snapshots := ts \<rparr>)"
      "rg' = stored_fold cd f (agg_key cd (ag_aggregate_type a) i) pre post snap rg"
proof (cases "ag_extract_id a (ff_payload f)")
  case None
  then show thesis using assms skip_id by (simp add: apply_agg_def)
next
  case (Some i)
  note ext = this
  let ?x = "hget (rg_state rg) (agg_key cd (ag_aggregate_type a) i)"
  let ?pre = "case ?x of Some e \<Rightarrow> se_state e | None \<Rightarrow> ag_default a"
  show thesis
  proof (cases "ag_subject a \<noteq> [] \<and> (i \<noteq> ff_subject_id f \<or> ag_subject a \<noteq> ff_category f)")
    case True
    then show thesis using assms ext by (intro err) (auto simp: apply_agg_def)
  next
    case False
    then have ok: "ag_subject a \<noteq> [] \<longrightarrow> i = ff_subject_id f \<and> ag_subject a = ff_category f" by blast
    have eq: "(case gate (ag_subject a \<noteq> []) ?x (ff_revision f) (ff_position f) of
        FoldNow \<Rightarrow>
          (case ag_apply a ?pre (ff_payload f) of
             None \<Rightarrow> (Inl (FoldFailed (agg_key cd (ag_aggregate_type a) i) (ff_revision f)), rg)
           | Some post \<Rightarrow>
               (Inr (out\<lparr> fo_applied := True, fo_snapshots := hput (agg_key cd (ag_aggregate_type a) i) (?pre, post)
                            (fo_snapshots out) \<rparr>),
                stored_fold cd f (agg_key cd (ag_aggregate_type a) i) ?pre post
                  (case ?x of Some e \<Rightarrow> se_snapshot_at e | None \<Rightarrow> 0) rg))
      | SkipFold exact \<Rightarrow>
          (Inr (out\<lparr> fo_snapshots := hput (agg_key cd (ag_aggregate_type a) i)
             (if exact then (case hget (rg_state rg) (prev_key (agg_key cd (ag_aggregate_type a) i)) of
                               Some e \<Rightarrow> se_state e | None \<Rightarrow> ?pre) else ?pre, ?pre) (fo_snapshots out) \<rparr>), rg)
      | GapAt v \<Rightarrow>
          (Inr (out\<lparr> fo_gaps := fo_gaps out @ [\<lparr> fg_type = ag_aggregate_type a,
             fg_subject = ag_subject a, fg_id = i, fg_expected = v \<rparr>] \<rparr>), rg)) = (res, rg')"
      using assms unfolding apply_agg_def ext option.simps if_not_P [OF False] Let_def stored_fold_def .
    show thesis
    proof (cases "gate (ag_subject a \<noteq> []) ?x (ff_revision f) (ff_position f)")
      case FoldNow
      show thesis
      proof (cases "ag_apply a ?pre (ff_payload f)")
        case None
        then show thesis using eq FoldNow by (intro err) auto
      next
        case (Some post)
        then show thesis
          using eq FoldNow by (intro fold [OF ext ok FoldNow refl Some]) (auto simp: stored_fold_def)
      qed
    next
      case (SkipFold exact)
      then show thesis
        using eq by (intro skip [OF ext ok SkipFold]) auto
    next
      case (GapAt v)
      then show thesis
        using eq by (intro gap [OF ext ok GapAt]) auto
    qed
  qed
qed

lemma gate_aligned:
  "gate True x rv pos = FoldNow \<longleftrightarrow> (case x of Some e \<Rightarrow> se_version e | None \<Rightarrow> 0) = rv"
  "gate True x rv pos = SkipFold b \<Longrightarrow> rv < (case x of Some e \<Rightarrow> se_version e | None \<Rightarrow> 0)"
  "gate True x rv pos = GapAt v \<longleftrightarrow>
     v = (case x of Some e \<Rightarrow> se_version e | None \<Rightarrow> 0) \<and> v < rv"
  by (auto simp: gate_def Let_def split: if_splits)

lemma gate_fan_in: "gate False x rv pos \<noteq> GapAt v"
  by (auto simp: gate_def split: option.split)

lemma apply_agg_aggs: "apply_agg cd f a out rg = (res, rg') \<Longrightarrow> rg_aggregators rg' = rg_aggregators rg"
  by (erule apply_agg_cases) (simp_all add: stored_fold_def)

lemma apply_aggs_aggs: "apply_aggs cd f as out rg = (res, rg') \<Longrightarrow> rg_aggregators rg' = rg_aggregators rg"
proof (induction as arbitrary: out rg)
  case (Cons a as)
  obtain res1 rg1 where one: "apply_agg cd f a out rg = (res1, rg1)" by fastforce
  show ?case using Cons one apply_agg_aggs [OF one] by (cases res1) auto
qed simp

lemma apply_event_aggs: "apply_event cd f rg = (res, rg') \<Longrightarrow> rg_aggregators rg' = rg_aggregators rg"
  by (simp add: apply_event_def apply_aggs_aggs)

lemma set_state_aggs [simp]: "rg_aggregators (set_state key st v sn rg) = rg_aggregators rg"
  by (simp add: set_state_def split: option.split)

lemma advance_watermark_aggs [simp]: "rg_aggregators (advance_watermark key rv pos rg) = rg_aggregators rg"
  by (simp add: advance_watermark_def split: option.split)

lemma seed_vacant_aggs [simp]: "rg_aggregators (seed_vacant cd g limit rg) = rg_aggregators rg"
  by (simp add: seed_vacant_def Let_def split: option.split)

lemma repair_tail_aggs: "repair_tail cd g limit es rg = (err, rg') \<Longrightarrow> rg_aggregators rg' = rg_aggregators rg"
  by (induction cd g limit es rg rule: repair_tail.induct)
    (auto dest: apply_event_aggs split: prod.splits sum.splits if_splits)

lemma restore_aggs:
  "restore_aggregate cd S B ty subject i rg s = (res, rg', s') \<Longrightarrow> rg_aggregators rg' = rg_aggregators rg"
  by (auto simp: restore_aggregate_def Let_def split: option.splits sum.splits prod.splits if_splits)

lemma repair_range_aggs:
  "repair_range cd B g limit rg s = (err, rg', s') \<Longrightarrow> rg_aggregators rg' = rg_aggregators rg"
  by (auto simp: repair_range_def Let_def dest: repair_tail_aggs split: sum.splits prod.splits)

lemma repair_gap_aggs:
  "repair_gap cd S B g limit rg s = (err, rg', s') \<Longrightarrow> rg_aggregators rg' = rg_aggregators rg"
proof -
  assume eq: "repair_gap cd S B g limit rg s = (err, rg', s')"
  obtain res rg1 s1 where rs: "restore_aggregate cd S B (fg_type g) (fg_subject g) (fg_id g) rg s = (res, rg1, s1)"
    by (metis surj_pair)
  have "rg' = rg1 \<or> repair_range cd B g limit rg1 s1 = (err, rg', s') \<or>
      repair_range cd B g limit rg s = (err, rg', s')"
    using eq rs by (auto simp: repair_gap_def split: sum.splits bool.splits if_splits)
  then show ?thesis using restore_aggs [OF rs] repair_range_aggs by metis
qed

lemma repair_gaps_aggs:
  "repair_gaps cd S B limit gs rg s = (err, rg', s') \<Longrightarrow> rg_aggregators rg' = rg_aggregators rg"
proof (induction gs arbitrary: rg s)
  case (Cons g gs)
  obtain err1 rg1 s1 where one: "repair_gap cd S B g limit rg s = (err1, rg1, s1)" by (metis surj_pair)
  show ?case using Cons one repair_gap_aggs [OF one] by (cases err1) auto
qed simp

lemma fold_rounds_aggs:
  "fold_rounds cd S B f strict n rg s = (res, rg', s') \<Longrightarrow> rg_aggregators rg' = rg_aggregators rg"
proof (induction n arbitrary: rg s)
  case (Suc n)
  obtain res1 rg1 where one: "apply_event cd f rg = (res1, rg1)" by fastforce
  show ?case
  proof (cases res1)
    case (Inl e)
    then show ?thesis using Suc.prems one apply_event_aggs [OF one] by simp
  next
    case (Inr out)
    obtain err2 rg2 s2 where two: "repair_gaps cd S B (if strict then Some (ff_revision f) else None)
        (fo_gaps out) rg1 s = (err2, rg2, s2)" by (metis surj_pair)
    have "rg' = rg1 \<or> rg' = rg2 \<or> fold_rounds cd S B f strict n rg2 s2 = (res, rg', s')"
      using Suc.prems one two Inr by (auto split: option.splits if_splits)
    then show ?thesis
      using Suc.IH apply_event_aggs [OF one] repair_gaps_aggs [OF two] by metis
  qed
qed simp

lemma fold_event_aggs:
  "fold_event cd S B f strict rg s = (res, rg', s') \<Longrightarrow> rg_aggregators rg' = rg_aggregators rg"
  by (simp add: fold_event_def fold_rounds_aggs)

lemma fact_of_row_sel [simp]:
  "ff_type (fact_of_row r) = re_event_type r" "ff_payload (fact_of_row r) = re_payload r"
  "ff_subject_id (fact_of_row r) = re_subject_id r" "ff_category (fact_of_row r) = re_category r"
  "ff_revision (fact_of_row r) = re_revision r" "ff_position (fact_of_row r) = re_position r"
  by (simp_all add: fact_of_row_def)

text \<open>What the proofs below know of the log: dense revisions with room for one more.\<close>

definition log_ok :: "recorded_event list \<Rightarrow> bool" where
  "log_ok rows \<longleftrightarrow> revisions_dense rows \<and> (\<forall>r \<in> set rows. re_revision r \<noteq> - 1)"

lemma fold_now_tracks:
  assumes wf: "aggs_wf ags" and a: "a \<in> set ags" "ag_event_prefix a = re_event_type r" "ag_subject a \<noteq> []"
    and b: "type_of ags (ag_aggregate_type a) = Some b"
    and r: "log_ok rows" "r \<in> set rows" "ag_subject a = re_category r"
    and ex: "\<forall>e. x = Some e \<longrightarrow> tracks ags b (stream_rows rows (ag_subject b, re_subject_id r)) e"
    and now: "gate True x (re_revision r) pos = FoldNow"
    and post: "ag_apply a (case x of Some e \<Rightarrow> se_state e | None \<Rightarrow> ag_default a) (re_payload r) = Some post"
  shows "tracks ags b (stream_rows rows (ag_subject b, re_subject_id r))
           \<lparr> se_state = post, se_version = re_revision r + 1, se_last_pos = lp, se_snapshot_at = sn \<rparr>"
proof -
  let ?h = "stream_rows rows (ag_subject b, re_subject_id r)"
  let ?k = "unat (re_revision r)"
  have sub: "ag_subject a = ag_subject b" "ag_default a = ag_default b"
    using type_of_agg [OF wf a(1) b] by simp_all
  have at: "?k < length ?h" "?h ! ?k = r"
    using stream_row_at [of rows r] r sub by (simp_all add: log_ok_def)
  have "fold_upto ags b ?h ?k = Some (case x of Some e \<Rightarrow> se_state e | None \<Rightarrow> ag_default a)"
  proof (cases x)
    case None
    then have "?k = 0" using now by (simp add: gate_aligned)
    then show ?thesis using None sub by (simp add: fold_upto_def event_pairs_def)
  next
    case (Some e)
    then have "se_version e = re_revision r" using now by (simp add: gate_aligned)
    then show ?thesis using Some ex by (simp add: tracks_def)
  qed
  then have "fold_upto ags b ?h (Suc ?k) = Some post"
    using fold_upto_Suc [OF wf a(1) b at(1)] at(2) a(2) post by simp
  moreover have "unat (re_revision r + 1) = Suc ?k"
    using r(1,2) unat_inc by (auto simp: log_ok_def)
  ultimately show ?thesis using at(1) by (simp add: tracks_def)
qed

text \<open>The effect of the body for one aggregator on a coherent registry.\<close>

definition agg_effect ::
  "codec \<Rightarrow> recorded_event list \<Rightarrow> recorded_event \<Rightarrow> 'a registry \<Rightarrow> 'a registry \<Rightarrow> bool" where
  "agg_effect cd rows r rg rg' \<longleftrightarrow> coherent cd rows rg' \<and> reg_step cd (Suc (unat (re_revision r))) rg rg'"

lemma agg_effect_refl: "coherent cd rows rg \<Longrightarrow> agg_effect cd rows r rg rg"
  by (simp add: agg_effect_def)

lemma agg_effect_trans: "agg_effect cd rows r rg rg1 \<Longrightarrow> agg_effect cd rows r rg1 rg2 \<Longrightarrow> agg_effect cd rows r rg rg2"
  by (auto simp: agg_effect_def intro: reg_step_trans)

lemma stored_fold_effect:
  assumes keys: "keys_ok cd" and wf: "aggs_wf (rg_aggregators rg)" and co: "coherent cd rows rg"
    and a: "a \<in> set (rg_aggregators rg)" "ag_event_prefix a = re_event_type r"
    and r: "log_ok rows" "r \<in> set rows"
    and own: "ag_subject a \<noteq> [] \<longrightarrow> i = re_subject_id r \<and> ag_subject a = re_category r"
    and now: "gate (ag_subject a \<noteq> []) (hget (rg_state rg) (agg_key cd (ag_aggregate_type a) i))
                (re_revision r) (re_position r) = FoldNow"
    and post: "ag_apply a (case hget (rg_state rg) (agg_key cd (ag_aggregate_type a) i) of
                 Some e \<Rightarrow> se_state e | None \<Rightarrow> ag_default a) (re_payload r) = Some post"
  shows "agg_effect cd rows r rg
           (stored_fold cd (fact_of_row r) (agg_key cd (ag_aggregate_type a) i) pre post snap rg)"
    and "ver cd (stored_fold cd (fact_of_row r) (agg_key cd (ag_aggregate_type a) i) pre post snap rg)
           (ag_aggregate_type a) i = Suc (unat (re_revision r))"
proof -
  let ?ty = "ag_aggregate_type a"
  let ?rg = "stored_fold cd (fact_of_row r) (agg_key cd ?ty i) pre post snap rg"
  let ?e = "\<lparr> se_state = post, se_version = re_revision r + 1, se_last_pos = re_position r, se_snapshot_at = snap \<rparr>"
  have get: "hget (rg_state ?rg) (agg_key cd ty' i') =
      (if ty' = ?ty \<and> i' = i then Some ?e else hget (rg_state rg) (agg_key cd ty' i'))" for ty' i'
    by (simp add: stored_fold_get [OF keys])
  have ags: "rg_aggregators ?rg = rg_aggregators rg" by (simp add: stored_fold_def)
  have v: "unat (se_version ?e) = Suc (unat (re_revision r))"
    using r unat_inc by (auto simp: log_ok_def)
  then show "ver cd ?rg ?ty i = Suc (unat (re_revision r))" by (simp add: get_version_def get)
  show "agg_effect cd rows r rg ?rg"
  proof (cases "type_of (rg_aggregators rg) ?ty")
    case None
    then show ?thesis
      using unrestorable_put [OF None ags get] co by (simp add: agg_effect_def)
  next
    case (Some b)
    have al: "ag_subject a \<noteq> []"
      using type_of_agg [OF wf a(1) Some] type_of_Some [OF Some] by simp
    have own': "i = re_subject_id r" "ag_subject a = re_category r" using own al by simp_all
    have "tracks (rg_aggregators rg) b (stream_rows rows (ag_subject b, i)) ?e"
      unfolding own'(1)
    proof (rule fold_now_tracks [OF wf a al Some r own'(2)])
      show "\<forall>e. hget (rg_state rg) (agg_key cd ?ty i) = Some e \<longrightarrow>
              tracks (rg_aggregators rg) b (stream_rows rows (ag_subject b, re_subject_id r)) e"
        using co Some own'(1) by (simp add: coherent_def)
    qed (use now post al own' in simp_all)
    from coherent_put [OF keys co Some this ags get]
    have "coherent cd rows ?rg" .
    moreover have "ver cd rg ?ty i = unat (re_revision r)"
      using now al by (simp add: gate_aligned get_version_def split: option.splits)
    then have "reg_step cd (Suc (unat (re_revision r))) rg ?rg"
      using v by (intro reg_step_put [OF ags get]) simp_all
    ultimately show ?thesis by (simp add: agg_effect_def)
  qed
qed

lemma apply_agg_effect:
  assumes keys: "keys_ok cd" and wf: "aggs_wf (rg_aggregators rg)" and co: "coherent cd rows rg"
    and a: "a \<in> set (rg_aggregators rg)" "ag_event_prefix a = re_event_type r"
    and r: "log_ok rows" "r \<in> set rows"
    and eq: "apply_agg cd (fact_of_row r) a out rg = (res, rg')"
  shows "agg_effect cd rows r rg rg' \<and>
     (\<forall>out'. res = Inr out' \<longrightarrow>
        fo_gaps out' = fo_gaps out \<and> folded_past cd r rg' a \<or>
        (\<exists>g. fo_gaps out' = fo_gaps out @ [g] \<and> gap_of cd r rg rg' a g))"
  using eq
proof (cases rule: apply_agg_cases)
  case (skip i exact ts)
  have "re_revision r < get_version (agg_key cd (ag_aggregate_type a) i) rg" if "ag_subject a \<noteq> []"
    using gate_aligned(2) skip(3) that by (fastforce simp: get_version_def)
  then have "folded_past cd r rg' a"
    using skip(1,2,5) by (auto simp: folded_past_def word_less_nat_alt)
  then show ?thesis using skip(4,5) agg_effect_refl [OF co] by auto
next
  case (gap i v)
  then have al: "ag_subject a \<noteq> []" using gate_fan_in by (metis (full_types))
  have g: "v = get_version (agg_key cd (ag_aggregate_type a) i) rg" "v < re_revision r"
    using gap(3) al by (auto simp: gate_aligned get_version_def)
  have "gap_of cd r rg rg a \<lparr> fg_type = ag_aggregate_type a, fg_subject = ag_subject a, fg_id = i,
          fg_expected = v \<rparr>"
    using gap(1,2) al g by (simp add: gap_of_def)
  then show ?thesis using gap(4,5) agg_effect_refl [OF co] by auto
next
  case (fold i pre post snap ts)
  note st = stored_fold_effect [OF keys wf co a r, of i post pre snap]
  have "agg_effect cd rows r rg rg'"
    unfolding fold(7) using fold by (intro st(1)) simp_all
  moreover have "ver cd rg' (ag_aggregate_type a) i = Suc (unat (re_revision r))"
    unfolding fold(7) using fold by (intro st(2)) simp_all
  ultimately show ?thesis using fold(1,2,6) by (auto simp: folded_past_def)
qed (auto simp: agg_effect_refl [OF co] folded_past_def)

lemma apply_aggs_effect:
  assumes keys: "keys_ok cd" and wf: "aggs_wf (rg_aggregators rg)" and co: "coherent cd rows rg"
    and as: "set as \<subseteq> set (rg_aggregators rg)" "\<forall>a \<in> set as. ag_event_prefix a = re_event_type r"
    and r: "log_ok rows" "r \<in> set rows"
    and eq: "apply_aggs cd (fact_of_row r) as out rg = (res, rg')"
  shows "agg_effect cd rows r rg rg' \<and>
     (\<forall>out'. res = Inr out' \<longrightarrow>
        (\<exists>gs. fo_gaps out' = fo_gaps out @ gs \<and> (\<forall>g \<in> set gs. \<exists>a \<in> set as. gap_of cd r rg rg' a g) \<and>
           (\<forall>a \<in> set as. folded_past cd r rg' a \<or> (\<exists>g \<in> set gs. gap_of cd r rg rg' a g))))"
  using co as eq wf
proof (induction as arbitrary: out rg)
  case Nil
  then show ?case using agg_effect_refl [OF Nil.prems(1)] by auto
next
  case (Cons a as)
  obtain res1 rg1 where one: "apply_agg cd (fact_of_row r) a out rg = (res1, rg1)" by fastforce
  have eff: "agg_effect cd rows r rg rg1 \<and> (\<forall>out'. res1 = Inr out' \<longrightarrow>
        fo_gaps out' = fo_gaps out \<and> folded_past cd r rg1 a \<or>
        (\<exists>g. fo_gaps out' = fo_gaps out @ [g] \<and> gap_of cd r rg rg1 a g))"
    using Cons.prems by (intro apply_agg_effect [OF keys _ _ _ _ r one]) auto
  show ?case
  proof (cases res1)
    case (Inl err)
    then show ?thesis using Cons.prems(4) one eff by auto
  next
    case (Inr out1)
    have rest: "apply_aggs cd (fact_of_row r) as out1 rg1 = (res, rg')"
      using Cons.prems(4) one Inr by simp
    have ags: "rg_aggregators rg1 = rg_aggregators rg" and co1: "coherent cd rows rg1"
      using eff by (simp_all add: agg_effect_def reg_step_def)
    have IH: "agg_effect cd rows r rg1 rg' \<and> (\<forall>out'. res = Inr out' \<longrightarrow>
        (\<exists>gs. fo_gaps out' = fo_gaps out1 @ gs \<and> (\<forall>g \<in> set gs. \<exists>a \<in> set as. gap_of cd r rg1 rg' a g) \<and>
           (\<forall>a \<in> set as. folded_past cd r rg' a \<or> (\<exists>g \<in> set gs. gap_of cd r rg1 rg' a g))))"
      using Cons.prems by (intro Cons.IH [OF co1 _ _ rest]) (simp_all add: ags)
    have s1: "reg_step cd (Suc (unat (re_revision r))) rg rg1"
      and s2: "reg_step cd (Suc (unat (re_revision r))) rg1 rg'"
      using eff IH by (simp_all add: agg_effect_def)
    have past: "folded_past cd r rg1 a \<Longrightarrow> folded_past cd r rg' a"
      using folded_past_step [OF _ s2] Cons.prems(2,5) ags by simp
    have here: "gap_of cd r rg rg1 a g \<Longrightarrow> gap_of cd r rg rg' a g" for g
      using gap_of_step [OF _ reg_step_refl s2] Cons.prems(2,5) ags by simp
    have later: "a' \<in> set as \<Longrightarrow> gap_of cd r rg1 rg' a' g \<Longrightarrow> gap_of cd r rg rg' a' g" for a' g
      using gap_of_step [OF _ s1 reg_step_refl] Cons.prems(2,5) s1 s2 unfolding reg_step_def by auto
    have "\<exists>gs. fo_gaps out' = fo_gaps out @ gs \<and> (\<forall>g \<in> set gs. \<exists>a' \<in> set (a # as). gap_of cd r rg rg' a' g) \<and>
           (\<forall>a' \<in> set (a # as). folded_past cd r rg' a' \<or> (\<exists>g \<in> set gs. gap_of cd r rg rg' a' g))"
      if res: "res = Inr out'" for out'
    proof -
      obtain gs where gs1: "fo_gaps out' = fo_gaps out1 @ gs"
        "\<forall>g \<in> set gs. \<exists>a \<in> set as. gap_of cd r rg1 rg' a g"
        "\<forall>a \<in> set as. folded_past cd r rg' a \<or> (\<exists>g \<in> set gs. gap_of cd r rg1 rg' a g)"
        using IH res by blast
      have gs: "fo_gaps out' = fo_gaps out1 @ gs"
        "\<forall>g \<in> set gs. \<exists>a \<in> set as. gap_of cd r rg rg' a g"
        "\<forall>a \<in> set as. folded_past cd r rg' a \<or> (\<exists>g \<in> set gs. gap_of cd r rg rg' a g)"
        using gs1 later by blast+
      consider "fo_gaps out1 = fo_gaps out" "folded_past cd r rg1 a"
        | g where "fo_gaps out1 = fo_gaps out @ [g]" "gap_of cd r rg rg1 a g"
        using eff Inr by blast
      then show ?thesis
      proof cases
        case 1
        then show ?thesis using gs past by (intro exI [of _ gs]) auto
      next
        case (2 g)
        then show ?thesis using gs here by (intro exI [of _ "g # gs"]) auto
      qed
    qed
    then show ?thesis using eff IH agg_effect_trans by blast
  qed
qed

lemma apply_event_effect:
  assumes "keys_ok cd" "aggs_wf (rg_aggregators rg)" "coherent cd rows rg" "log_ok rows" "r \<in> set rows"
    and eq: "apply_event cd (fact_of_row r) rg = (res, rg')"
  shows "agg_effect cd rows r rg rg'"
    and "res = Inr out \<Longrightarrow> g \<in> set (fo_gaps out) \<Longrightarrow> \<exists>a \<in> set (rg_aggregators rg).
           ag_event_prefix a = re_event_type r \<and> gap_of cd r rg rg' a g"
    and "res = Inr out \<Longrightarrow> a \<in> set (rg_aggregators rg) \<Longrightarrow> ag_event_prefix a = re_event_type r \<Longrightarrow>
           folded_past cd r rg' a \<or> (\<exists>g \<in> set (fo_gaps out). gap_of cd r rg rg' a g)"
proof -
  let ?as = "find_by_durable_name (re_event_type r) (rg_aggregators rg)"
  have "set ?as \<subseteq> set (rg_aggregators rg)" "\<forall>a \<in> set ?as. ag_event_prefix a = re_event_type r"
    by (auto simp: find_by_durable_name_def)
  note eff = apply_aggs_effect [OF assms(1-3) this assms(4,5) eq [unfolded apply_event_def fact_of_row_sel]]
  show "agg_effect cd rows r rg rg'" using eff by blast
  show "\<exists>a \<in> set (rg_aggregators rg). ag_event_prefix a = re_event_type r \<and> gap_of cd r rg rg' a g"
    if "res = Inr out" "g \<in> set (fo_gaps out)"
    using eff that by (auto simp: outcome_new_def find_by_durable_name_def)
  show "folded_past cd r rg' a \<or> (\<exists>g \<in> set (fo_gaps out). gap_of cd r rg rg' a g)"
    if "res = Inr out" "a \<in> set (rg_aggregators rg)" "ag_event_prefix a = re_event_type r"
    using eff that by (auto simp: outcome_new_def find_by_durable_name_def)
qed

section \<open>Gap repair\<close>

text \<open>The identity fold of an event that matches no aggregator of the type.\<close>

lemma advance_watermark_effect:
  assumes keys: "keys_ok cd" and co: "coherent cd rows rg"
    and b: "type_of (rg_aggregators rg) ty = Some b"
    and r: "log_ok rows" "r \<in> set rows" "row_key r = (ag_subject b, i)"
    and e: "hget (rg_state rg) (agg_key cd ty i) = Some e" "unat (re_revision r) \<le> unat (se_version e)"
    and id: "unat (re_revision r) < unat (se_version e) \<or>
             (\<forall>a \<in> set (rg_aggregators rg). ag_aggregate_type a = ty \<longrightarrow> ag_event_prefix a \<noteq> re_event_type r)"
  shows "agg_effect cd rows r rg (advance_watermark (agg_key cd ty i) (re_revision r) pos rg) \<and>
         unat (re_revision r) < ver cd (advance_watermark (agg_key cd ty i) (re_revision r) pos rg) ty i"
proof -
  let ?k = "unat (re_revision r)" and ?h = "stream_rows rows (ag_subject b, i)"
  let ?rg = "advance_watermark (agg_key cd ty i) (re_revision r) pos rg"
  let ?e = "e\<lparr> se_version := (if se_version e < re_revision r + 1 then re_revision r + 1 else se_version e),
               se_last_pos := (if se_last_pos e < pos then pos else se_last_pos e) \<rparr>"
  have get: "hget (rg_state ?rg) (agg_key cd ty' i') =
      (if ty' = ty \<and> i' = i then Some ?e else hget (rg_state rg) (agg_key cd ty' i'))" for ty' i'
    using e(1) agg_key_inj [OF keys] by (auto simp: advance_watermark_def)
  have ags: "rg_aggregators ?rg = rg_aggregators rg" by (simp add: advance_watermark_def e(1))
  have inc: "unat (re_revision r + 1) = Suc ?k" using r unat_inc by (auto simp: log_ok_def)
  have v: "unat (se_version ?e) = max (Suc ?k) (unat (se_version e))"
    by (simp add: word_less_nat_alt inc)
  have at: "?k < length ?h" "?h ! ?k = r" using stream_row_at [of rows r] r by (simp_all add: log_ok_def)
  have old: "tracks (rg_aggregators rg) b ?h e" using co b e(1) by (simp add: coherent_def)
  have bty: "ag_aggregate_type b = ty" using type_of_Some [OF b] by simp
  have "tracks (rg_aggregators rg) b ?h ?e"
  proof (cases "?k < unat (se_version e)")
    case True
    then show ?thesis using old v by (simp add: tracks_def)
  next
    case False
    then have k: "unat (se_version e) = ?k" using e(2) by simp
    have "fold_upto (rg_aggregators rg) b ?h (Suc ?k) = fold_upto (rg_aggregators rg) b ?h ?k"
      using id False at bty by (intro fold_upto_foreign) auto
    then show ?thesis using old v k at(1) by (simp add: tracks_def)
  qed
  from coherent_put [OF keys co b this ags get]
  have "coherent cd rows ?rg" .
  moreover have "reg_step cd (Suc ?k) rg ?rg"
    using v e(1) by (intro reg_step_put [OF ags get]) (simp_all add: get_version_def)
  ultimately show ?thesis
    using v by (simp add: agg_effect_def get_version_def get)
qed

definition repair_bound :: "stream_revision option \<Rightarrow> recorded_event list \<Rightarrow> nat" where
  "repair_bound limit hist = (case limit of Some bound \<Rightarrow> unat bound | None \<Rightarrow> length hist)"

lemma repair_tail_effect:
  assumes keys: "keys_ok cd" and wf: "aggs_wf ags" and log: "log_ok rows" and keyed: "keyed ags rows"
    and b: "type_of ags (fg_type g) = Some b" "ag_subject b = fg_subject g"
    and hist: "hist = stream_rows rows (fg_subject g, fg_id g)"
  shows "es = drop k hist \<Longrightarrow> coherent cd rows rg \<Longrightarrow> rg_aggregators rg = ags \<Longrightarrow>
     hget (rg_state rg) (agg_key cd (fg_type g) (fg_id g)) \<noteq> None \<Longrightarrow>
     k \<le> ver cd rg (fg_type g) (fg_id g) \<Longrightarrow> repair_tail cd g limit es rg = (err, rg') \<Longrightarrow>
     coherent cd rows rg' \<and> reg_step cd (repair_bound limit hist) rg rg' \<and>
     (err = None \<longrightarrow> min (repair_bound limit hist) (length hist) \<le> ver cd rg' (fg_type g) (fg_id g))"
proof (induction es arbitrary: k rg)
  case Nil
  then have "length hist \<le> k" by simp
  then show ?case using Nil by simp
next
  case (Cons e es)
  let ?ty = "fg_type g" and ?i = "fg_id g" and ?N = "repair_bound limit hist"
  have k: "k < length hist" "hist ! k = e" "es = drop (Suc k) hist"
    using Cons.prems(1) by (metis drop_eq_Nil list.distinct(1) not_le, metis nth_via_drop, metis drop_Suc drop_tl list.sel(3))
  have e: "e \<in> set rows" "row_key e = (ag_subject b, ?i)"
    using nth_mem [OF k(1)] k(2) hist b(2) by (auto simp: stream_rows_def)
  have rev: "unat (re_revision e) = k"
    using stream_rows_nth_revision [of rows k "(fg_subject g, fg_id g)"] log k(1,2) hist by (simp add: log_ok_def)
  show ?case
  proof (cases "case limit of Some bound \<Rightarrow> bound \<le> re_revision e | None \<Rightarrow> False")
    case True
    then have "?N \<le> k" using rev by (auto simp: repair_bound_def word_le_nat_alt split: option.splits)
    then have "?N \<le> ver cd rg ?ty ?i" using Cons.prems(5) by linarith
    moreover have "err = None" "rg' = rg" using Cons.prems(6) True by simp_all
    ultimately show ?thesis using Cons.prems(2) by simp
  next
    case False
    then have N: "Suc k \<le> ?N"
      using rev k(1) by (auto simp: repair_bound_def word_le_nat_alt split: option.splits)
    obtain res rg1 where ev: "apply_event cd (fact_of_row e) rg = (res, rg1)" by fastforce
    note eff = apply_event_effect [OF keys _ Cons.prems(2) log e(1) ev, unfolded Cons.prems(3), OF wf]
    have co1: "coherent cd rows rg1" and step1: "reg_step cd ?N rg rg1"
      using eff(1) rev N by (auto simp: agg_effect_def intro: reg_step_mono)
    then have ags1: "rg_aggregators rg1 = ags" using Cons.prems(3) by (simp add: reg_step_def)
    have kept: "hget (rg_state rg1) (agg_key cd ?ty ?i) \<noteq> None" "k \<le> ver cd rg1 ?ty ?i"
      using step1 Cons.prems(3,4,5) b(1) unfolding reg_step_def by (auto intro: order_trans)
    show ?thesis
    proof (cases res)
      case (Inl er)
      then show ?thesis using Cons.prems(6) False ev co1 step1 by auto
    next
      case (Inr out)
      have no_gap: "\<not> (\<exists>h \<in> set (fo_gaps out). fg_type h = ?ty \<and> fg_id h = ?i)"
      proof
        assume "\<exists>h \<in> set (fo_gaps out). fg_type h = ?ty \<and> fg_id h = ?i"
        then obtain h where h: "h \<in> set (fo_gaps out)" "fg_type h = ?ty" "fg_id h = ?i" by blast
        from eff(2) [OF Inr h(1)] obtain a where "gap_of cd e rg rg1 a h" by blast
        then have "ver cd rg ?ty ?i < k"
          using h(2,3) rev by (auto simp: gap_of_def word_less_nat_alt)
        then show False using Cons.prems(5) by simp
      qed
      obtain x where x: "hget (rg_state rg1) (agg_key cd ?ty ?i) = Some x" "k \<le> unat (se_version x)"
        using kept by (auto simp: get_version_def)
      have id: "k < unat (se_version x) \<or>
          (\<forall>a \<in> set ags. ag_aggregate_type a = ?ty \<longrightarrow> ag_event_prefix a \<noteq> re_event_type e)"
      proof (rule disjCI)
        assume "\<not> (\<forall>a \<in> set ags. ag_aggregate_type a = ?ty \<longrightarrow> ag_event_prefix a \<noteq> re_event_type e)"
        then obtain a where a: "a \<in> set ags" "ag_aggregate_type a = ?ty" "ag_event_prefix a = re_event_type e"
          by blast
        have sub: "ag_subject a = re_category e" "ag_subject a \<noteq> []"
          using type_of_agg [OF wf a(1), of b] type_of_Some [OF b(1)] b a(2) e(2) by auto
        have "folded_past cd e rg1 a"
        proof -
          have "folded_past cd e rg1 a \<or> (\<exists>h \<in> set (fo_gaps out). gap_of cd e rg rg1 a h)"
            using eff(3) [OF Inr a(1,3)] .
          moreover have "\<not> gap_of cd e rg rg1 a h" if "h \<in> set (fo_gaps out)" for h
            using no_gap that a(2) e(2) by (auto simp: gap_of_def)
          ultimately show ?thesis by blast
        qed
        moreover have "ag_extract_id a (re_payload e) \<noteq> None"
          using keyed e(1) a sub(1) unfolding keyed_def by blast
        ultimately show "k < unat (se_version x)"
          using sub(2) a(2) rev e(2) x(1) by (simp add: folded_past_def get_version_def)
      qed
      let ?rg2 = "advance_watermark (agg_key cd ?ty ?i) (re_revision e) (re_position e) rg1"
      have adv: "agg_effect cd rows e rg1 ?rg2 \<and> k < ver cd ?rg2 ?ty ?i"
        using advance_watermark_effect [OF keys co1 _ log e x(1), of "re_position e"] b(1) ags1 x(2) rev id
        by simp
      then have co2: "coherent cd rows ?rg2" and step2: "reg_step cd ?N rg1 ?rg2"
        using rev N by (auto simp: agg_effect_def intro: reg_step_mono)
      have ags2: "rg_aggregators ?rg2 = ags" using step2 ags1 by (simp add: reg_step_def)
      have kept2: "hget (rg_state ?rg2) (agg_key cd ?ty ?i) \<noteq> None"
        by (simp add: advance_watermark_def x(1))
      have rest: "repair_tail cd g limit es ?rg2 = (err, rg')"
        using Cons.prems(6) False ev Inr no_gap by simp
      from Cons.IH [OF k(3) co2 ags2 kept2 _ rest] adv
      show ?thesis using step1 step2 by (auto intro: reg_step_trans)
    qed
  qed
qed

text \<open>Only the round cap of \<open>fold_event\<close> answers \<open>NotConverged\<close>.\<close>

lemma apply_agg_no_cap: "apply_agg cd f a out rg \<noteq> (Inl NotConverged, rg')"
  by (auto simp: apply_agg_def Let_def split: option.splits if_splits fold_gate.splits)

lemma apply_aggs_no_cap: "apply_aggs cd f as out rg \<noteq> (Inl NotConverged, rg')"
  by (induction as arbitrary: out rg) (auto simp: apply_agg_no_cap split: prod.split sum.split)

lemma apply_event_no_cap: "apply_event cd f rg \<noteq> (Inl NotConverged, rg')"
  by (simp add: apply_event_def apply_aggs_no_cap)

lemma repair_tail_no_cap: "repair_tail cd g limit es rg \<noteq> (Some NotConverged, rg')"
  by (induction cd g limit es rg rule: repair_tail.induct)
    (auto simp: apply_event_no_cap split: prod.split sum.split if_splits)

lemma repair_range_no_cap: "repair_range cd B g limit rg s \<noteq> (Some NotConverged, rs)"
  by (auto simp: repair_range_def Let_def repair_tail_no_cap split: sum.split prod.split)

lemma restore_no_cap: "restore_aggregate cd S B ty subject i rg s \<noteq> (Inl NotConverged, rs)"
  by (auto simp: restore_aggregate_def Let_def split: option.split sum.split prod.split)

lemma repair_gap_no_cap: "repair_gap cd S B g limit rg s \<noteq> (Some NotConverged, rs)"
  by (auto simp: repair_gap_def repair_range_no_cap restore_no_cap split: prod.split sum.split bool.split)

lemma repair_gaps_no_cap: "repair_gaps cd S B limit gs rg s \<noteq> (Some NotConverged, rs)"
  by (induction gs arbitrary: rg s) (auto simp: repair_gap_no_cap split: prod.split option.split)

section \<open>Snapshots beside the log\<close>

text \<open>A snapshot that deserializes is the fold of its stream up to its revision.\<close>

definition snap_tracks ::
  "'a aggregator list \<Rightarrow> recorded_event list \<Rightarrow> string \<Rightarrow> uuid \<Rightarrow> snapshot \<Rightarrow> bool" where
  "snap_tracks ags rows ty i sn \<longleftrightarrow>
     (\<forall>a st. type_of ags ty = Some a \<longrightarrow> ag_deserialize a (sn_state sn) = Some st \<longrightarrow>
        unat (sn_revision sn) < length (stream_rows rows (ag_subject a, i)) \<and>
        fold_upto ags a (stream_rows rows (ag_subject a, i)) (Suc (unat (sn_revision sn))) = Some st)"

text \<open>The contract of a snapshot store next to a log: it answers what was saved last, or nothing, and
  never touches the log.\<close>

locale snapshot_log = event_log B rows inv room
  for B :: "'s backend" and rows :: "'s \<Rightarrow> recorded_event list" and inv :: "'s \<Rightarrow> bool"
    and room :: "nat \<Rightarrow> 's \<Rightarrow> bool" +
  fixes S :: "'s snapshot_store" and snap :: "string \<Rightarrow> uuid \<Rightarrow> 's \<Rightarrow> snapshot option"
  assumes load_snap: "ss_load S ty i s = Inr x \<Longrightarrow> x = snap ty i s"
    and delete_log: "rows (ss_delete S ty i s) = rows s" "inv s \<Longrightarrow> inv (ss_delete S ty i s)"
    and delete_snap: "snap ty' i' (ss_delete S ty i s) = None \<or>
                      snap ty' i' (ss_delete S ty i s) = snap ty' i' s"
    and save_log: "rows (snd (ss_save S sn s)) = rows s" "inv s \<Longrightarrow> inv (snd (ss_save S sn s))"
    and save_snap: "snap ty i (snd (ss_save S sn s)) = snap ty i s \<or>
                    snap ty i (snd (ss_save S sn s)) = Some sn \<and>
                    sn_aggregate_type sn = ty \<and> sn_aggregate_id sn = i"
begin

definition snaps_ok :: "'a aggregator list \<Rightarrow> 's \<Rightarrow> bool" where
  "snaps_ok ags s \<longleftrightarrow> (\<forall>ty i sn. snap ty i s = Some sn \<longrightarrow> snap_tracks ags (rows s) ty i sn)"

lemma inv_log_ok: "inv s \<Longrightarrow> log_ok (rows s)"
  using dense revision_room by (auto simp: log_ok_def)

lemma snaps_ok_delete: "snaps_ok ags s \<Longrightarrow> snaps_ok ags (ss_delete S ty i s)"
  unfolding snaps_ok_def using delete_snap delete_log(1) by (metis option.distinct(1))

lemma restore_seed_effect:
  assumes "restore_seed S' a ty i x s = ((st0, after), s1)" "S' = None \<or> S' = Some S"
    and "inv s" "snaps_ok ags s"
  shows "inv s1 \<and> rows s1 = rows s \<and> snaps_ok ags s1"
  using assms delete_log snaps_ok_delete
  by (auto simp: restore_seed_def split: option.splits)

lemma restore_seed_tracks:
  assumes "restore_seed S' a ty i x s = ((st0, after), s1)"
    and "\<forall>sn. x = Some sn \<longrightarrow> snap_tracks ags (rows s) ty i sn" "type_of ags ty = Some a"
    and "hist = stream_rows (rows s) (ag_subject a, i)"
  shows "case after of
           None \<Rightarrow> st0 = ag_default a
         | Some rv \<Rightarrow> unat rv < length hist \<and> fold_upto ags a hist (Suc (unat rv)) = Some st0"
  using assms by (auto simp: restore_seed_def snap_tracks_def split: option.splits)

text \<open>The tail read after a revision is what the seed has not folded.\<close>

lemma read_tail:
  assumes "inv s" "hist = stream_rows (rows s) (c, i)" "\<forall>rv. after = Some rv \<longrightarrow> unat rv < length hist"
  shows "b_read_stream B c i after s = Inr (drop (case after of None \<Rightarrow> 0 | Some rv \<Rightarrow> Suc (unat rv)) hist)"
proof (cases after)
  case None
  then show ?thesis using read_whole [OF assms(1)] assms(2) by simp
next
  case (Some rv)
  then have k: "unat rv < length hist" using assms(3) by simp
  have rev: "\<And>r. r < length hist \<Longrightarrow> unat (re_revision (hist ! r)) = r"
    using stream_rows_nth_revision [OF dense [OF assms(1)]] assms(2) by simp
  have "hist ! unat rv \<in> set (rows s)" using nth_mem [OF k] assms(2) by (auto simp: stream_rows_def)
  then have "rv \<noteq> - 1" using revision_room [OF assms(1)] rev [OF k] word_unat_eq_iff by metis
  then have "b_read_stream B c i after s = Inr (filter (\<lambda>r. rv < re_revision r) hist)"
    using read_after [OF assms(1)] Some assms(2) by simp
  also have "filter (\<lambda>r. rv < re_revision r) hist = filter (\<lambda>r. Suc (unat rv) \<le> unat (re_revision r)) hist"
    by (simp add: word_less_nat_alt Suc_le_eq)
  also have "\<dots> = drop (Suc (unat rv)) hist"
    using drop_revision_filter [of hist re_revision "Suc (unat rv)"] rev by simp
  finally show ?thesis using Some by simp
qed

lemma last_version:
  assumes "inv s" "hist = stream_rows (rows s) key" "hist \<noteq> []"
  shows "unat (re_revision (last hist) + 1) = length hist"
proof -
  have "unat (re_revision (last hist)) = length hist - 1"
    using stream_rows_nth_revision [OF dense [OF assms(1)], of "length hist - 1" key] assms(2,3)
    by (simp add: last_conv_nth)
  moreover have "last hist \<in> set (rows s)"
    using last_in_set [OF assms(3)] assms(2) by (auto simp: stream_rows_def)
  ultimately show ?thesis
    using unat_inc revision_room [OF assms(1)] assms(3) by simp
qed

lemma restore_aggregate_effect:
  assumes keys: "keys_ok cd" and inv: "inv s" and co: "coherent cd (rows s) rg"
    and S': "S' = None \<or> S' = Some S" and snaps: "snaps_ok (rg_aggregators rg) s"
    and b: "type_of (rg_aggregators rg) ty = Some b"
    and hist: "hist = stream_rows (rows s) (ag_subject b, i)"
    and eq: "restore_aggregate cd S' B ty (ag_subject b) i rg s = (res, rg', s')"
  shows "inv s' \<and> rows s' = rows s \<and> snaps_ok (rg_aggregators rg) s' \<and> coherent cd (rows s) rg' \<and>
         reg_step cd (length hist) rg rg' \<and>
         (res = Inr False \<longrightarrow> hist = [] \<and> rg' = rg) \<and>
         (res = Inr True \<longrightarrow> hget (rg_state rg') (agg_key cd ty i) \<noteq> None \<and>
            (hget (rg_state rg) (agg_key cd ty i) = None \<longrightarrow> ver cd rg' ty i = length hist))"
proof -
  have first: "find_first_by_aggregate_type ty (rg_aggregators rg) = Some b" "ag_subject b \<noteq> []"
    "ag_aggregate_type b = ty"
    using type_of_Some [OF b] by simp_all
  show ?thesis
  proof (cases "hget (rg_state rg) (agg_key cd ty i)")
    case (Some e)
    then show ?thesis using eq first inv co snaps by (auto simp: restore_aggregate_def)
  next
    case vacant: None
    show ?thesis
    proof (cases "case S' of Some st \<Rightarrow> ss_load st ty i s | None \<Rightarrow> Inr None")
      case (Inl er)
      then show ?thesis using eq vacant first inv co snaps by (auto simp: restore_aggregate_def)
    next
      case (Inr x)
      have x: "\<forall>sn. x = Some sn \<longrightarrow> snap_tracks (rg_aggregators rg) (rows s) ty i sn"
        using Inr S' load_snap snaps by (auto simp: snaps_ok_def split: option.splits)
      obtain st0 after s1 where seed: "restore_seed S' b ty i x s = ((st0, after), s1)"
        by (metis surj_pair)
      note s1 = restore_seed_effect [OF seed S' inv snaps]
      note tr = restore_seed_tracks [OF seed x b hist]
      let ?k = "case after of None \<Rightarrow> 0 | Some rv \<Rightarrow> Suc (unat rv)"
      have tail: "b_read_stream B (ag_subject b) i after s1 = Inr (drop ?k hist)"
        using s1 hist tr by (intro read_tail) (auto split: option.splits)
      have k: "?k \<le> length hist" "fold_upto (rg_aggregators rg) b hist ?k = Some st0"
        using tr by (auto simp: fold_upto_def event_pairs_def split: option.splits)
      have whole: "fold_upto (rg_aggregators rg) b hist (length hist) =
          replay_events_onto ty (rg_aggregators rg) (event_pairs (drop ?k hist)) st0"
      proof -
        have "event_pairs hist = event_pairs (take ?k hist) @ event_pairs (drop ?k hist)"
          unfolding event_pairs_def map_append [symmetric] append_take_drop_id ..
        then show ?thesis using k(2) first(3) by (simp add: fold_upto_def replay_append)
      qed
      show ?thesis
      proof (cases "replay_events_onto ty (rg_aggregators rg) (event_pairs (drop ?k hist)) st0")
        case None
        then show ?thesis
          using eq vacant first Inr seed tail s1 co by (auto simp: restore_aggregate_def Let_def)
      next
        case (Some st)
        show ?thesis
        proof (cases "after = None \<and> drop ?k hist = []")
          case True
          then show ?thesis
            using eq vacant first Inr seed tail s1 co Some by (auto simp: restore_aggregate_def Let_def)
        next
          case False
          let ?last = "if drop ?k hist = [] then after else Some (re_revision (last (drop ?k hist)))"
          let ?v = "case ?last of Some rv \<Rightarrow> rv + 1 | None \<Rightarrow> 0"
          let ?sn = "case x of Some sn \<Rightarrow> sn_revision sn + 1 | None \<Rightarrow> 0"
          have out: "res = Inr True" "rg' = set_state (agg_key cd ty i) st ?v ?sn rg" "s' = s1"
            using eq vacant first Inr seed tail Some False
            by (auto simp: restore_aggregate_def Let_def)
          have ne: "hist \<noteq> []" using False k(1) by (auto split: option.splits)
          have v: "unat ?v = length hist"
          proof (cases "drop ?k hist = []")
            case True
            then obtain rv where rv: "after = Some rv" using False by auto
            then have "Suc (unat rv) = length hist" using True k(1) by simp
            then have "rv = re_revision (last hist)"
              using last_version [OF inv hist ne] stream_rows_nth_revision [OF dense [OF inv], of "unat rv" "(ag_subject b, i)"]
                hist ne by (metis Suc_n_not_le_n diff_Suc_1 last_conv_nth not_less word_unat_eq_iff)
            then show ?thesis using rv True last_version [OF inv hist ne] by simp
          next
            case False
            then have "last (drop ?k hist) = last hist" by (metis append_take_drop_id last_append)
            then show ?thesis using False last_version [OF inv hist ne] by simp
          qed
          let ?e = "\<lparr> se_state = st, se_version = ?v, se_last_pos = cursor_zero, se_snapshot_at = ?sn \<rparr>"
          have get: "hget (rg_state rg') (agg_key cd ty' i') =
              (if ty' = ty \<and> i' = i then Some ?e else hget (rg_state rg) (agg_key cd ty' i'))" for ty' i'
            using vacant agg_key_inj [OF keys] by (auto simp: out(2) set_state_def)
          have ags: "rg_aggregators rg' = rg_aggregators rg" by (simp add: out(2) set_state_def vacant)
          have "tracks (rg_aggregators rg) b (stream_rows (rows s) (ag_subject b, i)) ?e"
            using v whole Some hist by (simp add: tracks_def)
          from coherent_put [OF keys co b this ags get]
          have "coherent cd (rows s) rg'" .
          moreover have "reg_step cd (length hist) rg rg'"
            using v vacant by (intro reg_step_put [OF ags get]) (simp_all add: get_version_def)
          moreover have "hget (rg_state rg') (agg_key cd ty i) = Some ?e" using get by simp
          then have "hget (rg_state rg') (agg_key cd ty i) \<noteq> None \<and> ver cd rg' ty i = length hist"
            using v by (simp add: get_version_def)
          ultimately show ?thesis using out(1,3) s1 by blast
        qed
      qed
    qed
  qed
qed

lemma seed_vacant_effect:
  assumes keys: "keys_ok cd" and co: "coherent cd rs rg"
    and b: "type_of (rg_aggregators rg) (fg_type g) = Some b"
  shows "coherent cd rs (seed_vacant cd g limit rg) \<and> reg_step cd n rg (seed_vacant cd g limit rg) \<and>
     (limit \<noteq> None \<or> hget (rg_state rg) (agg_key cd (fg_type g) (fg_id g)) \<noteq> None \<longrightarrow>
        hget (rg_state (seed_vacant cd g limit rg)) (agg_key cd (fg_type g) (fg_id g)) \<noteq> None)"
proof (cases "limit \<noteq> None \<and> hget (rg_state rg) (agg_key cd (fg_type g) (fg_id g)) = None")
  case False
  then have "seed_vacant cd g limit rg = rg" by (auto simp: seed_vacant_def)
  then show ?thesis using co False by auto
next
  case True
  let ?e = "\<lparr> se_state = ag_default b, se_version = 0, se_last_pos = cursor_zero, se_snapshot_at = 0 \<rparr>"
  let ?rg = "seed_vacant cd g limit rg"
  have eq: "?rg = rg\<lparr> rg_state := hput (agg_key cd (fg_type g) (fg_id g)) ?e (rg_state rg) \<rparr>"
    using True type_of_Some [OF b] by (simp add: seed_vacant_def set_state_def)
  have get: "hget (rg_state ?rg) (agg_key cd ty' i') =
      (if ty' = fg_type g \<and> i' = fg_id g then Some ?e else hget (rg_state rg) (agg_key cd ty' i'))" for ty' i'
    using agg_key_inj [OF keys] by (auto simp: eq)
  have ags: "rg_aggregators ?rg = rg_aggregators rg" by (simp add: eq)
  have tr: "tracks (rg_aggregators rg) b h ?e" for h by (simp add: tracks_def fold_upto_def event_pairs_def)
  have "coherent cd rs ?rg" using coherent_put [OF keys co b tr ags get] .
  moreover have "reg_step cd n rg ?rg"
    using True by (intro reg_step_put [OF ags get]) (simp_all add: get_version_def)
  ultimately show ?thesis using get by simp
qed

lemma repair_range_effect:
  assumes keys: "keys_ok cd" and inv: "inv s" and wf: "aggs_wf (rg_aggregators rg)"
    and keyed: "keyed (rg_aggregators rg) (rows s)" and co: "coherent cd (rows s) rg"
    and b: "type_of (rg_aggregators rg) (fg_type g) = Some b" "ag_subject b = fg_subject g"
    and hist: "hist = stream_rows (rows s) (fg_subject g, fg_id g)"
    and ex: "unat (fg_expected g) \<le> ver cd rg (fg_type g) (fg_id g)" "unat (fg_expected g) \<le> length hist"
    and pres: "limit \<noteq> None \<or> hget (rg_state rg) (agg_key cd (fg_type g) (fg_id g)) \<noteq> None"
    and eq: "repair_range cd B g limit rg s = (err, rg', s')"
  shows "s' = s \<and> coherent cd (rows s) rg' \<and> reg_step cd (repair_bound limit hist) rg rg' \<and>
         (err = None \<longrightarrow> min (repair_bound limit hist) (length hist) \<le> ver cd rg' (fg_type g) (fg_id g))"
proof -
  let ?rg1 = "seed_vacant cd g limit rg" and ?k = "unat (fg_expected g)"
  let ?after = "if fg_expected g = 0 then None else Some (fg_expected g - 1)"
  have seed: "coherent cd (rows s) ?rg1" "reg_step cd (repair_bound limit hist) rg ?rg1"
    "hget (rg_state ?rg1) (agg_key cd (fg_type g) (fg_id g)) \<noteq> None"
    using seed_vacant_effect [OF keys co b(1)] pres by blast+
  have dec: "fg_expected g \<noteq> 0 \<Longrightarrow> Suc (unat (fg_expected g - 1)) = ?k"
    by (simp add: unat_minus_one unat_gt_0)
  have "b_read_stream B (fg_subject g) (fg_id g) ?after s = Inr (drop ?k hist)"
    using read_tail [OF inv hist, of ?after] dec ex(2) by (auto split: if_splits)
  then have tl: "repair_tail cd g limit (drop ?k hist) ?rg1 = (err, rg')" "s' = s"
    using eq by (auto simp: repair_range_def Let_def split: prod.splits)
  have ags: "rg_aggregators ?rg1 = rg_aggregators rg" using seed(2) by (simp add: reg_step_def)
  have "?k \<le> ver cd ?rg1 (fg_type g) (fg_id g)"
    using seed(2) ex(1) b(1) unfolding reg_step_def by (auto intro: order_trans)
  from repair_tail_effect [OF keys wf inv_log_ok [OF inv] keyed b hist refl seed(1) ags seed(3) this tl(1)]
  show ?thesis using tl(2) seed(2) by (auto intro: reg_step_trans)
qed

text \<open>Repairing a gap that \<open>apply_event\<close> reported for the event \<open>r\<close> of the log.\<close>

definition repair_ok ::
  "codec \<Rightarrow> recorded_event \<Rightarrow> stream_revision option \<Rightarrow> 's \<Rightarrow> 'a registry \<Rightarrow> 'a registry \<Rightarrow> 's \<Rightarrow> bool" where
  "repair_ok cd r limit s rg rg' s' \<longleftrightarrow>
     inv s' \<and> rows s' = rows s \<and> snaps_ok (rg_aggregators rg) s' \<and> coherent cd (rows s) rg' \<and>
     reg_step cd (repair_bound limit (stream_rows (rows s) (row_key r))) rg rg'"

lemma repair_ok_trans:
  assumes "repair_ok cd r limit s rg rg1 s1" "repair_ok cd r limit s1 rg1 rg2 s2"
  shows "repair_ok cd r limit s rg rg2 s2"
proof -
  have "rg_aggregators rg1 = rg_aggregators rg" "rows s1 = rows s"
    using assms(1) by (simp_all add: repair_ok_def reg_step_def)
  then show ?thesis using assms unfolding repair_ok_def by (auto intro: reg_step_trans)
qed

lemma repair_gap_effect:
  assumes keys: "keys_ok cd" and inv: "inv s" and wf: "aggs_wf (rg_aggregators rg)"
    and keyed: "keyed (rg_aggregators rg) (rows s)" and co: "coherent cd (rows s) rg"
    and S': "S' = None \<or> S' = Some S" and snaps: "snaps_ok (rg_aggregators rg) s"
    and r: "r \<in> set (rows s)" and lim: "limit = None \<or> limit = Some (re_revision r)"
    and a: "a \<in> set (rg_aggregators rg)" "gap_of cd r rg0 rg a g"
    and eq: "repair_gap cd S' B g limit rg s = (err, rg', s')"
  shows "repair_ok cd r limit s rg rg' s' \<and>
         (err = None \<longrightarrow> unat (re_revision r) \<le> ver cd rg' (fg_type g) (fg_id g))"
proof -
  define hist where "hist = stream_rows (rows s) (row_key r)"
  have g: "ag_subject a \<noteq> []" "fg_type g = ag_aggregate_type a" "fg_subject g = ag_subject a"
    "row_key r = (fg_subject g, fg_id g)" "unat (fg_expected g) \<le> ver cd rg (fg_type g) (fg_id g)"
    "unat (fg_expected g) < unat (re_revision r)"
    using a(2) by (auto simp: gap_of_def word_less_nat_alt)
  obtain b where b: "type_of (rg_aggregators rg) (fg_type g) = Some b" "ag_subject b = fg_subject g"
    using type_of_member [OF wf a(1) g(1)] g(2,3) by metis
  have at: "unat (re_revision r) < length hist"
    using stream_row_at [OF dense [OF inv] r] by (simp add: hist_def)
  have bound: "unat (re_revision r) \<le> min (repair_bound limit hist) (length hist)"
    using lim at by (auto simp: repair_bound_def)
  have range: "repair_ok cd r limit s rg rg' s' \<and>
         (err = None \<longrightarrow> unat (re_revision r) \<le> ver cd rg' (fg_type g) (fg_id g))"
    if "repair_range cd B g limit rg s = (err, rg', s')"
      "limit \<noteq> None \<or> hget (rg_state rg) (agg_key cd (fg_type g) (fg_id g)) \<noteq> None"
  proof -
    have "unat (fg_expected g) \<le> length hist" using g(6) at by linarith
    note range = repair_range_effect [OF keys inv wf keyed co b hist_def [unfolded g(4)] g(5) this that(2,1)]
    have "min (repair_bound limit hist) (length hist) \<le> n \<Longrightarrow> unat (re_revision r) \<le> n" for n
      using bound by linarith
    then show ?thesis
      using range inv snaps unfolding repair_ok_def hist_def by blast
  qed
  show ?thesis
  proof (cases "limit = None \<and> hget (rg_state rg) (agg_key cd (fg_type g) (fg_id g)) = None")
    case False
    then show ?thesis using eq range by (auto simp: repair_gap_def)
  next
    case True
    obtain res rg1 s1 where rs: "restore_aggregate cd S' B (fg_type g) (fg_subject g) (fg_id g) rg s = (res, rg1, s1)"
      by (metis surj_pair)
    have hist': "hist = stream_rows (rows s) (ag_subject b, fg_id g)"
      using b(2) g(4) by (simp add: hist_def)
    note eff = restore_aggregate_effect [OF keys inv co S' snaps b(1) hist' rs [folded b(2)]]
    have "hist \<noteq> []" using at by auto
    then have not_False: "res \<noteq> Inr False" using eff by blast
    then have out: "rg' = rg1" "s' = s1" "err = None \<longrightarrow> res = Inr True"
      using eq True rs by (auto simp: repair_gap_def split: sum.splits bool.splits)
    have "repair_bound limit hist = length hist" using True by (simp add: repair_bound_def)
    then have "repair_ok cd r limit s rg rg' s'"
      using eff out(1,2) by (simp add: repair_ok_def hist_def)
    moreover have "err = None \<longrightarrow> ver cd rg' (fg_type g) (fg_id g) = length hist"
      using eff out(1,3) True by simp
    ultimately show ?thesis using at by auto
  qed
qed

lemma repair_gaps_effect:
  assumes keys: "keys_ok cd" and S': "S' = None \<or> S' = Some S"
    and lim: "limit = None \<or> limit = Some (re_revision r)"
  shows "inv s \<Longrightarrow> aggs_wf (rg_aggregators rg) \<Longrightarrow> keyed (rg_aggregators rg) (rows s) \<Longrightarrow>
     coherent cd (rows s) rg \<Longrightarrow> snaps_ok (rg_aggregators rg) s \<Longrightarrow> r \<in> set (rows s) \<Longrightarrow>
     rg_aggregators rg0 = rg_aggregators rg \<Longrightarrow>
     \<forall>g \<in> set gs. \<exists>a \<in> set (rg_aggregators rg). gap_of cd r rg0 rg a g \<Longrightarrow>
     repair_gaps cd S' B limit gs rg s = (err, rg', s') \<Longrightarrow>
     repair_ok cd r limit s rg rg' s' \<and>
     (err = None \<longrightarrow> (\<forall>g \<in> set gs. unat (re_revision r) \<le> ver cd rg' (fg_type g) (fg_id g)))"
proof (induction gs arbitrary: rg s)
  case Nil
  then show ?case by (auto simp: repair_ok_def)
next
  case (Cons g gs)
  obtain a where a: "a \<in> set (rg_aggregators rg)" "gap_of cd r rg0 rg a g"
    using Cons.prems(8) by auto
  obtain err1 rg1 s1 where one: "repair_gap cd S' B g limit rg s = (err1, rg1, s1)"
    by (metis surj_pair)
  note eff = repair_gap_effect [OF keys Cons.prems(1-4) S' Cons.prems(5,6) lim a one]
  show ?case
  proof (cases err1)
    case (Some e)
    then show ?thesis using Cons.prems(9) one eff by auto
  next
    case None
    have st: "inv s1" "rows s1 = rows s" "rg_aggregators rg1 = rg_aggregators rg"
      "coherent cd (rows s1) rg1" "snaps_ok (rg_aggregators rg1) s1"
      and step: "reg_step cd (repair_bound limit (stream_rows (rows s) (row_key r))) rg rg1"
      using eff by (simp_all add: repair_ok_def reg_step_def)
    have gaps: "\<exists>a \<in> set (rg_aggregators rg1). gap_of cd r rg0 rg1 a h" if "h \<in> set gs" for h
      using Cons.prems(2,7,8) that st(3) gap_of_step [OF _ reg_step_refl step] by (metis list.set_intros(2))
    have rest: "repair_gaps cd S' B limit gs rg1 s1 = (err, rg', s')"
      using Cons.prems(9) one None by simp
    have IH: "repair_ok cd r limit s1 rg1 rg' s' \<and>
        (err = None \<longrightarrow> (\<forall>g \<in> set gs. unat (re_revision r) \<le> ver cd rg' (fg_type g) (fg_id g)))"
      using Cons.prems st gaps by (intro Cons.IH [OF _ _ _ _ _ _ _ _ rest]) simp_all
    have "ver cd rg1 (fg_type g) (fg_id g) \<le> ver cd rg' (fg_type g) (fg_id g)"
      using IH st(3) type_of_member [OF Cons.prems(2) a(1)] a(2)
      unfolding repair_ok_def reg_step_def gap_of_def by auto
    moreover have "repair_ok cd r limit s rg rg' s'"
      using eff IH repair_ok_trans by blast
    ultimately show ?thesis using eff IH None by auto
  qed
qed

text \<open>How far one call may fold: to the event in strict mode, to the stream's end otherwise.\<close>

definition fold_bound :: "bool \<Rightarrow> recorded_event \<Rightarrow> recorded_event list \<Rightarrow> nat" where
  "fold_bound strict r hist = (if strict then Suc (unat (re_revision r)) else length hist)"

definition fold_ok ::
  "codec \<Rightarrow> recorded_event \<Rightarrow> bool \<Rightarrow> 's \<Rightarrow> 'a registry \<Rightarrow> 'a registry \<Rightarrow> 's \<Rightarrow> bool" where
  "fold_ok cd r strict s rg rg' s' \<longleftrightarrow>
     inv s' \<and> rows s' = rows s \<and> snaps_ok (rg_aggregators rg) s' \<and> coherent cd (rows s) rg' \<and>
     reg_step cd (fold_bound strict r (stream_rows (rows s) (row_key r))) rg rg'"

lemma repair_fold_ok:
  assumes "repair_ok cd r (if strict then Some (re_revision r) else None) s rg rg' s'"
  shows "fold_ok cd r strict s rg rg' s'"
  using assms unfolding repair_ok_def fold_ok_def
  by (auto simp: repair_bound_def fold_bound_def intro: reg_step_mono)

lemma apply_fold_ok:
  assumes "agg_effect cd (rows s) r rg rg'" "inv s" "snaps_ok (rg_aggregators rg) s" "r \<in> set (rows s)"
  shows "fold_ok cd r strict s rg rg' s"
proof -
  have "unat (re_revision r) < length (stream_rows (rows s) (row_key r))"
    using stream_row_at [OF dense [OF assms(2)] assms(4)] by blast
  then have "Suc (unat (re_revision r)) \<le> fold_bound strict r (stream_rows (rows s) (row_key r))"
    by (simp add: fold_bound_def)
  then show ?thesis using assms by (auto simp: fold_ok_def agg_effect_def intro: reg_step_mono)
qed

lemma fold_ok_trans:
  assumes "fold_ok cd r strict s rg rg1 s1" "fold_ok cd r strict s1 rg1 rg2 s2"
  shows "fold_ok cd r strict s rg rg2 s2"
proof -
  have "rg_aggregators rg1 = rg_aggregators rg" "rows s1 = rows s"
    using assms(1) by (simp_all add: fold_ok_def reg_step_def)
  then show ?thesis using assms unfolding fold_ok_def by (auto intro: reg_step_trans)
qed

lemma fold_event_effect:
  assumes keys: "keys_ok cd" and inv: "inv s" and wf: "aggs_wf (rg_aggregators rg)"
    and keyed: "keyed (rg_aggregators rg) (rows s)" and co: "coherent cd (rows s) rg"
    and S': "S' = None \<or> S' = Some S" and snaps: "snaps_ok (rg_aggregators rg) s"
    and r: "r \<in> set (rows s)"
    and eq: "fold_event cd S' B (fact_of_row r) strict rg s = (res, rg', s')"
  shows "fold_ok cd r strict s rg rg' s'"
    and "res \<noteq> Inl NotConverged"
    and "res = Inr out \<Longrightarrow> fo_gaps out = []"
    and "res = Inr out \<Longrightarrow> a \<in> set (rg_aggregators rg) \<Longrightarrow> ag_event_prefix a = re_event_type r \<Longrightarrow>
           folded_past cd r rg' a"
proof -
  let ?lim = "if strict then Some (re_revision r) else None"
  let ?f = "fact_of_row r"
  obtain n where n: "(8 :: nat) = Suc (Suc n)" by (rule that [of 6]) simp
  have rounds: "fold_rounds cd S' B ?f strict (Suc (Suc n)) rg s = (res, rg', s')"
    using eq unfolding fold_event_def n .
  obtain res1 rg1 where one: "apply_event cd ?f rg = (res1, rg1)" by fastforce
  note eff1 = apply_event_effect [OF keys wf co inv_log_ok [OF inv] r one]
  have ok1: "fold_ok cd r strict s rg rg1 s" by (rule apply_fold_ok [OF eff1(1) inv snaps r])
  have ags1: "rg_aggregators rg1 = rg_aggregators rg" using ok1 by (simp add: fold_ok_def reg_step_def)
  have nc: "e \<noteq> NotConverged" if "apply_event cd ?f rg2 = (Inl e, rg3)" for e rg2 rg3
    using apply_event_no_cap that by blast
  have "fold_ok cd r strict s rg rg' s' \<and> res \<noteq> Inl NotConverged \<and>
     (\<forall>out. res = Inr out \<longrightarrow> fo_gaps out = [] \<and>
        (\<forall>a \<in> set (rg_aggregators rg). ag_event_prefix a = re_event_type r \<longrightarrow> folded_past cd r rg' a))"
  proof (cases res1)
    case (Inl e)
    then show ?thesis using rounds one ok1 nc by auto
  next
    case (Inr out1)
    show ?thesis
    proof (cases "fo_gaps out1 = []")
      case True
      then show ?thesis using rounds one Inr ok1 eff1(3) [OF Inr] by auto
    next
      case False
      obtain err2 rg2 s2 where two: "repair_gaps cd S' B ?lim (fo_gaps out1) rg1 s = (err2, rg2, s2)"
        by (metis surj_pair)
      have co1: "coherent cd (rows s) rg1" using ok1 by (simp add: fold_ok_def)
      have gaps1: "\<forall>g \<in> set (fo_gaps out1). \<exists>a \<in> set (rg_aggregators rg1). gap_of cd r rg rg1 a g"
        using eff1(2) [OF Inr] ags1 by auto
      have lim: "?lim = None \<or> ?lim = Some (re_revision r)" by simp
      have eff2: "repair_ok cd r ?lim s rg1 rg2 s2 \<and>
          (err2 = None \<longrightarrow> (\<forall>g \<in> set (fo_gaps out1). unat (re_revision r) \<le> ver cd rg2 (fg_type g) (fg_id g)))"
        using ags1 wf keyed snaps
        by (intro repair_gaps_effect [OF keys S' lim inv _ _ co1 _ r _ gaps1 two]) simp_all
      then have ok2: "fold_ok cd r strict s rg rg2 s2"
        using ok1 fold_ok_trans repair_fold_ok by blast
      show ?thesis
      proof (cases err2)
        case (Some e)
        have "e \<noteq> NotConverged"
          using repair_gaps_no_cap [of cd S' B ?lim "fo_gaps out1" rg1 s "(rg2, s2)"] two Some by auto
        then show ?thesis using rounds one Inr False two ok2 Some by (cases strict; auto)
      next
        case None
        have st2: "inv s2" "rows s2 = rows s" "rg_aggregators rg2 = rg_aggregators rg"
          "coherent cd (rows s2) rg2" "snaps_ok (rg_aggregators rg2) s2"
          using ok2 by (simp_all add: fold_ok_def reg_step_def)
        obtain res3 rg3 where three: "apply_event cd ?f rg2 = (res3, rg3)" by fastforce
        have r2: "r \<in> set (rows s2)" using r st2(2) by simp
        have wf2: "aggs_wf (rg_aggregators rg2)" using wf st2(3) by simp
        note eff3 = apply_event_effect [OF keys wf2 st2(4) inv_log_ok [OF st2(1)] r2 three]
        have ok3: "fold_ok cd r strict s rg rg3 s2"
          using ok2 apply_fold_ok [OF eff3(1) st2(1,5) r2] fold_ok_trans by blast
        have no_gap: "fo_gaps out3 = []" if three_ok: "res3 = Inr out3" for out3
        proof (rule ccontr)
          assume "fo_gaps out3 \<noteq> []"
          then obtain h where h: "h \<in> set (fo_gaps out3)" by (cases "fo_gaps out3") auto
          then obtain a where a: "a \<in> set (rg_aggregators rg2)" "ag_event_prefix a = re_event_type r"
            "gap_of cd r rg2 rg3 a h"
            using eff3(2) [OF three_ok] by blast
          then have low: "ver cd rg2 (fg_type h) (fg_id h) < unat (re_revision r)"
            by (auto simp: gap_of_def word_less_nat_alt)
          have "folded_past cd r rg1 a \<or> (\<exists>g \<in> set (fo_gaps out1). gap_of cd r rg rg1 a g)"
            using eff1(3) [OF Inr _ a(2)] a(1) st2(3) by simp
          then show False
          proof
            assume past: "folded_past cd r rg1 a"
            have "folded_past cd r rg2 a"
              using past eff2 folded_past_step a(1) wf ags1 st2(3) unfolding repair_ok_def by metis
            then show False using a(3) low by (auto simp: gap_of_def folded_past_def)
          next
            assume "\<exists>g \<in> set (fo_gaps out1). gap_of cd r rg rg1 a g"
            then obtain g where "g \<in> set (fo_gaps out1)" "gap_of cd r rg rg1 a g" by blast
            then show False using eff2 None low a(3) by (auto simp: gap_of_def)
          qed
        qed
        show ?thesis
        proof (cases res3)
          case (Inl e)
          then show ?thesis using rounds one Inr False two None three ok3 nc by (cases strict; auto)
        next
          case inr3: (Inr out3)
          have "folded_past cd r rg3 a" if "a \<in> set (rg_aggregators rg)" "ag_event_prefix a = re_event_type r" for a
            using eff3(3) [OF inr3 _ that(2)] that(1) st2(3) no_gap [OF inr3] by auto
          then show ?thesis
            using rounds one Inr False two None three ok3 inr3 no_gap [OF inr3] by (cases strict; auto)
        qed
      qed
    qed
  qed
  then show "fold_ok cd r strict s rg rg' s'" "res \<noteq> Inl NotConverged"
    "res = Inr out \<Longrightarrow> fo_gaps out = []"
    "res = Inr out \<Longrightarrow> a \<in> set (rg_aggregators rg) \<Longrightarrow> ag_event_prefix a = re_event_type r \<Longrightarrow>
       folded_past cd r rg' a"
    by blast+
qed

lemma snaps_ok_save:
  assumes "snaps_ok ags s" "snap_tracks ags (rows s) (sn_aggregate_type sn) (sn_aggregate_id sn) sn"
  shows "snaps_ok ags (snd (ss_save S sn s))"
  unfolding snaps_ok_def
proof (intro allI impI)
  fix ty i x assume "snap ty i (snd (ss_save S sn s)) = Some x"
  then have "snap ty i s = Some x \<or> x = sn \<and> sn_aggregate_type sn = ty \<and> sn_aggregate_id sn = i"
    using save_snap [of ty i sn s] by auto
  then show "snap_tracks ags (rows (snd (ss_save S sn s))) ty i x"
    using assms save_log(1) unfolding snaps_ok_def by auto
qed

lemma split_agg_key:
  assumes "CHR '':'' \<notin> set ty"
  shows "split_colon (agg_key cd ty i) = Some (ty, cd_uuid cd i)"
proof -
  have "dropWhile (\<lambda>c. c \<noteq> CHR '':'') (ty @ CHR '':'' # u) = CHR '':'' # u"
    "takeWhile (\<lambda>c. c \<noteq> CHR '':'') (ty @ CHR '':'' # u) = ty" for u
    using assms by (auto simp: dropWhile_append takeWhile_append)
  then show ?thesis by (simp add: split_colon_def before_colon_def agg_key_def)
qed

text \<open>Saving keeps both sides: the snapshot of a coherent entry is the fold up to its revision.\<close>

lemma save_one_effect:
  assumes cd: "keys_ok cd" "codec_ok cd" and wf: "aggs_wf (rg_aggregators rg)"
    and serde: "\<forall>a \<in> set (rg_aggregators rg). \<forall>st j. ag_serialize a st = Some j \<longrightarrow> ag_deserialize a j = Some st"
    and every: "0 < every" and ty: "CHR '':'' \<notin> set ty"
    and inv: "inv s" and co: "coherent cd (rows s) rg" and snaps: "snaps_ok (rg_aggregators rg) s"
    and eq: "save_one_snapshot cd S every now (agg_key cd ty i) (rg, s) = (rg', s')"
  shows "inv s' \<and> rows s' = rows s \<and> rg_aggregators rg' = rg_aggregators rg \<and>
         coherent cd (rows s) rg' \<and> snaps_ok (rg_aggregators rg) s'"
proof -
  have parse: "cd_parse_uuid cd (cd_uuid cd i) = Some i" using cd(2) by (simp add: codec_ok_def)
  let ?key = "agg_key cd ty i"
  show ?thesis
  proof (cases "(rg', s') = (rg, s)")
    case False
    let ?v = "get_version ?key rg"
    let ?since = "if ?v < get_snapshot_at_version ?key rg then 0 else ?v - get_snapshot_at_version ?key rg"
    note def = save_one_snapshot_def prod.case split_agg_key [OF ty] option.simps parse Let_def
    have due: "every \<le> ?since"
    proof (rule ccontr)
      assume "\<not> every \<le> ?since"
      then have "?since < every" by simp
      then show False using eq False unfolding def by simp
    qed
    obtain a where a: "find_first_by_aggregate_type ty (rg_aggregators rg) = Some a" "ag_subject a \<noteq> []"
      using eq False due unfolding def
      by (cases "find_first_by_aggregate_type ty (rg_aggregators rg)") (auto simp: not_less [symmetric] split: if_splits)
    obtain e where e1: "hget (rg_state rg) ?key = Some e"
      using eq False due a unfolding def
      by (cases "hget (rg_state rg) ?key") (auto simp: not_less [symmetric] split: if_splits)
    obtain j where e2: "ag_serialize a (se_state e) = Some j"
      using eq False due a e1 unfolding def
      by (cases "ag_serialize a (se_state e)") (auto simp: not_less [symmetric] split: if_splits)
    note e = e1 e2
    obtain ok s2 where save: "ss_save S \<lparr> sn_aggregate_type = ty, sn_aggregate_id = i,
          sn_revision = (if ?v = 0 then 0 else ?v - 1), sn_state = j, sn_created_at = now \<rparr> s = (ok, s2)"
      by fastforce
    have nlt: "\<not> ?since < every" using due by simp
    have out: "(ok, s') = ss_save S \<lparr> sn_aggregate_type = ty, sn_aggregate_id = i,
          sn_revision = (if ?v = 0 then 0 else ?v - 1), sn_state = j, sn_created_at = now \<rparr> s"
        "rg' = (if ok then update_snapshot_at_version ?key ?v rg else rg)"
      using eq unfolding def if_not_P [OF nlt] a(1) option.simps if_not_P [OF a(2)] e1 e2 save
      by (auto split: bool.splits)
    have b: "type_of (rg_aggregators rg) ty = Some a" "ag_aggregate_type a = ty" "a \<in> set (rg_aggregators rg)"
      using a find_first_in [OF a(1)] by (simp_all add: type_of_def)
    have v: "?v = se_version e" by (simp add: get_version_def e(1))
    have pos: "?v \<noteq> 0"
    proof
      assume "?v = 0"
      moreover have "?since = 0" if "?v = 0"
        using that by (cases "get_snapshot_at_version ?key rg = 0") (simp_all add: word_neq_0_conv)
      ultimately have "every \<le> 0" using due by simp
      then show False using every by simp
    qed
    have tr: "tracks (rg_aggregators rg) a (stream_rows (rows s) (ag_subject a, i)) e"
      using co b(1) e(1) by (simp add: coherent_def)
    let ?sn = "\<lparr> sn_aggregate_type = ty, sn_aggregate_id = i, sn_revision = ?v - 1, sn_state = j, sn_created_at = now \<rparr>"
    have rev: "Suc (unat (?v - 1)) = unat (se_version e)"
      using pos unfolding v by (simp add: unat_minus_one unat_gt_0)
    have des: "ag_deserialize a j = Some (se_state e)" using serde b(3) e(2) by blast
    have "unat (?v - 1) < length (stream_rows (rows s) (ag_subject a, i))"
      "fold_upto (rg_aggregators rg) a (stream_rows (rows s) (ag_subject a, i)) (Suc (unat (?v - 1))) =
         Some (se_state e)"
      using tr rev unfolding tracks_def by (linarith, simp only: rev)
    then have "snap_tracks (rg_aggregators rg) (rows s) ty i ?sn"
      unfolding snap_tracks_def b(1) by (simp add: des)
    then have "snaps_ok (rg_aggregators rg) (snd (ss_save S ?sn s))"
      by (intro snaps_ok_save [OF snaps]) (simp only: snapshot.select_convs)
    moreover have s': "s' = snd (ss_save S ?sn s)"
      using arg_cong [OF out(1), of snd] unfolding if_not_P [OF pos] snd_conv .
    moreover have ags: "rg_aggregators rg' = rg_aggregators rg" by (simp add: out(2) update_snapshot_at_version_def e(1))
    moreover have "coherent cd (rows s) rg'"
    proof (cases ok)
      case True
      have get: "hget (rg_state rg') (agg_key cd ty' i') =
          (if ty' = ty \<and> i' = i then Some (e\<lparr> se_snapshot_at := ?v \<rparr>)
           else hget (rg_state rg) (agg_key cd ty' i'))" for ty' i'
        using True agg_key_inj [OF cd(1)] by (auto simp: out(2) update_snapshot_at_version_def e(1))
      have "tracks (rg_aggregators rg) a (stream_rows (rows s) (ag_subject a, i)) (e\<lparr> se_snapshot_at := ?v \<rparr>)"
        using tr by (simp add: tracks_def)
      from coherent_put [OF cd(1) co b(1) this ags get] show ?thesis .
    qed (use out(2) co in simp)
    ultimately show ?thesis using inv save_log by metis
  qed (use inv co snaps in simp)
qed

lemma save_all_effect:
  assumes cd: "keys_ok cd" "codec_ok cd" and wf: "aggs_wf ags"
    and serde: "\<forall>a \<in> set ags. \<forall>st j. ag_serialize a st = Some j \<longrightarrow> ag_deserialize a j = Some st"
    and every: "0 < every"
  shows "rg_aggregators rg = ags \<Longrightarrow> inv s \<Longrightarrow> coherent cd (rows s) rg \<Longrightarrow> snaps_ok ags s \<Longrightarrow>
     \<forall>k \<in> set ks. \<exists>ty i. k = agg_key cd ty i \<and> CHR '':'' \<notin> set ty \<Longrightarrow>
     fold (save_one_snapshot cd S every now) ks (rg, s) = (rg', s') \<Longrightarrow>
     inv s' \<and> rows s' = rows s \<and> rg_aggregators rg' = ags \<and> coherent cd (rows s) rg' \<and> snaps_ok ags s'"
proof (induction ks arbitrary: rg s)
  case (Cons k ks)
  obtain ty i where k: "k = agg_key cd ty i" "CHR '':'' \<notin> set ty" using Cons.prems(5) by auto
  obtain rg1 s1 where one: "save_one_snapshot cd S every now k (rg, s) = (rg1, s1)" by fastforce
  have st: "inv s1 \<and> rows s1 = rows s \<and> rg_aggregators rg1 = ags \<and> coherent cd (rows s) rg1 \<and> snaps_ok ags s1"
    using save_one_effect [OF cd _ _ every k(2) Cons.prems(2,3) _ one [unfolded k(1)]] Cons.prems(1,4) wf serde
    by simp
  have "fold (save_one_snapshot cd S every now) ks (rg1, s1) = (rg', s')" using Cons.prems(6) one by simp
  from Cons.IH [OF _ _ _ _ _ this] st Cons.prems(5) show ?case by simp
qed simp

end

text \<open>Coherence survives the growth of the log.\<close>

lemma fold_upto_grows:
  "k \<le> length hist \<Longrightarrow> fold_upto ags a (hist @ new) k = fold_upto ags a hist k"
  by (simp add: fold_upto_def)

lemma coherent_grows: "coherent cd rows rg \<Longrightarrow> coherent cd (rows @ new) rg"
  unfolding coherent_def tracks_def by (auto simp: fold_upto_grows intro: trans_le_add1)

lemma snap_tracks_grows: "snap_tracks ags rows ty i sn \<Longrightarrow> snap_tracks ags (rows @ new) ty i sn"
  unfolding snap_tracks_def by (auto simp: fold_upto_grows trans_less_add1)

lemma coherent_remove:
  assumes "keys_ok cd" "coherent cd rows rg"
  shows "coherent cd rows (remove_state (agg_key cd ty i) rg)"
  using assms(2) unfolding coherent_def
  by (simp add: remove_state_def agg_key_inj [OF assms(1)] prev_key_neq [OF assms(1)] split: if_splits)

lemma coherent_new: "coherent cd rows (registry_new ags)"
  by (simp add: coherent_def registry_new_def)

interpretation mem_snap: snapshot_log memory_backend global_log log_inv log_room memory_snapshots load_snapshot
proof (unfold_locales, goal_cases)
  case 1 then show ?case by (simp add: memory_snapshots_def)
next
  case 2 then show ?case by (simp add: memory_snapshots_def delete_snapshot_def)
next
  case (3 s ty i)
  have "same_log s (ss_delete memory_snapshots ty i s)"
    by (simp add: memory_snapshots_def delete_snapshot_def same_log_def)
  then show ?case using same_log_inv 3 by blast
next
  case 4 then show ?case by (simp add: memory_snapshots_def delete_snapshot_def load_snapshot_def)
next
  case 5 then show ?case by (simp add: memory_snapshots_def save_snapshot_def)
next
  case (6 s sn)
  have "same_log s (snd (ss_save memory_snapshots sn s))"
    by (simp add: memory_snapshots_def save_snapshot_def same_log_def)
  then show ?case using same_log_inv 6 by blast
next
  case 7 then show ?case by (simp add: memory_snapshots_def save_snapshot_def load_snapshot_def)
qed

end
