(* ===== verification/Registry_Properties.thy ===== *)
theory Registry_Properties
  imports Registry_Laws
begin

text \<open>
  What the aggregator registry (\<open>aggregator.rs\<close>) promises, over every registry and snapshot store that
  can arise next to the in-memory log (\<open>registry_reach\<close>): folds, gap repair, restores, snapshots,
  restarts and evictions in any order, while the log grows.
\<close>

section \<open>Idempotence\<close>

text \<open>The two slots an aggregator's fold of a fact touches.\<close>

definition same_slots :: "codec \<Rightarrow> fold_fact \<Rightarrow> 'a aggregator \<Rightarrow> 'a registry \<Rightarrow> 'a registry \<Rightarrow> bool" where
  "same_slots cd f a rg rg' \<longleftrightarrow>
     (\<forall>i. ag_extract_id a (ff_payload f) = Some i \<longrightarrow>
        (let key = agg_key cd (ag_aggregate_type a) i in
         hget (rg_state rg') key = hget (rg_state rg) key \<and>
         hget (rg_state rg') (prev_key key) = hget (rg_state rg) (prev_key key)))"

lemma same_slots_refl [simp]: "same_slots cd f a rg rg"
  by (simp add: same_slots_def Let_def)

lemma same_slots_trans: "same_slots cd f a rg rg1 \<Longrightarrow> same_slots cd f a rg1 rg2 \<Longrightarrow> same_slots cd f a rg rg2"
  by (simp add: same_slots_def Let_def)

lemma prev_key_inj: "prev_key k = prev_key k' \<longleftrightarrow> k = k'"
  by (simp add: prev_key_def)

lemma apply_agg_other_slots:
  assumes "keys_ok cd" "ag_aggregate_type b \<noteq> ag_aggregate_type a"
    and eq: "apply_agg cd f b out rg = (res, rg')"
  shows "same_slots cd f a rg rg'"
  using eq
proof (cases rule: apply_agg_cases)
  case (fold i pre post snap ts)
  show ?thesis
    unfolding fold(7) same_slots_def stored_fold_def Let_def
    using assms(2) agg_key_inj [OF assms(1)] prev_key_neq [OF assms(1)]
    by (auto simp: prev_key_inj) metis+
qed simp_all

lemma gate_after_fold:
  assumes "rv \<noteq> - 1"
  shows "gate al (Some \<lparr> se_state = st, se_version = rv + 1, se_last_pos = pos, se_snapshot_at = sn \<rparr>) rv pos =
         SkipFold True"
proof -
  have "rv < rv + 1" using assms unat_inc [of rv] by (simp add: word_less_nat_alt)
  then show ?thesis by (auto simp: gate_def)
qed

text \<open>A second time, the body for one aggregator answers the same transition and changes nothing.\<close>

lemma apply_agg_again:
  assumes keys: "keys_ok cd" and room: "ff_revision f \<noteq> - 1"
    and eq: "apply_agg cd f a out rg = (Inr out1, rg1)" and gaps: "fo_gaps out1 = fo_gaps out"
    and same: "same_slots cd f a rg1 rg2"
  shows "apply_agg cd f a (out\<lparr> fo_applied := b \<rparr>) rg2 = (Inr (out1\<lparr> fo_applied := b \<rparr>), rg2)"
proof (cases "ag_extract_id a (ff_payload f)")
  case None
  then show ?thesis using eq by (simp add: apply_agg_def)
next
  case (Some i)
  let ?key = "agg_key cd (ag_aggregate_type a) i"
  have slots: "hget (rg_state rg2) ?key = hget (rg_state rg1) ?key"
    "hget (rg_state rg2) (prev_key ?key) = hget (rg_state rg1) (prev_key ?key)"
    using same Some by (simp_all add: same_slots_def Let_def)
  have own: "\<not> (ag_subject a \<noteq> [] \<and> (i \<noteq> ff_subject_id f \<or> ag_subject a \<noteq> ff_category f))"
    using eq unfolding apply_agg_def Some option.simps by (metis (no_types, lifting) Inl_Inr_False prod.inject)
  let ?g = "gate (ag_subject a \<noteq> []) (hget (rg_state rg) ?key) (ff_revision f) (ff_position f)"
  show ?thesis
  proof (cases ?g)
    case FoldNow
    let ?pre = "case hget (rg_state rg) ?key of Some e \<Rightarrow> se_state e | None \<Rightarrow> ag_default a"
    obtain post where post: "ag_apply a ?pre (ff_payload f) = Some post"
      using eq unfolding apply_agg_def Some option.simps if_not_P [OF own] Let_def FoldNow
      by (auto split: option.splits)
    let ?e = "\<lparr> se_state = post, se_version = ff_revision f + 1, se_last_pos = ff_position f,
                se_snapshot_at = (case hget (rg_state rg) ?key of Some e \<Rightarrow> se_snapshot_at e | None \<Rightarrow> 0) \<rparr>"
    have out: "out1 = out\<lparr> fo_applied := True, fo_snapshots := hput ?key (?pre, post) (fo_snapshots out) \<rparr>"
      "hget (rg_state rg1) ?key = Some ?e"
      "hget (rg_state rg1) (prev_key ?key) =
         Some \<lparr> se_state = ?pre, se_version = 0, se_last_pos = cursor_zero, se_snapshot_at = 0 \<rparr>"
      using eq prev_key_neq [OF keys]
      unfolding apply_agg_def Some option.simps if_not_P [OF own] Let_def FoldNow fold_gate.simps post
      by auto
    show ?thesis
      unfolding apply_agg_def Some option.simps if_not_P [OF own] Let_def slots out(2,3)
        gate_after_fold [OF room]
      by (simp add: out(1))
  next
    case (SkipFold exact)
    have st: "out1 = out\<lparr> fo_snapshots := hput ?key
        (if exact then (case hget (rg_state rg) (prev_key ?key) of Some e \<Rightarrow> se_state e
            | None \<Rightarrow> (case hget (rg_state rg) ?key of Some e \<Rightarrow> se_state e | None \<Rightarrow> ag_default a))
         else (case hget (rg_state rg) ?key of Some e \<Rightarrow> se_state e | None \<Rightarrow> ag_default a),
         case hget (rg_state rg) ?key of Some e \<Rightarrow> se_state e | None \<Rightarrow> ag_default a) (fo_snapshots out) \<rparr>"
      "rg1 = rg"
      using eq unfolding apply_agg_def Some option.simps if_not_P [OF own] Let_def SkipFold by auto
    show ?thesis
      unfolding apply_agg_def Some option.simps if_not_P [OF own] Let_def slots st(2) SkipFold
      by (simp add: st(1))
  next
    case (GapAt v)
    then show ?thesis
      using eq gaps unfolding apply_agg_def Some option.simps if_not_P [OF own] Let_def GapAt by auto
  qed
qed

lemma apply_agg_gaps_grow:
  "apply_agg cd f a out rg = (Inr out1, rg1) \<Longrightarrow> \<exists>gs. fo_gaps out1 = fo_gaps out @ gs"
  by (erule apply_agg_cases) auto

lemma apply_aggs_Cons_Inr:
  assumes "apply_aggs cd f (a # as) out rg = (Inr out1, rg1)"
  shows "\<exists>outm rgm. apply_agg cd f a out rg = (Inr outm, rgm) \<and> apply_aggs cd f as outm rgm = (Inr out1, rg1)"
proof (cases "apply_agg cd f a out rg")
  case (Pair res rgm)
  then show ?thesis using assms by (cases res) auto
qed

lemma apply_aggs_gaps_grow:
  "apply_aggs cd f as out rg = (Inr out1, rg1) \<Longrightarrow> \<exists>gs. fo_gaps out1 = fo_gaps out @ gs"
proof (induction as arbitrary: out rg)
  case (Cons a as)
  obtain outm rgm where one: "apply_agg cd f a out rg = (Inr outm, rgm)"
    and rest: "apply_aggs cd f as outm rgm = (Inr out1, rg1)"
    using apply_aggs_Cons_Inr [OF Cons.prems] by blast
  show ?case using apply_agg_gaps_grow [OF one] Cons.IH [OF rest] by auto
qed simp

lemma apply_aggs_other_slots:
  assumes "keys_ok cd" "\<forall>b \<in> set as. ag_aggregate_type b \<noteq> ag_aggregate_type a"
  shows "apply_aggs cd f as out rg = (res, rg') \<Longrightarrow> same_slots cd f a rg rg'"
  using assms(2)
proof (induction as arbitrary: out rg)
  case (Cons b as)
  obtain res1 rg1 where one: "apply_agg cd f b out rg = (res1, rg1)" by fastforce
  have first: "same_slots cd f a rg rg1" using apply_agg_other_slots [OF assms(1) _ one] Cons.prems(2) by simp
  show ?case
  proof (cases res1)
    case (Inl e)
    then show ?thesis using first one Cons.prems(1) by simp
  next
    case (Inr out1)
    then have rest: "apply_aggs cd f as out1 rg1 = (res, rg')" using one Cons.prems(1) by simp
    from Cons.IH [OF this] Cons.prems(2) show ?thesis using same_slots_trans [OF first] by simp
  qed
qed simp

lemma apply_aggs_again:
  assumes keys: "keys_ok cd" and room: "ff_revision f \<noteq> - 1"
  shows "distinct (map ag_aggregate_type as) \<Longrightarrow>
     apply_aggs cd f as out rg = (Inr out1, rg1) \<Longrightarrow> fo_gaps out1 = fo_gaps out \<Longrightarrow>
     \<forall>a \<in> set as. same_slots cd f a rg1 rg2 \<Longrightarrow>
     apply_aggs cd f as (out\<lparr> fo_applied := b \<rparr>) rg2 = (Inr (out1\<lparr> fo_applied := b \<rparr>), rg2)"
proof (induction as arbitrary: out rg)
  case (Cons a as)
  obtain outm rgm where one: "apply_agg cd f a out rg = (Inr outm, rgm)"
    and rest: "apply_aggs cd f as outm rgm = (Inr out1, rg1)"
    using apply_aggs_Cons_Inr [OF Cons.prems(2)] by blast
  obtain gs1 gs2 where gs: "fo_gaps outm = fo_gaps out @ gs1" "fo_gaps out1 = fo_gaps outm @ gs2"
    using apply_agg_gaps_grow [OF one] apply_aggs_gaps_grow [OF rest] by blast
  then have "gs1 = [] \<and> gs2 = []" using Cons.prems(3) by simp
  then have gaps: "fo_gaps outm = fo_gaps out" "fo_gaps out1 = fo_gaps outm" using gs by simp_all
  have "\<forall>b \<in> set as. ag_aggregate_type b \<noteq> ag_aggregate_type a" using Cons.prems(1) by (auto simp: image_iff)
  then have "same_slots cd f a rgm rg1" by (rule apply_aggs_other_slots [OF keys _ rest])
  then have "same_slots cd f a rgm rg2" by (rule same_slots_trans) (use Cons.prems(4) in simp)
  from apply_agg_again [OF keys room one gaps(1) this]
  have "apply_agg cd f a (out\<lparr> fo_applied := b \<rparr>) rg2 = (Inr (outm\<lparr> fo_applied := b \<rparr>), rg2)" .
  moreover have "apply_aggs cd f as (outm\<lparr> fo_applied := b \<rparr>) rg2 = (Inr (out1\<lparr> fo_applied := b \<rparr>), rg2)"
    using Cons.prems by (intro Cons.IH [OF _ rest gaps(2)]) auto
  ultimately show ?case by simp
qed simp

lemma matching_types_distinct:
  assumes "aggs_wf ags"
  shows "distinct (map ag_aggregate_type (find_by_durable_name k ags))"
proof -
  have "distinct (map (\<lambda>a. (ag_aggregate_type a, ag_event_prefix a)) ags)"
    using assms by (simp add: aggs_wf_def)
  then show ?thesis
    unfolding find_by_durable_name_def by (induction ags) (auto simp: image_iff)
qed

lemma apply_event_again:
  assumes "keys_ok cd" "aggs_wf (rg_aggregators rg)" "ff_revision f \<noteq> - 1"
    and eq: "apply_event cd f rg = (Inr out, rg')" "fo_gaps out = []" "rg_aggregators rg' = rg_aggregators rg"
  shows "apply_event cd f rg' = (Inr (out\<lparr> fo_applied := False \<rparr>), rg')"
  using apply_aggs_again [OF assms(1,3) matching_types_distinct [OF assms(2)] eq(1) [unfolded apply_event_def],
      of rg' False] eq(2,3)
  by (simp add: apply_event_def outcome_new_def)

lemma fold_rounds_last:
  "fold_rounds cd S B f strict n rg s = (Inr out, rg', s') \<Longrightarrow>
     \<exists>rg0. apply_event cd f rg0 = (Inr out, rg') \<and> fo_gaps out = []"
proof (induction n arbitrary: rg s)
  case (Suc n)
  then show ?case
    by (auto split: prod.splits sum.splits option.splits if_splits)
qed simp

section \<open>Reachable registries\<close>


text \<open>What is asked of the registration and the codec.\<close>

definition registration_ok :: "codec \<Rightarrow> 'a aggregator list \<Rightarrow> bool" where
  "registration_ok cd ags \<longleftrightarrow>
     keys_ok cd \<and> codec_ok cd \<and> aggs_wf ags \<and>
     (\<forall>a \<in> set ags. \<forall>st j. ag_serialize a st = Some j \<longrightarrow> ag_deserialize a j = Some st)"


lemma registry_new_aggs [simp]: "rg_aggregators (registry_new ags) = ags"
  by (simp add: registry_new_def)



section \<open>Properties\<close>



text \<open>Folding is idempotent. After a fold that succeeded, delivering the same event again, to any
  registry mode, answers the same transitions, reports that nothing was applied, and changes neither
  the registry nor the store.\<close>

lemma fold_event_idempotent:
  assumes "keys_ok cd" "aggs_wf (rg_aggregators rg)" "ff_revision f \<noteq> - 1"
    and "fold_event cd S B f strict rg s = (Inr out, rg', s')"
  shows "fold_event cd S' B' f strict' rg' s'' = (Inr (out\<lparr> fo_applied := False \<rparr>), rg', s'')"
proof -
  have "\<exists>rg0. apply_event cd f rg0 = (Inr out, rg') \<and> fo_gaps out = []"
    by (rule fold_rounds_last [OF assms(4) [unfolded fold_event_def]])
  then obtain rg0 where last: "apply_event cd f rg0 = (Inr out, rg')" "fo_gaps out = []" by blast
  have "rg_aggregators rg' = rg_aggregators rg0"
    using apply_event_aggs last(1) by blast
  then have "apply_event cd f rg' = (Inr (out\<lparr> fo_applied := False \<rparr>), rg')"
    using apply_event_again [OF assms(1) _ assms(3) last] assms(2) fold_event_aggs [OF assms(4)] by simp
  then show ?thesis using last(2) by (simp add: fold_event_def eval_nat_numeral)
qed

text \<open>An event whose payload does not decode is skipped by the live fold and fatal to the restore.
  An aggregator built by \<open>for_type\<close> answers no id for it, so \<open>apply_event\<close> passes it over without an
  error in every registry, while restoring the aggregate from the same log fails for good: live fold
  and replay do not agree that a bad payload is fatal.\<close>

lemma undecodable_event_live_and_restore:
  assumes "a = for_type A F apply" "aty_subject A \<noteq> []"
    and "log_inv s" "r \<in> set (global_log s)" "re_event_type r = ety_name F" "re_category r = aty_subject A"
    and "ety_from_value F (re_payload r) = None"
  shows "(\<forall>rg. rg_aggregators rg = [a] \<longrightarrow> apply_event cd (fact_of_row r) rg = (Inr outcome_new, rg)) \<and>
         restore_aggregate cd None memory_backend (aty_name A) (aty_subject A) (re_subject_id r)
           (registry_new [a]) s =
           (Inl (ReplayFailed (agg_key cd (aty_name A) (re_subject_id r))), registry_new [a], s)"
proof -
  have sel: "ag_event_prefix a = ety_name F" "ag_aggregate_type a = aty_name A" "ag_subject a = aty_subject A"
    "ag_extract_id a (re_payload r) = None" "\<And>st. ag_apply a st (re_payload r) = None"
    using assms(1,7) by (simp_all add: for_type_def for_type_with_id_fn_def)
  have live: "apply_event cd (fact_of_row r) rg = (Inr outcome_new, rg)" if "rg_aggregators rg = [a]" for rg
    using that sel assms(5) by (simp add: apply_event_def find_by_durable_name_def apply_agg_def)
  let ?hist = "stream_rows (global_log s) (aty_subject A, re_subject_id r)"
  have "r \<in> set ?hist" using assms(4,6) by (simp add: stream_rows_def)
  moreover have "replay_events_onto (aty_name A) [a] (event_pairs es) st = None" if "r \<in> set es" for es st
    using that
  proof (induction es arbitrary: st)
    case (Cons e es)
    then show ?case
      using sel assms(5) by (cases "e = r") (auto simp: event_pairs_def split: option.split)
  qed simp
  ultimately have "replay_events_onto (aty_name A) [a] (event_pairs ?hist) (ag_default a) = None" by blast
  then show ?thesis
    using live assms(2) mem_log.read_whole [OF assms(3)] sel
    by (simp add: restore_aggregate_def Let_def restore_seed_def registry_new_def
        find_first_by_aggregate_type_def)
qed

text \<open>An aggregate whose \<open>NAME\<close> has a colon is never shown to the observer and never snapshotted.
  Both functions take the part of the key before the first colon for the aggregate's name; unless
  that part happens to name another aggregate they skip the entry without an error.\<close>

theorem colon_named_aggregate_unseen:
  assumes "CHR '':'' \<notin> set p" "find_first_by_aggregate_type p (rg_aggregators rg) = None"
  shows "notify_observer rg ((agg_key cd (p @ '':'' @ q) i, t) # snaps) = notify_observer rg snaps \<and>
         save_one_snapshot cd S every now (agg_key cd (p @ '':'' @ q) i) (rg, s) = (rg, s)"
proof -
  have key: "agg_key cd (p @ '':'' @ q) i = p @ CHR '':'' # (q @ '':'' @ cd_uuid cd i)"
    by (simp add: agg_key_def)
  have split: "takeWhile (\<lambda>c. c \<noteq> CHR '':'') (p @ CHR '':'' # w) = p"
    "dropWhile (\<lambda>c. c \<noteq> CHR '':'') (p @ CHR '':'' # w) = CHR '':'' # w" for w
    using assms(1) by (auto simp: takeWhile_append dropWhile_append)
  show ?thesis
    unfolding key
    using assms(2)
    by (simp add: notify_observer_def before_colon_def split map_filter_simps save_one_snapshot_def
        split_colon_def Let_def split: option.split)
qed

section \<open>Instances\<close>

definition order_count :: "nat aggregate_type" where
  "order_count =
     \<lparr> aty_name = ''OrderCount'', aty_subject = ''order'', aty_invariant = False, aty_default = 0,
       aty_to_value = (\<lambda>n. Some (JString (replicate n CHR ''i''))),
       aty_from_value = (\<lambda>v. case v of JString x \<Rightarrow> Some (length x) | _ \<Rightarrow> None) \<rparr>"

definition order_placed :: "uuid event_type_def" where
  "order_placed =
     \<lparr> ety_name = ''order_placed'', ety_subject = ''order'', ety_subject_id = id,
       ety_from_value = (\<lambda>v. case v of JString _ \<Rightarrow> None | _ \<Rightarrow> Some 9) \<rparr>"

definition count_agg :: "nat aggregator" where
  "count_agg = for_type order_count order_placed (\<lambda>n _. Suc n)"

lemma count_agg_sel [simp]:
  "ag_event_prefix count_agg = ''order_placed''" "ag_aggregate_type count_agg = ''OrderCount''"
  "ag_subject count_agg = ''order''" "ag_default count_agg = 0"
  "ag_extract_id count_agg v = (case v of JString _ \<Rightarrow> None | _ \<Rightarrow> Some 9)"
  "ag_apply count_agg n v = (case v of JString _ \<Rightarrow> None | _ \<Rightarrow> Some (Suc n))"
  by (auto simp: count_agg_def for_type_def for_type_with_id_fn_def order_count_def order_placed_def
      split: json.split)

lemma sample_registration: "registration_ok sample_codec [count_agg]"
proof -
  have "inj (cd_uuid sample_codec)"
    by (auto simp: sample_codec_def inj_def word_unat_eq_iff dest: arg_cong [of _ _ length])
  moreover have "CHR '':'' \<notin> set (cd_uuid sample_codec i) \<and> cd_uuid sample_codec i \<noteq> ''prev''" for i
  proof
    show "CHR '':'' \<notin> set (cd_uuid sample_codec i)" by (simp add: sample_codec_def)
    show "cd_uuid sample_codec i \<noteq> ''prev''"
    proof
      assume "cd_uuid sample_codec i = ''prev''"
      then have "CHR ''p'' \<in> set (cd_uuid sample_codec i)" by simp
      then show False by (simp add: sample_codec_def)
    qed
  qed
  ultimately show ?thesis
    using sample_codec_ok
    by (simp add: registration_ok_def keys_ok_def aggs_wf_def)
      (simp add: count_agg_def for_type_def for_type_with_id_fn_def order_count_def)
qed



abbreviation second_row :: recorded_event where
  "second_row \<equiv> placed_row ''order'' 9 2 1 (sample_event 2 (JBool True))"

text \<open>A cold registry is handed the second event: the gap is repaired, both events are folded.\<close>

lemma cold_gap:
  "apply_event sample_codec (fact_of_row second_row) (registry_new [count_agg]) =
     (Inr (outcome_new\<lparr> fo_gaps := [\<lparr> fg_type = ''OrderCount'', fg_subject = ''order'', fg_id = 9,
                                     fg_expected = 0 \<rparr>] \<rparr>), registry_new [count_agg])"
  by (simp add: apply_event_def find_by_durable_name_def registry_new_def apply_agg_def placed_row_def
      sample_event_def Let_def gate_def outcome_new_def)

abbreviation order_key :: string where "order_key \<equiv> agg_key sample_codec ''OrderCount'' 9"

definition count_entry :: "nat \<Rightarrow> u64 \<Rightarrow> log_cursor \<Rightarrow> nat state_entry" where
  "count_entry n v p = \<lparr> se_state = n, se_version = v, se_last_pos = p, se_snapshot_at = 0 \<rparr>"

lemma cold_repair:
  "repair_gaps sample_codec None memory_backend (Some 1)
     [\<lparr> fg_type = ''OrderCount'', fg_subject = ''order'', fg_id = 9, fg_expected = 0 \<rparr>]
     (registry_new [count_agg]) sample_store =
   (None, \<lparr> rg_aggregators = [count_agg],
            rg_state = [(order_key, count_entry 1 1 1), (prev_key order_key, count_entry 0 0 0)] \<rparr>, sample_store)"
  by (simp add: repair_gap_def repair_range_def seed_vacant_def Let_def registry_new_def
      find_first_by_aggregate_type_def set_state_def memory_backend_def read_stream_def sample_store_eq
      memory_store_new_def placed_row_def sample_event_def apply_event_def find_by_durable_name_def
      apply_agg_def gate_def advance_watermark_def outcome_new_def count_entry_def prev_key_def cursor_zero_def)

lemma warm_fold:
  "apply_event sample_codec (fact_of_row second_row)
     \<lparr> rg_aggregators = [count_agg],
       rg_state = [(order_key, count_entry 1 1 1), (prev_key order_key, count_entry 0 0 0)] \<rparr> =
   (Inr (outcome_new\<lparr> fo_applied := True, fo_snapshots := [(order_key, (1, 2))] \<rparr>),
    \<lparr> rg_aggregators = [count_agg],
      rg_state = [(order_key, count_entry 2 2 2), (prev_key order_key, count_entry 1 0 0)] \<rparr>)"
  by (simp add: apply_event_def find_by_durable_name_def apply_agg_def placed_row_def
      sample_event_def Let_def gate_def outcome_new_def count_entry_def prev_key_def cursor_zero_def)

definition warm_registry :: "nat registry" where
  "warm_registry = \<lparr> rg_aggregators = [count_agg],
     rg_state = [(order_key, count_entry 2 2 2), (prev_key order_key, count_entry 1 0 0)] \<rparr>"

lemma cold_fold:
  "fold_event sample_codec None memory_backend (fact_of_row second_row) True (registry_new [count_agg])
     sample_store =
   (Inr (outcome_new\<lparr> fo_applied := True, fo_snapshots := [(order_key, (1, 2))] \<rparr>), warm_registry, sample_store)"
proof -
  have n: "(8 :: nat) = Suc (Suc 6)" by simp
  have rv: "ff_revision (fact_of_row second_row) = 1" by (simp add: placed_row_def)
  show ?thesis
    unfolding fold_event_def n fold_rounds.simps cold_gap prod.case sum.case rv if_True
    by (simp only: fold_outcome.simps list.distinct if_False cold_repair prod.case option.case warm_fold
        sum.case outcome_new_def simp_thms if_True warm_registry_def)
qed




lemma fold_event_idempotent_witness:
  "fold_event sample_codec None memory_backend (fact_of_row second_row) False warm_registry sample_store =
     (Inr (outcome_new\<lparr> fo_snapshots := [(order_key, (1, 2))] \<rparr>), warm_registry, sample_store)"
proof -
  have "keys_ok sample_codec" "aggs_wf (rg_aggregators (registry_new [count_agg]))"
    using sample_registration by (simp_all add: registration_ok_def)
  moreover have "ff_revision (fact_of_row second_row) \<noteq> - 1" by (simp add: placed_row_def)
  ultimately show ?thesis
    using fold_event_idempotent [OF _ _ _ cold_fold] by (simp add: outcome_new_def)
qed

definition bad_store :: memory_store where
  "bad_store = snd (append_to_stream ''order'' 9 NoStream [sample_event 1 (JString ''?'')] memory_store_new)"

lemma undecodable_event_live_and_restore_witness:
  "fst (restore_aggregate sample_codec None memory_backend ''OrderCount'' ''order'' 9
          (registry_new [count_agg]) bad_store) = Inl (ReplayFailed order_key)"
proof -
  have inv: "log_inv bad_store"
    unfolding bad_store_def by (intro append_inv log_inv_new) (simp add: log_room_def memory_store_new_def)
  have row: "placed_row ''order'' 9 1 0 (sample_event 1 (JString ''?'')) \<in> set (global_log bad_store)"
    by (simp add: bad_store_def append_eval)
  show ?thesis
    using undecodable_event_live_and_restore [OF count_agg_def _ inv row, of sample_codec]
    by (simp add: order_count_def order_placed_def placed_row_def sample_event_def)
qed

theorem colon_named_aggregate_unseen_witness:
  "notify_observer (registry_new [count_agg\<lparr> ag_aggregate_type := ''shop:OrderCount'' \<rparr>])
     [(agg_key sample_codec ''shop:OrderCount'' 9, (1, 2))] = []"
proof -
  let ?rg = "registry_new [count_agg\<lparr> ag_aggregate_type := ''shop:OrderCount'' \<rparr>]"
  have first: "find_first_by_aggregate_type ''shop'' (rg_aggregators ?rg) = None"
    by (simp add: find_first_by_aggregate_type_def)
  have "notify_observer ?rg ((agg_key sample_codec (''shop'' @ '':'' @ ''OrderCount'') 9, (1, 2)) # []) =
      notify_observer ?rg []"
    by (rule colon_named_aggregate_unseen [OF _ first, THEN conjunct1]) simp
  also have "notify_observer ?rg [] = []" by (simp only: notify_observer_def map_filter_simps)
  finally show ?thesis by simp
qed

end
