(* ===== verification/Settle_Tracker.thy ===== *)
theory Settle_Tracker
  imports Event_Types
begin

text \<open>
  The per-workflow high-water mark of \<open>Engine::settle\<close> (\<open>SettleTracker\<close> in
  \<open>modules/causal/src/engine.rs\<close>). Which unpinned workflow is evicted at the cap depends on the order
  of a \<open>HashMap\<close>'s keys: the function \<open>order\<close> from the keys to that order is a parameter.
\<close>

record settle_tracker =
  tk_hw :: "(uuid, log_cursor) hmap"
  tk_pinned :: "uuid list"

definition settle_tracker_cap :: nat where
  "settle_tracker_cap = 65536"

definition settle_tracker_new :: settle_tracker where
  "settle_tracker_new = \<lparr> tk_hw = [], tk_pinned = [] \<rparr>"

definition evict :: "(uuid list \<Rightarrow> uuid list) \<Rightarrow> settle_tracker \<Rightarrow> settle_tracker" where
  "evict order t =
     (if length (tk_hw t) < settle_tracker_cap then t
      else case find (\<lambda>k. k \<notin> set (tk_pinned t)) (order (map fst (tk_hw t))) of
        None \<Rightarrow> t
      | Some victim \<Rightarrow> t\<lparr> tk_hw := hdel victim (tk_hw t) \<rparr>)"

definition bump :: "(uuid list \<Rightarrow> uuid list) \<Rightarrow> uuid \<Rightarrow> log_cursor \<Rightarrow> settle_tracker \<Rightarrow> settle_tracker" where
  "bump order w pos t =
     (case hget (tk_hw t) w of
        Some cur \<Rightarrow> if cur < pos then t\<lparr> tk_hw := hput w pos (tk_hw t) \<rparr> else t
      | None \<Rightarrow> (let t1 = evict order t in t1\<lparr> tk_hw := hput w pos (tk_hw t1) \<rparr>))"

definition tracker_get :: "uuid \<Rightarrow> settle_tracker \<Rightarrow> log_cursor option" where
  "tracker_get w t = hget (tk_hw t) w"

definition forget :: "uuid \<Rightarrow> settle_tracker \<Rightarrow> settle_tracker" where
  "forget w t = t\<lparr> tk_hw := hdel w (tk_hw t) \<rparr>"

definition pin :: "uuid \<Rightarrow> settle_tracker \<Rightarrow> settle_tracker" where
  "pin w t = t\<lparr> tk_pinned := List.insert w (tk_pinned t) \<rparr>"

definition unpin :: "uuid \<Rightarrow> settle_tracker \<Rightarrow> settle_tracker" where
  "unpin w t = t\<lparr> tk_pinned := removeAll w (tk_pinned t) \<rparr>"

lemma find_Some_in: "find P xs = Some x \<Longrightarrow> x \<in> set xs \<and> P x"
  by (induction xs) (auto split: if_splits)

lemma evict_pinned [simp]: "tk_pinned (evict order t) = tk_pinned t"
  by (simp add: evict_def split: option.split)

lemma evict_get:
  "hget (tk_hw (evict order t)) w = hget (tk_hw t) w \<or>
   hget (tk_hw (evict order t)) w = None \<and> w \<notin> set (tk_pinned t)"
  by (auto simp: evict_def dest: find_Some_in split: option.split)

lemma bump_pinned [simp]: "tk_pinned (bump order w pos t) = tk_pinned t"
  by (simp add: bump_def Let_def split: option.split)

lemma bump_same: "tracker_get w (bump order w pos t) =
    Some (case tracker_get w t of None \<Rightarrow> pos | Some cur \<Rightarrow> max cur pos)"
  by (auto simp: bump_def tracker_get_def Let_def max_def not_less split: option.split)

lemma bump_other:
  assumes "w \<noteq> w'"
  shows "tracker_get w' (bump order w pos t) = tracker_get w' t \<or>
         tracker_get w' (bump order w pos t) = None \<and> w' \<notin> set (tk_pinned t)"
  using evict_get [of order t w'] assms
  by (auto simp: bump_def tracker_get_def Let_def split: option.split)

section \<open>Any interleaving of callers\<close>

datatype tracker_op = Bump uuid log_cursor | Forget uuid | Pin uuid | Unpin uuid

fun tracker_step :: "(uuid list \<Rightarrow> uuid list) \<Rightarrow> tracker_op \<Rightarrow> settle_tracker \<Rightarrow> settle_tracker" where
  "tracker_step order (Bump w pos) t = bump order w pos t"
| "tracker_step order (Forget w) t = forget w t"
| "tracker_step order (Pin w) t = pin w t"
| "tracker_step order (Unpin w) t = unpin w t"

text \<open>The largest of the positions bumped for one workflow, from a given mark.\<close>

fun bumped_max :: "uuid \<Rightarrow> tracker_op list \<Rightarrow> log_cursor option \<Rightarrow> log_cursor option" where
  "bumped_max w [] acc = acc"
| "bumped_max w (Bump w' pos # ops) acc =
     bumped_max w ops (if w' = w then Some (case acc of None \<Rightarrow> pos | Some cur \<Rightarrow> max cur pos) else acc)"
| "bumped_max w (_ # ops) acc = bumped_max w ops acc"

lemma tracker_step_pinned:
  "w \<in> set (tk_pinned t) \<Longrightarrow> op \<noteq> Unpin w \<Longrightarrow> w \<in> set (tk_pinned (tracker_step order op t))"
  by (cases op) (auto simp: forget_def pin_def unpin_def)

text \<open>The mark \<open>settle\<close> waits for is never lost: while a workflow is pinned and not forgotten, after
  any operations of any callers, the cap's evictions included, its high-water mark is the largest
  position bumped for it, starting from the mark it had.\<close>

lemma pinned_mark_is_max:
  assumes "w \<in> set (tk_pinned t)" "Unpin w \<notin> set ops" "Forget w \<notin> set ops"
  shows "tracker_get w (fold (tracker_step order) ops t) = bumped_max w ops (tracker_get w t)"
  using assms
proof (induction ops arbitrary: t)
  case (Cons op ops)
  have pinned: "w \<in> set (tk_pinned (tracker_step order op t))"
    using tracker_step_pinned Cons.prems(1,2) by auto
  have "bumped_max w (op # ops) (tracker_get w t) = bumped_max w ops (tracker_get w (tracker_step order op t))"
  proof (cases op)
    case (Bump w' pos)
    then show ?thesis using bump_same bump_other [of w' w order pos t] Cons.prems(1) by auto
  qed (use Cons.prems in \<open>auto simp: forget_def pin_def unpin_def tracker_get_def\<close>)
  then show ?case using Cons.IH [OF pinned] Cons.prems by simp
qed simp

lemma bumped_max_bounds:
  "bumped_max w ops acc = Some hw \<Longrightarrow>
     (\<forall>p. acc = Some p \<longrightarrow> p \<le> hw) \<and> (\<forall>q. Bump w q \<in> set ops \<longrightarrow> q \<le> hw)"
proof (induction w ops acc rule: bumped_max.induct)
  case (2 w w' pos ops acc)
  then show ?case by (cases "w' = w"; cases acc) auto
qed auto

end
