(* ===== verification/Reactor_Exec.thy ===== *)
theory Reactor_Exec
  imports Aggregate_Registry Settle_Tracker Failure Effect_Store
begin

text \<open>
  What a worker of the reactor runner does with the trigger in its hand
  (\<open>modules/causal/src/reactor_runner.rs\<close>): \<open>process_trigger\<close>, \<open>attempt_trigger\<close>, \<open>replay_decision\<close>,
  \<open>append_decision\<close>, \<open>append_outputs_once\<close> and \<open>park_terminal_failure\<close>, over the explicit state
  \<open>world\<close> of everything they read and write.

  Every call of a store or of the log takes its fate from the list \<open>w_io\<close>: it works, it fails before
  or after its effect, and \<open>None\<close> is the infrastructure error the code propagates with \<open>?\<close>. An empty
  list means that all further calls work. The body of the reactor is the function \<open>xc_react\<close> of the
  run's number, the event, the decoded trigger and the stores it can read, so that two runs on the
  same trigger may differ. The wording of the runner's own error messages is a parameter, and
  the text of an infrastructure error is left out of the stall report. What a body does outside the
  effect memo is not part of the state.
\<close>

section \<open>Outputs of a body\<close>

record event_output =
  eo_durable_name :: string
  eo_subject :: string
  eo_subject_id :: uuid
  eo_workflow :: "uuid option"
  eo_payload :: json

datatype body_outcome =
    BodyOk "event_output list"
  | BodyErr error_chain
  | BodyPanic string
  | BodyTimeout

record reaction =
  rx_outcome :: body_outcome
  rx_fence_consulted :: bool
  rx_effect_labels :: "string list"
  rx_logs :: "log_entry list"
  rx_effects :: effect_store

datatype attempt_message =
    TriggerUndecodable
  | BodyPanicked string
  | AttemptTimeout
  | OccOutput string
  | DepthExceeded u64

section \<open>Configuration and state\<close>

record terminal_failure =
  tf_consumer :: string
  tf_trigger_id :: uuid
  tf_trigger_event_type :: string
  tf_subject :: string
  tf_subject_id :: uuid
  tf_class :: failure_class
  tf_error :: string
  tf_attempts :: u32
  tf_workflow_id :: uuid

text \<open>The fact a mapper answers, as \<open>ErasedFact\<close> shows it; its \<open>to_value\<close> may fail.\<close>

record mapped_fact =
  mf_name :: string
  mf_subject :: string
  mf_subject_id :: uuid
  mf_workflow :: "uuid option"
  mf_value :: "json option"

record ('t, 'a) exec_config =
  xc_consumer :: string
  xc_v5 :: "uuid \<Rightarrow> string \<Rightarrow> uuid"
  xc_codec :: codec
  xc_log :: "memory_store backend"
  xc_decision_store :: bool
  xc_seal_empty :: bool
  xc_observer :: bool
  xc_max_in_flight :: bool
  xc_policy :: retry_policy
  xc_ceiling :: "u32 option"
  xc_occ :: "string list"
  xc_mapper :: "(terminal_failure \<Rightarrow> mapped_fact option) option"
  xc_snapshots :: bool
  xc_snapshot_every :: u64
  xc_clock :: "nat \<Rightarrow> datetime"
  xc_instant :: "nat \<Rightarrow> nat"
  xc_key_order :: "uuid list \<Rightarrow> uuid list"
  xc_render :: "recorded_event \<Rightarrow> attempt_message \<Rightarrow> string"
  xc_decode :: "json \<Rightarrow> 't option"
  xc_describe :: "'t \<Rightarrow> json option"
  xc_react :: "nat \<Rightarrow> recorded_event \<Rightarrow> 't \<Rightarrow> memory_store \<Rightarrow> effect_store \<Rightarrow> reaction"

datatype io_fate = IoOk | IoFailBefore | IoFailAfter

record 'a world =
  w_store :: memory_store
  w_decisions :: decision_store
  w_effects :: effect_store
  w_registry :: "'a registry option"
  w_settle :: "settle_tracker option"
  w_stall_failures :: u32
  w_stall_error :: "string option"
  w_io :: "io_fate list"
  w_stops :: "bool list"
  w_ticks :: nat
  w_runs :: nat
  w_parked :: "uuid list"

text \<open>\<open>w_runs\<close> counts the runs of the body, \<open>w_parked\<close> lists the terminal failures shown to the
  observer: history variables.\<close>

definition io_call :: "('a world \<Rightarrow> 'x \<times> 'a world) \<Rightarrow> 'a world \<Rightarrow> 'x option \<times> 'a world" where
  "io_call call w =
     (case w_io w of
        [] \<Rightarrow> (case call w of (x, w') \<Rightarrow> (Some x, w'))
      | IoOk # fs \<Rightarrow> (case call (w\<lparr> w_io := fs \<rparr>) of (x, w') \<Rightarrow> (Some x, w'))
      | IoFailBefore # fs \<Rightarrow> (None, w\<lparr> w_io := fs \<rparr>)
      | IoFailAfter # fs \<Rightarrow> (None, snd (call (w\<lparr> w_io := fs \<rparr>))))"

definition clock_now :: "('t, 'a) exec_config \<Rightarrow> 'a world \<Rightarrow> datetime \<times> 'a world" where
  "clock_now cfg w = (xc_clock cfg (w_ticks w), w\<lparr> w_ticks := Suc (w_ticks w) \<rparr>)"

definition instant_now :: "('t, 'a) exec_config \<Rightarrow> 'a world \<Rightarrow> nat \<times> 'a world" where
  "instant_now cfg w = (xc_instant cfg (w_ticks w), w\<lparr> w_ticks := Suc (w_ticks w) \<rparr>)"

definition stop_poll :: "'a world \<Rightarrow> bool \<times> 'a world" where
  "stop_poll w = (case w_stops w of [] \<Rightarrow> (False, w) | b # bs \<Rightarrow> (b, w\<lparr> w_stops := bs \<rparr>))"

abbreviation on_store :: "(memory_store \<Rightarrow> memory_store) \<Rightarrow> 'a world \<Rightarrow> 'a world" where
  "on_store f w \<equiv> w\<lparr> w_store := f (w_store w) \<rparr>"

definition observe ::
  "('t, 'a) exec_config \<Rightarrow> (memory_store \<Rightarrow> memory_store) \<Rightarrow> 'a world \<Rightarrow> 'a world" where
  "observe cfg f w = (if xc_observer cfg then on_store f w else w)"

section \<open>Store calls\<close>

definition io_get :: "('t, 'a) exec_config \<Rightarrow> uuid \<Rightarrow> 'a world \<Rightarrow> decision_record option option \<times> 'a world" where
  "io_get cfg trigger w =
     (case io_call (\<lambda>w. (get_decision (xc_codec cfg) (xc_consumer cfg) trigger (w_decisions w), w)) w of
        (Some (Some r), w') \<Rightarrow> (Some r, w') | (_, w') \<Rightarrow> (None, w'))"

definition io_seal :: "('t, 'a) exec_config \<Rightarrow> decision_record \<Rightarrow> 'a world \<Rightarrow> decision_record option \<times> 'a world" where
  "io_seal cfg r w =
     (case io_call (\<lambda>w. case seal (xc_codec cfg) r (w_decisions w) of (x, m) \<Rightarrow> (x, w\<lparr> w_decisions := m \<rparr>)) w of
        (Some (Some r'), w') \<Rightarrow> (Some r', w') | (_, w') \<Rightarrow> (None, w'))"

definition io_remove :: "decision_record \<Rightarrow> 'a world \<Rightarrow> unit option \<times> 'a world" where
  "io_remove r w =
     io_call (\<lambda>w. ((), w\<lparr> w_decisions := remove_decision (dr_consumer r) (dr_trigger r) (w_decisions w) \<rparr>)) w"

definition io_record_attempt :: "('t, 'a) exec_config \<Rightarrow> uuid \<Rightarrow> 'a world \<Rightarrow> u32 option \<times> 'a world" where
  "io_record_attempt cfg trigger w =
     io_call (\<lambda>w. case record_reactor_attempt (xc_consumer cfg) trigger (w_store w) of
                    (n, s) \<Rightarrow> (n, w\<lparr> w_store := s \<rparr>)) w"

definition io_clear_attempts :: "('t, 'a) exec_config \<Rightarrow> uuid \<Rightarrow> 'a world \<Rightarrow> unit option \<times> 'a world" where
  "io_clear_attempts cfg trigger w =
     io_call (\<lambda>w. ((), on_store (clear_reactor_attempts (xc_consumer cfg) trigger) w)) w"

definition io_append ::
  "('t, 'a) exec_config \<Rightarrow> string \<Rightarrow> uuid \<Rightarrow> event_data \<Rightarrow> 'a world \<Rightarrow>
   (append_error + write_result) option \<times> 'a world" where
  "io_append cfg category subject_id out w =
     io_call (\<lambda>w. case b_append (xc_log cfg) category subject_id AnyState [out] (w_store w) of
                    (x, s) \<Rightarrow> (x, w\<lparr> w_store := s \<rparr>)) w"

section \<open>Appending a decision\<close>

record output_divergence =
  od_index :: nat
  od_diff :: divergence
  od_canonical :: "recorded_event option"

text \<open>The best-effort fold of an appended output into the engine's registry, with its snapshots.\<close>

definition warm_registry_with ::
  "('t, 'a) exec_config \<Rightarrow> event_data \<Rightarrow> string \<Rightarrow> uuid \<Rightarrow> write_result \<Rightarrow> 'a world \<Rightarrow> 'a world" where
  "warm_registry_with cfg out category subject_id wr w =
     (case w_registry w of
        None \<Rightarrow> w
      | Some rg \<Rightarrow>
          let S = (if xc_snapshots cfg then Some memory_snapshots else None);
              f = \<lparr> ff_type = ed_event_type out, ff_payload = ed_payload out, ff_subject_id = subject_id,
                    ff_category = category, ff_revision = wr_revision wr, ff_position = wr_position wr \<rparr>
          in (case fold_event (xc_codec cfg) S (xc_log cfg) f False rg (w_store w) of
                (Inl err, rg1, s1) \<Rightarrow> w\<lparr> w_registry := Some rg1, w_store := s1 \<rparr>
              | (Inr outcome, rg1, s1) \<Rightarrow>
                  if fo_applied outcome \<and> xc_snapshots cfg
                  then (case clock_now cfg w of
                          (now, w1) \<Rightarrow>
                            (case maybe_save_snapshots (xc_codec cfg) memory_snapshots (xc_snapshot_every cfg)
                                    now (fo_snapshots outcome) (rg1, s1) of
                               (rg2, s2) \<Rightarrow> w1\<lparr> w_registry := Some rg2, w_store := s2 \<rparr>))
                  else w\<lparr> w_registry := Some rg1, w_store := s1 \<rparr>))"

definition bump_settle :: "('t, 'a) exec_config \<Rightarrow> uuid \<Rightarrow> log_cursor \<Rightarrow> 'a world \<Rightarrow> 'a world" where
  "bump_settle cfg wfl pos w =
     w\<lparr> w_settle := map_option (bump (xc_key_order cfg) wfl pos) (w_settle w) \<rparr>"

fun append_outputs_once ::
  "('t, 'a) exec_config \<Rightarrow> recorded_event \<Rightarrow> nat \<Rightarrow> event_data list \<Rightarrow> 'a world \<Rightarrow>
   output_divergence option option \<times> 'a world" where
  "append_outputs_once cfg e index [] w = (Some None, w)"
| "append_outputs_once cfg e index (out # outs) w =
     (let category = (case ed_category out of Some c \<Rightarrow> c | None \<Rightarrow> ed_event_type out);
          subject_id = (case ed_subject_id out of Some i \<Rightarrow> i | None \<Rightarrow> re_workflow_id e)
      in case io_append cfg category subject_id out w of
           (Some (Inr wr), w1) \<Rightarrow>
             append_outputs_once cfg e (Suc index) outs
               (warm_registry_with cfg out category subject_id wr
                 (bump_settle cfg (ed_workflow_id out) (wr_position wr) w1))
         | (Some (Inl (DivergentRedelivery _ diff canonical)), w1) \<Rightarrow>
             (Some (Some \<lparr> od_index = index, od_diff = diff, od_canonical = canonical \<rparr>), w1)
         | (_, w1) \<Rightarrow> (None, w1))"

text \<open>The bounded loop of \<open>append_decision\<close>; running out of passes is its \<open>bail!\<close>.\<close>

fun append_passes ::
  "('t, 'a) exec_config \<Rightarrow> recorded_event \<Rightarrow> nat \<Rightarrow> bool \<Rightarrow> decision_record \<Rightarrow> 'a world \<Rightarrow>
   decision_record option \<times> 'a world" where
  "append_passes cfg e 0 reported r w = (None, w)"
| "append_passes cfg e (Suc n) reported r w =
     (case append_outputs_once cfg e 0 (dr_outputs r) w of
        (None, w1) \<Rightarrow> (None, w1)
      | (Some None, w1) \<Rightarrow> (Some r, w1)
      | (Some (Some d), w1) \<Rightarrow>
          let w2 = (if reported then w1
                    else case clock_now cfg w1 of (now, w') \<Rightarrow>
                      observe cfg (reactor_divergence (re_event_id e) (xc_consumer cfg) (re_workflow_id e)
                                     (od_diff d) now) w')
          in if \<not> xc_decision_store cfg then (Some r, w2)
             else case od_canonical d of
               None \<Rightarrow>
                 (case io_remove r w2 of (None, w3) \<Rightarrow> (None, w3) | (Some _, w3) \<Rightarrow> (Some r, w3))
             | Some row \<Rightarrow>
                 (case io_remove r w2 of
                    (None, w3) \<Rightarrow> (None, w3)
                  | (Some _, w3) \<Rightarrow>
                      (case io_seal cfg (r\<lparr> dr_outputs := (dr_outputs r)[od_index d := recorded_to_output row] \<rparr>) w3 of
                         (None, w4) \<Rightarrow> (None, w4)
                       | (Some r', w4) \<Rightarrow> append_passes cfg e n True r' w4)))"

definition append_decision ::
  "('t, 'a) exec_config \<Rightarrow> recorded_event \<Rightarrow> decision_record \<Rightarrow> 'a world \<Rightarrow>
   decision_record option \<times> 'a world" where
  "append_decision cfg e r w = append_passes cfg e (length (dr_outputs r) + 2) False r w"

section \<open>One attempt\<close>

datatype attempt_outcome =
    Done bool
  | BodyFailed error_chain u32

definition replay_decision ::
  "('t, 'a) exec_config \<Rightarrow> recorded_event \<Rightarrow> decision_record \<Rightarrow> 'a world \<Rightarrow> attempt_outcome option \<times> 'a world" where
  "replay_decision cfg e r w =
     (case append_decision cfg e r w of
        (None, w1) \<Rightarrow> (None, w1)
      | (Some r', w1) \<Rightarrow>
          (case io_clear_attempts cfg (re_event_id e) w1 of (_, w2) \<Rightarrow> (Some (Done (dr_parked r')), w2)))"

fun build_output_events ::
  "('t, 'a) exec_config \<Rightarrow> recorded_event \<Rightarrow> u64 \<Rightarrow> datetime \<Rightarrow> ((string \<times> uuid), u32) hmap \<Rightarrow>
   event_output list \<Rightarrow> event_data list" where
  "build_output_events cfg e depth now seen [] = []"
| "build_output_events cfg e depth now seen (out # outs) =
     (let pair = (eo_durable_name out, eo_subject_id out);
          n = (case hget seen pair of Some k \<Rightarrow> k | None \<Rightarrow> 0)
      in \<lparr> ed_event_id = derive_output_event_id (xc_v5 cfg) (xc_consumer cfg) (re_event_id e)
                           (eo_durable_name out) (eo_subject_id out) n,
           ed_causation_id = Some (re_event_id e),
           ed_workflow_id = (case eo_workflow out of Some i \<Rightarrow> i | None \<Rightarrow> re_workflow_id e),
           ed_event_type = eo_durable_name out, ed_payload = eo_payload out, ed_created_at = now,
           ed_category = Some (eo_subject out), ed_subject_id = Some (eo_subject_id out),
           ed_metadata = reactor_output_metadata (xc_consumer cfg) (depth + 1),
           ed_ephemeral = None, ed_persistent = True \<rparr>
         # build_output_events cfg e depth now (hput pair (n + 1) seen) outs)"

definition message_error :: "string \<Rightarrow> error_chain" where
  "message_error m = [\<lparr> el_kind = OtherError, el_message = m \<rparr>]"

text \<open>After the body succeeded: the occ fence, the depth ceiling, the seal and the first append.\<close>

definition decide_and_append ::
  "('t, 'a) exec_config \<Rightarrow> recorded_event \<Rightarrow> u32 \<Rightarrow> bool \<Rightarrow> event_output list \<Rightarrow> 'a world \<Rightarrow>
   attempt_outcome option \<times> 'a world" where
  "decide_and_append cfg e attempt consulted emitted w =
     (case find (\<lambda>out. eo_durable_name out \<in> set (xc_occ cfg)) emitted of
        Some bad \<Rightarrow>
          (Some (BodyFailed (poison (message_error (xc_render cfg e (OccOutput (eo_durable_name bad))))) attempt), w)
      | None \<Rightarrow>
          let depth = causation_depth_of (re_metadata e) in
          if (case xc_ceiling cfg of Some c \<Rightarrow> emitted \<noteq> [] \<and> ucast c \<le> depth | None \<Rightarrow> False)
          then (Some (BodyFailed (poison (message_error (xc_render cfg e (DepthExceeded depth)))) attempt), w)
          else case clock_now cfg w of (now, w1) \<Rightarrow>
            case clock_now cfg w1 of (sealed_at, w2) \<Rightarrow>
              let base = decision_new (xc_consumer cfg) (re_event_id e) (re_position e)
                           (build_output_events cfg e depth now [] emitted) sealed_at
              in if xc_decision_store cfg \<and> dr_outputs base = [] \<and> \<not> xc_seal_empty cfg \<and> \<not> consulted
                 then (Some (Done False), w2)
                 else case (if xc_decision_store cfg then io_seal cfg base w2 else (Some base, w2)) of
                   (None, w3) \<Rightarrow> (None, w3)
                 | (Some sealed, w3) \<Rightarrow>
                     (case append_decision cfg e sealed w3 of
                        (None, w4) \<Rightarrow> (None, w4)
                      | (Some r', w4) \<Rightarrow> (Some (Done (dr_parked r')), w4)))"

text \<open>How the body's outcome reads as a \<open>Result\<close>: a panic is an error, a timeout a transient one.\<close>

definition body_result :: "('t, 'a) exec_config \<Rightarrow> recorded_event \<Rightarrow> body_outcome \<Rightarrow> error_chain + event_output list" where
  "body_result cfg e b =
     (case b of
        BodyOk outs \<Rightarrow> Inr outs
      | BodyErr err \<Rightarrow> Inl err
      | BodyPanic m \<Rightarrow> Inl (message_error (xc_render cfg e (BodyPanicked m)))
      | BodyTimeout \<Rightarrow> Inl (transient (message_error (xc_render cfg e AttemptTimeout))))"

definition run_body ::
  "('t, 'a) exec_config \<Rightarrow> recorded_event \<Rightarrow> 't \<Rightarrow> u32 \<Rightarrow> datetime \<Rightarrow> 'a world \<Rightarrow>
   (attempt_outcome option \<times> string list) \<times> 'a world" where
  "run_body cfg e t attempt started_at w =
     (let i = re_event_id e;
          w1 = observe cfg (reactor_started i (xc_consumer cfg) (re_workflow_id e) attempt started_at) w;
          w2 = (case xc_describe cfg t of
                  Some d \<Rightarrow> observe cfg (reactor_description (re_workflow_id e) (re_position e) i
                                           (xc_consumer cfg) d) w1
                | None \<Rightarrow> w1);
          rx = xc_react cfg (w_runs w2) e t (w_store w2) (w_effects w2);
          w3 = w2\<lparr> w_runs := Suc (w_runs w2), w_effects := rx_effects rx \<rparr>
      in case clock_now cfg w3 of (completed_at, w4) \<Rightarrow>
         (case body_result cfg e (rx_outcome rx) of
            Inr emitted \<Rightarrow>
              let w5 = observe cfg (reactor_completed i (xc_consumer cfg) (re_workflow_id e) attempt started_at
                                      completed_at (rx_logs rx)) w4
              in (case io_clear_attempts cfg i w5 of
                    (None, w6) \<Rightarrow> ((None, rx_effect_labels rx), w6)
                  | (Some _, w6) \<Rightarrow>
                      (case decide_and_append cfg e attempt (rx_fence_consulted rx) emitted w6 of
                         (res, w7) \<Rightarrow> ((res, rx_effect_labels rx), w7)))
          | Inl err \<Rightarrow>
              ((Some (BodyFailed err attempt), rx_effect_labels rx),
               observe cfg (reactor_failed i (xc_consumer cfg) (re_workflow_id e) attempt started_at
                              completed_at (bounded_error_chain err) (rx_logs rx)) w4)))"

definition first_delivery ::
  "('t, 'a) exec_config \<Rightarrow> recorded_event \<Rightarrow> bool \<Rightarrow> 'a world \<Rightarrow>
   (attempt_outcome option \<times> string list) \<times> 'a world" where
  "first_delivery cfg e fenced w =
     (if fenced then ((Some (Done False), []), w)
      else case io_record_attempt cfg (re_event_id e) w of
        (None, w1) \<Rightarrow> ((None, []), w1)
      | (Some attempt, w1) \<Rightarrow>
          (case clock_now cfg w1 of (started_at, w2) \<Rightarrow>
             (case xc_decode cfg (re_payload e) of
                None \<Rightarrow>
                  ((Some (BodyFailed (poison (message_error (xc_render cfg e TriggerUndecodable))) attempt), []), w2)
              | Some t \<Rightarrow> run_body cfg e t attempt started_at w2)))"

definition attempt_trigger ::
  "('t, 'a) exec_config \<Rightarrow> recorded_event \<Rightarrow> bool \<Rightarrow> 'a world \<Rightarrow>
   (attempt_outcome option \<times> string list) \<times> 'a world" where
  "attempt_trigger cfg e fenced w =
     (if xc_decision_store cfg then
        (case io_get cfg (re_event_id e) w of
           (None, w1) \<Rightarrow> ((None, []), w1)
         | (Some (Some r), w1) \<Rightarrow> (case replay_decision cfg e r w1 of (res, w2) \<Rightarrow> ((res, []), w2))
         | (Some None, w1) \<Rightarrow> first_delivery cfg e fenced w1)
      else first_delivery cfg e fenced w)"

section \<open>Parking\<close>

definition reaction_failed_payload ::
  "('t, 'a) exec_config \<Rightarrow> recorded_event \<Rightarrow> failure_class \<Rightarrow> string \<Rightarrow> u32 \<Rightarrow> json" where
  "reaction_failed_payload cfg e class error attempts =
     JObject [(''attempts'', JNumber (JPosInt (ucast attempts))),
              (''class'', JString (failure_class_str class)),
              (''consumer'', JString (xc_consumer cfg)),
              (''error'', JString error),
              (''trigger_event_type'', JString (re_event_type e)),
              (''trigger_id'', JString (cd_uuid (xc_codec cfg) (re_event_id e)))]"

text \<open>Kind, category, subject, workflow and payload of the terminal fact: none, the mapper's (whose
  serialization may fail, \<open>None\<close>), or the built-in one.\<close>

definition terminal_parts ::
  "('t, 'a) exec_config \<Rightarrow> recorded_event \<Rightarrow> u32 \<Rightarrow> string \<Rightarrow> failure_class \<Rightarrow>
   (string \<times> string \<times> uuid \<times> uuid \<times> json) option option" where
  "terminal_parts cfg e attempts error class =
     (if (case xc_ceiling cfg of Some c \<Rightarrow> ucast c < causation_depth_of (re_metadata e) | None \<Rightarrow> False)
      then Some None
      else case xc_mapper cfg of
        None \<Rightarrow>
          Some (Some (reaction_failed_kind, re_category e, re_subject_id e, re_workflow_id e,
                      reaction_failed_payload cfg e class error attempts))
      | Some mapper \<Rightarrow>
          (case mapper \<lparr> tf_consumer = xc_consumer cfg, tf_trigger_id = re_event_id e,
                         tf_trigger_event_type = re_event_type e, tf_subject = re_category e,
                         tf_subject_id = re_subject_id e, tf_class = class, tf_error = error,
                         tf_attempts = attempts, tf_workflow_id = re_workflow_id e \<rparr> of
             None \<Rightarrow> Some None
           | Some f \<Rightarrow>
               (case mf_value f of
                  None \<Rightarrow> None
                | Some v \<Rightarrow>
                    Some (Some (mf_name f, mf_subject f, mf_subject_id f,
                      (case mf_workflow f of Some i \<Rightarrow> i | None \<Rightarrow> re_workflow_id e), v)))))"

definition terminal_event ::
  "('t, 'a) exec_config \<Rightarrow> recorded_event \<Rightarrow> datetime \<Rightarrow> string \<times> string \<times> uuid \<times> uuid \<times> json \<Rightarrow> event_data" where
  "terminal_event cfg e now parts =
     (case parts of (kind, cat, sid, wfl, payload) \<Rightarrow>
        \<lparr> ed_event_id = derive_output_event_id (xc_v5 cfg) (xc_consumer cfg) (re_event_id e) kind sid (- 1),
          ed_causation_id = Some (re_event_id e), ed_workflow_id = wfl, ed_event_type = kind,
          ed_payload = payload, ed_created_at = now, ed_category = Some cat, ed_subject_id = Some sid,
          ed_metadata = reactor_output_metadata (xc_consumer cfg) (causation_depth_of (re_metadata e) + 1),
          ed_ephemeral = None, ed_persistent = True \<rparr>)"

text \<open>\<open>map\<close> over the parts: the clock is read only when there is a fact.\<close>

definition terminal_outputs ::
  "('t, 'a) exec_config \<Rightarrow> recorded_event \<Rightarrow> (string \<times> string \<times> uuid \<times> uuid \<times> json) option \<Rightarrow> 'a world \<Rightarrow>
   event_data list \<times> 'a world" where
  "terminal_outputs cfg e parts w =
     (case parts of
        None \<Rightarrow> ([], w)
      | Some p \<Rightarrow> (case clock_now cfg w of (now, w') \<Rightarrow> ([terminal_event cfg e now p], w')))"

definition park_terminal_failure ::
  "('t, 'a) exec_config \<Rightarrow> recorded_event \<Rightarrow> u32 \<Rightarrow> string \<Rightarrow> failure_class \<Rightarrow> datetime \<Rightarrow> 'a world \<Rightarrow>
   bool option \<times> 'a world" where
  "park_terminal_failure cfg e attempts error class completed_at w =
     (case terminal_parts cfg e attempts error class of
        None \<Rightarrow> (None, w)
      | Some parts \<Rightarrow>
          (case terminal_outputs cfg e parts w of
             (outs, w1) \<Rightarrow>
               (case clock_now cfg w1 of
                  (sealed_at, w2) \<Rightarrow>
                    let rec0 = with_parked True
                          (decision_new (xc_consumer cfg) (re_event_id e) (re_position e) outs sealed_at)
                    in case (if xc_decision_store cfg then io_seal cfg rec0 w2 else (Some rec0, w2)) of
                         (None, w3) \<Rightarrow> (None, w3)
                       | (Some sealed, w3) \<Rightarrow>
                           let won = (\<not> xc_decision_store cfg \<or>
                                 outputs_to_json (xc_codec cfg) (dr_outputs sealed) =
                                   outputs_to_json (xc_codec cfg) (dr_outputs rec0) \<and> dr_parked sealed)
                           in case append_decision cfg e sealed w3 of
                                (None, w4) \<Rightarrow> (None, w4)
                              | (Some r', w4) \<Rightarrow>
                                  let w5 = (if won \<and> dr_parked r' \<and> xc_observer cfg
                                            then (on_store (reactor_terminal_failure (re_event_id e)
                                                    (xc_consumer cfg) attempts error completed_at) w4)
                                                   \<lparr> w_parked := w_parked w4 @ [re_event_id e] \<rparr>
                                            else w4)
                                  in case io_clear_attempts cfg (re_event_id e) w5 of
                                       (None, w6) \<Rightarrow> (None, w6)
                                     | (Some _, w6) \<Rightarrow> (Some (dr_parked r'), w6))))"

section \<open>The retry loop\<close>

definition note_worker_progress :: "'a world \<Rightarrow> 'a world" where
  "note_worker_progress w = w\<lparr> w_stall_failures := 0, w_stall_error := None \<rparr>"

definition note_worker_retry :: "string \<Rightarrow> 'a world \<Rightarrow> 'a world" where
  "note_worker_retry error w =
     w\<lparr> w_stall_failures := w_stall_failures w + 1, w_stall_error := Some error \<rparr>"

definition worker_stall :: "'a world \<Rightarrow> (u32 \<times> string) option" where
  "worker_stall w =
     (if w_stall_failures w = 0 then None
      else Some (w_stall_failures w, case w_stall_error w of Some m \<Rightarrow> m | None \<Rightarrow> []))"

text \<open>Which failures park, by class; \<open>over\<close> says that the transient ceiling is reached.\<close>

definition park_class :: "retry_policy \<Rightarrow> error_class option \<Rightarrow> u32 \<Rightarrow> bool \<Rightarrow> failure_class option" where
  "park_class policy class attempts over =
     (case class of
        Some Poison \<Rightarrow> Some PoisonFailure
      | Some Transient \<Rightarrow> if over then Some TransientExhausted else None
      | Some Domain \<Rightarrow> if rp_max_attempts policy \<le> attempts then Some DomainFailure else None
      | None \<Rightarrow> if rp_max_attempts policy \<le> attempts then Some Unclassified else None)"

text \<open>The clock of the transient ceiling: started by the first transient failure.\<close>

definition transient_clock ::
  "('t, 'a) exec_config \<Rightarrow> error_class option \<Rightarrow> nat option \<Rightarrow> 'a world \<Rightarrow> bool \<times> nat option \<times> 'a world" where
  "transient_clock cfg class since w =
     (if class = Some Transient then
        (case (case since of Some t \<Rightarrow> (t, w) | None \<Rightarrow> instant_now cfg w) of
           (t, w1) \<Rightarrow>
             (case instant_now cfg w1 of (now, w2) \<Rightarrow> (transient_ceiling \<le> now - t, Some t, w2)))
      else (False, since, w))"

record trigger_done =
  td_parked :: bool
  td_effect_labels :: "string list"

datatype process_result =
    Finished trigger_done
  | Halted
  | WorkerPanicked

text \<open>What follows an attempt: the trigger is finished, or the loop goes on with this ceiling clock.\<close>

datatype after_attempt = Finish bool | Again "nat option"

definition after_failure ::
  "('t, 'a) exec_config \<Rightarrow> recorded_event \<Rightarrow> nat option \<Rightarrow> error_chain \<Rightarrow> u32 \<Rightarrow> 'a world \<Rightarrow>
   after_attempt \<times> 'a world" where
  "after_failure cfg e since err attempts w =
     (let class = classify err in
      case transient_clock cfg class since w of
        (over, since', w1) \<Rightarrow>
          (case park_class (xc_policy cfg) class attempts over of
             None \<Rightarrow> (Again since', note_worker_retry (bounded_error_chain err) w1)
           | Some fc \<Rightarrow>
               (case clock_now cfg w1 of
                  (now, w2) \<Rightarrow>
                    (case park_terminal_failure cfg e attempts (bounded_error_chain err) fc now w2 of
                       (Some parked, w3) \<Rightarrow> (Finish parked, note_worker_progress w3)
                     | (None, w3) \<Rightarrow>
                         (Again since', note_worker_retry ''terminal-failure park I/O error: '' w3)))))"

definition after_attempt_of ::
  "('t, 'a) exec_config \<Rightarrow> recorded_event \<Rightarrow> nat option \<Rightarrow> attempt_outcome option \<Rightarrow> 'a world \<Rightarrow>
   after_attempt \<times> 'a world" where
  "after_attempt_of cfg e since res w =
     (case res of
        Some (Done parked) \<Rightarrow> (Finish parked, note_worker_progress w)
      | Some (BodyFailed err attempts) \<Rightarrow> after_failure cfg e since err attempts w
      | None \<Rightarrow> (Again since, note_worker_retry ''reactor runner infrastructure error'' w))"

text \<open>\<open>process_trigger\<close>: \<open>None\<close> means that the fuel, the number of attempts looked at, ran out. The
  backoff panics where \<open>backoff_for\<close> does, which ends the worker's task.\<close>

fun process_loop ::
  "('t, 'a) exec_config \<Rightarrow> recorded_event \<Rightarrow> bool \<Rightarrow> nat \<Rightarrow> u32 \<Rightarrow> nat option \<Rightarrow> string list \<Rightarrow> 'a world \<Rightarrow>
   (process_result \<times> 'a world) option" where
  "process_loop cfg e fenced 0 local_attempt since used w = None"
| "process_loop cfg e fenced (Suc fuel) local_attempt since used w =
     (case stop_poll w of
        (True, w1) \<Rightarrow> Some (Halted, w1)
      | (False, w1) \<Rightarrow>
          (case (if xc_max_in_flight cfg then stop_poll w1 else (False, w1)) of
             (True, w2) \<Rightarrow> Some (Halted, w2)
           | (False, w2) \<Rightarrow>
               (case attempt_trigger cfg e fenced w2 of
                  ((res, labels), w3) \<Rightarrow>
                    let used' = used @ filter (\<lambda>l. l \<notin> set used) (remdups labels) in
                    (case after_attempt_of cfg e since res w3 of
                       (Finish parked, w4) \<Rightarrow>
                         Some (Finished \<lparr> td_parked = parked, td_effect_labels = used' \<rparr>, w4)
                     | (Again since', w4) \<Rightarrow>
                         (case backoff_for (xc_policy cfg) (local_attempt + 1) of
                            None \<Rightarrow> Some (WorkerPanicked, w4)
                          | Some _ \<Rightarrow>
                              (case stop_poll w4 of
                                 (True, w5) \<Rightarrow> Some (Halted, w5)
                               | (False, w5) \<Rightarrow>
                                   process_loop cfg e fenced fuel (local_attempt + 1) since' used' w5))))))"

definition process_trigger ::
  "('t, 'a) exec_config \<Rightarrow> recorded_event \<Rightarrow> bool \<Rightarrow> nat \<Rightarrow> 'a world \<Rightarrow> (process_result \<times> 'a world) option" where
  "process_trigger cfg e fenced fuel w = process_loop cfg e fenced fuel 0 None [] w"

end
