(* ===== verification/Reactor_Exec_Laws.thy ===== *)
theory Reactor_Exec_Laws
  imports Reactor_Exec
begin

text \<open>
  What each call of a worker does to the world of \<open>Reactor_Exec\<close>: the frame of the registry fold
  (only the snapshots of the store change), the frame of a fallible call, and the effect of
  appending outputs that agree with the log.
\<close>

section \<open>The registry fold leaves the store alone\<close>

definition snap_only :: "memory_store \<Rightarrow> memory_store \<Rightarrow> bool" where
  "snap_only s s' \<longleftrightarrow> s'\<lparr> snapshots := [] \<rparr> = s\<lparr> snapshots := [] \<rparr>"

lemma snap_only_refl [simp]: "snap_only s s"
  by (simp add: snap_only_def)

lemma snap_only_trans: "snap_only s s' \<Longrightarrow> snap_only s' s'' \<Longrightarrow> snap_only s s''"
  by (simp add: snap_only_def)

lemma snap_only_fields:
  assumes "snap_only s s'"
  shows "same_log s s'" "reactor_attempts s' = reactor_attempts s"
proof -
  have eq: "s'\<lparr> snapshots := [] \<rparr> = s\<lparr> snapshots := [] \<rparr>" using assms by (simp add: snap_only_def)
  show "reactor_attempts s' = reactor_attempts s" using arg_cong [OF eq, of reactor_attempts] by simp
  show "same_log s s'"
    using arg_cong [OF eq, of global_log] arg_cong [OF eq, of log_idx] arg_cong [OF eq, of global_position]
    by (simp add: same_log_def)
qed

lemma snap_only_ops: "snap_only s (delete_snapshot ty i s)" "snap_only s (save_snapshot sn s)"
  by (simp_all add: snap_only_def delete_snapshot_def save_snapshot_def)

definition our_snapshots :: "memory_store snapshot_store option \<Rightarrow> bool" where
  "our_snapshots S \<longleftrightarrow> S = None \<or> S = Some memory_snapshots"

lemma restore_seed_snap_only:
  assumes "our_snapshots S" "restore_seed S a ty i snap s = (x, s')"
  shows "snap_only s s'"
  using assms by (auto simp: restore_seed_def our_snapshots_def memory_snapshots_def snap_only_ops split: option.splits)

lemma restore_aggregate_snap_only:
  assumes S: "our_snapshots S" and r: "restore_aggregate cd S B ty subject i rg s = (res, rg', s')"
  shows "snap_only s s'"
  using r restore_seed_snap_only [OF S]
  unfolding restore_aggregate_def Let_def
  by (auto split: if_splits option.splits sum.splits prod.splits)

lemma repair_range_store: "repair_range cd B g limit rg s = (err, rg', s') \<Longrightarrow> s' = s"
  unfolding repair_range_def Let_def by (auto split: sum.splits prod.splits)

lemma repair_gap_snap_only:
  assumes S: "our_snapshots S" and r: "repair_gap cd S B g limit rg s = (err, rg', s')"
  shows "snap_only s s'"
proof -
  obtain x rg1 s1 where ra: "restore_aggregate cd S B (fg_type g) (fg_subject g) (fg_id g) rg s = (x, rg1, s1)"
    by (metis surj_pair)
  have "snap_only s s1" by (rule restore_aggregate_snap_only [OF S ra])
  then show ?thesis
    using r ra repair_range_store unfolding repair_gap_def
    by (cases x) (fastforce split: if_splits bool.splits)+
qed

lemma repair_gaps_snap_only:
  assumes S: "our_snapshots S"
  shows "repair_gaps cd S B limit gs rg s = (err, rg', s') \<Longrightarrow> snap_only s s'"
proof (induction gs arbitrary: rg s)
  case (Cons g gs)
  obtain x rg1 s1 where g: "repair_gap cd S B g limit rg s = (x, rg1, s1)" by (metis surj_pair)
  then have "snap_only s s1" by (rule repair_gap_snap_only [OF S])
  then show ?case using Cons.IH [of rg1 s1] Cons.prems g snap_only_trans by (cases x) auto
qed simp

lemma fold_event_snap_only:
  assumes S: "our_snapshots S" and "fold_event cd S B f strict rg s = (res, rg', s')"
  shows "snap_only s s'"
proof -
  have "fold_rounds cd S B f strict n rg s = (res, rg', s') \<Longrightarrow> snap_only s s'" for n rg s
  proof (induction n arbitrary: rg s)
    case (Suc n)
    obtain x rg1 where a: "apply_event cd f rg = (x, rg1)" by (metis surj_pair)
    show ?case
    proof (cases x)
      case (Inl err)
      then show ?thesis using Suc.prems a by simp
    next
      case (Inr out)
      obtain y rg2 s2 where g: "repair_gaps cd S B (if strict then Some (ff_revision f) else None)
          (fo_gaps out) rg1 s = (y, rg2, s2)" by (metis surj_pair)
      then have "snap_only s s2" by (rule repair_gaps_snap_only [OF S])
      then show ?thesis
        using Suc.IH [of rg2 s2] Suc.prems a Inr g snap_only_trans
        by (cases y) (auto split: if_splits)
    qed
  qed simp
  then show ?thesis using assms(2) by (simp add: fold_event_def)
qed

lemma save_one_snap_only:
  "snap_only s (snd (save_one_snapshot cd memory_snapshots every now key (rg, s)))"
  unfolding save_one_snapshot_def Let_def
  by (simp add: memory_snapshots_def snap_only_ops split: option.split)

lemma save_snapshots_snap_only:
  "snap_only s (snd (maybe_save_snapshots cd memory_snapshots every now snaps (rg, s)))"
proof -
  have "snap_only s (snd (fold (save_one_snapshot cd memory_snapshots every now) ks (rg, s)))" for ks
  proof (induction ks arbitrary: rg s)
    case (Cons k ks)
    obtain rg1 s1 where k: "save_one_snapshot cd memory_snapshots every now k (rg, s) = (rg1, s1)"
      by (metis surj_pair)
    then show ?case
      using save_one_snap_only [of s cd every now k rg] Cons.IH [of s1 rg1] snap_only_trans by auto
  qed simp
  then show ?thesis by (simp add: maybe_save_snapshots_def)
qed

section \<open>What a step leaves alone\<close>

definition quiet :: "'a world \<Rightarrow> 'a world \<Rightarrow> bool" where
  "quiet w w' \<longleftrightarrow>
     w_decisions w' = w_decisions w \<and> w_effects w' = w_effects w \<and> w_runs w' = w_runs w \<and>
     w_stops w' = w_stops w \<and> w_parked w' = w_parked w \<and> length (w_io w') \<le> length (w_io w) \<and>
     reactor_attempts (w_store w') = reactor_attempts (w_store w)"

lemma quiet_refl [simp]: "quiet w w"
  by (simp add: quiet_def)

lemma quiet_trans: "quiet w w' \<Longrightarrow> quiet w' w'' \<Longrightarrow> quiet w w''"
  by (auto simp: quiet_def)

lemma quiet_fault_free: "quiet w w' \<Longrightarrow> w_io w = [] \<Longrightarrow> w_io w' = []"
  by (simp add: quiet_def)

abbreviation logged :: "'a world \<Rightarrow> recorded_event list" where
  "logged w \<equiv> global_log (w_store w)"

lemma warm_registry_quiet:
  "quiet w (warm_registry_with cfg out c sid wr w) \<and>
   same_log (w_store w) (w_store (warm_registry_with cfg out c sid wr w))"
proof (cases "w_registry w")
  case None
  then show ?thesis by (simp add: warm_registry_with_def same_log_def)
next
  case (Some rg)
  let ?S = "if xc_snapshots cfg then Some memory_snapshots else None"
  let ?f = "\<lparr> ff_type = ed_event_type out, ff_payload = ed_payload out, ff_subject_id = sid,
              ff_category = c, ff_revision = wr_revision wr, ff_position = wr_position wr \<rparr>"
  have S: "our_snapshots ?S" by (simp add: our_snapshots_def)
  obtain res rg1 s1 where f: "fold_event (xc_codec cfg) ?S (xc_log cfg) ?f False rg (w_store w) = (res, rg1, s1)"
    by (metis surj_pair)
  have s1: "snap_only (w_store w) s1" by (rule fold_event_snap_only [OF S f])
  have s2: "snap_only (w_store w) s2"
    if "maybe_save_snapshots cd memory_snapshots every now snaps (rg1, s1) = (rg2, s2)"
    for cd every now snaps rg2 s2
    using s1 save_snapshots_snap_only [of s1 cd every now snaps rg1] snap_only_trans that by simp
  show ?thesis
    using f Some snap_only_fields [OF s1] snap_only_fields [OF s2]
    unfolding warm_registry_with_def Let_def
    by (cases res) (auto simp: quiet_def clock_now_def split: prod.split)
qed

lemma bump_settle_quiet: "quiet w (bump_settle cfg wfl pos w)" "w_store (bump_settle cfg wfl pos w) = w_store w"
  by (simp_all add: quiet_def bump_settle_def)

section \<open>Fallible calls\<close>

abbreviation tick_io :: "'a world \<Rightarrow> 'a world" where
  "tick_io w \<equiv> w\<lparr> w_io := tl (w_io w) \<rparr>"

lemma io_call_cases:
  assumes "io_call call w = (res, w')"
  obtains (ok) x where "res = Some x" "call (tick_io w) = (x, w')"
  | (before) "res = None" "w_io w \<noteq> []" "w' = tick_io w"
  | (after) "res = None" "w_io w \<noteq> []" "w' = snd (call (tick_io w))"
proof (cases "w_io w")
  case Nil
  obtain x w1 where c: "call w = (x, w1)" by fastforce
  have "tick_io w = w" using Nil by simp
  with c have "call (tick_io w) = (x, w1)" by (simp only:)
  moreover have "res = Some x" "w' = w1" using assms Nil c by (simp_all add: io_call_def)
  ultimately show ?thesis using ok by simp
next
  case (Cons f fs)
  then show ?thesis
    using assms ok before after by (cases f) (auto simp: io_call_def split: prod.splits)
qed

lemma io_call_fault_free: "w_io w = [] \<Longrightarrow> io_call call w = (Some (fst (call w)), snd (call w))"
  by (simp add: io_call_def split: prod.split)

lemma tick_io_quiet: "quiet w (tick_io w)"
  by (simp add: quiet_def)

section \<open>Outputs and the log\<close>

definition out_category :: "event_data \<Rightarrow> string" where
  "out_category out = (case ed_category out of Some c \<Rightarrow> c | None \<Rightarrow> ed_event_type out)"

definition out_subject :: "recorded_event \<Rightarrow> event_data \<Rightarrow> uuid" where
  "out_subject e out = (case ed_subject_id out of Some i \<Rightarrow> i | None \<Rightarrow> re_workflow_id e)"

text \<open>The row is the output, where the trigger's decision places it.\<close>

definition stored_as :: "recorded_event \<Rightarrow> event_data \<Rightarrow> recorded_event \<Rightarrow> bool" where
  "stored_as e out row \<longleftrightarrow> same_row (out_category out) (out_subject e out) out row"

definition landed :: "recorded_event \<Rightarrow> recorded_event list \<Rightarrow> event_data \<Rightarrow> bool" where
  "landed e rows out \<longleftrightarrow> (\<exists>row \<in> set rows. stored_as e out row)"

definition agrees :: "recorded_event \<Rightarrow> recorded_event list \<Rightarrow> event_data \<Rightarrow> bool" where
  "agrees e rows out \<longleftrightarrow> (\<forall>row \<in> set rows. re_event_id row = ed_event_id out \<longrightarrow> stored_as e out row)"

definition appendable :: "recorded_event \<Rightarrow> event_data list \<Rightarrow> memory_store \<Rightarrow> bool" where
  "appendable e outs s \<longleftrightarrow>
     log_inv s \<and> distinct (map ed_event_id outs) \<and> (\<forall>out \<in> set outs. agrees e (global_log s) out) \<and>
     log_room (length (filter (\<lambda>out. \<not> landed e (global_log s) out) outs)) s"

definition grown_by :: "recorded_event \<Rightarrow> event_data list \<Rightarrow> recorded_event list \<Rightarrow> recorded_event list \<Rightarrow> bool" where
  "grown_by e outs rows rows' \<longleftrightarrow>
     (\<exists>new. rows' = rows @ new \<and> (\<forall>row \<in> set new. \<exists>out \<in> set outs. stored_as e out row))"

lemma grown_by_refl [simp]: "grown_by e outs rows rows"
  by (simp add: grown_by_def)

lemma grown_by_trans: "grown_by e outs xs ys \<Longrightarrow> grown_by e outs ys zs \<Longrightarrow> grown_by e outs xs zs"
  unfolding grown_by_def by fastforce

lemma landed_grown: "landed e rows out \<Longrightarrow> grown_by e' outs rows rows' \<Longrightarrow> landed e rows' out"
  by (auto simp: landed_def grown_by_def)

lemma stored_as_id: "stored_as e out row \<Longrightarrow> re_event_id row = ed_event_id out"
  by (simp add: stored_as_def same_row_def)

lemma appendable_same_log:
  "appendable e outs s \<Longrightarrow> same_log s s' \<Longrightarrow> appendable e outs s'"
  by (auto simp: appendable_def same_log_inv log_room_def) (simp_all add: same_log_def)

lemma append_attempts: "reactor_attempts (snd (append_to_stream c sid ex es s)) = reactor_attempts s"
proof -
  have push: "reactor_attempts (snd (push_rows c sid n k es r s)) = reactor_attempts s" for n k r
    by (induction es arbitrary: k r s) (simp_all add: push_row_def Let_def)
  show ?thesis
    by (auto simp: append_to_stream_def Let_def split: option.split prod.split)
       (metis push snd_conv)+
qed

lemma append_output:
  assumes ap: "appendable e all s" and out: "out \<in> set all"
    and app: "append_to_stream (out_category out) (out_subject e out) AnyState [out] s = (x, s')"
  shows "(\<exists>r. x = Inr r) \<and> appendable e all s' \<and> grown_by e all (global_log s) (global_log s') \<and>
         landed e (global_log s') out"
proof (cases "landed e (global_log s) out")
  case True
  have "batch_persisted (global_log s) (out_category out) (out_subject e out) [out]"
    using True by (simp add: landed_def stored_as_def batch_persisted_def)
  moreover have "log_inv s" using ap by (simp add: appendable_def)
  ultimately have "\<exists>r. append_to_stream (out_category out) (out_subject e out) AnyState [out] s = (Inr r, s)"
    using append_redelivered [of s "[out]"] by fastforce
  then have "\<exists>r. x = Inr r \<and> s' = s" using app by auto
  then show ?thesis using ap True by auto
next
  case False
  let ?m = "\<lambda>s. filter (\<lambda>out. \<not> landed e (global_log s) out) all"
  have inv: "log_inv s" and room: "log_room (length (?m s)) s" and dist: "distinct (map ed_event_id all)"
    using ap by (simp_all add: appendable_def)
  have fresh: "ids_fresh (global_log s) [out]"
    using ap out False by (fastforce simp: appendable_def agrees_def landed_def ids_fresh_def)
  have unseen: "\<forall>row \<in> set (global_log s). re_event_id row \<noteq> ed_event_id out"
    using fresh by (force simp: ids_fresh_def)
  have "\<exists>r s'. append_to_stream (out_category out) (out_subject e out) AnyState [out] s = (Inr r, s')"
    using mem_log.append_fresh [OF inv _ _ fresh, of AnyState "out_category out" "out_subject e out"]
    by (simp add: memory_backend_def)
  then obtain r where x: "x = Inr r" using app by auto
  have "\<exists>row. global_log s' = global_log s @ [row] \<and> stored_as e out row"
    using append_ok_mem [OF inv app [unfolded x]] unseen
    by (auto simp: batch_persisted_def ids_fresh_def stored_as_def same_row_def list_all2_Cons1)
  then obtain row where s': "global_log s' = global_log s @ [row]" and row: "stored_as e out row" by blast
  have other: "o' = out" if "o' \<in> set all" "ed_event_id o' = ed_event_id out" for o'
    using dist out that by (metis inj_onD distinct_map)
  have landed': "landed e (global_log s') o' \<longleftrightarrow> landed e (global_log s) o' \<or> o' = out" if "o' \<in> set all" for o'
    using that other [of o'] row stored_as_id [of e o' row] stored_as_id [OF row] by (auto simp: landed_def s')
  have "?m s' = removeAll out (?m s)"
    unfolding removeAll_filter_not_eq filter_filter using landed' by (intro filter_cong) auto
  moreover have mem: "out \<in> set (?m s)" using out False by simp
  moreover have "distinct (?m s)" using dist by (simp add: distinct_map)
  ultimately have "length (?m s) = length [out] + length (?m s')"
    using length_pos_if_in_set [OF mem]
    by (simp only: distinct_remove1_removeAll [symmetric] length_remove1) simp
  then have "log_room (length (?m s')) s'" "log_inv s'"
    using log_room_step [OF inv, of "[out]" "length (?m s')" "out_category out" "out_subject e out" AnyState]
      append_inv [OF inv, of "[out]" "out_category out" "out_subject e out" AnyState] room app
    by (simp_all add: log_room_def)
  moreover have "\<forall>o' \<in> set all. agrees e (global_log s') o'"
    using ap row other stored_as_id [OF row] by (auto simp: appendable_def agrees_def s')
  ultimately have "appendable e all s'" by (simp add: appendable_def dist)
  moreover have "grown_by e all (global_log s) (global_log s')" using row out by (auto simp: grown_by_def s')
  moreover have "landed e (global_log s') out" using row by (auto simp: landed_def s')
  ultimately show ?thesis using x by blast
qed

text \<open>One append of a decision, whatever its fate.\<close>

lemma io_append_output:
  assumes cfg: "xc_log cfg = memory_backend" and ap: "appendable e all (w_store w)" and out: "out \<in> set all"
    and io: "io_append cfg (out_category out) (out_subject e out) out w = (res, w')"
  shows "quiet w w' \<and> appendable e all (w_store w') \<and> grown_by e all (logged w) (logged w') \<and>
         ((\<exists>r. res = Some (Inr r)) \<and> landed e (logged w') out \<or>
          res = None \<and> length (w_io w') < length (w_io w))"
proof -
  let ?c = "out_category out" and ?i = "out_subject e out"
  obtain x s' where app: "append_to_stream ?c ?i AnyState [out] (w_store w) = (x, s')" by fastforce
  note eff = append_output [OF ap out app]
  let ?call = "\<lambda>w. case b_append (xc_log cfg) ?c ?i AnyState [out] (w_store w) of (x, s) \<Rightarrow> (x, w\<lparr> w_store := s \<rparr>)"
  have call: "?call (tick_io w) = (x, (tick_io w)\<lparr> w_store := s' \<rparr>)"
    using app cfg by (simp add: memory_backend_def)
  have att: "reactor_attempts s' = reactor_attempts (w_store w)"
    using append_attempts [of ?c ?i AnyState "[out]" "w_store w"] app by simp
  have "io_call ?call w = (res, w')" using io by (simp add: io_append_def)
  then show ?thesis
  proof (cases rule: io_call_cases)
    case (ok y)
    then show ?thesis using eff call att by (auto simp: quiet_def)
  next
    case before
    then show ?thesis using ap by (simp add: quiet_def)
  next
    case after
    then show ?thesis using eff call att by (auto simp: quiet_def)
  qed
qed

lemma append_outputs_once_effect:
  assumes cfg: "xc_log cfg = memory_backend"
  shows "\<lbrakk> appendable e all (w_store w); set outs \<subseteq> set all; append_outputs_once cfg e i outs w = (res, w') \<rbrakk> \<Longrightarrow>
         quiet w w' \<and> appendable e all (w_store w') \<and> grown_by e all (logged w) (logged w') \<and>
         (res = Some None \<and> (\<forall>out \<in> set outs. landed e (logged w') out) \<or>
          res = None \<and> length (w_io w') < length (w_io w))"
proof (induction outs arbitrary: i w)
  case (Cons out outs)
  let ?c = "out_category out" and ?i = "out_subject e out"
  obtain x w1 where io: "io_append cfg ?c ?i out w = (x, w1)" by fastforce
  have eff: "quiet w w1" "appendable e all (w_store w1)" "grown_by e all (logged w) (logged w1)"
    "(\<exists>r. x = Some (Inr r)) \<and> landed e (logged w1) out \<or> x = None \<and> length (w_io w1) < length (w_io w)"
    using io_append_output [OF cfg Cons.prems(1) _ io] Cons.prems(2) by simp_all
  show ?case
  proof (cases x)
    case None
    then have "res = None" "w' = w1"
      using Cons.prems(3) io by (simp_all add: out_category_def out_subject_def Let_def)
    then show ?thesis using eff None by auto
  next
    case (Some y)
    then obtain r where x: "x = Some (Inr r)" and land: "landed e (logged w1) out" using eff(4) by auto
    define w2 where "w2 = bump_settle cfg (ed_workflow_id out) (wr_position r) w1"
    define w3 where "w3 = warm_registry_with cfg out ?c ?i r w2"
    have rest: "append_outputs_once cfg e (Suc i) outs w3 = (res, w')"
      using Cons.prems(3) io x by (simp add: out_category_def out_subject_def Let_def w2_def w3_def)
    have q: "quiet w1 w3" and sl: "same_log (w_store w1) (w_store w3)"
      using bump_settle_quiet [where w = w1] warm_registry_quiet [where w = w2] quiet_trans
      unfolding w2_def w3_def by metis+
    have lg: "logged w3 = logged w1" using sl by (simp add: same_log_def)
    have ap3: "appendable e all (w_store w3)" by (rule appendable_same_log [OF eff(2) sl])
    have ih: "quiet w3 w'" "appendable e all (w_store w')" "grown_by e all (logged w3) (logged w')"
      "res = Some None \<and> (\<forall>out \<in> set outs. landed e (logged w') out) \<or>
       res = None \<and> length (w_io w') < length (w_io w3)"
      using Cons.IH [OF ap3 _ rest] Cons.prems(2) by simp_all
    have "quiet w w'" using eff(1) q ih(1) quiet_trans by blast
    moreover have "grown_by e all (logged w) (logged w')" using eff(3) ih(3) lg grown_by_trans by metis
    moreover have "landed e (logged w') out" using land ih(3) lg landed_grown by metis
    moreover have "length (w_io w3) \<le> length (w_io w)" using eff(1) q quiet_trans quiet_def by metis
    ultimately show ?thesis using ih(2,4) by auto
  qed
qed simp

text \<open>So a decision that agrees with the log is appended in one pass, or an I/O error is used up.\<close>

lemma append_decision_effect:
  assumes cfg: "xc_log cfg = memory_backend" and ap: "appendable e (dr_outputs r) (w_store w)"
    and run: "append_decision cfg e r w = (res, w')"
  shows "quiet w w' \<and> appendable e (dr_outputs r) (w_store w') \<and>
         grown_by e (dr_outputs r) (logged w) (logged w') \<and>
         (res = Some r \<and> (\<forall>out \<in> set (dr_outputs r). landed e (logged w') out) \<or>
          res = None \<and> length (w_io w') < length (w_io w))"
proof -
  obtain x w1 where once: "append_outputs_once cfg e 0 (dr_outputs r) w = (x, w1)" by fastforce
  note eff = append_outputs_once_effect [OF cfg ap subset_refl once]
  then show ?thesis using run once by (auto simp: append_decision_def)
qed

section \<open>What no attempt on a sealed decision changes\<close>

definition calm :: "'a world \<Rightarrow> 'a world \<Rightarrow> bool" where
  "calm w w' \<longleftrightarrow>
     w_decisions w' = w_decisions w \<and> w_effects w' = w_effects w \<and> w_runs w' = w_runs w \<and>
     w_parked w' = w_parked w \<and> set (w_stops w') \<subseteq> set (w_stops w) \<and> length (w_io w') \<le> length (w_io w)"

lemma calm_refl [simp]: "calm w w"
  by (simp add: calm_def)

lemma calm_trans: "calm w w' \<Longrightarrow> calm w' w'' \<Longrightarrow> calm w w''"
  by (auto simp: calm_def)

lemma quiet_calm: "quiet w w' \<Longrightarrow> calm w w'"
  by (simp add: quiet_def calm_def)

definition decided :: "('t, 'a) exec_config \<Rightarrow> recorded_event \<Rightarrow> decision_record \<Rightarrow> 'a world \<Rightarrow> bool" where
  "decided cfg e r w \<longleftrightarrow> xc_decision_store cfg \<and>
     get_decision (xc_codec cfg) (xc_consumer cfg) (re_event_id e) (w_decisions w) = Some (Some r)"

lemma decided_calm: "decided cfg e r w \<Longrightarrow> calm w w' \<Longrightarrow> decided cfg e r w'"
  by (simp add: decided_def calm_def)

lemma io_get_cases:
  assumes "io_get cfg t w = (res, w')"
  shows "w' = tick_io w \<and>
         (res = get_decision (xc_codec cfg) (xc_consumer cfg) t (w_decisions w) \<or> res = None \<and> w_io w \<noteq> [])"
proof -
  let ?call = "\<lambda>w. (get_decision (xc_codec cfg) (xc_consumer cfg) t (w_decisions w), w)"
  obtain x w1 where io: "io_call ?call w = (x, w1)" by fastforce
  moreover have "(case x of Some (Some r) \<Rightarrow> (Some r, w1) | _ \<Rightarrow> (None, w1)) = (res, w')"
    using assms io by (simp add: io_get_def split: option.splits)
  ultimately show ?thesis
    by (cases rule: io_call_cases) (auto split: option.splits)
qed

lemma io_clear_cases:
  assumes "io_clear_attempts cfg t w = (res, w')"
  shows "calm w w' \<and> same_log (w_store w) (w_store w') \<and> (res = None \<longrightarrow> w_io w \<noteq> [] \<and> length (w_io w') < length (w_io w))"
  using assms unfolding io_clear_attempts_def
  by (cases rule: io_call_cases)
     (auto simp: calm_def clear_reactor_attempts_def same_log_def length_greater_0_conv)

definition all_landed :: "recorded_event \<Rightarrow> event_data list \<Rightarrow> 'a world \<Rightarrow> bool" where
  "all_landed e outs w \<longleftrightarrow> (\<forall>out \<in> set outs. landed e (logged w) out)"

lemma all_landed_same_log: "all_landed e outs w \<Longrightarrow> same_log (w_store w) (w_store w') \<Longrightarrow> all_landed e outs w'"
  by (simp add: all_landed_def same_log_def)

lemma attempt_decided:
  assumes cfg: "xc_log cfg = memory_backend" and dec: "decided cfg e r w"
    and ap: "appendable e (dr_outputs r) (w_store w)"
    and run: "attempt_trigger cfg e fenced w = ((res, labels), w')"
  shows "calm w w' \<and> appendable e (dr_outputs r) (w_store w') \<and>
         grown_by e (dr_outputs r) (logged w) (logged w') \<and>
         (res = Some (Done (dr_parked r)) \<and> all_landed e (dr_outputs r) w' \<or>
          res = None \<and> length (w_io w') < length (w_io w))"
proof -
  have ds: "xc_decision_store cfg"
    and got: "get_decision (xc_codec cfg) (xc_consumer cfg) (re_event_id e) (w_decisions w) = Some (Some r)"
    using dec by (simp_all add: decided_def)
  obtain x where get: "io_get cfg (re_event_id e) w = (x, tick_io w)"
    and x: "x = Some (Some r) \<or> x = None \<and> w_io w \<noteq> []"
    using io_get_cases [of cfg "re_event_id e" w] got by (metis surj_pair)
  show ?thesis
  proof (cases x)
    case None
    then show ?thesis
      using run ds get x ap by (auto simp: attempt_trigger_def calm_def length_greater_0_conv)
  next
    case (Some y)
    obtain z w2 where app: "append_decision cfg e r (tick_io w) = (z, w2)" by fastforce
    have eff: "quiet (tick_io w) w2" "appendable e (dr_outputs r) (w_store w2)"
      "grown_by e (dr_outputs r) (logged w) (logged w2)"
      "z = Some r \<and> (\<forall>out \<in> set (dr_outputs r). landed e (logged w2) out) \<or>
       z = None \<and> length (w_io w2) < length (w_io (tick_io w))"
      using append_decision_effect [OF cfg _ app] ap by auto
    have c2: "calm w w2" using quiet_calm tick_io_quiet eff(1) quiet_trans by blast
    have le: "length (w_io (tick_io w)) \<le> length (w_io w)" by simp
    show ?thesis
    proof (cases z)
      case zNone: None
      then have "res = None" "w' = w2"
        using run ds get x Some app by (auto simp: attempt_trigger_def replay_decision_def)
      then show ?thesis using eff c2 zNone le by auto
    next
      case (Some r')
      obtain u w3 where clr: "io_clear_attempts cfg (re_event_id e) w2 = (u, w3)" by fastforce
      have "res = Some (Done (dr_parked r))" "w' = w3"
        using run ds get x \<open>x = Some y\<close> app Some eff(4) clr by (auto simp: attempt_trigger_def replay_decision_def)
      moreover have "calm w2 w3" "same_log (w_store w2) (w_store w3)" using io_clear_cases [OF clr] by simp_all
      moreover have "all_landed e (dr_outputs r) w2" using eff(4) Some by (auto simp: all_landed_def)
      moreover have "grown_by e (dr_outputs r) (logged w) (logged w3)"
        using eff(3) calculation(4) by (simp add: same_log_def)
      ultimately show ?thesis
        using c2 calm_trans appendable_same_log [OF eff(2)] all_landed_same_log by metis
    qed
  qed
qed

end
