(* ===== verification/Decision_Protocol.thy ===== *)
theory Decision_Protocol
  imports Reactor_Exec_Laws
begin

text \<open>
  The life of one trigger in a worker (\<open>modules/causal/src/reactor_runner.rs\<close>), under any schedule of I/O
  failures: nothing durable (\<open>clean\<close>), then one sealed record and only its outputs in the log
  (\<open>sealed_as\<close>). Each operation keeps that, by the lemmas named after it; \<open>process_parks\<close> counts the
  attempts of a failing body, and \<open>passes_converge\<close> is the log-wins reconciliation.
\<close>

section \<open>Replaying a sealed decision\<close>

lemma stop_poll_calm:
  assumes "stop_poll w = (b, w')"
  shows "calm w w' \<and> w_store w' = w_store w \<and> (set (w_stops w) \<subseteq> {False} \<longrightarrow> \<not> b)"
  using assms by (auto simp: stop_poll_def calm_def split: list.splits)

lemma poll_permit_calm:
  assumes "(if xc_max_in_flight cfg then stop_poll w else (False, w)) = (b, w')"
  shows "calm w w' \<and> w_store w' = w_store w \<and> (set (w_stops w) \<subseteq> {False} \<longrightarrow> \<not> b)"
  using assms stop_poll_calm [of w b w'] by (auto split: if_splits)

lemma note_calm:
  "calm w (note_worker_progress w)" "calm w (note_worker_retry m w)"
  "w_store (note_worker_progress w) = w_store w" "w_store (note_worker_retry m w) = w_store w"
  by (simp_all add: calm_def note_worker_progress_def note_worker_retry_def)

lemma note_frame [simp]:
  "w_store (note_worker_progress w) = w_store w" "w_store (note_worker_retry m w) = w_store w"
  "w_decisions (note_worker_progress w) = w_decisions w" "w_decisions (note_worker_retry m w) = w_decisions w"
  by (simp_all add: note_worker_progress_def note_worker_retry_def)

text \<open>One round of the loop, up to the attempt: halted, or an attempt from a world that agrees.\<close>

lemma process_loop_round:
  assumes "process_loop cfg e fenced (Suc fuel) n since used w = Some (res, w')"
  obtains (halted) "res = Halted" "calm w w'" "w_store w' = w_store w" "\<not> set (w_stops w) \<subseteq> {False}"
  | (tried) w2 x labels w3 where "calm w w2" "w_store w2 = w_store w"
      "attempt_trigger cfg e fenced w2 = ((x, labels), w3)"
      "(let used' = used @ filter (\<lambda>l. l \<notin> set used) (remdups labels) in
        case after_attempt_of cfg e since x w3 of
          (Finish parked, w4) \<Rightarrow> Some (Finished \<lparr> td_parked = parked, td_effect_labels = used' \<rparr>, w4)
        | (Again since', w4) \<Rightarrow>
            (case backoff_for (xc_policy cfg) (n + 1) of
               None \<Rightarrow> Some (WorkerPanicked, w4)
             | Some _ \<Rightarrow>
                 (case stop_poll w4 of
                    (True, w5) \<Rightarrow> Some (Halted, w5)
                  | (False, w5) \<Rightarrow> process_loop cfg e fenced fuel (n + 1) since' used' w5)))
       = Some (res, w')"
proof -
  obtain b w1 where p: "stop_poll w = (b, w1)" by fastforce
  obtain b' w2 where q: "(if xc_max_in_flight cfg then stop_poll w1 else (False, w1)) = (b', w2)" by fastforce
  obtain x labels w3 where a: "attempt_trigger cfg e fenced w2 = ((x, labels), w3)" by (metis surj_pair)
  note c1 = stop_poll_calm [OF p] and c2 = poll_permit_calm [OF q]
  have c: "calm w w2" "w_store w2 = w_store w" using c1 c2 calm_trans by auto
  show ?thesis
  proof (cases b)
    case True
    then have "res = Halted" "w' = w1" using assms p by simp_all
    then show ?thesis using halted c1 True by simp
  next
    case nb: False
    show ?thesis
    proof (cases b')
      case True
      then have "res = Halted" "w' = w2" using assms p q nb by simp_all
      moreover have "\<not> set (w_stops w) \<subseteq> {False}" using c1 c2 True by (auto simp: calm_def)
      ultimately show ?thesis using halted c by simp
    next
      case False
      then show ?thesis using tried [OF c a] assms p q a nb by simp
    qed
  qed
qed

lemma process_decided:
  assumes cfg: "xc_log cfg = memory_backend"
  shows "\<lbrakk> decided cfg e r w; appendable e (dr_outputs r) (w_store w);
           process_loop cfg e fenced fuel n since used w = Some (res, w') \<rbrakk> \<Longrightarrow>
         calm w w' \<and> appendable e (dr_outputs r) (w_store w') \<and>
         grown_by e (dr_outputs r) (logged w) (logged w') \<and>
         (\<forall>td. res = Finished td \<longrightarrow> td_parked td = dr_parked r \<and> all_landed e (dr_outputs r) w')"
proof (induction fuel arbitrary: n since used w)
  case (Suc fuel)
  from Suc.prems(3) show ?case
  proof (cases rule: process_loop_round)
    case halted
    then show ?thesis using Suc.prems(2) by simp
  next
    case (tried w2 x labels w3)
    have dec2: "decided cfg e r w2" by (rule decided_calm [OF Suc.prems(1) tried(1)])
    have eff: "calm w2 w3" "appendable e (dr_outputs r) (w_store w3)"
      "grown_by e (dr_outputs r) (logged w) (logged w3)"
      "x = Some (Done (dr_parked r)) \<and> all_landed e (dr_outputs r) w3 \<or>
       x = None \<and> length (w_io w3) < length (w_io w2)"
      using attempt_decided [OF cfg dec2 _ tried(3)] Suc.prems(2) tried(2) by auto
    have c3: "calm w w3" using tried(1) eff(1) calm_trans by blast
    show ?thesis
    proof (cases x)
      case (Some y)
      then have "res = Finished \<lparr> td_parked = dr_parked r,
          td_effect_labels = used @ filter (\<lambda>l. l \<notin> set used) (remdups labels) \<rparr>"
        "w' = note_worker_progress w3"
        using tried(4) eff(4) by (auto simp: after_attempt_of_def Let_def)
      then show ?thesis
        using eff(2-4) c3 note_calm [where w = w3] calm_trans [OF c3] Some by (auto simp: all_landed_def)
    next
      case None
      define m where "m = ''reactor runner infrastructure error''"
      obtain b w5 where p: "stop_poll (note_worker_retry m w3) = (b, w5)" by fastforce
      have c5: "calm w w5" "w_store w5 = w_store w3"
        using stop_poll_calm [OF p] note_calm(2,4) [where w = w3 and m = m] c3 calm_trans by metis+
      show ?thesis
      proof (cases "backoff_for (xc_policy cfg) (n + 1)")
        case bNone: None
        then have "w' = note_worker_retry m w3" "\<forall>td. res \<noteq> Finished td"
          using tried(4) None by (auto simp: after_attempt_of_def Let_def m_def)
        then show ?thesis using eff(2,3) note_calm(2,4) [where w = w3 and m = m] c3 calm_trans by auto
      next
        case (Some d)
        show ?thesis
        proof (cases b)
          case True
          then have "w' = w5" "\<forall>td. res \<noteq> Finished td"
            using tried(4) None Some p by (auto simp: after_attempt_of_def Let_def m_def)
          then show ?thesis using eff(2,3) c5 by simp
        next
          case False
          have "\<exists>since' used'. process_loop cfg e fenced fuel (n + 1) since' used' w5 = Some (res, w')"
            using tried(4) None Some p False by (auto simp: after_attempt_of_def Let_def m_def)
          then obtain since' used' where
            rest: "process_loop cfg e fenced fuel (n + 1) since' used' w5 = Some (res, w')" by blast
          have ih: "calm w5 w'" "appendable e (dr_outputs r) (w_store w')"
            "grown_by e (dr_outputs r) (logged w5) (logged w')"
            "\<forall>td. res = Finished td \<longrightarrow> td_parked td = dr_parked r \<and> all_landed e (dr_outputs r) w'"
            using Suc.IH [OF decided_calm [OF Suc.prems(1) c5(1)] _ rest] eff(2) c5(2) by simp_all
          have "grown_by e (dr_outputs r) (logged w) (logged w')"
            using grown_by_trans [OF eff(3)] ih(3) c5(2) by simp
          then show ?thesis using calm_trans [OF c5(1) ih(1)] ih(2,4) by simp
        qed
      qed
    qed
  qed
qed simp

text \<open>Each attempt that does not finish uses up a fault, so finitely many faults cannot keep it.\<close>

lemma process_decided_returns:
  assumes cfg: "xc_log cfg = memory_backend" and policy: "\<And>k. backoff_for (xc_policy cfg) k \<noteq> None"
  shows "\<lbrakk> decided cfg e r w; appendable e (dr_outputs r) (w_store w); set (w_stops w) \<subseteq> {False};
           length (w_io w) < fuel \<rbrakk> \<Longrightarrow>
         \<exists>td w'. process_loop cfg e fenced fuel n since used w = Some (Finished td, w')"
proof (induction fuel arbitrary: n since used w)
  case (Suc fuel)
  obtain b w1 where p: "stop_poll w = (b, w1)" by fastforce
  obtain b' w2 where q: "(if xc_max_in_flight cfg then stop_poll w1 else (False, w1)) = (b', w2)" by fastforce
  obtain x labels w3 where a: "attempt_trigger cfg e fenced w2 = ((x, labels), w3)" by (metis surj_pair)
  note c1 = stop_poll_calm [OF p] and c2 = poll_permit_calm [OF q]
  have nb: "\<not> b" "\<not> b'" using c1 c2 Suc.prems(3) by (auto simp: calm_def)
  have c: "calm w w2" "w_store w2 = w_store w" using c1 c2 calm_trans by auto
  have eff: "calm w2 w3" "appendable e (dr_outputs r) (w_store w3)"
    "x = Some (Done (dr_parked r)) \<or> x = None \<and> length (w_io w3) < length (w_io w2)"
    using attempt_decided [OF cfg decided_calm [OF Suc.prems(1) c(1)] _ a] Suc.prems(2) c(2) by auto
  show ?case
  proof (cases x)
    case (Some y)
    then show ?thesis using p q a nb eff(3) by (simp add: after_attempt_of_def Let_def)
  next
    case None
    define m where "m = ''reactor runner infrastructure error''"
    obtain b5 w5 where p5: "stop_poll (note_worker_retry m w3) = (b5, w5)" by fastforce
    note c5 = stop_poll_calm [OF p5]
    have cw5: "calm w w5" using c(1) eff(1) c5 note_calm(2) [where w = w3 and m = m] calm_trans by blast
    have "set (w_stops (note_worker_retry m w3)) \<subseteq> {False}"
      using c(1) eff(1) Suc.prems(3) by (auto simp: calm_def note_worker_retry_def)
    then have nb5: "\<not> b5" using c5 by simp
    have "length (w_io w5) \<le> length (w_io w3)" using c5 by (simp add: calm_def note_worker_retry_def)
    also have "\<dots> < length (w_io w2)" using eff(3) None by simp
    also have "\<dots> \<le> length (w_io w)" using c(1) by (simp add: calm_def)
    finally have "length (w_io w5) < fuel" using Suc.prems(4) by simp
    moreover have "set (w_stops w5) \<subseteq> {False}" using cw5 Suc.prems(3) by (auto simp: calm_def)
    moreover have "appendable e (dr_outputs r) (w_store w5)"
      using eff(2) c5 note_calm(4) [where w = w3 and m = m] by simp
    ultimately have "\<exists>td w'. process_loop cfg e fenced fuel (n + 1) since' used' w5 = Some (Finished td, w')"
      for since' used' using Suc.IH decided_calm [OF Suc.prems(1) cw5] by blast
    moreover obtain d where "backoff_for (xc_policy cfg) (n + 1) = Some d" using policy by blast
    ultimately show ?thesis
      using p q a nb None p5 nb5 by (simp add: after_attempt_of_def Let_def m_def)
  qed
qed simp

section \<open>Sealing\<close>

abbreviation undecided :: "('t, 'a) exec_config \<Rightarrow> recorded_event \<Rightarrow> 'a world \<Rightarrow> bool" where
  "undecided cfg e w \<equiv> hget (w_decisions w) (xc_consumer cfg, re_event_id e) = None"

lemma undecided_get:
  "undecided cfg e w \<Longrightarrow>
     get_decision (xc_codec cfg) (xc_consumer cfg) (re_event_id e) (w_decisions w) = Some None"
  by (simp add: get_decision_def)

lemma decided_not_undecided: "decided cfg e r w \<Longrightarrow> \<not> undecided cfg e w"
  by (auto simp: decided_def get_decision_def split: option.splits)

lemma io_seal_undecided:
  assumes cd: "codec_ok (xc_codec cfg)" and ds: "xc_decision_store cfg" and un: "undecided cfg e w"
    and r: "dr_consumer r = xc_consumer cfg" "dr_trigger r = re_event_id e"
    and io: "io_seal cfg r w = (res, w')"
  shows "w_store w' = w_store w \<and> w_runs w' = w_runs w \<and> w_stops w' = w_stops w \<and>
         length (w_io w') \<le> length (w_io w) \<and>
         (undecided cfg e w' \<and> res = None \<and> w_io w \<noteq> [] \<or>
          decided cfg e (durable_record r) w' \<and>
            (res = Some (durable_record r) \<or> res = None \<and> w_io w \<noteq> []))"
proof -
  let ?m = "snd (seal (xc_codec cfg) r (w_decisions w))"
  let ?call = "\<lambda>w. case seal (xc_codec cfg) r (w_decisions w) of (x, m) \<Rightarrow> (x, w\<lparr> w_decisions := m \<rparr>)"
  have abs: "fst (seal (xc_codec cfg) r (w_decisions w)) = Some (durable_record r)"
    using seal_absent [OF cd] un r by simp
  have dec: "decided cfg e (durable_record r) w1" if "w_decisions w1 = ?m" for w1 :: "'b world"
    using get_after_seal [of "xc_codec cfg" r "w_decisions w"] abs r ds that by (simp add: decided_def)
  have call: "?call (tick_io w) = (Some (durable_record r), (tick_io w)\<lparr> w_decisions := ?m \<rparr>)"
    using abs by (cases "seal (xc_codec cfg) r (w_decisions w)") simp
  obtain x w1 where c: "io_call ?call w = (x, w1)" by fastforce
  have eq: "(case x of Some (Some r') \<Rightarrow> (Some r', w1) | _ \<Rightarrow> (None, w1)) = (res, w')"
    using io c by (simp add: io_seal_def split: option.splits)
  from c show ?thesis
  proof (cases rule: io_call_cases)
    case (ok y)
    then have "w' = (tick_io w)\<lparr> w_decisions := ?m \<rparr>" "res = Some (durable_record r)" using eq call by auto
    then show ?thesis using dec by simp
  next
    case before
    then show ?thesis using eq un by auto
  next
    case after
    then have "w' = (tick_io w)\<lparr> w_decisions := ?m \<rparr>" "res = None" using eq call by auto
    then show ?thesis using dec after(2) by simp
  qed
qed

section \<open>One decision per trigger\<close>

definition derived :: "('t, 'a) exec_config \<Rightarrow> recorded_event \<Rightarrow> uuid \<Rightarrow> bool" where
  "derived cfg e i \<longleftrightarrow>
     (\<exists>kind sid n. i = derive_output_event_id (xc_v5 cfg) (xc_consumer cfg) (re_event_id e) kind sid n)"

lemma derived_self [simp]:
  "derived cfg e (derive_output_event_id (xc_v5 cfg) (xc_consumer cfg) (re_event_id e) kind sid n)"
  by (auto simp: derived_def)

definition own_outputs :: "('t, 'a) exec_config \<Rightarrow> recorded_event \<Rightarrow> nat \<Rightarrow> event_data list \<Rightarrow> bool" where
  "own_outputs cfg e N outs \<longleftrightarrow> distinct (map ed_event_id outs) \<and> length outs \<le> N \<and>
     (\<forall>out \<in> set outs. derived cfg e (ed_event_id out))"

text \<open>Nothing of the trigger is durable yet; or one record is, and the log has only its outputs.\<close>

definition clean :: "('t, 'a) exec_config \<Rightarrow> recorded_event \<Rightarrow> nat \<Rightarrow> recorded_event list \<Rightarrow> 'a world \<Rightarrow> bool" where
  "clean cfg e N rows w \<longleftrightarrow> undecided cfg e w \<and> logged w = rows \<and> log_inv (w_store w) \<and>
     log_room N (w_store w) \<and> (\<forall>row \<in> set rows. \<not> derived cfg e (re_event_id row))"

definition sealed_as ::
  "('t, 'a) exec_config \<Rightarrow> recorded_event \<Rightarrow> recorded_event list \<Rightarrow> decision_record \<Rightarrow> 'a world \<Rightarrow> bool" where
  "sealed_as cfg e rows r w \<longleftrightarrow> decided cfg e r w \<and> appendable e (dr_outputs r) (w_store w) \<and>
     grown_by e (dr_outputs r) rows (logged w)"

definition body_ok :: "('t, 'a) exec_config \<Rightarrow> recorded_event \<Rightarrow> nat \<Rightarrow> bool" where
  "body_ok cfg e N \<longleftrightarrow> 1 \<le> N \<and>
     (\<forall>n t s f outs now. rx_outcome (xc_react cfg n e t s f) = BodyOk outs \<longrightarrow>
        length outs \<le> N \<and>
        distinct (map ed_event_id (build_output_events cfg e (causation_depth_of (re_metadata e)) now [] outs)))"

lemma length_build_outputs [simp]: "length (build_output_events cfg e depth now seen outs) = length outs"
  by (induction outs arbitrary: seen) (simp_all add: Let_def)

lemma build_outputs_derived:
  "out \<in> set (build_output_events cfg e depth now seen outs) \<Longrightarrow> derived cfg e (ed_event_id out)"
proof (induction outs arbitrary: seen)
  case (Cons o' outs)
  then show ?case by (cases "out \<in> set (build_output_events cfg e depth now
        (hput (eo_durable_name o', eo_subject_id o')
          ((case hget seen (eo_durable_name o', eo_subject_id o') of Some k \<Rightarrow> k | None \<Rightarrow> 0) + 1) seen) outs)")
      (auto simp: Let_def)
qed simp

lemma body_own_outputs:
  assumes "body_ok cfg e N" "rx_outcome (xc_react cfg n e t s f) = BodyOk outs"
  shows "own_outputs cfg e N (build_output_events cfg e (causation_depth_of (re_metadata e)) now [] outs)"
  using assms build_outputs_derived by (fastforce simp: own_outputs_def body_ok_def)

lemma own_appendable:
  assumes "clean cfg e N rows w" "own_outputs cfg e N outs"
  shows "appendable e outs (w_store w)"
proof -
  have "agrees e rows out" if "out \<in> set outs" for out
    using assms that by (auto simp: agrees_def clean_def own_outputs_def)
  moreover have "length (filter (\<lambda>out. \<not> landed e rows out) outs) \<le> N"
    using assms(2) length_filter_le [of _ outs] by (meson order_trans own_outputs_def)
  ultimately show ?thesis
    using assms by (auto simp: appendable_def clean_def own_outputs_def log_room_def)
qed

lemma clean_frame:
  assumes "clean cfg e N rows w" "w_decisions w' = w_decisions w" "same_log (w_store w) (w_store w')"
  shows "clean cfg e N rows w'"
  using assms(1) same_log_inv [OF assms(3)] assms(2,3) unfolding clean_def log_room_def
  by (auto simp: same_log_def)

lemma sealed_as_calm:
  assumes "sealed_as cfg e rows r w" "calm w w'" "same_log (w_store w) (w_store w')"
  shows "sealed_as cfg e rows r w'"
  using assms decided_calm appendable_same_log unfolding sealed_as_def same_log_def by metis

lemma seal_clean:
  assumes cd: "codec_ok (xc_codec cfg)" and ds: "xc_decision_store cfg" and cl: "clean cfg e N rows w"
    and r: "dr_consumer r = xc_consumer cfg" "dr_trigger r = re_event_id e"
    and own: "own_outputs cfg e N (dr_outputs r)" and io: "io_seal cfg r w = (res, w')"
  shows "(clean cfg e N rows w' \<and> res = None \<or>
          sealed_as cfg e rows (durable_record r) w' \<and> (res = Some (durable_record r) \<or> res = None)) \<and>
         w_runs w' = w_runs w \<and> w_stops w' = w_stops w \<and> length (w_io w') \<le> length (w_io w) \<and>
         (res = None \<longrightarrow> w_io w \<noteq> [])"
proof -
  have un: "undecided cfg e w" using cl by (simp add: clean_def)
  note seal = io_seal_undecided [OF cd ds un r io]
  have "own_outputs cfg e N (dr_outputs (durable_record r))"
    using own by (simp add: own_outputs_def durable_record_def comp_def)
  then have "appendable e (dr_outputs (durable_record r)) (w_store w)" by (rule own_appendable [OF cl])
  then show ?thesis
    using seal cl by (auto simp: sealed_as_def clean_def)
qed

lemma append_sealed:
  assumes cfg: "xc_log cfg = memory_backend" and sl: "sealed_as cfg e rows r w"
    and run: "append_decision cfg e r w = (res, w')"
  shows "sealed_as cfg e rows r w' \<and> calm w w' \<and>
         (res = Some r \<and> all_landed e (dr_outputs r) w' \<or> res = None \<and> w_io w \<noteq> [])"
proof -
  have "appendable e (dr_outputs r) (w_store w)" using sl by (simp add: sealed_as_def)
  note eff = append_decision_effect [OF cfg this run]
  have "calm w w'" using eff quiet_calm by blast
  moreover have "grown_by e (dr_outputs r) rows (logged w')"
    using sl eff grown_by_trans unfolding sealed_as_def by blast
  ultimately show ?thesis
    using sl eff decided_calm by (auto simp: sealed_as_def all_landed_def)
qed

text \<open>What an attempt answers, against what is durable.\<close>

definition attempt_sound ::
  "('t, 'a) exec_config \<Rightarrow> recorded_event \<Rightarrow> nat \<Rightarrow> recorded_event list \<Rightarrow> attempt_outcome option \<Rightarrow> 'a world \<Rightarrow> bool" where
  "attempt_sound cfg e N rows res w \<longleftrightarrow>
     clean cfg e N rows w \<and> (\<forall>p. res = Some (Done p) \<longrightarrow> \<not> p) \<or>
     (\<exists>r. sealed_as cfg e rows r w \<and>
        (res = None \<or> res = Some (Done (dr_parked r)) \<and> all_landed e (dr_outputs r) w))"

lemma decide_sound:
  assumes cd: "codec_ok (xc_codec cfg)" and ds: "xc_decision_store cfg" and cfg: "xc_log cfg = memory_backend"
    and cl: "clean cfg e N rows w"
    and own: "\<And>now. own_outputs cfg e N
                 (build_output_events cfg e (causation_depth_of (re_metadata e)) now [] emitted)"
    and run: "decide_and_append cfg e attempt consulted emitted w = (res, w')"
  shows "attempt_sound cfg e N rows res w'"
proof -
  obtain now w1 where c1: "clock_now cfg w = (now, w1)" by fastforce
  obtain at2 w2 where c2: "clock_now cfg w1 = (at2, w2)" by fastforce
  define r where "r = decision_new (xc_consumer cfg) (re_event_id e) (re_position e)
      (build_output_events cfg e (causation_depth_of (re_metadata e)) now [] emitted) at2"
  have cl2: "clean cfg e N rows w2"
    by (rule clean_frame [OF cl]) (use c1 c2 in \<open>auto simp: clock_now_def same_log_def\<close>)
  obtain x w3 where sl: "io_seal cfg r w2 = (x, w3)" by fastforce
  have s3: "clean cfg e N rows w3 \<and> x = None \<or>
      sealed_as cfg e rows (durable_record r) w3 \<and> (x = Some (durable_record r) \<or> x = None)"
    using seal_clean [OF cd ds cl2 _ _ _ sl] own by (simp add: r_def decision_new_def)
  show ?thesis
  proof (cases "res = None \<or> (\<exists>p. res = Some (Done p))")
    case False
    then have "w' = w"
      using run c1 c2 sl ds unfolding decide_and_append_def Let_def r_def
      by (auto split: option.splits if_splits prod.splits)
    then show ?thesis using cl False by (simp add: attempt_sound_def)
  next
    case True
    then have alt: "res = Some (Done False) \<and> w' = w2 \<or>
        (case x of None \<Rightarrow> (None, w3) | Some sealed \<Rightarrow>
           (case append_decision cfg e sealed w3 of
              (None, w4) \<Rightarrow> (None, w4) | (Some r', w4) \<Rightarrow> (Some (Done (dr_parked r')), w4))) = (res, w')"
      using run c1 c2 sl ds unfolding decide_and_append_def Let_def r_def
      by (auto split: option.splits if_splits)
    show ?thesis
    proof (cases x)
      case None
      then show ?thesis using alt s3 cl2 by (auto simp: attempt_sound_def)
    next
      case (Some sealed)
      obtain y w4 where ap: "append_decision cfg e (durable_record r) w3 = (y, w4)" by fastforce
      have s3': "sealed = durable_record r" "sealed_as cfg e rows (durable_record r) w3" using s3 Some by auto
      note eff = append_sealed [OF cfg s3'(2) ap]
      show ?thesis
        using alt Some s3'(1) ap eff cl2 by (cases y) (auto simp: attempt_sound_def)
    qed
  qed
qed

lemma observer_same_log:
  "same_log s (reactor_started i c wfl n st s)" "same_log s (reactor_completed i c wfl n st et logs s)"
  "same_log s (reactor_failed i c wfl n st et err logs s)" "same_log s (reactor_terminal_failure i c n err t s)"
  "same_log s (reactor_divergence i c wfl d t s)" "same_log s (reactor_description wfl pos i c j s)"
  "same_log s (snd (record_reactor_attempt c i s))" "same_log s (clear_reactor_attempts c i s)"
  by (auto simp: same_log_def reactor_started_def reactor_completed_def reactor_failed_def
      reactor_terminal_failure_def reactor_divergence_def reactor_description_def adjust_execution_def
      push_logs_def record_reactor_attempt_def clear_reactor_attempts_def Let_def split: option.split)

lemma observe_frame:
  assumes "\<And>s. same_log s (f s)"
  shows "same_log (w_store w) (w_store (observe cfg f w))" "w_decisions (observe cfg f w) = w_decisions w"
    "w_runs (observe cfg f w) = w_runs w" "w_io (observe cfg f w) = w_io w"
  using assms by (simp_all add: observe_def)

lemma clean_observe:
  assumes "clean cfg e N rows w" "\<And>s. same_log s (f s)"
  shows "clean cfg e N rows (observe cfg' f w)"
  by (rule clean_frame [OF assms(1)]) (simp_all add: observe_frame assms(2))

lemma run_body_sound:
  assumes cd: "codec_ok (xc_codec cfg)" and ds: "xc_decision_store cfg" and cfg: "xc_log cfg = memory_backend"
    and body: "body_ok cfg e N" and cl: "clean cfg e N rows w"
    and run: "run_body cfg e t attempt started_at w = ((res, labels), w')"
  shows "attempt_sound cfg e N rows res w'"
proof -
  let ?i = "re_event_id e"
  define w1 where "w1 = observe cfg (reactor_started ?i (xc_consumer cfg) (re_workflow_id e) attempt started_at) w"
  define w2 where "w2 = (case xc_describe cfg t of
      Some d \<Rightarrow> observe cfg (reactor_description (re_workflow_id e) (re_position e) ?i (xc_consumer cfg) d) w1
    | None \<Rightarrow> w1)"
  define rx where "rx = xc_react cfg (w_runs w2) e t (w_store w2) (w_effects w2)"
  define w3 where "w3 = w2\<lparr> w_runs := Suc (w_runs w2), w_effects := rx_effects rx \<rparr>"
  obtain et w4 where c4: "clock_now cfg w3 = (et, w4)" by fastforce
  have cl1: "clean cfg e N rows w1"
    unfolding w1_def by (rule clean_observe [OF cl observer_same_log(1)])
  have cl2: "clean cfg e N rows w2"
    unfolding w2_def by (auto split: option.split intro!: clean_observe [OF cl1 observer_same_log(6)] cl1)
  have cl4: "clean cfg e N rows w4"
    by (rule clean_frame [OF cl2]) (use c4 in \<open>auto simp: clock_now_def w3_def\<close>)
  note steps = run [unfolded run_body_def Let_def, folded w1_def, folded w2_def, folded rx_def, folded w3_def]
  show ?thesis
  proof (cases "body_result cfg e (rx_outcome rx)")
    case (Inl err)
    define w5 where "w5 = observe cfg (reactor_failed ?i (xc_consumer cfg) (re_workflow_id e) attempt started_at
        et (bounded_error_chain err) (rx_logs rx)) w4"
    have "res = Some (BodyFailed err attempt)" "w' = w5" using steps Inl c4 by (simp_all add: w5_def)
    moreover have "clean cfg e N rows w5"
      unfolding w5_def by (rule clean_observe [OF cl4 observer_same_log(3)])
    ultimately show ?thesis by (simp add: attempt_sound_def)
  next
    case (Inr emitted)
    then have outcome: "rx_outcome rx = BodyOk emitted"
      by (cases "rx_outcome rx") (simp_all add: body_result_def)
    define w5 where "w5 = observe cfg (reactor_completed ?i (xc_consumer cfg) (re_workflow_id e) attempt started_at
        et (rx_logs rx)) w4"
    have cl5: "clean cfg e N rows w5"
      unfolding w5_def by (rule clean_observe [OF cl4 observer_same_log(2)])
    obtain u w6 where clr: "io_clear_attempts cfg ?i w5 = (u, w6)" by fastforce
    have cl6: "clean cfg e N rows w6"
      by (rule clean_frame [OF cl5]) (use io_clear_cases [OF clr] in \<open>simp_all add: calm_def\<close>)
    obtain x w7 where dec: "decide_and_append cfg e attempt (rx_fence_consulted rx) emitted w6 = (x, w7)"
      by fastforce
    have "attempt_sound cfg e N rows x w7"
      using decide_sound [OF cd ds cfg cl6 _ dec] body_own_outputs [OF body] outcome unfolding rx_def by blast
    moreover have "res = None \<and> w' = w6 \<or> res = x \<and> w' = w7"
      using steps Inr c4 clr dec by (cases u) (simp_all add: w5_def)
    ultimately show ?thesis using cl6 by (auto simp: attempt_sound_def)
  qed
qed

lemma io_record_frame:
  assumes "io_record_attempt cfg t w = (res, w')"
  shows "same_log (w_store w) (w_store w') \<and> w_decisions w' = w_decisions w \<and> w_runs w' = w_runs w \<and>
         length (w_io w') \<le> length (w_io w)"
  using assms unfolding io_record_attempt_def
  by (cases rule: io_call_cases)
     (auto simp: record_reactor_attempt_def same_log_def Let_def)

lemma attempt_clean:
  assumes cd: "codec_ok (xc_codec cfg)" and ds: "xc_decision_store cfg" and cfg: "xc_log cfg = memory_backend"
    and body: "body_ok cfg e N" and cl: "clean cfg e N rows w"
    and run: "attempt_trigger cfg e fenced w = ((res, labels), w')"
  shows "attempt_sound cfg e N rows res w'"
proof -
  have un: "undecided cfg e w" using cl by (simp add: clean_def)
  obtain x where get: "io_get cfg (re_event_id e) w = (x, tick_io w)" and x: "x = Some None \<or> x = None"
    using io_get_cases [of cfg "re_event_id e" w] undecided_get [OF un] by (metis surj_pair)
  have cl1: "clean cfg e N rows (tick_io w)" by (rule clean_frame [OF cl]) simp_all
  obtain y w2 where rec: "io_record_attempt cfg (re_event_id e) (tick_io w) = (y, w2)" by fastforce
  have cl2: "clean cfg e N rows w2" by (rule clean_frame [OF cl1]) (use io_record_frame [OF rec] in simp_all)
  obtain st w3 where c3: "clock_now cfg w2 = (st, w3)" by fastforce
  have cl3: "clean cfg e N rows w3"
    by (rule clean_frame [OF cl2]) (use c3 in \<open>auto simp: clock_now_def\<close>)
  have alt: "(\<exists>z. res = z \<and> (\<forall>p. z = Some (Done p) \<longrightarrow> \<not> p) \<and> w' \<in> {tick_io w, w2, w3}) \<or>
      (\<exists>t att. run_body cfg e t att st w3 = ((res, labels), w'))"
    using run get x ds rec c3 unfolding attempt_trigger_def first_delivery_def
    by (auto split: if_splits option.splits)
  then show ?thesis
  proof
    assume "\<exists>t att. run_body cfg e t att st w3 = ((res, labels), w')"
    then show ?thesis using run_body_sound [OF cd ds cfg body cl3] by blast
  qed (use cl1 cl2 cl3 in \<open>auto simp: attempt_sound_def\<close>)
qed

lemma park_sound:
  assumes cd: "codec_ok (xc_codec cfg)" and ds: "xc_decision_store cfg" and cfg: "xc_log cfg = memory_backend"
    and N: "1 \<le> N" and cl: "clean cfg e N rows w"
    and run: "park_terminal_failure cfg e attempts error class completed_at w = (res, w')"
  shows "(clean cfg e N rows w' \<and> res = None \<or>
          (\<exists>r. sealed_as cfg e rows r w' \<and> dr_parked r \<and>
             (res = None \<or> res = Some True \<and> all_landed e (dr_outputs r) w'))) \<and>
         w_runs w' = w_runs w \<and> set (w_stops w') \<subseteq> set (w_stops w) \<and> length (w_io w') \<le> length (w_io w) \<and>
         (w_io w = [] \<and> terminal_parts cfg e attempts error class \<noteq> None \<longrightarrow> res \<noteq> None)"
proof (cases "terminal_parts cfg e attempts error class")
  case None
  then show ?thesis using run cl by (simp add: park_terminal_failure_def)
next
  case (Some parts)
  obtain outs w1 where o: "terminal_outputs cfg e parts w = (outs, w1)" by fastforce
  obtain now w2 where c2: "clock_now cfg w1 = (now, w2)" by fastforce
  define rec0 where "rec0 = with_parked True (decision_new (xc_consumer cfg) (re_event_id e) (re_position e) outs now)"
  have rec0: "dr_consumer rec0 = xc_consumer cfg" "dr_trigger rec0 = re_event_id e" "dr_outputs rec0 = outs"
    by (simp_all add: rec0_def with_parked_def decision_new_def)
  have f2: "w_decisions w2 = w_decisions w" "w_store w2 = w_store w" "w_runs w2 = w_runs w"
    "w_stops w2 = w_stops w" "w_io w2 = w_io w"
    using o c2 by (auto simp: clock_now_def terminal_outputs_def split: option.splits)
  have cl2: "clean cfg e N rows w2" by (rule clean_frame [OF cl]) (simp_all add: f2)
  have own: "own_outputs cfg e N (dr_outputs rec0)"
    using o N by (auto simp: rec0 own_outputs_def terminal_outputs_def terminal_event_def clock_now_def
        split: option.splits prod.splits)
  obtain x w3 where sl: "io_seal cfg rec0 w2 = (x, w3)" by fastforce
  note s3 = seal_clean [OF cd ds cl2 rec0(1,2) own sl]
  note run1 = run [unfolded park_terminal_failure_def Some option.simps o prod.case c2 Let_def, folded rec0_def]
  show ?thesis
  proof (cases x)
    case None
    then have "res = None" "w' = w3" using run1 ds sl by simp_all
    moreover have "dr_parked (durable_record rec0)"
      by (simp add: durable_record_def rec0_def with_parked_def)
    ultimately show ?thesis using s3 None f2 by auto
  next
    case (Some sealed)
    have parked: "dr_parked (durable_record rec0)"
      by (simp add: durable_record_def rec0_def with_parked_def)
    have sealed: "sealed = durable_record rec0" "sealed_as cfg e rows (durable_record rec0) w3"
      using s3 Some by auto
    obtain y w4 where ap: "append_decision cfg e (durable_record rec0) w3 = (y, w4)" by fastforce
    note eff = append_sealed [OF cfg sealed(2) ap]
    show ?thesis
    proof (cases y)
      case yNone: None
      then have "res = None" "w' = w4" using run1 ds sl Some sealed(1) ap by simp_all
      moreover have "w_io w3 = [] \<Longrightarrow> False" using eff yNone by simp
      ultimately show ?thesis using eff s3 f2 parked by (auto simp: calm_def)
    next
      case (Some r')
      then have r': "r' = durable_record rec0" "all_landed e (dr_outputs (durable_record rec0)) w4" using eff by auto
      define w5 where "w5 = (if (\<not> xc_decision_store cfg \<or>
             outputs_to_json (xc_codec cfg) (dr_outputs (durable_record rec0)) =
               outputs_to_json (xc_codec cfg) (dr_outputs rec0) \<and> dr_parked (durable_record rec0)) \<and>
             dr_parked (durable_record rec0) \<and> xc_observer cfg
           then (on_store (reactor_terminal_failure (re_event_id e) (xc_consumer cfg) attempts error completed_at) w4)
                  \<lparr> w_parked := w_parked w4 @ [re_event_id e] \<rparr>
           else w4)"
      have f5: "same_log (w_store w4) (w_store w5)" "w_decisions w5 = w_decisions w4"
        by (simp_all add: w5_def observer_same_log(4))
      obtain u w6 where clr: "io_clear_attempts cfg (re_event_id e) w5 = (u, w6)" by fastforce
      note f6 = io_clear_cases [OF clr]
      have res_u: "w' = w6" "res = (case u of None \<Rightarrow> None | Some _ \<Rightarrow> Some (dr_parked (durable_record rec0)))"
        using run1 [unfolded if_P [OF ds] sl prod.case \<open>x = Some sealed\<close> sealed(1) option.simps ap Some r'(1),
            folded w5_def, unfolded clr prod.case]
        by (cases u; simp)+
      have sl46: "same_log (w_store w4) (w_store w6)" "w_decisions w6 = w_decisions w4"
        using f5 f6 same_log_trans by (auto simp: calm_def)
      have "sealed_as cfg e rows (durable_record rec0) w6"
        using eff sl46 appendable_same_log unfolding sealed_as_def decided_def same_log_def by metis
      moreover have "all_landed e (dr_outputs (durable_record rec0)) w6"
        by (rule all_landed_same_log [OF r'(2) sl46(1)])
      moreover have w5: "w_runs w5 = w_runs w4" "w_stops w5 = w_stops w4" "w_io w5 = w_io w4"
        by (simp_all add: w5_def)
      have frame: "w_runs w6 = w_runs w" "set (w_stops w6) \<subseteq> set (w_stops w)" "length (w_io w6) \<le> length (w_io w)"
        using conjunct1 [OF f6] conjunct1 [OF conjunct2 [OF eff]] s3 f2 w5 by (auto simp: calm_def)
      have "w_io w = [] \<Longrightarrow> u \<noteq> None"
        using f6 w5(3) conjunct1 [OF conjunct2 [OF eff]] s3 f2 by (auto simp: calm_def)
      then have "w_io w = [] \<Longrightarrow> res \<noteq> None" using res_u(2) by (auto split: option.splits)
      moreover have "res = None \<or> res = Some True" using res_u(2) parked by (simp split: option.split)
      ultimately show ?thesis using frame parked unfolding res_u(1) by blast
    qed
  qed
qed

definition run_sound ::
  "('t, 'a) exec_config \<Rightarrow> recorded_event \<Rightarrow> nat \<Rightarrow> recorded_event list \<Rightarrow> process_result \<Rightarrow> 'a world \<Rightarrow> bool" where
  "run_sound cfg e N rows res w \<longleftrightarrow>
     clean cfg e N rows w \<and> (\<forall>td. res = Finished td \<longrightarrow> \<not> td_parked td) \<or>
     (\<exists>r. sealed_as cfg e rows r w \<and>
        (\<forall>td. res = Finished td \<longrightarrow> td_parked td = dr_parked r \<and> all_landed e (dr_outputs r) w))"

lemma after_failure_sound:
  assumes cd: "codec_ok (xc_codec cfg)" and ds: "xc_decision_store cfg" and cfg: "xc_log cfg = memory_backend"
    and N: "1 \<le> N" and cl: "clean cfg e N rows w"
    and run: "after_failure cfg e since err attempts w = (x, w')"
  shows "clean cfg e N rows w' \<and> (\<exists>t. x = Again t) \<or>
         (\<exists>r. sealed_as cfg e rows r w' \<and>
            ((\<exists>t. x = Again t) \<or> x = Finish (dr_parked r) \<and> all_landed e (dr_outputs r) w'))"
proof -
  obtain over since' w1 where t: "transient_clock cfg (classify err) since w = (over, since', w1)"
    by (metis surj_pair)
  have cl1: "clean cfg e N rows w1"
    by (rule clean_frame [OF cl])
       (use t in \<open>auto simp: transient_clock_def instant_now_def split: if_splits option.splits prod.splits\<close>)
  show ?thesis
  proof (cases "park_class (xc_policy cfg) (classify err) attempts over")
    case None
    have "clean cfg e N rows (note_worker_retry (bounded_error_chain err) w1)"
      by (rule clean_frame [OF cl1]) simp_all
    then show ?thesis using run t None by (auto simp: after_failure_def Let_def)
  next
    case (Some fc)
    obtain now w2 where c2: "clock_now cfg w1 = (now, w2)" by fastforce
    have cl2: "clean cfg e N rows w2" by (rule clean_frame [OF cl1]) (use c2 in \<open>auto simp: clock_now_def\<close>)
    obtain y w3 where p: "park_terminal_failure cfg e attempts (bounded_error_chain err) fc now w2 = (y, w3)"
      by fastforce
    note eff = park_sound [OF cd ds cfg N cl2 p]
    define w4 where "w4 = (case y of Some _ \<Rightarrow> note_worker_progress w3
      | None \<Rightarrow> note_worker_retry ''terminal-failure park I/O error: '' w3)"
    have x: "x = (case y of Some parked \<Rightarrow> Finish parked | None \<Rightarrow> Again since')" "w' = w4"
      using run t Some c2 p by (cases y; simp add: after_failure_def Let_def w4_def)+
    have f4: "calm w3 w4" "w_store w4 = w_store w3" "w_decisions w4 = w_decisions w3"
      by (simp_all add: w4_def note_calm split: option.split)
    have "clean cfg e N rows w4" if "clean cfg e N rows w3"
      by (rule clean_frame [OF that]) (use f4 in simp_all)
    moreover have "sealed_as cfg e rows r w4 \<and> (all_landed e (dr_outputs r) w3 \<longrightarrow> all_landed e (dr_outputs r) w4)"
      if "sealed_as cfg e rows r w3" for r
      using sealed_as_calm [OF that f4(1)] f4(2) by (simp add: all_landed_def)
    ultimately show ?thesis using eff x by (auto split: option.split)
  qed
qed

lemma process_clean:
  assumes cd: "codec_ok (xc_codec cfg)" and ds: "xc_decision_store cfg" and cfg: "xc_log cfg = memory_backend"
    and body: "body_ok cfg e N"
  shows "\<lbrakk> clean cfg e N rows w; process_loop cfg e fenced fuel n since used w = Some (res, w') \<rbrakk> \<Longrightarrow>
         run_sound cfg e N rows res w'"
proof (induction fuel arbitrary: n since used w)
  case (Suc fuel)
  have N: "1 \<le> N" using body by (simp add: body_ok_def)
  have keep: "clean cfg e N rows v'" if "clean cfg e N rows v" "calm v v'" "w_store v' = w_store v" for v v' :: "'b world"
    by (rule clean_frame [OF that(1)]) (use that in \<open>simp_all add: calm_def\<close>)
  from Suc.prems(2) show ?case
  proof (cases rule: process_loop_round)
    case halted
    then show ?thesis using keep [OF Suc.prems(1)] by (simp add: run_sound_def)
  next
    case (tried w2 x labels w3)
    have cl2: "clean cfg e N rows w2" by (rule keep [OF Suc.prems(1) tried(1,2)])
    note a3 = attempt_clean [OF cd ds cfg body cl2 tried(3)]
    obtain y w4 where a: "after_attempt_of cfg e since x w3 = (y, w4)" by fastforce
    have a4: "clean cfg e N rows w4 \<and> y \<noteq> Finish True \<or>
        (\<exists>r. sealed_as cfg e rows r w4 \<and>
          (\<forall>p. y = Finish p \<longrightarrow> p = dr_parked r \<and> all_landed e (dr_outputs r) w4))"
    proof (cases "\<exists>err att. x = Some (BodyFailed err att)")
      case True
      then obtain err att where xe: "x = Some (BodyFailed err att)" by blast
      have cl3: "clean cfg e N rows w3" using a3 xe by (auto simp: attempt_sound_def)
      have "after_failure cfg e since err att w3 = (y, w4)" using a xe by (simp add: after_attempt_of_def)
      from after_failure_sound [OF cd ds cfg N cl3 this] show ?thesis by auto
    next
      case False
      have w4: "w_store w4 = w_store w3" "calm w3 w4" "w_decisions w4 = w_decisions w3"
        using a False note_calm [where w = w3, unfolded calm_def]
        by (auto simp: after_attempt_of_def note_calm split: option.splits attempt_outcome.splits)
      have y: "\<forall>p. y = Finish p \<longrightarrow> x = Some (Done p)"
        using a False by (auto simp: after_attempt_of_def split: option.splits attempt_outcome.splits)
      from a3 show ?thesis unfolding attempt_sound_def
      proof
        assume "clean cfg e N rows w3 \<and> (\<forall>p. x = Some (Done p) \<longrightarrow> \<not> p)"
        then show ?thesis using keep [OF _ w4(2,1)] y by blast
      next
        assume "\<exists>r. sealed_as cfg e rows r w3 \<and>
          (x = None \<or> x = Some (Done (dr_parked r)) \<and> all_landed e (dr_outputs r) w3)"
        then obtain r where r: "sealed_as cfg e rows r w3"
          "x = None \<or> x = Some (Done (dr_parked r)) \<and> all_landed e (dr_outputs r) w3" by blast
        have "sealed_as cfg e rows r w4" using sealed_as_calm [OF r(1) w4(2)] w4(1) by simp
        moreover have "all_landed e (dr_outputs r) w4" if "all_landed e (dr_outputs r) w3"
          using that w4(1) by (simp add: all_landed_def)
        ultimately show ?thesis using r(2) y by auto
      qed
    qed
    show ?thesis
    proof (cases y)
      case (Finish p)
      then have "\<exists>ls. res = Finished \<lparr> td_parked = p, td_effect_labels = ls \<rparr>" "w' = w4"
        using tried(4) a by (auto simp: Let_def)
      then show ?thesis using a4 Finish by (auto simp: run_sound_def)
    next
      case (Again since')
      obtain b w5 where p: "stop_poll w4 = (b, w5)" by fastforce
      note c5 = stop_poll_calm [OF p]
      have alt: "(\<forall>td. res \<noteq> Finished td) \<and> (w' = w4 \<or> w' = w5) \<or>
          (\<exists>s u. process_loop cfg e fenced fuel (n + 1) s u w5 = Some (res, w'))"
        using tried(4) a Again p
        by (cases b) (auto simp: Let_def split: option.splits)
      have s5: "sealed_as cfg e rows r w5" if "sealed_as cfg e rows r w4" for r
        using sealed_as_calm [OF that] c5 by simp
      from a4 show ?thesis
      proof
        assume "clean cfg e N rows w4 \<and> y \<noteq> Finish True"
        then show ?thesis
          using alt keep [of w4 w5] c5 Suc.IH unfolding run_sound_def by blast
      next
        assume "\<exists>r. sealed_as cfg e rows r w4 \<and>
          (\<forall>p. y = Finish p \<longrightarrow> p = dr_parked r \<and> all_landed e (dr_outputs r) w4)"
        then obtain r where r4: "sealed_as cfg e rows r w4" by blast
        have "sealed_as cfg e rows r w' \<and>
            (\<forall>td. res = Finished td \<longrightarrow> td_parked td = dr_parked r \<and> all_landed e (dr_outputs r) w')"
          if "process_loop cfg e fenced fuel (n + 1) s u w5 = Some (res, w')" for s u
          using process_decided [OF cfg _ _ that] s5 [OF r4] decided_calm grown_by_trans
          unfolding sealed_as_def by blast
        then show ?thesis using alt r4 s5 unfolding run_sound_def by blast
      qed
    qed
  qed
qed simp

section \<open>The cancel fence\<close>

lemma fenced_attempt:
  assumes ds: "xc_decision_store cfg" and un: "undecided cfg e w"
    and run: "attempt_trigger cfg e True w = ((res, labels), w')"
  shows "w' = tick_io w \<and> (res = Some (Done False) \<or> res = None \<and> w_io w \<noteq> [])"
proof -
  obtain x where get: "io_get cfg (re_event_id e) w = (x, tick_io w)" and x: "x = Some None \<or> x = None \<and> w_io w \<noteq> []"
    using io_get_cases [of cfg "re_event_id e" w] undecided_get [OF un] by (metis surj_pair)
  then show ?thesis using run ds by (auto simp: attempt_trigger_def first_delivery_def)
qed

lemma process_fenced:
  assumes ds: "xc_decision_store cfg" and policy: "\<And>k. backoff_for (xc_policy cfg) k \<noteq> None"
  shows "\<lbrakk> undecided cfg e w; set (w_stops w) \<subseteq> {False}; length (w_io w) < fuel \<rbrakk> \<Longrightarrow>
         \<exists>td w'. process_loop cfg e True fuel n since used w = Some (Finished td, w') \<and> \<not> td_parked td \<and>
           calm w w' \<and> w_store w' = w_store w"
proof (induction fuel arbitrary: n since used w)
  case (Suc fuel)
  obtain b w1 where p: "stop_poll w = (b, w1)" by fastforce
  obtain b' w2 where q: "(if xc_max_in_flight cfg then stop_poll w1 else (False, w1)) = (b', w2)" by fastforce
  obtain x labels w3 where a: "attempt_trigger cfg e True w2 = ((x, labels), w3)" by (metis surj_pair)
  note c1 = stop_poll_calm [OF p] and c2 = poll_permit_calm [OF q]
  have nb: "\<not> b" "\<not> b'" using c1 c2 Suc.prems(2) by (auto simp: calm_def)
  have c: "calm w w2" "w_store w2 = w_store w" using c1 c2 calm_trans by auto
  have un2: "undecided cfg e w2" using c(1) Suc.prems(1) by (simp add: calm_def)
  note att = fenced_attempt [OF ds un2 a]
  have c3: "calm w w3" "w_store w3 = w_store w"
    using att c calm_trans [OF c(1) quiet_calm [OF tick_io_quiet]] by auto
  show ?case
  proof (cases x)
    case (Some y)
    define w4 where "w4 = note_worker_progress w3"
    have "process_loop cfg e True (Suc fuel) n since used w =
        Some (Finished \<lparr> td_parked = False, td_effect_labels = used @ filter (\<lambda>l. l \<notin> set used) (remdups labels) \<rparr>, w4)"
      using p q a nb att Some by (simp add: after_attempt_of_def Let_def w4_def)
    moreover have "calm w w4" "w_store w4 = w_store w"
      using calm_trans [OF c3(1) note_calm(1)] c3(2) by (simp_all add: w4_def)
    ultimately show ?thesis by (metis trigger_done.select_convs(1))
  next
    case None
    define m where "m = ''reactor runner infrastructure error''"
    obtain b5 w5 where p5: "stop_poll (note_worker_retry m w3) = (b5, w5)" by fastforce
    note c5 = stop_poll_calm [OF p5]
    have cw5: "calm w w5" "w_store w5 = w_store w"
      using c3 c5 calm_trans [OF c3(1) note_calm(2)] calm_trans by (blast, simp)
    have "set (w_stops (note_worker_retry m w3)) \<subseteq> {False}"
      using c3(1) Suc.prems(2) by (auto simp: calm_def note_worker_retry_def)
    then have nb5: "\<not> b5" using c5 by simp
    have "length (w_io w5) \<le> length (w_io w3)" using c5 by (simp add: calm_def note_worker_retry_def)
    also have "\<dots> < length (w_io w2)" using att None by simp
    also have "\<dots> \<le> length (w_io w)" using c(1) by (simp add: calm_def)
    finally have "length (w_io w5) < fuel" using Suc.prems(3) by simp
    moreover have "set (w_stops w5) \<subseteq> {False}" "undecided cfg e w5"
      using cw5 Suc.prems(1,2) by (auto simp: calm_def)
    ultimately have ih: "\<exists>td w'. process_loop cfg e True fuel (n + 1) since' used' w5 = Some (Finished td, w') \<and>
        \<not> td_parked td \<and> calm w w' \<and> w_store w' = w_store w" for since' used'
      using Suc.IH [of w5 "n + 1" since' used'] cw5 calm_trans by (metis (no_types, lifting))
    obtain d where "backoff_for (xc_policy cfg) (n + 1) = Some d" using policy by blast
    then show ?thesis
      using ih p q a nb None p5 nb5 by (simp add: after_attempt_of_def Let_def m_def)
  qed
qed simp

section \<open>Parking a failing trigger\<close>

definition attempts_made :: "('t, 'a) exec_config \<Rightarrow> recorded_event \<Rightarrow> 'a world \<Rightarrow> u32" where
  "attempts_made cfg e w =
     (case hget (reactor_attempts (w_store w)) (xc_consumer cfg, re_event_id e) of Some n \<Rightarrow> n | None \<Rightarrow> 0)"

lemma observer_attempts [simp]:
  "reactor_attempts (reactor_started i c wfl n st s) = reactor_attempts s"
  "reactor_attempts (reactor_failed i c wfl n st et err logs s) = reactor_attempts s"
  "reactor_attempts (reactor_description wfl pos i c j s) = reactor_attempts s"
  by (auto simp: reactor_started_def reactor_failed_def reactor_description_def adjust_execution_def
      push_logs_def Let_def split: option.split)

lemma failing_attempt:
  assumes cd: "codec_ok (xc_codec cfg)" and ds: "xc_decision_store cfg" and cfg: "xc_log cfg = memory_backend"
    and body: "body_ok cfg e N" and cl: "clean cfg e N rows w" and io: "w_io w = []"
    and dec: "xc_decode cfg (re_payload e) = Some t"
    and fail: "\<And>s f. body_result cfg e (rx_outcome (xc_react cfg (w_runs w) e t s f)) = Inl err"
    and run: "attempt_trigger cfg e False w = ((res, labels), w')"
  shows "res = Some (BodyFailed err (attempts_made cfg e w + 1)) \<and> clean cfg e N rows w' \<and> w_io w' = [] \<and>
         w_stops w' = w_stops w \<and> w_runs w' = Suc (w_runs w) \<and>
         attempts_made cfg e w' = attempts_made cfg e w + 1"
proof -
  let ?i = "re_event_id e"
  have un: "undecided cfg e w" using cl by (simp add: clean_def)
  have get: "io_get cfg ?i w = (Some None, w)"
    using undecided_get [OF un] io by (simp add: io_get_def io_call_def)
  define n where "n = attempts_made cfg e w + 1"
  define w1 where "w1 = w\<lparr> w_store := (w_store w)\<lparr> reactor_attempts :=
      hput (xc_consumer cfg, ?i) n (reactor_attempts (w_store w)) \<rparr> \<rparr>"
  have rec: "io_record_attempt cfg ?i w = (Some n, w1)"
    using io by (simp add: io_record_attempt_def io_call_def record_reactor_attempt_def Let_def n_def w1_def
        attempts_made_def)
  have a1: "attempts_made cfg e w1 = n" by (simp add: w1_def attempts_made_def)
  obtain st w2 where c2: "clock_now cfg w1 = (st, w2)" by fastforce
  have body_run: "run_body cfg e t n st w2 = ((res, labels), w')"
    using run ds get rec c2 dec by (simp add: attempt_trigger_def first_delivery_def)
  have w2: "w_io w2 = []" "w_stops w2 = w_stops w" "w_runs w2 = w_runs w" "attempts_made cfg e w2 = n"
    using c2 io a1 by (auto simp: clock_now_def w1_def attempts_made_def)
  define w3 where "w3 = observe cfg (reactor_started ?i (xc_consumer cfg) (re_workflow_id e) n st) w2"
  define w4 where "w4 = (case xc_describe cfg t of
      Some d \<Rightarrow> observe cfg (reactor_description (re_workflow_id e) (re_position e) ?i (xc_consumer cfg) d) w3
    | None \<Rightarrow> w3)"
  have w4: "w_io w4 = []" "w_stops w4 = w_stops w" "w_runs w4 = w_runs w" "attempts_made cfg e w4 = n"
    using w2 unfolding w4_def w3_def by (auto simp: observe_def attempts_made_def split: option.split)
  define rx where "rx = xc_react cfg (w_runs w4) e t (w_store w4) (w_effects w4)"
  have rxf: "body_result cfg e (rx_outcome rx) = Inl err" using fail w4(3) by (simp add: rx_def)
  note steps = body_run [unfolded run_body_def Let_def, folded w3_def, folded w4_def, folded rx_def]
  have res: "res = Some (BodyFailed err n) \<and> w_io w' = [] \<and> w_stops w' = w_stops w \<and>
      w_runs w' = Suc (w_runs w) \<and> attempts_made cfg e w' = n"
    using steps rxf w4 by (auto simp: clock_now_def observe_def attempts_made_def)
  moreover have "clean cfg e N rows w'"
    using attempt_clean [OF cd ds cfg body cl run] res by (simp add: attempt_sound_def)
  ultimately show ?thesis by (simp add: n_def)
qed

text \<open>The policy decides at which failure the trigger parks: \<open>err i\<close> is the failure of the body's run
  \<open>i\<close>, and the clock stays below the transient ceiling.\<close>

lemma process_parks:
  assumes cd: "codec_ok (xc_codec cfg)" and ds: "xc_decision_store cfg" and cfg: "xc_log cfg = memory_backend"
    and body: "body_ok cfg e N" and policy: "\<And>k. backoff_for (xc_policy cfg) k \<noteq> None"
    and dec: "xc_decode cfg (re_payload e) = Some t"
    and parts: "\<And>a m c. terminal_parts cfg e a m c \<noteq> None"
    and clock: "\<And>i j. xc_instant cfg i - xc_instant cfg j < transient_ceiling"
    and fail: "\<And>i s f. body_result cfg e (rx_outcome (xc_react cfg (r0 + i) e t s f)) = Inl (err i)"
    and last: "park_class (xc_policy cfg) (classify (err k)) (of_nat (k + 1)) False \<noteq> None"
    and earlier: "\<And>i. i < k \<Longrightarrow> park_class (xc_policy cfg) (classify (err i)) (of_nat (i + 1)) False = None"
  shows "\<lbrakk> clean cfg e N rows w; w_io w = []; set (w_stops w) \<subseteq> {False}; attempts_made cfg e w = of_nat i;
           w_runs w = r0 + i; i \<le> k; k - i < fuel; \<And>s. since = Some s \<Longrightarrow> \<exists>j. s = xc_instant cfg j \<rbrakk> \<Longrightarrow>
         \<exists>td w' r. process_loop cfg e False fuel n since used w = Some (Finished td, w') \<and> td_parked td \<and>
           w_runs w' = r0 + k + 1 \<and> sealed_as cfg e rows r w' \<and> dr_parked r \<and> all_landed e (dr_outputs r) w'"
proof (induction fuel arbitrary: i n since used w)
  case (Suc fuel)
  obtain b w1 where p: "stop_poll w = (b, w1)" by fastforce
  obtain b' w2 where q: "(if xc_max_in_flight cfg then stop_poll w1 else (False, w1)) = (b', w2)" by fastforce
  obtain x labels w3 where a: "attempt_trigger cfg e False w2 = ((x, labels), w3)" by (metis surj_pair)
  note c1 = stop_poll_calm [OF p] and c2 = poll_permit_calm [OF q]
  have nb: "\<not> b" "\<not> b'" using c1 c2 Suc.prems(3) by (auto simp: calm_def)
  have c: "calm w w2" "w_store w2 = w_store w" using c1 c2 calm_trans by auto
  have cl2: "clean cfg e N rows w2" by (rule clean_frame [OF Suc.prems(1)]) (use c in \<open>simp_all add: calm_def\<close>)
  have io2: "w_io w2 = []" and runs2: "w_runs w2 = r0 + i" and stops2: "set (w_stops w2) \<subseteq> {False}"
    using c(1) Suc.prems(2,3,5) by (auto simp: calm_def)
  have made2: "attempts_made cfg e w2 = of_nat i" using Suc.prems(4) c(2) by (simp add: attempts_made_def)
  have fail2: "body_result cfg e (rx_outcome (xc_react cfg (w_runs w2) e t s f)) = Inl (err i)" for s f
    using fail runs2 by simp
  note att = failing_attempt [OF cd ds cfg body cl2 io2 dec fail2 a]
  have x: "x = Some (BodyFailed (err i) (of_nat (i + 1)))"
    and w3: "clean cfg e N rows w3" "w_io w3 = []" "set (w_stops w3) \<subseteq> {False}" "w_runs w3 = r0 + i + 1"
      "attempts_made cfg e w3 = of_nat (i + 1)"
    using att made2 runs2 stops2 by (simp_all add: add.commute)
  obtain over since' w4 where tc: "transient_clock cfg (classify (err i)) since w3 = (over, since', w4)"
    by (metis surj_pair)
  have over: "\<not> over" and since': "\<And>s. since' = Some s \<Longrightarrow> \<exists>j. s = xc_instant cfg j"
    using tc Suc.prems(8) clock [unfolded not_le [symmetric]]
    by (auto simp: transient_clock_def instant_now_def split: if_splits option.splits)
  have f4: "w_store w4 = w_store w3" "w_decisions w4 = w_decisions w3" "w_io w4 = w_io w3"
    "w_stops w4 = w_stops w3" "w_runs w4 = w_runs w3"
    using tc by (auto simp: transient_clock_def instant_now_def split: if_splits option.splits)
  have cl4: "clean cfg e N rows w4" by (rule clean_frame [OF w3(1)]) (simp_all add: f4)
  show ?case
  proof (cases "park_class (xc_policy cfg) (classify (err i)) (of_nat (i + 1)) False")
    case None
    then have "i < k" using last Suc.prems(6) by (cases "i = k") auto
    define w5 where "w5 = note_worker_retry (bounded_error_chain (err i)) w4"
    obtain b5 w6 where p5: "stop_poll w5 = (b5, w6)" by fastforce
    note c5 = stop_poll_calm [OF p5]
    have f5: "w_store w5 = w_store w3" "w_decisions w5 = w_decisions w3" "w_io w5 = []"
      "set (w_stops w5) \<subseteq> {False}" "w_runs w5 = r0 + i + 1"
      using f4 w3 by (simp_all add: w5_def note_worker_retry_def)
    have nb5: "\<not> b5" using c5 f5(4) by simp
    have f6: "w_store w6 = w_store w3" "w_decisions w6 = w_decisions w3" "w_io w6 = []"
      "set (w_stops w6) \<subseteq> {False}" "w_runs w6 = r0 + (i + 1)"
      using c5 f5 by (auto simp: calm_def)
    have cl6: "clean cfg e N rows w6" by (rule clean_frame [OF w3(1)]) (simp_all add: f6)
    have "attempts_made cfg e w6 = of_nat (i + 1)" using w3(5) f6(1) by (simp add: attempts_made_def)
    then have ih: "\<exists>td w' r. process_loop cfg e False fuel (n + 1) since' u w6 = Some (Finished td, w') \<and>
        td_parked td \<and> w_runs w' = r0 + k + 1 \<and> sealed_as cfg e rows r w' \<and> dr_parked r \<and>
        all_landed e (dr_outputs r) w'" for u
      using Suc.IH [OF cl6 f6(3,4) _ f6(5) _ _ since'] \<open>i < k\<close> Suc.prems(7) by simp
    have "after_attempt_of cfg e since x w3 = (Again since', w5)"
      using x tc None over by (simp add: after_attempt_of_def after_failure_def Let_def w5_def)
    moreover obtain d where "backoff_for (xc_policy cfg) (n + 1) = Some d" using policy by blast
    ultimately show ?thesis using ih p q a nb p5 nb5 by (simp add: Let_def)
  next
    case (Some fc)
    then have "i = k" using earlier [of i] Suc.prems(6) by fastforce
    have N: "1 \<le> N" using body by (simp add: body_ok_def)
    obtain now w5 where c5: "clock_now cfg w4 = (now, w5)" by fastforce
    have f5: "w_store w5 = w_store w4" "w_decisions w5 = w_decisions w4" "w_io w5 = []" "w_runs w5 = r0 + k + 1"
      using c5 f4 w3 \<open>i = k\<close> by (auto simp: clock_now_def)
    have cl5: "clean cfg e N rows w5" by (rule clean_frame [OF cl4]) (simp_all add: f5)
    obtain y w6 where park: "park_terminal_failure cfg e (of_nat (i + 1)) (bounded_error_chain (err i)) fc now w5 = (y, w6)"
      by fastforce
    note eff = park_sound [OF cd ds cfg N cl5 park]
    have "y \<noteq> None" using eff f5(3) parts by blast
    then obtain r where y: "y = Some True" and r: "sealed_as cfg e rows r w6" "dr_parked r" "all_landed e (dr_outputs r) w6"
      using eff by blast
    have runs6: "w_runs w6 = r0 + k + 1" using eff f5(4) by simp
    define w7 where "w7 = note_worker_progress w6"
    have "after_attempt_of cfg e since x w3 = (Finish True, w7)"
      using x tc Some over c5 park y by (simp add: after_attempt_of_def after_failure_def Let_def w7_def)
    then have "process_loop cfg e False (Suc fuel) n since used w =
        Some (Finished \<lparr> td_parked = True, td_effect_labels = used @ filter (\<lambda>l. l \<notin> set used) (remdups labels) \<rparr>, w7)"
      using p q a nb by (simp add: Let_def)
    moreover have "sealed_as cfg e rows r w7"
      by (rule sealed_as_calm [OF r(1)]) (simp_all add: w7_def note_calm)
    moreover have "all_landed e (dr_outputs r) w7" "w_runs w7 = r0 + k + 1"
      using r(3) runs6 by (simp_all add: w7_def all_landed_def note_worker_progress_def)
    ultimately show ?thesis using r(2) by (metis trigger_done.select_convs(1))
  qed
qed simp

section \<open>Reconciling a decision with the log\<close>

text \<open>An output whose id the log holds with other content is replaced by the log's row.\<close>

definition storable_row :: "recorded_event \<Rightarrow> bool" where
  "storable_row row \<longleftrightarrow> durable_event (recorded_to_output row) = recorded_to_output row"

definition agreeing :: "recorded_event \<Rightarrow> recorded_event list \<Rightarrow> event_data list \<Rightarrow> event_data list" where
  "agreeing e rows outs = filter (agrees e rows) outs"

definition mendable :: "recorded_event \<Rightarrow> event_data list \<Rightarrow> memory_store \<Rightarrow> bool" where
  "mendable e outs s \<longleftrightarrow>
     distinct (map ed_event_id outs) \<and> appendable e (agreeing e (global_log s) outs) s \<and>
     (\<forall>out \<in> set outs. durable_event out = out) \<and>
     (\<forall>out \<in> set outs. \<forall>row \<in> set (global_log s).
        re_event_id row = ed_event_id out \<and> \<not> stored_as e out row \<longrightarrow> storable_row row)"

lemma stored_as_recorded [simp]: "stored_as e (recorded_to_output row) row"
  by (simp add: stored_as_def same_row_def out_category_def out_subject_def recorded_to_output_def)

lemma recorded_id [simp]: "ed_event_id (recorded_to_output row) = re_event_id row"
  by (simp add: recorded_to_output_def)

lemma append_outputs_once_append:
  "append_outputs_once cfg e i (xs @ ys) w =
     (case append_outputs_once cfg e i xs w of
        (Some None, w1) \<Rightarrow> append_outputs_once cfg e (i + length xs) ys w1
      | (x, w1) \<Rightarrow> (x, w1))"
proof (induction xs arbitrary: i w)
  case (Cons out xs)
  obtain x w1 where io: "io_append cfg (out_category out) (out_subject e out) out w = (x, w1)" by fastforce
  note step = append_outputs_once.simps(2) [of cfg e i out, folded out_category_def out_subject_def,
      unfolded Let_def]
  show ?case
  proof (cases x)
    case None
    then show ?thesis using io by (simp add: step del: append_outputs_once.simps(2))
  next
    case (Some y)
    show ?thesis
    proof (cases y)
      case (Inl err)
      then show ?thesis using io Some by (cases err) (simp_all add: step del: append_outputs_once.simps(2))
    next
      case (Inr wr)
      then show ?thesis using io Some Cons.IH by (simp add: step del: append_outputs_once.simps(2) split: prod.split option.split)
    qed
  qed
qed simp

lemma mendable_prefix:
  assumes m: "mendable e outs s" and outs: "outs = pre @ bad # post"
    and pre: "\<forall>o' \<in> set pre. agrees e (global_log s) o'"
  shows "set pre \<subseteq> set (agreeing e (global_log s) outs)"
  using pre by (auto simp: agreeing_def outs)

text \<open>One pass over a decision that disagrees: it stops at the first disagreement.\<close>

lemma divergent_pass:
  assumes cfg: "xc_log cfg = memory_backend" and io: "w_io w = []" and m: "mendable e outs (w_store w)"
    and outs: "outs = pre @ bad # post" and pre: "\<forall>o' \<in> set pre. agrees e (logged w) o'"
    and bad: "\<not> agrees e (logged w) bad"
  obtains d row w1 where
    "append_outputs_once cfg e 0 outs w =
       (Some (Some \<lparr> od_index = length pre, od_diff = d, od_canonical = Some row \<rparr>), w1)"
    "row \<in> set (logged w)" "re_event_id row = ed_event_id bad" "\<not> stored_as e bad row"
    "quiet w w1" "appendable e (agreeing e (logged w) outs) (w_store w1)"
    "grown_by e (agreeing e (logged w) outs) (logged w) (logged w1)"
proof -
  let ?A = "agreeing e (logged w) outs"
  have ap: "appendable e ?A (w_store w)" using m by (simp add: mendable_def)
  obtain x w1 where p: "append_outputs_once cfg e 0 pre w = (x, w1)" by fastforce
  note eff = append_outputs_once_effect [OF cfg ap mendable_prefix [OF m outs pre] p]
  have x: "x = Some None" using eff io by auto
  have io1: "w_io w1 = []" using eff io quiet_fault_free by blast
  obtain row where row: "row \<in> set (logged w)" "re_event_id row = ed_event_id bad" "\<not> stored_as e bad row"
    using bad by (auto simp: agrees_def)
  have row1: "row \<in> set (logged w1)" using row(1) eff by (auto simp: grown_by_def)
  have inv1: "log_inv (w_store w1)" using eff by (simp add: appendable_def)
  obtain d where d: "append_to_stream (out_category bad) (out_subject e bad) AnyState [bad] (w_store w1) =
      (Inl (DivergentRedelivery (ed_event_id bad) d (Some row)), w_store w1)"
    using append_divergent_single [OF inv1 row1 row(2)] row(3) unfolding stored_as_def by blast
  have "w1\<lparr> w_store := w_store w1 \<rparr> = w1" by simp
  then have "io_append cfg (out_category bad) (out_subject e bad) bad w1 =
      (Some (Inl (DivergentRedelivery (ed_event_id bad) d (Some row))), w1)"
    using d io1 cfg by (simp add: io_append_def io_call_def memory_backend_def)
  then have "append_outputs_once cfg e (length pre) (bad # post) w1 =
      (Some (Some \<lparr> od_index = length pre, od_diff = d, od_canonical = Some row \<rparr>), w1)"
    by (simp add: out_category_def out_subject_def)
  then have "append_outputs_once cfg e 0 outs w =
      (Some (Some \<lparr> od_index = length pre, od_diff = d, od_canonical = Some row \<rparr>), w1)"
    using p x by (simp add: outs append_outputs_once_append)
  then show ?thesis using that row eff by blast
qed

lemma mended:
  assumes m: "mendable e (pre @ bad # post) s" and pre: "\<forall>o' \<in> set pre. agrees e (global_log s) o'"
    and bad: "\<not> agrees e (global_log s) bad"
    and row: "row \<in> set (global_log s)" "re_event_id row = ed_event_id bad" "\<not> stored_as e bad row"
    and ap: "appendable e (agreeing e (global_log s) (pre @ bad # post)) s'"
    and gr: "grown_by e (agreeing e (global_log s) (pre @ bad # post)) (global_log s) (global_log s')"
  shows "mendable e (pre @ recorded_to_output row # post) s'"
    and "length (filter (\<lambda>o'. \<not> agrees e (global_log s') o') (pre @ recorded_to_output row # post)) <
         length (filter (\<lambda>o'. \<not> agrees e (global_log s) o') (pre @ bad # post))"
proof -
  let ?L = "global_log s" and ?L' = "global_log s'" and ?f = "recorded_to_output row"
  let ?outs = "pre @ bad # post" and ?outs' = "pre @ recorded_to_output row # post"
  have inv': "log_inv s'" using ap by (simp add: appendable_def)
  have row': "row \<in> set ?L'" using row(1) gr by (auto simp: grown_by_def)
  have same: "agrees e ?L' o' \<longleftrightarrow> agrees e ?L o'" if "o' \<in> set ?outs" for o'
  proof
    assume "agrees e ?L' o'"
    then show "agrees e ?L o'" using gr by (auto simp: agrees_def grown_by_def)
  next
    assume "agrees e ?L o'"
    then show "agrees e ?L' o'" using ap that by (auto simp: appendable_def agreeing_def)
  qed
  have only: "r = row" if "r \<in> set ?L'" "re_event_id r = re_event_id row" for r
    using log_inv_distinct_ids [OF inv'] that row' by (metis distinct_map inj_onD)
  have f: "agrees e ?L' ?f" "landed e ?L' ?f"
    using only row' stored_as_recorded [of e row] by (metis agrees_def recorded_id, metis landed_def)
  have ids: "map ed_event_id ?outs' = map ed_event_id ?outs" using row(2) by simp
  have dist: "distinct (map ed_event_id ?outs')" using m unfolding ids mendable_def by simp
  have fpre: "filter (agrees e ?L') pre = filter (agrees e ?L) pre"
    "filter (agrees e ?L') post = filter (agrees e ?L) post" using same by (auto intro!: filter_cong)
  have A': "agreeing e ?L' ?outs' = filter (agrees e ?L) pre @ ?f # filter (agrees e ?L) post"
    using f(1) fpre by (simp add: agreeing_def)
  have A: "agreeing e ?L ?outs = filter (agrees e ?L) pre @ filter (agrees e ?L) post"
    using bad by (simp add: agreeing_def)
  have "distinct (map ed_event_id (agreeing e ?L' ?outs'))"
    using dist unfolding agreeing_def by (rule distinct_map_filter)
  moreover have "\<forall>o' \<in> set (agreeing e ?L' ?outs'). agrees e ?L' o'" unfolding agreeing_def by auto
  moreover have "filter (\<lambda>o'. \<not> landed e ?L' o') (agreeing e ?L' ?outs') =
      filter (\<lambda>o'. \<not> landed e ?L' o') (agreeing e ?L ?outs)"
    using f(2) by (simp add: A A')
  ultimately have ap': "appendable e (agreeing e ?L' ?outs') s'"
    using ap inv' by (simp add: appendable_def)
  have st: "storable_row row" using m row by (auto simp: mendable_def)
  have "storable_row r" if "o' \<in> set ?outs'" "r \<in> set ?L'" "re_event_id r = ed_event_id o'" "\<not> stored_as e o' r" for o' r
  proof (cases "o' = ?f")
    case True
    then have "re_event_id r = re_event_id row" using that(3) by simp
    from only [OF that(2) this] show ?thesis using st by simp
  next
    case False
    then have o': "o' \<in> set ?outs" using that(1) by auto
    then have "\<not> agrees e ?L o'" using same that by (auto simp: agrees_def)
    moreover have "o' \<notin> set (agreeing e ?L ?outs)" using calculation unfolding agreeing_def by auto
    moreover have "r \<in> set ?L"
    proof (rule ccontr)
      assume "r \<notin> set ?L"
      with that(2) have "\<exists>a \<in> set (agreeing e ?L ?outs). stored_as e a r"
        using gr by (auto simp: grown_by_def)
      then obtain a where a: "a \<in> set (agreeing e ?L ?outs)" "stored_as e a r" by blast
      have "ed_event_id a = ed_event_id o'" using that(3) stored_as_id [OF a(2)] by simp
      moreover have "a \<in> set ?outs" using a(1) unfolding agreeing_def set_filter by blast
      ultimately have "a = o'" using m o' by (metis distinct_map inj_onD mendable_def)
      then show False using a(2) that(4) by simp
    qed
    ultimately show ?thesis using m o' that(3,4) by (auto simp: mendable_def)
  qed
  then show "mendable e ?outs' s'"
    using dist ap' m st by (auto simp: mendable_def storable_row_def)
  have "filter (\<lambda>o'. \<not> agrees e ?L' o') pre = filter (\<lambda>o'. \<not> agrees e ?L o') pre"
    "filter (\<lambda>o'. \<not> agrees e ?L' o') post = filter (\<lambda>o'. \<not> agrees e ?L o') post"
    using same by (auto intro!: filter_cong)
  then show "length (filter (\<lambda>o'. \<not> agrees e ?L' o') ?outs') < length (filter (\<lambda>o'. \<not> agrees e ?L o') ?outs)"
    using f(1) bad by simp
qed

lemma io_remove_fault_free:
  "w_io w = [] \<Longrightarrow> io_remove r w =
     (Some (), w\<lparr> w_decisions := remove_decision (dr_consumer r) (dr_trigger r) (w_decisions w) \<rparr>)"
  by (simp add: io_remove_def io_call_def)

lemma passes_converge:
  assumes cd: "codec_ok (xc_codec cfg)" and ds: "xc_decision_store cfg" and cfg: "xc_log cfg = memory_backend"
  shows "\<lbrakk> w_io w = []; mendable e (dr_outputs r) (w_store w); decided cfg e r w;
           dr_consumer r = xc_consumer cfg; dr_trigger r = re_event_id e;
           length (filter (\<lambda>o'. \<not> agrees e (logged w) o') (dr_outputs r)) < fuel \<rbrakk> \<Longrightarrow>
         \<exists>r' w'. append_passes cfg e fuel reported r w = (Some r', w') \<and> decided cfg e r' w' \<and>
           map ed_event_id (dr_outputs r') = map ed_event_id (dr_outputs r) \<and> dr_parked r' = dr_parked r \<and>
           all_landed e (dr_outputs r') w' \<and> w_runs w' = w_runs w \<and>
           grown_by e (dr_outputs r) (logged w) (logged w') \<and> log_inv (w_store w')"
proof (induction fuel arbitrary: r w reported)
  case (Suc fuel)
  let ?outs = "dr_outputs r"
  show ?case
  proof (cases "\<forall>o' \<in> set ?outs. agrees e (logged w) o'")
    case True
    then have "agreeing e (logged w) ?outs = ?outs" by (simp add: agreeing_def filter_id_conv)
    then have ap: "appendable e ?outs (w_store w)" using Suc.prems(2) by (simp add: mendable_def)
    obtain x w1 where p: "append_outputs_once cfg e 0 ?outs w = (x, w1)" by fastforce
    note eff = append_outputs_once_effect [OF cfg ap subset_refl p]
    have x: "x = Some None" using eff Suc.prems(1) by auto
    have "decided cfg e r w1" using Suc.prems(3) eff decided_calm quiet_calm by blast
    moreover have "all_landed e ?outs w1" "grown_by e ?outs (logged w) (logged w1)" "w_runs w1 = w_runs w"
      "log_inv (w_store w1)"
      using eff x by (auto simp: all_landed_def quiet_def appendable_def)
    ultimately show ?thesis using p x by auto
  next
    case False
    obtain pre bad post where outs: "?outs = pre @ bad # post"
      and pre: "\<forall>o' \<in> set pre. agrees e (logged w) o'" and bad: "\<not> agrees e (logged w) bad"
      using split_list_first_prop [of ?outs "\<lambda>o'. \<not> agrees e (logged w) o'"] False by auto
    obtain d row w1 where
      p: "append_outputs_once cfg e 0 ?outs w =
           (Some (Some \<lparr> od_index = length pre, od_diff = d, od_canonical = Some row \<rparr>), w1)"
      and row: "row \<in> set (logged w)" "re_event_id row = ed_event_id bad" "\<not> stored_as e bad row"
      and q: "quiet w w1" and ap: "appendable e (agreeing e (logged w) ?outs) (w_store w1)"
      and gr: "grown_by e (agreeing e (logged w) ?outs) (logged w) (logged w1)"
      using divergent_pass [OF cfg Suc.prems(1,2) outs pre bad] by blast
    define w2 where "w2 = (if reported then w1 else case clock_now cfg w1 of (now, w') \<Rightarrow>
        observe cfg (reactor_divergence (re_event_id e) (xc_consumer cfg) (re_workflow_id e) d now) w')"
    have w2: "w_io w2 = []" "w_decisions w2 = w_decisions w" "w_runs w2 = w_runs w" "same_log (w_store w1) (w_store w2)"
      using q Suc.prems(1) unfolding w2_def
      by (auto simp: quiet_def clock_now_def observe_def observer_same_log(5))
    let ?outs' = "pre @ recorded_to_output row # post"
    define r1 where "r1 = r\<lparr> dr_outputs := ?outs' \<rparr>"
    have new: "r\<lparr> dr_outputs := (dr_outputs r)[length pre := recorded_to_output row] \<rparr> = r1"
      by (simp add: r1_def outs)
    note mend = mended [of e pre bad post "w_store w" row "w_store w1"]
    have m1: "mendable e ?outs' (w_store w1)"
      and less: "length (filter (\<lambda>o'. \<not> agrees e (logged w1) o') ?outs') <
                 length (filter (\<lambda>o'. \<not> agrees e (logged w) o') ?outs)"
      using mend Suc.prems(2) pre bad row ap gr by (simp_all add: outs)
    define w3 where "w3 = w2\<lparr> w_decisions := remove_decision (dr_consumer r) (dr_trigger r) (w_decisions w2) \<rparr>"
    have rem: "io_remove r w2 = (Some (), w3)" using io_remove_fault_free [OF w2(1)] by (simp add: w3_def)
    have un3: "undecided cfg e w3" using Suc.prems(4,5) by (simp add: w3_def remove_decision_def)
    have dur: "durable_record r1 = r1"
      using m1 by (simp add: durable_record_def r1_def mendable_def map_idI)
    have r1: "dr_consumer r1 = xc_consumer cfg" "dr_trigger r1 = re_event_id e" "dr_outputs r1 = ?outs'"
      "dr_parked r1 = dr_parked r" using Suc.prems(4,5) by (simp_all add: r1_def)
    obtain x w4 where sl: "io_seal cfg r1 w3 = (x, w4)" by fastforce
    note seal = io_seal_undecided [OF cd ds un3 r1(1,2) sl]
    have io3: "w_io w3 = []" using w2(1) by (simp add: w3_def)
    have x: "x = Some r1" and dec4: "decided cfg e r1 w4" and w4: "w_store w4 = w_store w2" "w_runs w4 = w_runs w"
      "w_io w4 = []"
      using seal io3 dur w2(3) by (auto simp: w3_def)
    have sl4: "same_log (w_store w1) (w_store w4)" using w2(4) w4(1) by simp
    have lg: "logged w4 = logged w1" using sl4 by (simp add: same_log_def)
    have m4: "mendable e (dr_outputs r1) (w_store w4)"
      using m1 appendable_same_log [OF _ sl4] lg by (simp add: mendable_def r1(3))
    have "\<exists>r' w'. append_passes cfg e fuel True r1 w4 = (Some r', w') \<and> decided cfg e r' w' \<and>
        map ed_event_id (dr_outputs r') = map ed_event_id (dr_outputs r1) \<and> dr_parked r' = dr_parked r1 \<and>
        all_landed e (dr_outputs r') w' \<and> w_runs w' = w_runs w4 \<and>
        grown_by e (dr_outputs r1) (logged w4) (logged w') \<and> log_inv (w_store w')"
      using Suc.IH [OF w4(3) m4 dec4 r1(1,2)] less Suc.prems(6) lg by (simp add: r1(3))
    then obtain r' w' where rest: "append_passes cfg e fuel True r1 w4 = (Some r', w')" "decided cfg e r' w'"
      "map ed_event_id (dr_outputs r') = map ed_event_id ?outs" "dr_parked r' = dr_parked r"
      "all_landed e (dr_outputs r') w'" "w_runs w' = w_runs w" "grown_by e ?outs' (logged w1) (logged w')"
      "log_inv (w_store w')"
      using r1(3,4) row(2) w4(2) lg outs by auto
    have "append_passes cfg e (Suc fuel) reported r w = (Some r', w')"
      by (simp only: append_passes.simps(2) p prod.case option.simps Let_def output_divergence.select_convs ds
          not_True_eq_False if_False w2_def [symmetric] rem new sl x rest(1))
    moreover have "grown_by e ?outs (logged w) (logged w')"
    proof -
      obtain n1 n2 where n1: "logged w1 = logged w @ n1" "\<forall>y \<in> set n1. \<exists>o' \<in> set ?outs. stored_as e o' y"
        and n2: "logged w' = logged w1 @ n2" "\<forall>y \<in> set n2. \<exists>o' \<in> set ?outs'. stored_as e o' y"
        using gr rest(7) by (fastforce simp: grown_by_def agreeing_def)
      have "\<exists>o' \<in> set ?outs. stored_as e o' y" if y: "y \<in> set n2" for y
      proof -
        obtain o' where o': "o' \<in> set ?outs'" "stored_as e o' y" using n2(2) y by blast
        have "o' \<noteq> recorded_to_output row"
        proof
          assume "o' = recorded_to_output row"
          then have "re_event_id y = re_event_id row" using stored_as_id [OF o'(2)] by simp
          moreover have "row \<in> set (logged w1)" using row(1) n1(1) by simp
          moreover have "distinct (map re_event_id (logged w1 @ n2))"
            using log_inv_distinct_ids [OF rest(8)] n2(1) by simp
          ultimately show False using y by (auto simp: image_iff)
        qed
        then show ?thesis using o' outs by auto
      qed
      then show ?thesis using n1 n2 by (auto simp: grown_by_def)
    qed
    ultimately show ?thesis using rest by auto
  qed
qed simp

end
