(* ===== verification/Reactor_Exec_Properties.thy ===== *)
theory Reactor_Exec_Properties
  imports Decision_Protocol
begin

text \<open>
  The promises of \<open>process_trigger\<close> and \<open>append_decision\<close> (\<open>reactor_runner.rs\<close>), as properties over
  \<open>Decision_Protocol\<close>, each with a witness on the in-memory stores.
\<close>

section \<open>A sample reactor\<close>

definition demo_trigger :: recorded_event where
  "demo_trigger =
     \<lparr> re_position = 1, re_event_id = 3, re_causation_id = None, re_workflow_id = 1,
       re_event_type = ''order_placed'', re_payload = JNull, re_created_at = 0,
       re_category = ''order'', re_subject_id = 9, re_revision = 0, re_metadata = [],
       re_ephemeral = None, re_persistent = True \<rparr>"

definition demo_outputs :: "event_output list" where
  "demo_outputs =
     [\<lparr> eo_durable_name = ''shipped'', eo_subject = ''order'', eo_subject_id = 9, eo_workflow = None,
        eo_payload = JNull \<rparr>,
      \<lparr> eo_durable_name = ''invoiced'', eo_subject = ''order'', eo_subject_id = 9, eo_workflow = None,
        eo_payload = JNull \<rparr>]"

definition demo_v5 :: "uuid \<Rightarrow> string \<Rightarrow> uuid" where
  "demo_v5 ns key = of_nat (length key)"

definition demo_cfg :: "(nat \<Rightarrow> body_outcome) \<Rightarrow> (unit, unit) exec_config" where
  "demo_cfg body =
     \<lparr> xc_consumer = ''c'', xc_v5 = demo_v5, xc_codec = sample_codec, xc_log = memory_backend,
       xc_decision_store = True, xc_seal_empty = True, xc_observer = False, xc_max_in_flight = False,
       xc_policy = fixed 3 10, xc_ceiling = None, xc_occ = [], xc_mapper = None, xc_snapshots = False,
       xc_snapshot_every = 0, xc_clock = int, xc_instant = (\<lambda>_. 0), xc_key_order = id,
       xc_render = (\<lambda>_ _. []), xc_decode = (\<lambda>_. Some ()), xc_describe = (\<lambda>_. None),
       xc_react = (\<lambda>n _ _ _ f. \<lparr> rx_outcome = body n, rx_fence_consulted = False,
                      rx_effect_labels = [], rx_logs = [], rx_effects = f \<rparr>) \<rparr>"

definition demo_world :: "decision_store \<Rightarrow> io_fate list \<Rightarrow> unit world" where
  "demo_world m io =
     \<lparr> w_store = memory_store_new, w_decisions = m, w_effects = [], w_registry = None, w_settle = None,
       w_stall_failures = 0, w_stall_error = None, w_io = io, w_stops = [], w_ticks = 0, w_runs = 0,
       w_parked = [] \<rparr>"

definition demo_record :: decision_record where
  "demo_record = decision_new ''c'' 3 1
     (build_output_events (demo_cfg (\<lambda>_. BodyPanic [])) demo_trigger 0 0 [] demo_outputs) 0"

lemma demo_cfg_sel [simp]:
  "xc_consumer (demo_cfg b) = ''c''" "xc_v5 (demo_cfg b) = demo_v5" "xc_codec (demo_cfg b) = sample_codec"
  "xc_log (demo_cfg b) = memory_backend" "xc_decision_store (demo_cfg b)" "xc_seal_empty (demo_cfg b)"
  "xc_policy (demo_cfg b) = fixed 3 10" "xc_ceiling (demo_cfg b) = None" "xc_mapper (demo_cfg b) = None"
  "xc_instant (demo_cfg b) i = 0" "xc_decode (demo_cfg b) v = Some ()"
  "rx_outcome (xc_react (demo_cfg b) n e t s f) = b n"
  by (simp_all add: demo_cfg_def)

lemma demo_world_sel [simp]:
  "w_store (demo_world m io) = memory_store_new" "w_decisions (demo_world m io) = m"
  "w_io (demo_world m io) = io" "w_stops (demo_world m io) = []" "w_runs (demo_world m io) = 0"
  by (simp_all add: demo_world_def)

lemma demo_trigger_sel [simp]:
  "re_event_id demo_trigger = 3" "re_metadata demo_trigger = []" "re_payload demo_trigger = JNull"
  by (simp_all add: demo_trigger_def)

lemma empty_log [simp]: "global_log memory_store_new = []"
  by (simp add: memory_store_new_def)

lemma demo_ids:
  "map ed_event_id (build_output_events (demo_cfg b) demo_trigger depth now [] demo_outputs) = [48, 49]"
  by (simp add: demo_outputs_def derive_output_event_id_def demo_v5_def output_id_key_def Let_def)

lemma fixed_backoff: "backoff_for (fixed 3 10) k \<noteq> None"
  by (simp add: backoff_for_def fixed_def duration_mul_def ms_to_ns_def Let_def)

lemma demo_decided:
  "decided (demo_cfg b) demo_trigger (durable_record demo_record) (demo_world (snd (seal sample_codec demo_record [])) io)"
  using get_after_seal [of sample_codec demo_record "[]"] seal_absent [OF sample_codec_ok, of "[]" demo_record]
  by (simp add: decided_def demo_record_def decision_new_def)

lemma demo_appendable:
  "appendable demo_trigger (dr_outputs (durable_record demo_record)) (w_store (demo_world m io))"
proof -
  have ids: "map ed_event_id (dr_outputs (durable_record demo_record)) = [48, 49]"
    using demo_ids [of "\<lambda>_. BodyPanic []" 0 0]
    by (simp add: durable_record_def demo_record_def decision_new_def comp_def)
  then have "length (dr_outputs (durable_record demo_record)) = 2"
    by (metis length_map One_nat_def Suc_1 length_Cons list.size(3))
  then show ?thesis
    using ids by (simp add: appendable_def log_inv_new agrees_def landed_def log_room_def)
qed

lemma demo_body_ok: "body_ok (demo_cfg (\<lambda>n. if n < k then BodyErr err else BodyOk demo_outputs)) demo_trigger 2"
  using demo_ids by (auto simp: body_ok_def demo_outputs_def split: if_splits)

lemma demo_attempts: "rp_max_attempts (fixed 3 10) = 3"
  by (simp add: fixed_def)

lemma demo_parts: "terminal_parts (demo_cfg b) demo_trigger a m c \<noteq> None"
  by (simp add: terminal_parts_def)

lemma demo_fresh: "attempts_made (demo_cfg b) demo_trigger (demo_world m io) = 0"
  by (simp add: attempts_made_def memory_store_new_def)

lemma demo_failing_body: "body_ok (demo_cfg (\<lambda>n. BodyErr (f n))) demo_trigger 2"
  by (simp add: body_ok_def)

lemma demo_budget:
  "park_class (fixed 3 10) None (of_nat (2 + 1)) False \<noteq> None"
  "i < 2 \<Longrightarrow> park_class (fixed 3 10) None (of_nat (i + 1)) False = None"
  by (auto simp: park_class_def fixed_def word_le_nat_alt dest!: less_2_cases)

lemma demo_parks:
  "\<exists>td w'. process_trigger (demo_cfg (\<lambda>_. BodyErr [])) demo_trigger False 3 (demo_world [] []) =
      Some (Finished td, w') \<and> td_parked td"
proof -
  let ?cfg = "demo_cfg (\<lambda>_. BodyErr [])"
  have cl: "clean ?cfg demo_trigger 2 [] (demo_world [] [])"
    by (simp add: clean_def log_inv_new log_room_def)
  have "\<exists>td w' r. process_loop ?cfg demo_trigger False 3 0 None [] (demo_world [] []) = Some (Finished td, w') \<and>
      td_parked td \<and> w_runs w' = 0 + 2 + 1 \<and> sealed_as ?cfg demo_trigger [] r w' \<and> dr_parked r \<and>
      all_landed demo_trigger (dr_outputs r) w'"
    by (rule process_parks [where N = 2 and t = "()" and err = "\<lambda>_. []" and k = 2 and i = 0])
       (simp_all add: cl sample_codec_ok demo_failing_body fixed_backoff [simplified] demo_parts [simplified]
          transient_ceiling_def body_result_def classify_def demo_budget [simplified] demo_fresh)
  then show ?thesis unfolding process_trigger_def by blast
qed

section \<open>A sealed decision is final\<close>

text \<open>C4: once a decision is sealed for a trigger and agrees with the log, no delivery of the trigger
  runs the body again, whatever calls fail and whether or not the workflow was cancelled meanwhile;
  the record stays as it is, the log gets nothing but its outputs, and a delivery that finishes has
  every output in the log and reports the record's outcome.\<close>

theorem sealed_decision_never_reruns:
  assumes "xc_log cfg = memory_backend" "decided cfg e r w" "appendable e (dr_outputs r) (w_store w)"
    "process_trigger cfg e fenced fuel w = Some (res, w')"
  shows "w_runs w' = w_runs w \<and> w_effects w' = w_effects w \<and> w_decisions w' = w_decisions w \<and>
         w_parked w' = w_parked w \<and> grown_by e (dr_outputs r) (logged w) (logged w') \<and>
         (\<forall>td. res = Finished td \<longrightarrow> td_parked td = dr_parked r \<and> all_landed e (dr_outputs r) w')"
  using process_decided [OF assms(1-3) assms(4) [unfolded process_trigger_def]] by (simp add: calm_def)

theorem sealed_decision_never_reruns_witness:
  "\<exists>td w'. process_trigger (demo_cfg (\<lambda>_. BodyOk demo_outputs)) demo_trigger True 4
      (demo_world (snd (seal sample_codec demo_record [])) [IoOk, IoFailAfter, IoFailBefore]) =
        Some (Finished td, w') \<and> w_runs w' = 0 \<and> \<not> td_parked td"
proof -
  let ?cfg = "demo_cfg (\<lambda>_. BodyOk demo_outputs)"
  let ?w = "demo_world (snd (seal sample_codec demo_record [])) [IoOk, IoFailAfter, IoFailBefore]"
  have "\<exists>td w'. process_loop ?cfg demo_trigger True 4 0 None [] ?w = Some (Finished td, w')"
    by (rule process_decided_returns [OF _ _ demo_decided demo_appendable])
       (simp_all add: fixed_backoff [simplified])
  then obtain td w' where run: "process_trigger ?cfg demo_trigger True 4 ?w = Some (Finished td, w')"
    unfolding process_trigger_def by blast
  have "\<not> dr_parked (durable_record demo_record)"
    by (simp add: durable_record_def demo_record_def decision_new_def)
  then show ?thesis
    using sealed_decision_never_reruns [OF _ demo_decided demo_appendable run] run by auto
qed

text \<open>C25: finitely many faults cannot keep a sealed decision that agrees with the log from
  completing. The conditions: every output of the record that the log holds already is stored there as the
  record has it, the rest fits into the log, the delivery is never halted, and the backoff never panics.
  Then with as many attempts as there are faults, and one more, the delivery finishes, all outputs are in
  the log, and the body is not run. A record that disagrees with the log is not covered: there a fault
  between its removal and the new seal loses it.\<close>

theorem sealed_decision_completes:
  assumes "xc_log cfg = memory_backend" "\<And>k. backoff_for (xc_policy cfg) k \<noteq> None"
    "decided cfg e r w" "appendable e (dr_outputs r) (w_store w)" "set (w_stops w) \<subseteq> {False}"
    "length (w_io w) < fuel"
  shows "\<exists>td w'. process_trigger cfg e fenced fuel w = Some (Finished td, w') \<and>
           td_parked td = dr_parked r \<and> all_landed e (dr_outputs r) w' \<and> w_runs w' = w_runs w"
proof -
  obtain td w' where run: "process_loop cfg e fenced fuel 0 None [] w = Some (Finished td, w')"
    using process_decided_returns [OF assms] by blast
  then show ?thesis
    using process_decided [OF assms(1,3,4) run] by (auto simp: process_trigger_def calm_def)
qed

theorem sealed_decision_completes_witness:
  "\<exists>td w'. process_trigger (demo_cfg (\<lambda>_. BodyOk demo_outputs)) demo_trigger False 4
      (demo_world (snd (seal sample_codec demo_record [])) [IoOk, IoFailAfter, IoFailBefore]) =
        Some (Finished td, w') \<and> \<not> td_parked td \<and> logged w' \<noteq> []"
proof -
  let ?w = "demo_world (snd (seal sample_codec demo_record [])) [IoOk, IoFailAfter, IoFailBefore]"
  have "\<exists>td w'. process_trigger (demo_cfg (\<lambda>_. BodyOk demo_outputs)) demo_trigger False 4 ?w =
      Some (Finished td, w') \<and> td_parked td = dr_parked (durable_record demo_record) \<and>
      all_landed demo_trigger (dr_outputs (durable_record demo_record)) w' \<and> w_runs w' = w_runs ?w"
    by (rule sealed_decision_completes [OF _ _ demo_decided demo_appendable])
       (simp_all add: fixed_backoff [simplified])
  then obtain td w' where fin: "process_trigger (demo_cfg (\<lambda>_. BodyOk demo_outputs)) demo_trigger False 4 ?w =
      Some (Finished td, w')" "td_parked td = dr_parked (durable_record demo_record)"
      "all_landed demo_trigger (dr_outputs (durable_record demo_record)) w'" by blast
  have "\<not> dr_parked (durable_record demo_record)" "dr_outputs (durable_record demo_record) \<noteq> []"
    by (simp_all add: durable_record_def demo_record_def decision_new_def demo_outputs_def Let_def)
  moreover from this(2) have "logged w' \<noteq> []"
    using fin(3) by (cases "dr_outputs (durable_record demo_record)") (auto simp: all_landed_def landed_def)
  ultimately show ?thesis using fin by auto
qed

section \<open>One decision per trigger\<close>

text \<open>C3: a trigger with nothing durable yet is delivered, with any calls failing at any point and
  bodies that answer differently on every run. Afterwards either nothing was decided and the log is as
  it was, or exactly one decision is sealed and everything the delivery appended is an output of that
  decision; if the delivery finished, all its outputs are in the log. Two runs of the body never both
  leave outputs behind.\<close>

theorem one_decision_per_trigger:
  assumes "codec_ok (xc_codec cfg)" "xc_decision_store cfg" "xc_log cfg = memory_backend" "body_ok cfg e N"
    "log_inv (w_store w)" "log_room N (w_store w)" "undecided cfg e w"
    "\<forall>row \<in> set (logged w). \<not> derived cfg e (re_event_id row)"
    "process_trigger cfg e fenced fuel w = Some (res, w')"
  shows "undecided cfg e w' \<and> logged w' = logged w \<and> (\<forall>td. res = Finished td \<longrightarrow> \<not> td_parked td) \<or>
         (\<exists>r. decided cfg e r w' \<and> grown_by e (dr_outputs r) (logged w) (logged w') \<and>
            (\<forall>td. res = Finished td \<longrightarrow> td_parked td = dr_parked r \<and> all_landed e (dr_outputs r) w'))"
proof -
  have "clean cfg e N (logged w) w" using assms(5-8) by (simp add: clean_def)
  from process_clean [OF assms(1-4) this assms(9) [unfolded process_trigger_def]]
  show ?thesis by (auto simp: run_sound_def clean_def sealed_as_def)
qed

theorem one_decision_per_trigger_witness:
  "\<exists>td w' r. process_trigger (demo_cfg (\<lambda>_. BodyErr [])) demo_trigger False 3 (demo_world [] []) =
      Some (Finished td, w') \<and> decided (demo_cfg (\<lambda>_. BodyErr [])) demo_trigger r w' \<and>
      all_landed demo_trigger (dr_outputs r) w'"
proof -
  obtain td w' where run:
    "process_trigger (demo_cfg (\<lambda>_. BodyErr [])) demo_trigger False 3 (demo_world [] []) = Some (Finished td, w')"
    "td_parked td" using demo_parks by blast
  from one_decision_per_trigger [OF _ _ _ demo_failing_body _ _ _ _ run(1)] run
  show ?thesis by (auto simp: sample_codec_ok log_inv_new log_room_def)
qed

section \<open>The cancel fence\<close>

text \<open>A trigger of a cancelled workflow that has no sealed decision never runs its body: whatever
  calls fail, nothing is sealed or appended, no effect is memoized, and if it finishes it is acked as a
  success. With as many attempts as there are faults, and one more, it does finish.\<close>

lemma fenced_trigger_acked:
  assumes "xc_decision_store cfg" "\<And>k. backoff_for (xc_policy cfg) k \<noteq> None" "undecided cfg e w"
    "set (w_stops w) \<subseteq> {False}" "length (w_io w) < fuel"
  shows "\<exists>td w'. process_trigger cfg e True fuel w = Some (Finished td, w') \<and> \<not> td_parked td \<and>
           calm w w' \<and> w_store w' = w_store w"
  unfolding process_trigger_def by (rule process_fenced [OF assms(1,2,3,4,5)])

lemma fenced_trigger_acked_witness:
  "\<exists>td w'. process_trigger (demo_cfg (\<lambda>_. BodyOk demo_outputs)) demo_trigger True 3
      (demo_world [] [IoFailBefore, IoFailAfter]) = Some (Finished td, w') \<and> logged w' = []"
proof -
  have "\<exists>td w'. process_trigger (demo_cfg (\<lambda>_. BodyOk demo_outputs)) demo_trigger True 3
      (demo_world [] [IoFailBefore, IoFailAfter]) = Some (Finished td, w') \<and> \<not> td_parked td \<and>
      calm (demo_world [] [IoFailBefore, IoFailAfter]) w' \<and>
      w_store w' = w_store (demo_world [] [IoFailBefore, IoFailAfter])"
    by (rule fenced_trigger_acked) (simp_all add: fixed_backoff [simplified])
  then show ?thesis by auto
qed

section \<open>Parking\<close>



text \<open>Transient failures spend the budget of the others. The attempt counter counts every attempt, so
  after \<open>k\<close> transient failures, with \<open>max_attempts\<close> at most \<open>k + 1\<close>, the first domain failure of the
  trigger already parks it: it gets none of the retries \<open>max_attempts\<close> grants a domain failure.\<close>

lemma transient_failures_spend_budget:
  assumes "codec_ok (xc_codec cfg)" "xc_decision_store cfg" "xc_log cfg = memory_backend" "body_ok cfg e N"
    "\<And>k. backoff_for (xc_policy cfg) k \<noteq> None" "xc_decode cfg (re_payload e) = Some t"
    "\<And>a m c. terminal_parts cfg e a m c \<noteq> None"
    "\<And>i j. xc_instant cfg i - xc_instant cfg j < transient_ceiling"
    "\<And>i s f. body_result cfg e (rx_outcome (xc_react cfg (w_runs w + i) e t s f)) = Inl (err i)"
    "\<And>i. i < k \<Longrightarrow> classify (err i) = Some Transient" "classify (err k) = Some Domain"
    "rp_max_attempts (xc_policy cfg) \<le> of_nat (k + 1)"
    "log_inv (w_store w)" "log_room N (w_store w)" "undecided cfg e w"
    "\<forall>row \<in> set (logged w). \<not> derived cfg e (re_event_id row)"
    "w_io w = []" "set (w_stops w) \<subseteq> {False}" "attempts_made cfg e w = 0" "k < fuel"
  shows "\<exists>td w'. process_trigger cfg e False fuel w = Some (Finished td, w') \<and> td_parked td \<and>
           w_runs w' = w_runs w + k + 1"
proof -
  have cl: "clean cfg e N (logged w) w" using assms(13-16) by (simp add: clean_def)
  have "park_class (xc_policy cfg) (classify (err k)) (of_nat (k + 1)) False \<noteq> None"
    using assms(11,12) by (simp add: park_class_def)
  moreover have "park_class (xc_policy cfg) (classify (err i)) (of_nat (i + 1)) False = None" if "i < k" for i
    using assms(10) [OF that] by (simp add: park_class_def)
  ultimately show ?thesis
    using process_parks [OF assms(1-9) _ _ cl assms(17,18), of k 0 fuel None 0 "[]"] assms(19,20)
    unfolding process_trigger_def by fastforce
qed

definition outage_then_domain :: "nat \<Rightarrow> error_chain" where
  "outage_then_domain n = (if n < 2 then transient [] else domain [])"

lemma transient_failures_spend_budget_witness:
  "\<exists>td w'. process_trigger (demo_cfg (\<lambda>n. BodyErr (outage_then_domain n))) demo_trigger False 3 (demo_world [] []) =
      Some (Finished td, w') \<and> td_parked td \<and> w_runs w' = 3"
proof -
  let ?cfg = "demo_cfg (\<lambda>n. BodyErr (outage_then_domain n))"
  have "\<exists>td w'. process_trigger ?cfg demo_trigger False 3 (demo_world [] []) = Some (Finished td, w') \<and>
      td_parked td \<and> w_runs w' = w_runs (demo_world [] []) + 2 + 1"
    by (rule transient_failures_spend_budget [where N = 2 and t = "()" and err = outage_then_domain])
       (simp_all add: sample_codec_ok demo_failing_body fixed_backoff [simplified] demo_parts [simplified]
          transient_ceiling_def body_result_def outage_then_domain_def transient_def domain_def classify_as_def
          classify_def link_class_def demo_attempts log_inv_new log_room_def demo_fresh)
  then show ?thesis by auto
qed

section \<open>Log wins\<close>

text \<open>C23: without I/O faults, a sealed decision that disagrees with the log is reconciled to it.
  \<open>append_decision\<close> returns within its passes; the record it returns is the sealed one, has the
  same output ids and kind, and every one of its outputs is in the log; the log only gained outputs of the
  original decision, and the body was not run. The conditions: no I/O call fails; the rows of the log that
  disagree can be held by the decision store, that is, have no NUL in their strings; the outputs that agree
  fit into the log; the outputs have distinct ids and are what the store gives back of them; the record is
  that of this consumer and trigger. With a fault between the removal and the new seal, or with a NUL in
  such a row, nothing is claimed.\<close>

theorem divergence_reconciled:
  assumes "codec_ok (xc_codec cfg)" "xc_decision_store cfg" "xc_log cfg = memory_backend" "w_io w = []"
    "mendable e (dr_outputs r) (w_store w)" "decided cfg e r w"
    "dr_consumer r = xc_consumer cfg" "dr_trigger r = re_event_id e"
  shows "\<exists>r' w'. append_decision cfg e r w = (Some r', w') \<and> decided cfg e r' w' \<and>
           map ed_event_id (dr_outputs r') = map ed_event_id (dr_outputs r) \<and> dr_parked r' = dr_parked r \<and>
           all_landed e (dr_outputs r') w' \<and> w_runs w' = w_runs w \<and>
           grown_by e (dr_outputs r) (logged w) (logged w')"
proof -
  have "length (filter (\<lambda>o'. \<not> agrees e (logged w) o') (dr_outputs r)) < length (dr_outputs r) + 2"
    by (rule le_less_trans [OF length_filter_le]) simp
  from passes_converge [OF assms this, of False] show ?thesis
    unfolding append_decision_def by blast
qed

text \<open>The witness: the log holds the first output under another payload.\<close>

definition demo_fork :: event_data where
  "demo_fork = \<lparr> ed_event_id = 48, ed_causation_id = Some 3, ed_workflow_id = 1, ed_event_type = ''shipped'',
     ed_payload = JBool True, ed_created_at = 0, ed_category = Some ''order'', ed_subject_id = Some 9,
     ed_metadata = [], ed_ephemeral = None, ed_persistent = True \<rparr>"

definition forked_store :: memory_store where
  "forked_store = snd (append_to_stream ''order'' 9 AnyState [demo_fork] memory_store_new)"

lemma forked_log: "global_log forked_store = [placed_row ''order'' 9 1 0 demo_fork]"
  by (simp add: forked_store_def append_to_stream_def memory_store_new_def push_row_def Let_def stream_count_def
      stream_offsets_def current_tail_def)

lemma demo_record_outputs:
  "\<exists>a b. dr_outputs (durable_record demo_record) = [a, b] \<and> ed_event_id a = 48 \<and> ed_event_id b = 49 \<and>
     ed_payload a = JNull"
  by (simp add: durable_record_def demo_record_def decision_new_def demo_outputs_def durable_event_def Let_def
      derive_output_event_id_def demo_v5_def output_id_key_def)

lemma forked_mendable: "mendable demo_trigger (dr_outputs (durable_record demo_record)) forked_store"
proof -
  obtain a b where outs: "dr_outputs (durable_record demo_record) = [a, b]"
    and ab: "ed_event_id a = 48" "ed_event_id b = 49" "ed_payload a = JNull"
    using demo_record_outputs by blast
  have durable: "durable_event x = x" if "x \<in> set [a, b]" for x
    using that unfolding outs [symmetric] by (auto simp: durable_record_def)
  have "log_inv forked_store"
    unfolding forked_store_def by (rule append_inv [OF log_inv_new]) (simp add: log_room_def)
  moreover have "\<not> agrees demo_trigger (global_log forked_store) a" "agrees demo_trigger (global_log forked_store) b"
    using ab by (auto simp: agrees_def forked_log demo_fork_def stored_as_def same_row_def)
  moreover have "storable_row (placed_row ''order'' 9 1 0 demo_fork)"
    by (simp add: storable_row_def recorded_to_output_def durable_event_def placed_row_def demo_fork_def)
  ultimately show ?thesis
    using ab durable by (auto simp: mendable_def outs agreeing_def appendable_def forked_log log_room_def)
qed

theorem divergence_reconciled_witness:
  "\<exists>r' w'. append_decision (demo_cfg (\<lambda>_. BodyPanic [])) demo_trigger (durable_record demo_record)
      ((demo_world (snd (seal sample_codec demo_record [])) [])\<lparr> w_store := forked_store \<rparr>) = (Some r', w') \<and>
    all_landed demo_trigger (dr_outputs r') w' \<and> decided (demo_cfg (\<lambda>_. BodyPanic [])) demo_trigger r' w'"
proof -
  let ?w = "(demo_world (snd (seal sample_codec demo_record [])) [])\<lparr> w_store := forked_store \<rparr>"
  have "decided (demo_cfg (\<lambda>_. BodyPanic [])) demo_trigger (durable_record demo_record) ?w"
    using demo_decided [of "\<lambda>_. BodyPanic []" "[]"] by (simp add: decided_def)
  from divergence_reconciled [OF _ _ _ _ _ this] forked_mendable show ?thesis
    by (fastforce simp: sample_codec_ok durable_record_def demo_record_def decision_new_def)
qed

end
