(* ===== verification/Projection_Runner.thy ===== *)
theory Projection_Runner
  imports Reactor_Dispatch Reactor_Exec
begin

text \<open>
  The serial consumers: \<open>ProjectionRunner\<close> (\<open>modules/causal/src/projection_runner.rs\<close>),
  \<open>MultiProjectorRunner\<close> (\<open>modules/causal/src/multi_projector.rs\<close>) and the parking of a failing event
  (\<open>modules/causal/src/projection_failure.rs\<close>), over the explicit state \<open>serial_world\<close> of everything
  they read and write.

  Every call of the log, of the checkpoint store and of the leasor takes its fate from the list
  \<open>sw_io\<close>: it works, it fails before or after its effect, and an infrastructure error is propagated
  with \<open>?\<close>. An empty list means that all further calls work. A fold draws one fate for all the
  stream reads of its gap repair. The body of a projector is the function \<open>pc_project\<close> (\<open>mc_project\<close>)
  of the run's number, the fact and its context; what it does outside is left out, its runs are the
  history \<open>sw_projected\<close>. The two runners share their configuration, the record \<open>serial_config\<close>.
\<close>

section \<open>Configuration and state\<close>

record serial_config =
  sc_consumer :: string
  sc_depends_on :: "string list"
  sc_log :: "memory_store backend"
  sc_codec :: codec
  sc_v5 :: "uuid \<Rightarrow> string \<Rightarrow> uuid"
  sc_key_order :: "uuid list \<Rightarrow> uuid list"
  sc_clock :: "nat \<Rightarrow> datetime"
  sc_instant :: "nat \<Rightarrow> nat"
  sc_observer :: bool
  sc_leasor :: bool
  sc_render :: "registry_error \<Rightarrow> string"
  sc_backend_chain :: "registry_error \<Rightarrow> error_chain"

text \<open>The \<open>Ctx\<close> handed to a body; the fields the serial runners always leave empty are left out.\<close>

record 'a serial_ctx =
  cx_event_id :: uuid
  cx_log_position :: log_cursor
  cx_occurred_at :: datetime
  cx_workflow_id :: uuid
  cx_metadata :: jmap
  cx_consumer :: string
  cx_state :: "'a registry option"

record ('f, 'a) projector_config = serial_config +
  pc_kind :: string
  pc_decode :: "json \<Rightarrow> string + 'f"
  pc_occurred_at :: "'f \<Rightarrow> datetime option"
  pc_project :: "nat \<Rightarrow> 'f \<Rightarrow> 'a serial_ctx \<Rightarrow> error_chain option"

record 'a multi_config = serial_config +
  mc_kinds :: "string list"
  mc_project :: "nat \<Rightarrow> recorded_event \<Rightarrow> 'a serial_ctx \<Rightarrow> error_chain option"

record 'a serial_world =
  sw_store :: memory_store
  sw_registry :: "'a registry option"
  sw_hydrated :: bool
  sw_leased :: bool
  sw_failure :: failure_state
  sw_settle :: "settle_tracker option"
  sw_io :: "io_fate list"
  sw_ticks :: nat
  sw_projected :: "(uuid \<times> bool) list"
  sw_parked :: "uuid list"

text \<open>\<open>sw_projected\<close> lists the runs of the body with their outcome, \<open>sw_parked\<close> the terminal failures
  shown to the observer: history variables. What a \<open>step\<close> fails with: a call that gave no answer, the log's
  own error, or the failure of an event.\<close>

datatype step_error =
    IoError
  | LogError append_error
  | EventError uuid error_chain

definition serial_call ::
  "('a serial_world \<Rightarrow> 'x \<times> 'a serial_world) \<Rightarrow> 'a serial_world \<Rightarrow> 'x option \<times> 'a serial_world" where
  "serial_call call w =
     (case sw_io w of
        [] \<Rightarrow> (case call w of (x, w') \<Rightarrow> (Some x, w'))
      | IoOk # fs \<Rightarrow> (case call (w\<lparr> sw_io := fs \<rparr>) of (x, w') \<Rightarrow> (Some x, w'))
      | IoFailBefore # fs \<Rightarrow> (None, w\<lparr> sw_io := fs \<rparr>)
      | IoFailAfter # fs \<Rightarrow> (None, snd (call (w\<lparr> sw_io := fs \<rparr>))))"

definition serial_clock :: "'z serial_config_scheme \<Rightarrow> 'a serial_world \<Rightarrow> datetime \<times> 'a serial_world" where
  "serial_clock cfg w = (sc_clock cfg (sw_ticks w), w\<lparr> sw_ticks := Suc (sw_ticks w) \<rparr>)"

abbreviation in_store :: "(memory_store \<Rightarrow> memory_store) \<Rightarrow> 'a serial_world \<Rightarrow> 'a serial_world" where
  "in_store f w \<equiv> w\<lparr> sw_store := f (sw_store w) \<rparr>"

section \<open>Store calls\<close>

definition serial_cursor :: "string \<Rightarrow> 'a serial_world \<Rightarrow> log_cursor option \<times> 'a serial_world" where
  "serial_cursor consumer w =
     serial_call (\<lambda>w. (case cursor_get consumer (sw_store w) of Some c \<Rightarrow> c | None \<Rightarrow> cursor_zero, w)) w"

definition serial_advance ::
  "'z serial_config_scheme \<Rightarrow> log_cursor \<Rightarrow> 'a serial_world \<Rightarrow> unit option \<times> 'a serial_world" where
  "serial_advance cfg pos w =
     serial_call (\<lambda>w. ((), in_store (cursor_advance (sc_consumer cfg) pos) w)) w"

definition serial_read ::
  "'z serial_config_scheme \<Rightarrow> log_cursor \<Rightarrow> nat \<Rightarrow> 'a serial_world \<Rightarrow>
   (step_error + recorded_event list) \<times> 'a serial_world" where
  "serial_read cfg cur batch w =
     (case serial_call (\<lambda>w. (b_read_all (sc_log cfg) cur batch (sw_store w), w)) w of
        (None, w') \<Rightarrow> (Inl IoError, w')
      | (Some (Inl err), w') \<Rightarrow> (Inl (LogError err), w')
      | (Some (Inr es), w') \<Rightarrow> (Inr es, w'))"

text \<open>\<open>ensure_leased\<close>: the lease is acquired once.\<close>

definition ensure_leased :: "'z serial_config_scheme \<Rightarrow> 'a serial_world \<Rightarrow> unit option \<times> 'a serial_world" where
  "ensure_leased cfg w =
     (if \<not> sc_leasor cfg \<or> sw_leased w then (Some (), w)
      else case serial_call (\<lambda>w. ((), w)) w of
        (None, w1) \<Rightarrow> (None, w1)
      | (Some _, w1) \<Rightarrow> (Some (), w1\<lparr> sw_leased := True \<rparr>))"

section \<open>Folding\<close>

text \<open>The errors of a fold: the registry's own are one unclassified message (\<open>bail!\<close>, and the
  \<open>anyhow!\<close> of \<open>apply_event\<close> that renders its cause); a backend's error keeps its chain.\<close>

definition fold_error_chain :: "'z serial_config_scheme \<Rightarrow> registry_error \<Rightarrow> error_chain" where
  "fold_error_chain cfg err =
     (case err of
        MisalignedFold _ _ \<Rightarrow> [\<lparr> el_kind = OtherError, el_message = sc_render cfg err \<rparr>]
      | FoldFailed _ _ \<Rightarrow> [\<lparr> el_kind = OtherError, el_message = sc_render cfg err \<rparr>]
      | NotConverged \<Rightarrow> [\<lparr> el_kind = OtherError, el_message = sc_render cfg err \<rparr>]
      | _ \<Rightarrow> sc_backend_chain cfg err)"

definition failing_reads :: "'s backend \<Rightarrow> 's backend" where
  "failing_reads B = B\<lparr> b_read_stream := (\<lambda>_ _ _ _. Inl (BackendError [])) \<rparr>"

definition fold_fate :: "'a serial_world \<Rightarrow> bool \<times> 'a serial_world" where
  "fold_fate w =
     (case sw_io w of [] \<Rightarrow> (True, w) | f # fs \<Rightarrow> (f = IoOk, w\<lparr> sw_io := fs \<rparr>))"

definition serial_fold ::
  "'z serial_config_scheme \<Rightarrow> recorded_event \<Rightarrow> 'a registry \<Rightarrow> 'a serial_world \<Rightarrow>
   (registry_error + 'a fold_outcome) \<times> 'a serial_world" where
  "serial_fold cfg e rg w =
     (case fold_fate w of
        (up, w1) \<Rightarrow>
          (case fold_event (sc_codec cfg) None (if up then sc_log cfg else failing_reads (sc_log cfg))
                  (fact_of_row e) True rg (sw_store w1) of
             (res, rg', s') \<Rightarrow> (res, w1\<lparr> sw_registry := Some rg', sw_store := s' \<rparr>)))"

definition notify_folds ::
  "recorded_event \<Rightarrow> (string \<times> json) list \<Rightarrow> memory_store \<Rightarrow> memory_store" where
  "notify_folds e folds s =
     fold (\<lambda>(key, state). aggregate_folded (re_workflow_id e) (re_position e) (re_event_id e) key state) folds s"

text \<open>The fold before the dispatch: \<open>Some\<close> chain when it failed.\<close>

definition fold_first ::
  "'z serial_config_scheme \<Rightarrow> recorded_event \<Rightarrow> 'a serial_world \<Rightarrow> error_chain option \<times> 'a serial_world" where
  "fold_first cfg e w =
     (case sw_registry w of
        None \<Rightarrow> (None, w)
      | Some rg \<Rightarrow>
          (case serial_fold cfg e rg w of
             (Inl err, w1) \<Rightarrow> (Some (fold_error_chain cfg err), w1)
           | (Inr outcome, w1) \<Rightarrow>
               (None,
                if fo_applied outcome \<and> sc_observer cfg
                then (case sw_registry w1 of
                        Some rg1 \<Rightarrow> in_store (notify_folds e (notify_observer rg1 (fo_snapshots outcome))) w1
                      | None \<Rightarrow> w1)
                else w1)))"

section \<open>Parking\<close>

definition projection_failed_kind :: string where
  "projection_failed_kind = ''causal:projection_failed''"

definition projection_failed_event ::
  "'z serial_config_scheme \<Rightarrow> recorded_event \<Rightarrow> failure_class \<Rightarrow> u32 \<Rightarrow> string \<Rightarrow> datetime \<Rightarrow> event_data" where
  "projection_failed_event cfg e class attempts error now =
     \<lparr> ed_event_id = derive_output_event_id (sc_v5 cfg) (sc_consumer cfg) (re_event_id e)
                       projection_failed_kind (re_subject_id e) (- 1),
       ed_causation_id = Some (re_event_id e), ed_workflow_id = re_workflow_id e,
       ed_event_type = projection_failed_kind,
       ed_payload = JObject
         [(''attempts'', JNumber (JPosInt (ucast attempts))),
          (''class'', JString (failure_class_str class)),
          (''consumer'', JString (sc_consumer cfg)),
          (''error'', JString error),
          (''event_id'', JString (cd_uuid (sc_codec cfg) (re_event_id e))),
          (''event_type'', JString (re_event_type e)),
          (''position'', JNumber (JPosInt (re_position e)))],
       ed_created_at = now, ed_category = Some (re_category e), ed_subject_id = Some (re_subject_id e),
       ed_metadata = [(''projector_id'', JString (sc_consumer cfg))],
       ed_ephemeral = None, ed_persistent = True \<rparr>"

definition append_projection_failed ::
  "'z serial_config_scheme \<Rightarrow> recorded_event \<Rightarrow> failure_class \<Rightarrow> u32 \<Rightarrow> string \<Rightarrow> datetime \<Rightarrow>
   'a serial_world \<Rightarrow> (step_error + unit) \<times> 'a serial_world" where
  "append_projection_failed cfg e class attempts error now w =
     (case serial_call (\<lambda>w. case b_append (sc_log cfg) (re_category e) (re_subject_id e) AnyState
                                 [projection_failed_event cfg e class attempts error now] (sw_store w) of
                              (x, s) \<Rightarrow> (x, w\<lparr> sw_store := s \<rparr>)) w of
        (None, w1) \<Rightarrow> (Inl IoError, w1)
      | (Some (Inl err), w1) \<Rightarrow> (Inl (LogError err), w1)
      | (Some (Inr wr), w1) \<Rightarrow>
          (Inr (), w1\<lparr> sw_settle :=
             map_option (bump (sc_key_order cfg) (re_workflow_id e) (wr_position wr)) (sw_settle w1) \<rparr>))"

definition park_event ::
  "'z serial_config_scheme \<Rightarrow> recorded_event \<Rightarrow> failure_class \<Rightarrow> u32 \<Rightarrow> string \<Rightarrow> 'a serial_world \<Rightarrow>
   (step_error + unit) \<times> 'a serial_world" where
  "park_event cfg e class attempts error w =
     (case serial_clock cfg w of
        (now, w1) \<Rightarrow>
          let w2 = (if sc_observer cfg then w1\<lparr> sw_parked := sw_parked w1 @ [re_event_id e] \<rparr> else w1)
          in (case append_projection_failed cfg e class attempts error now w2 of
                (Inl err, w3) \<Rightarrow> (Inl err, w3)
              | (Inr _, w3) \<Rightarrow>
                  (Inr (), w3\<lparr> sw_failure := failure_clear (re_event_id e) (sw_failure w3) \<rparr>)))"

definition park_or_propagate ::
  "'z serial_config_scheme \<Rightarrow> recorded_event \<Rightarrow> error_chain \<Rightarrow> 'a serial_world \<Rightarrow>
   step_error option \<times> 'a serial_world" where
  "park_or_propagate cfg e err w =
     (case on_failure (sc_instant cfg (sw_ticks w)) (re_event_id e) err (sw_failure w) of
        (decision, fs) \<Rightarrow>
          let w1 = w\<lparr> sw_failure := fs, sw_ticks := Suc (sw_ticks w) \<rparr>
          in (case decision of
                Retry \<Rightarrow> (Some (EventError (re_event_id e) err), w1)
              | Park class attempts \<Rightarrow>
                  (case park_event cfg e class attempts (bounded_error_chain err) w1 of
                     (Inl perr, w2) \<Rightarrow> (Some perr, w2)
                   | (Inr _, w2) \<Rightarrow>
                       (case serial_advance cfg (re_position e) w2 of
                          (None, w3) \<Rightarrow> (Some IoError, w3)
                        | (Some _, w3) \<Rightarrow> (None, w3)))))"

section \<open>One event\<close>

text \<open>What the body of the loop does with an event: an error leaves the step, \<open>applied\<close> counts.\<close>

definition parked_as :: "step_error option \<times> 'a serial_world \<Rightarrow> (step_error + bool) \<times> 'a serial_world" where
  "parked_as r = (case r of (Some err, w) \<Rightarrow> (Inl err, w) | (None, w) \<Rightarrow> (Inr False, w))"

definition skip_event ::
  "'z serial_config_scheme \<Rightarrow> recorded_event \<Rightarrow> 'a serial_world \<Rightarrow> (step_error + bool) \<times> 'a serial_world" where
  "skip_event cfg e w =
     (case serial_advance cfg (re_position e) w of
        (None, w1) \<Rightarrow> (Inl IoError, w1) | (Some _, w1) \<Rightarrow> (Inr False, w1))"

text \<open>The end of both runners' loop body: the outcome of \<open>project\<close>, then the cursor.\<close>

definition after_project ::
  "'z serial_config_scheme \<Rightarrow> recorded_event \<Rightarrow> error_chain option \<Rightarrow> 'a serial_world \<Rightarrow>
   (step_error + bool) \<times> 'a serial_world" where
  "after_project cfg e outcome w =
     (let w1 = w\<lparr> sw_projected := sw_projected w @ [(re_event_id e, outcome = None)] \<rparr> in
      case outcome of
        Some err \<Rightarrow> parked_as (park_or_propagate cfg e err w1)
      | None \<Rightarrow>
          (case serial_advance cfg (re_position e)
                  (w1\<lparr> sw_failure := failure_clear (re_event_id e) (sw_failure w1) \<rparr>) of
             (None, w2) \<Rightarrow> (Inl IoError, w2) | (Some _, w2) \<Rightarrow> (Inr True, w2)))"

definition project_event ::
  "('f, 'a) projector_config \<Rightarrow> recorded_event \<Rightarrow> 'a serial_world \<Rightarrow> (step_error + bool) \<times> 'a serial_world" where
  "project_event cfg e w =
     (case fold_first cfg e w of
        (Some err, w1) \<Rightarrow> parked_as (park_or_propagate cfg e err w1)
      | (None, w1) \<Rightarrow>
          if \<not> matches_kind (re_event_type e) (pc_kind cfg) then skip_event cfg e w1
          else case pc_decode cfg (re_payload e) of
            Inl msg \<Rightarrow>
              parked_as (park_or_propagate cfg e [\<lparr> el_kind = SerdeJson, el_message = msg \<rparr>] w1)
          | Inr decoded \<Rightarrow>
              let ctx = \<lparr> cx_event_id = re_event_id e, cx_log_position = re_position e,
                          cx_occurred_at = (case pc_occurred_at cfg decoded of
                                              Some t \<Rightarrow> t | None \<Rightarrow> re_created_at e),
                          cx_workflow_id = re_workflow_id e, cx_metadata = re_metadata e,
                          cx_consumer = sc_consumer cfg, cx_state = sw_registry w1 \<rparr>
              in after_project cfg e (pc_project cfg (length (sw_projected w1)) decoded ctx) w1)"

definition is_subscribed_kind :: "string \<Rightarrow> string \<Rightarrow> bool" where
  "is_subscribed_kind event_type kind = matches_kind event_type kind"

definition multi_event ::
  "'a multi_config \<Rightarrow> recorded_event \<Rightarrow> 'a serial_world \<Rightarrow> (step_error + bool) \<times> 'a serial_world" where
  "multi_event cfg e w =
     (case fold_first cfg e w of
        (Some err, w1) \<Rightarrow> parked_as (park_or_propagate cfg e err w1)
      | (None, w1) \<Rightarrow>
          if \<not> list_ex (is_subscribed_kind (re_event_type e)) (mc_kinds cfg) then skip_event cfg e w1
          else
            let ctx = \<lparr> cx_event_id = re_event_id e, cx_log_position = re_position e,
                        cx_occurred_at = re_created_at e, cx_workflow_id = re_workflow_id e,
                        cx_metadata = re_metadata e, cx_consumer = sc_consumer cfg,
                        cx_state = sw_registry w1 \<rparr>
            in after_project cfg e (mc_project cfg (length (sw_projected w1)) e ctx) w1)"

section \<open>Hydration\<close>

text \<open>One batch of the replay: \<open>Inr True\<close> when an event beyond the cursor was met.\<close>

fun hydrate_batch ::
  "'z serial_config_scheme \<Rightarrow> log_cursor \<Rightarrow> recorded_event list \<Rightarrow> 'a serial_world \<Rightarrow>
   (step_error + bool) \<times> 'a serial_world" where
  "hydrate_batch cfg cur [] w = (Inr False, w)"
| "hydrate_batch cfg cur (e # es) w =
     (if cur < re_position e then (Inr True, w)
      else case sw_registry w of
        None \<Rightarrow> (Inr False, w)
      | Some rg \<Rightarrow>
          (case serial_fold cfg e rg w of
             (Inr _, w1) \<Rightarrow> hydrate_batch cfg cur es w1
           | (Inl err, w1) \<Rightarrow>
               if classify_structural (fold_error_chain cfg err) = Some Poison
               then hydrate_batch cfg cur es w1
               else (Inl (EventError (re_event_id e) (fold_error_chain cfg err)), w1)))"

text \<open>The loop over the batches; \<open>None\<close> means that the fuel, the number of batches, ran out.\<close>

fun hydrate_loop ::
  "'z serial_config_scheme \<Rightarrow> log_cursor \<Rightarrow> nat \<Rightarrow> log_cursor \<Rightarrow> 'a serial_world \<Rightarrow>
   (step_error option \<times> 'a serial_world) option" where
  "hydrate_loop cfg cur 0 from_pos w = None"
| "hydrate_loop cfg cur (Suc fuel) from_pos w =
     (case serial_read cfg from_pos 1024 w of
        (Inl err, w1) \<Rightarrow> Some (Some err, w1)
      | (Inr batch, w1) \<Rightarrow>
          if batch = [] then Some (None, w1)
          else (case hydrate_batch cfg cur batch w1 of
                  (Inl err, w2) \<Rightarrow> Some (Some err, w2)
                | (Inr hit, w2) \<Rightarrow>
                    if hit \<or> cur \<le> re_position (last batch) then Some (None, w2)
                    else hydrate_loop cfg cur fuel (re_position (last batch)) w2))"

definition ensure_hydrated ::
  "'z serial_config_scheme \<Rightarrow> nat \<Rightarrow> log_cursor \<Rightarrow> 'a serial_world \<Rightarrow>
   (step_error option \<times> 'a serial_world) option" where
  "ensure_hydrated cfg fuel cur w =
     (if sw_registry w = None \<or> sw_hydrated w then Some (None, w)
      else if cur = cursor_zero then Some (None, w\<lparr> sw_hydrated := True \<rparr>)
      else map_option (\<lambda>(err, w1). (err, if err = None then w1\<lparr> sw_hydrated := True \<rparr> else w1))
             (hydrate_loop cfg cur fuel cursor_zero w))"

section \<open>A step\<close>

text \<open>The dependency fence: the first dependency behind the cursor.\<close>

fun fence_deps ::
  "log_cursor \<Rightarrow> string list \<Rightarrow> 'a serial_world \<Rightarrow> step_outcome option option \<times> 'a serial_world" where
  "fence_deps cur [] w = (Some None, w)"
| "fence_deps cur (dep # deps) w =
     (case serial_cursor dep w of
        (None, w1) \<Rightarrow> (None, w1)
      | (Some dep_cursor, w1) \<Rightarrow>
          if dep_cursor < cur then (Some (Some (WaitOnDep dep cur dep_cursor)), w1)
          else fence_deps cur deps w1)"

fun each_event ::
  "(recorded_event \<Rightarrow> 'a serial_world \<Rightarrow> (step_error + bool) \<times> 'a serial_world) \<Rightarrow>
   recorded_event list \<Rightarrow> nat \<Rightarrow> 'a serial_world \<Rightarrow> (step_error + step_outcome) \<times> 'a serial_world" where
  "each_event f [] applied w = (Inr (Progressed applied), w)"
| "each_event f (e # es) applied w =
     (case f e w of
        (Inl err, w1) \<Rightarrow> (Inl err, w1)
      | (Inr b, w1) \<Rightarrow> each_event f es (if b then Suc applied else applied) w1)"

text \<open>\<open>None\<close> means that the hydration's fuel ran out.\<close>

definition serial_step ::
  "'z serial_config_scheme \<Rightarrow>
   (recorded_event \<Rightarrow> 'a serial_world \<Rightarrow> (step_error + bool) \<times> 'a serial_world) \<Rightarrow>
   nat \<Rightarrow> nat \<Rightarrow> 'a serial_world \<Rightarrow> ((step_error + step_outcome) \<times> 'a serial_world) option" where
  "serial_step cfg f fuel batch w =
     (case ensure_leased cfg w of
        (None, w1) \<Rightarrow> Some (Inl IoError, w1)
      | (Some _, w1) \<Rightarrow>
          (case serial_cursor (sc_consumer cfg) w1 of
             (None, w2) \<Rightarrow> Some (Inl IoError, w2)
           | (Some cur, w2) \<Rightarrow>
               (case fence_deps cur (sc_depends_on cfg) w2 of
                  (None, w3) \<Rightarrow> Some (Inl IoError, w3)
                | (Some (Some wait), w3) \<Rightarrow> Some (Inr wait, w3)
                | (Some None, w3) \<Rightarrow>
                    (case ensure_hydrated cfg fuel cur w3 of
                       None \<Rightarrow> None
                     | Some (Some err, w4) \<Rightarrow> Some (Inl err, w4)
                     | Some (None, w4) \<Rightarrow>
                         (case serial_read cfg cur batch w4 of
                            (Inl err, w5) \<Rightarrow> Some (Inl err, w5)
                          | (Inr events, w5) \<Rightarrow>
                              if events = [] then Some (Inr Idle, w5)
                              else Some (each_event f events 0 w5))))))"

definition projection_step ::
  "('f, 'a) projector_config \<Rightarrow> nat \<Rightarrow> nat \<Rightarrow> 'a serial_world \<Rightarrow>
   ((step_error + step_outcome) \<times> 'a serial_world) option" where
  "projection_step cfg fuel batch w = serial_step cfg (project_event cfg) fuel batch w"

definition multi_step ::
  "'a multi_config \<Rightarrow> nat \<Rightarrow> nat \<Rightarrow> 'a serial_world \<Rightarrow>
   ((step_error + step_outcome) \<times> 'a serial_world) option" where
  "multi_step cfg fuel batch w = serial_step cfg (multi_event cfg) fuel batch w"

section \<open>Construction\<close>

text \<open>A new runner over a store that is there: \<open>new\<close> and its \<open>with_\<close> methods. \<open>MultiProjectorRunner::new\<close>
  panics, \<open>None\<close>, on an empty subscription.\<close>

definition default_max_attempts :: u32 where "default_max_attempts = 3"

definition projection_runner_new ::
  "retry_policy option \<Rightarrow> 'a aggregator list option \<Rightarrow> settle_tracker option \<Rightarrow> memory_store \<Rightarrow> 'a serial_world" where
  "projection_runner_new policy ags settle s =
     \<lparr> sw_store = s, sw_registry = map_option registry_new ags, sw_hydrated = False, sw_leased = False,
       sw_failure = failure_state_new (case policy of Some p \<Rightarrow> p | None \<Rightarrow> from_max_attempts default_max_attempts),
       sw_settle = settle, sw_io = [], sw_ticks = 0, sw_projected = [], sw_parked = [] \<rparr>"

definition multi_runner_new ::
  "'a multi_config \<Rightarrow> retry_policy option \<Rightarrow> 'a aggregator list option \<Rightarrow> settle_tracker option \<Rightarrow>
   memory_store \<Rightarrow> 'a serial_world option" where
  "multi_runner_new cfg policy ags settle s =
     (if mc_kinds cfg = [] then None else Some (projection_runner_new policy ags settle s))"

end
