(* ===== verification/Projection_Laws.thy ===== *)
theory Projection_Laws
  imports Projection_Runner Reactor_Exec_Laws
begin

text \<open>
  What the operations of the serial runners do to the log, to the cursors and to the history
  (\<open>Projection_Runner\<close>), under any fate of their calls. The locale \<open>serial_consumer\<close> is what a step
  relies on: whatever happens to an event, the cursor passes it only when the event is accounted
  for. Both runners are interpretations of it.
\<close>

section \<open>Frames\<close>

abbreviation slog :: "'a serial_world \<Rightarrow> recorded_event list" where
  "slog w \<equiv> global_log (sw_store w)"

abbreviation cursors :: "'a serial_world \<Rightarrow> (string, log_cursor) hmap" where
  "cursors w \<equiv> projection_cursors (sw_store w)"

definition cursor_at :: "string \<Rightarrow> memory_store \<Rightarrow> log_cursor" where
  "cursor_at consumer s = (case cursor_get consumer s of Some c \<Rightarrow> c | None \<Rightarrow> cursor_zero)"

text \<open>Neither the log nor a cursor changes, and the body does not run.\<close>

definition serial_quiet :: "'a serial_world \<Rightarrow> 'a serial_world \<Rightarrow> bool" where
  "serial_quiet w w' \<longleftrightarrow>
     same_log (sw_store w) (sw_store w') \<and> cursors w' = cursors w \<and> sw_projected w' = sw_projected w \<and>
     (sw_io w = [] \<longrightarrow> sw_io w' = []) \<and> (sw_registry w = None \<longrightarrow> sw_registry w' = None)"

text \<open>The log grows by at most \<open>k\<close> events, the history by runs.\<close>

definition serial_grows :: "nat \<Rightarrow> 'a serial_world \<Rightarrow> 'a serial_world \<Rightarrow> bool" where
  "serial_grows k w w' \<longleftrightarrow>
     (\<exists>new. slog w' = slog w @ new) \<and> (\<exists>ps. sw_projected w' = sw_projected w @ ps) \<and>
     (log_inv (sw_store w) \<longrightarrow> log_room k (sw_store w) \<longrightarrow> log_inv (sw_store w')) \<and>
     (\<forall>n. log_inv (sw_store w) \<longrightarrow> log_room (k + n) (sw_store w) \<longrightarrow> log_room n (sw_store w'))"

lemma serial_quiet_refl [simp]: "serial_quiet w w"
  by (simp add: serial_quiet_def same_log_def)

lemma serial_quiet_trans: "serial_quiet w w' \<Longrightarrow> serial_quiet w' w'' \<Longrightarrow> serial_quiet w w''"
  by (auto simp: serial_quiet_def same_log_def)

lemma serial_quiet_cursors: "serial_quiet w w' \<Longrightarrow> cursors w' = cursors w"
  by (simp add: serial_quiet_def)

lemma quiet_grows: "serial_quiet w w' \<Longrightarrow> serial_grows k w w'"
  by (auto simp: serial_quiet_def serial_grows_def log_room_def same_log_inv) (simp_all add: same_log_def)

lemma serial_grows_refl [simp]: "serial_grows k w w"
  by (rule quiet_grows) simp

lemma serial_grows_trans:
  assumes "serial_grows k w w'" "serial_grows m w' w''"
  shows "serial_grows (k + m) w w''"
proof -
  obtain new new' ps ps' where "slog w' = slog w @ new" "slog w'' = slog w' @ new'"
    "sw_projected w' = sw_projected w @ ps" "sw_projected w'' = sw_projected w' @ ps'"
    using assms unfolding serial_grows_def by blast
  then have grow: "\<exists>new. slog w'' = slog w @ new" "\<exists>ps. sw_projected w'' = sw_projected w @ ps" by simp_all
  have step: "log_inv (sw_store w') \<and> (\<forall>n. log_room (k + n) (sw_store w) \<longrightarrow> log_room n (sw_store w'))"
    if "log_inv (sw_store w)" "log_room k (sw_store w)"
    using assms(1) that by (simp add: serial_grows_def)
  have less: "log_room k (sw_store w)" if "log_room (k + n) (sw_store w)" for n
    using that by (simp add: log_room_def)
  have "log_inv (sw_store w'')" if "log_inv (sw_store w)" "log_room (k + m) (sw_store w)"
    using step [OF that(1) less [OF that(2)]] that(2) assms(2) by (simp add: serial_grows_def)
  moreover have "log_room n (sw_store w'')" if "log_inv (sw_store w)" "log_room (k + m + n) (sw_store w)" for n
    using step [OF that(1) less [of "m + n"]] that(2) assms(2) by (simp add: serial_grows_def add.assoc)
  ultimately show ?thesis using grow by (simp add: serial_grows_def)
qed

lemma serial_grows_mono: "serial_grows k w w' \<Longrightarrow> k \<le> m \<Longrightarrow> serial_grows m w w'"
  by (auto simp: serial_grows_def log_room_def)

lemma serial_call_cases:
  assumes "serial_call call w = (res, w')"
  obtains (ok) x where "res = Some x" "call (w\<lparr> sw_io := tl (sw_io w) \<rparr>) = (x, w')"
  | (before) "res = None" "sw_io w \<noteq> []" "w' = w\<lparr> sw_io := tl (sw_io w) \<rparr>"
  | (after) "res = None" "sw_io w \<noteq> []" "w' = snd (call (w\<lparr> sw_io := tl (sw_io w) \<rparr>))"
proof (cases "sw_io w")
  case Nil
  obtain x w1 where c: "call w = (x, w1)" by fastforce
  have "w\<lparr> sw_io := tl (sw_io w) \<rparr> = w" using Nil by simp
  with c have "call (w\<lparr> sw_io := tl (sw_io w) \<rparr>) = (x, w1)" by (simp only:)
  moreover have "res = Some x" "w' = w1" using assms Nil c by (simp_all add: serial_call_def)
  ultimately show ?thesis using ok by simp
next
  case (Cons f fs)
  then show ?thesis
    using assms ok before after by (cases f) (auto simp: serial_call_def split: prod.splits)
qed

lemma serial_call_fault_free: "sw_io w = [] \<Longrightarrow> serial_call call w = (Some (fst (call w)), snd (call w))"
  by (simp add: serial_call_def split: prod.split)

lemma next_fate_quiet [simp]: "serial_quiet w (w\<lparr> sw_io := tl (sw_io w) \<rparr>)"
  by (simp add: serial_quiet_def same_log_def)

text \<open>A call that only reads.\<close>

lemma read_call:
  assumes "serial_call (\<lambda>w. (g (sw_store w), w)) w = (res, w')"
  shows "serial_quiet w w' \<and> sw_store w' = sw_store w \<and> sw_registry w' = sw_registry w \<and>
    (res = None \<or> res = Some (g (sw_store w)))"
  using assms by (cases rule: serial_call_cases) (auto simp: serial_quiet_def same_log_def)

lemma serial_cursor_quiet:
  assumes "serial_cursor c w = (res, w')"
  shows "serial_quiet w w' \<and> sw_store w' = sw_store w \<and> sw_registry w' = sw_registry w \<and>
    (res = None \<or> res = Some (cursor_at c (sw_store w)))"
  using read_call [of "\<lambda>s. case cursor_get c s of Some c \<Rightarrow> c | None \<Rightarrow> cursor_zero" w res w'] assms
  by (simp add: serial_cursor_def cursor_at_def)

lemma serial_read_quiet:
  assumes "serial_read cfg cur batch w = (res, w')"
  shows "serial_quiet w w' \<and> sw_store w' = sw_store w \<and> sw_registry w' = sw_registry w \<and>
    (isl res \<or> (\<exists>es. b_read_all (sc_log cfg) cur batch (sw_store w) = Inr es \<and> res = Inr es))"
proof -
  obtain r w1 where c: "serial_call (\<lambda>w. (b_read_all (sc_log cfg) cur batch (sw_store w), w)) w = (r, w1)"
    by fastforce
  from read_call [OF this] show ?thesis
    using assms c by (auto simp: serial_read_def split: option.splits sum.splits)
qed

lemma ensure_leased_quiet:
  assumes "ensure_leased cfg w = (res, w')"
  shows "serial_quiet w w' \<and> sw_store w' = sw_store w \<and> sw_registry w' = sw_registry w"
proof -
  obtain r w1 where c: "serial_call (\<lambda>w. ((), w)) w = (r, w1)" by fastforce
  have "serial_quiet w w1 \<and> sw_store w1 = sw_store w \<and> sw_registry w1 = sw_registry w"
    using read_call [of "\<lambda>_. ()", OF c] by simp
  then show ?thesis
    using assms c by (auto simp: ensure_leased_def serial_quiet_def split: if_splits option.splits)
qed

section \<open>Folds\<close>

lemma snap_only_cursors:
  assumes "snap_only s s'"
  shows "projection_cursors s' = projection_cursors s"
proof -
  have "s'\<lparr> snapshots := [] \<rparr> = s\<lparr> snapshots := [] \<rparr>" using assms by (simp add: snap_only_def)
  from arg_cong [OF this, of projection_cursors] show ?thesis by simp
qed

lemma serial_fold_quiet:
  assumes "serial_fold cfg e rg w = (res, w')"
  shows "serial_quiet w (w'\<lparr> sw_registry := sw_registry w \<rparr>)"
proof -
  obtain up w1 where u: "fold_fate w = (up, w1)" by fastforce
  have w1: "sw_store w1 = sw_store w" "sw_projected w1 = sw_projected w" "sw_io w = [] \<longrightarrow> sw_io w1 = []"
    using u by (auto simp: fold_fate_def split: list.splits)
  obtain r rg' s' where f: "fold_event (sc_codec cfg) None (if up then sc_log cfg else failing_reads (sc_log cfg))
      (fact_of_row e) True rg (sw_store w1) = (r, rg', s')" by (metis surj_pair)
  have "snap_only (sw_store w1) s'" by (rule fold_event_snap_only [OF _ f]) (simp add: our_snapshots_def)
  from snap_only_fields(1) [OF this] snap_only_cursors [OF this] show ?thesis
    using assms u f w1 by (auto simp: serial_fold_def serial_quiet_def)
qed

lemma notify_folds_frame:
  "same_log s (notify_folds e folds s) \<and> projection_cursors (notify_folds e folds s) = projection_cursors s"
  unfolding notify_folds_def
proof (induction folds arbitrary: s)
  case (Cons p ps)
  obtain key state where p: "p = (key, state)" by fastforce
  show ?case
    using Cons.IH [of "aggregate_folded (re_workflow_id e) (re_position e) (re_event_id e) key state s"]
    by (simp add: p aggregate_folded_def same_log_def)
qed (simp add: same_log_def)

lemma fold_first_quiet:
  assumes "fold_first cfg e w = (res, w')"
  shows "serial_quiet w w'"
proof (cases "sw_registry w")
  case None
  then show ?thesis using assms by (simp add: fold_first_def)
next
  case (Some rg)
  obtain r w1 where f: "serial_fold cfg e rg w = (r, w1)" by fastforce
  have q: "serial_quiet w (w1\<lparr> sw_registry := sw_registry w \<rparr>)" by (rule serial_fold_quiet [OF f])
  show ?thesis
    using assms Some f q notify_folds_frame
    by (auto simp: fold_first_def serial_quiet_def same_log_def split: sum.splits option.splits if_splits)
qed

section \<open>Parking\<close>

text \<open>The terminal fact of the event is in the log.\<close>

definition parked_in_log ::
  "'z serial_config_scheme \<Rightarrow> recorded_event list \<Rightarrow> recorded_event \<Rightarrow> bool" where
  "parked_in_log cfg rows e \<longleftrightarrow>
     (\<exists>row \<in> set rows. \<exists>class attempts error now.
        same_row (re_category e) (re_subject_id e)
          (projection_failed_event cfg e class attempts error now) row)"

lemma parked_in_logI:
  "row \<in> set rows \<Longrightarrow> same_row (re_category e) (re_subject_id e)
     (projection_failed_event cfg e class attempts error now) row \<Longrightarrow> parked_in_log cfg rows e"
  unfolding parked_in_log_def by blast

lemma append_projection_failed_effect:
  assumes log: "sc_log cfg = memory_backend" and inv: "log_inv (sw_store w)" "log_room 1 (sw_store w)"
    and app: "append_projection_failed cfg e class attempts error now w = (res, w')"
  shows "serial_grows 1 w w' \<and> cursors w' = cursors w \<and> (\<not> isl res \<longrightarrow> parked_in_log cfg (slog w') e)"
proof -
  let ?out = "projection_failed_event cfg e class attempts error now"
  let ?call = "\<lambda>w. case b_append (sc_log cfg) (re_category e) (re_subject_id e) AnyState [?out] (sw_store w) of
                     (x, s) \<Rightarrow> (x, w\<lparr> sw_store := s \<rparr>)"
  obtain x s' where a: "append_to_stream (re_category e) (re_subject_id e) AnyState [?out] (sw_store w) = (x, s')"
    by fastforce
  have call: "?call (w\<lparr> sw_io := io \<rparr>) = (x, w\<lparr> sw_io := io, sw_store := s' \<rparr>)" for io
    using a log by (simp add: memory_backend_def)
  obtain r w1 where c: "serial_call ?call w = (r, w1)" by fastforce
  have inv': "log_inv s'"
    using append_inv [OF inv(1), of "[?out]" "re_category e" "re_subject_id e" AnyState] inv(2) a by simp
  have room': "log_room n s'" if "log_room (1 + n) (sw_store w)" for n
    using log_room_step [OF inv(1), of "[?out]" n "re_category e" "re_subject_id e" AnyState] that a by simp
  have grow: "\<exists>new. global_log s' = slog w @ new"
    using mem_log.append_grows [OF inv(1), of "re_category e" "re_subject_id e" AnyState "[?out]"] a
    by (simp add: memory_backend_def)
  have cur: "projection_cursors s' = cursors w"
  proof -
    have push: "projection_cursors (snd (push_rows c sid n k es r s)) = projection_cursors s" for c sid n k es r s
      by (induction es arbitrary: k r s) (simp_all add: push_row_def Let_def)
    have "projection_cursors (snd (append_to_stream c sid ex es s)) = projection_cursors s" for c sid ex es s
      by (auto simp: append_to_stream_def Let_def split: option.split prod.split) (metis push snd_conv)+
    from this [of "re_category e" "re_subject_id e" AnyState "[?out]" "sw_store w"] a show ?thesis by simp
  qed
  have parked: "parked_in_log cfg (global_log s') e" if "x = Inr wr" for wr
  proof -
    have "\<exists>row \<in> set (global_log s'). same_row (re_category e) (re_subject_id e) ?out row"
      using append_ok_mem [OF inv(1) a [unfolded that]] by (auto simp: batch_persisted_def list_all2_Cons1)
    then show ?thesis using parked_in_logI by blast
  qed
  have after: "serial_grows 1 w (w\<lparr> sw_io := io, sw_store := s' \<rparr>)" for io
    using inv' room' grow by (simp add: serial_grows_def)
  have res: "(w' = w1 \<and> isl res) \<or> (\<exists>wr st. r = Some (Inr wr) \<and> res = Inr () \<and> w' = w1\<lparr> sw_settle := st \<rparr>)"
    using app c by (auto simp: append_projection_failed_def split: option.splits sum.splits)
  have settle: "serial_grows 1 w w1 \<Longrightarrow> serial_grows 1 w (w1\<lparr> sw_settle := st \<rparr>)" for st
    by (simp add: serial_grows_def)
  show ?thesis
    using c
  proof (cases rule: serial_call_cases)
    case (ok y)
    then have w1: "w1 = w\<lparr> sw_io := tl (sw_io w), sw_store := s' \<rparr>" and y: "y = x" using call by simp_all
    then show ?thesis using res after settle cur parked ok(1) by auto
  next
    case before
    then show ?thesis using res quiet_grows [OF next_fate_quiet] by auto
  next
    case after
    then have w1: "w1 = w\<lparr> sw_io := tl (sw_io w), sw_store := s' \<rparr>" using call by simp
    then show ?thesis using res \<open>\<And>io. serial_grows 1 w (w\<lparr> sw_io := io, sw_store := s' \<rparr>)\<close> cur after(1) by auto
  qed
qed

lemma park_event_effect:
  assumes log: "sc_log cfg = memory_backend" and inv: "log_inv (sw_store w)" "log_room 1 (sw_store w)"
    and park: "park_event cfg e class attempts error w = (res, w')"
  shows "serial_grows 1 w w' \<and> cursors w' = cursors w \<and> (\<not> isl res \<longrightarrow> parked_in_log cfg (slog w') e)"
proof -
  obtain now w1 where c: "serial_clock cfg w = (now, w1)" by fastforce
  let ?w2 = "if sc_observer cfg then w1\<lparr> sw_parked := sw_parked w1 @ [re_event_id e] \<rparr> else w1"
  have w2: "sw_store ?w2 = sw_store w" "sw_projected ?w2 = sw_projected w"
    using c by (auto simp: serial_clock_def)
  obtain r w3 where a: "append_projection_failed cfg e class attempts error now ?w2 = (r, w3)" by fastforce
  have "serial_grows 1 ?w2 w3 \<and> cursors w3 = cursors ?w2 \<and> (\<not> isl r \<longrightarrow> parked_in_log cfg (slog w3) e)"
    by (rule append_projection_failed_effect [OF log _ _ a]) (simp_all add: w2 inv [unfolded One_nat_def])
  then have w3: "serial_grows 1 w w3" "cursors w3 = cursors w" "\<not> isl r \<longrightarrow> parked_in_log cfg (slog w3) e"
    by (simp_all add: serial_grows_def w2)
  have "res = r \<and> (\<exists>fs. w' = w3\<lparr> sw_failure := fs \<rparr> \<or> w' = w3)"
    using park c a by (auto simp: park_event_def Let_def split: sum.splits)
  then show ?thesis using w3 by (auto simp: serial_grows_def)
qed

section \<open>The cursor\<close>

text \<open>The cursor of the consumer moved to the event, as far as \<open>advance\<close> moves it.\<close>

definition advanced :: "'z serial_config_scheme \<Rightarrow> recorded_event \<Rightarrow> 'a serial_world \<Rightarrow> 'a serial_world \<Rightarrow> bool" where
  "advanced cfg e w w' \<longleftrightarrow> cursors w' = projection_cursors (cursor_advance (sc_consumer cfg) (re_position e) (sw_store w))"

lemma cursor_advance_cong:
  "projection_cursors s = projection_cursors s' \<Longrightarrow>
     projection_cursors (cursor_advance c pos s) = projection_cursors (cursor_advance c pos s')"
  by (simp add: cursor_advance_def split: option.split)

lemma serial_advance_effect:
  assumes "serial_advance cfg (re_position e) w = (res, w')"
  shows "serial_grows 0 w w' \<and> slog w' = slog w \<and> sw_projected w' = sw_projected w \<and>
    (res = None \<and> cursors w' = cursors w \<or> advanced cfg e w w')"
proof -
  let ?s = "cursor_advance (sc_consumer cfg) (re_position e) (sw_store w)"
  have q: "serial_grows 0 w (w\<lparr> sw_io := io, sw_store := ?s \<rparr>)" for io
    using cursor_advance_log [of "sw_store w" "sc_consumer cfg" "re_position e"] same_log_inv
    by (auto simp: serial_grows_def log_room_def) (simp_all add: same_log_def)
  have l: "global_log ?s = slog w" using cursor_advance_log by (simp add: same_log_def)
  show ?thesis
    using assms unfolding serial_advance_def
  proof (cases rule: serial_call_cases)
    case before
    then show ?thesis using quiet_grows [OF next_fate_quiet] by auto
  qed (use q l in \<open>auto simp: advanced_def\<close>)
qed

lemma cursor_at_advance:
  "cursor_at c (cursor_advance c' pos s) = (if c = c' then max (cursor_at c s) pos else cursor_at c s)"
  by (auto simp: cursor_at_def cursor_get_def cursor_advance_def cursor_zero_def max_def not_less
      split: option.split)

lemma cursor_at_cong: "projection_cursors s = projection_cursors s' \<Longrightarrow> cursor_at c s = cursor_at c s'"
  by (simp add: cursor_at_def cursor_get_def)

lemma advanced_cursor:
  "advanced cfg e w w' \<Longrightarrow> cursor_at c (sw_store w') =
     (if c = sc_consumer cfg then max (cursor_at c (sw_store w)) (re_position e) else cursor_at c (sw_store w))"
  unfolding advanced_def by (simp only: cursor_at_advance [symmetric]) (rule cursor_at_cong)

section \<open>One event\<close>

text \<open>An event is accounted for: the consumer does not want it, its body ran on it and succeeded, or its
  terminal fact is in the log.\<close>

definition handled ::
  "(recorded_event \<Rightarrow> bool) \<Rightarrow> 'z serial_config_scheme \<Rightarrow> 'a serial_world \<Rightarrow> recorded_event \<Rightarrow> bool" where
  "handled wanted cfg w e \<longleftrightarrow>
     \<not> wanted e \<or> (re_event_id e, True) \<in> set (sw_projected w) \<or> parked_in_log cfg (slog w) e"

text \<open>The cursor stands, and the step ends with an error; or the event is accounted for, and the cursor
  may have moved to it.\<close>

definition event_outcome ::
  "(recorded_event \<Rightarrow> bool) \<Rightarrow> 'z serial_config_scheme \<Rightarrow> recorded_event \<Rightarrow> 'a serial_world \<Rightarrow>
   bool \<Rightarrow> 'a serial_world \<Rightarrow> bool" where
  "event_outcome wanted cfg e w ok w' \<longleftrightarrow>
     serial_grows 1 w w' \<and>
     (\<not> ok \<and> cursors w' = cursors w \<or> advanced cfg e w w' \<and> handled wanted cfg w' e)"

lemma parked_in_log_grows: "parked_in_log cfg rows e \<Longrightarrow> parked_in_log cfg (rows @ new) e"
  unfolding parked_in_log_def set_append by blast

lemma handled_grows: "handled wanted cfg w e \<Longrightarrow> serial_grows k w w' \<Longrightarrow> handled wanted cfg w' e"
  using parked_in_log_grows by (fastforce simp: handled_def serial_grows_def)

lemma advanced_from: "cursors w = cursors w0 \<Longrightarrow> advanced cfg e w w' \<Longrightarrow> advanced cfg e w0 w'"
  unfolding advanced_def using cursor_advance_cong by metis

lemma event_outcome_from:
  assumes "serial_grows 0 w0 w" "cursors w = cursors w0" "event_outcome wanted cfg e w ok w'"
  shows "event_outcome wanted cfg e w0 ok w'"
  using assms serial_grows_trans [OF assms(1), of 1 w'] advanced_from [OF assms(2)]
  by (auto simp: event_outcome_def)

text \<open>The cursor is advanced once the event is accounted for.\<close>

lemma advance_outcome:
  assumes "handled wanted cfg w e" "serial_grows 1 w0 w" "cursors w = cursors w0"
    and "serial_advance cfg (re_position e) w = (res, w')"
  shows "event_outcome wanted cfg e w0 (res \<noteq> None) w'"
proof -
  note eff = serial_advance_effect [OF assms(4)]
  have "serial_grows 1 w0 w'" using serial_grows_trans [OF assms(2), of 0 w'] eff by simp
  moreover have "handled wanted cfg w' e" using handled_grows [OF assms(1), of 0 w'] eff by simp
  ultimately show ?thesis
    using eff assms(3) advanced_from [OF assms(3)] by (auto simp: event_outcome_def)
qed

lemma park_or_propagate_outcome:
  assumes log: "sc_log cfg = memory_backend" and inv: "log_inv (sw_store w)" "log_room 1 (sw_store w)"
    and eq: "park_or_propagate cfg e err w = (res, w')"
  shows "event_outcome wanted cfg e w (res = None) w'"
proof -
  obtain d fs where f: "on_failure (sc_instant cfg (sw_ticks w)) (re_event_id e) err (sw_failure w) = (d, fs)"
    by fastforce
  let ?w1 = "w\<lparr> sw_failure := fs, sw_ticks := Suc (sw_ticks w) \<rparr>"
  have grow1: "serial_grows 1 w x" if "serial_grows 1 ?w1 x" for x
    using that by (simp add: serial_grows_def)
  show ?thesis
  proof (cases d)
    case Retry
    then show ?thesis using eq f by (auto simp: park_or_propagate_def event_outcome_def serial_grows_def log_room_def)
  next
    case (Park fc n)
    obtain r w2 where p: "park_event cfg e fc n (bounded_error_chain err) ?w1 = (r, w2)" by fastforce
    have "serial_grows 1 ?w1 w2 \<and> cursors w2 = cursors ?w1 \<and> (\<not> isl r \<longrightarrow> parked_in_log cfg (slog w2) e)"
      by (rule park_event_effect [OF log _ _ p]) (simp_all add: inv [unfolded One_nat_def])
    then have w2: "serial_grows 1 w w2" "cursors w2 = cursors w" "\<not> isl r \<longrightarrow> parked_in_log cfg (slog w2) e"
      using grow1 by simp_all
    show ?thesis
    proof (cases r)
      case (Inl perr)
      then show ?thesis using eq f Park p w2 by (auto simp: park_or_propagate_def event_outcome_def)
    next
      case (Inr u)
      obtain r3 w3 where a: "serial_advance cfg (re_position e) w2 = (r3, w3)" by fastforce
      have "handled wanted cfg w2 e" using w2(3) Inr by (simp add: handled_def)
      from advance_outcome [OF this w2(1,2) a] show ?thesis
        using eq f Park p Inr a by (auto simp: park_or_propagate_def split: option.splits)
    qed
  qed
qed

lemma parked_as_ok: "parked_as (r, w) = (res, w') \<longleftrightarrow> w' = w \<and> res = (case r of Some e \<Rightarrow> Inl e | None \<Rightarrow> Inr False)"
  by (auto simp: parked_as_def split: option.split)

lemma parked_outcome:
  assumes log: "sc_log cfg = memory_backend" and inv: "log_inv (sw_store w)" "log_room 1 (sw_store w)"
    and eq: "parked_as (park_or_propagate cfg e err w) = (res, w')"
  shows "event_outcome wanted cfg e w (\<not> isl res) w'"
proof -
  obtain r w1 where p: "park_or_propagate cfg e err w = (r, w1)" by fastforce
  have "w' = w1" "(\<not> isl res) \<longleftrightarrow> r = None" using eq p by (auto simp: parked_as_ok split: option.splits)
  then show ?thesis using park_or_propagate_outcome [OF log inv p] by simp
qed

lemma skip_outcome:
  assumes "\<not> wanted e" "skip_event cfg e w = (res, w')"
  shows "event_outcome wanted cfg e w (\<not> isl res) w'"
proof -
  obtain r w1 where a: "serial_advance cfg (re_position e) w = (r, w1)" by fastforce
  have "handled wanted cfg w e" using assms(1) by (simp add: handled_def)
  from advance_outcome [OF this _ _ a, of w] show ?thesis
    using assms(2) a by (auto simp: skip_event_def split: option.splits)
qed

lemma after_project_outcome:
  assumes log: "sc_log cfg = memory_backend" and inv: "log_inv (sw_store w)" "log_room 1 (sw_store w)"
    and eq: "after_project cfg e outcome w = (res, w')"
  shows "event_outcome wanted cfg e w (\<not> isl res) w'"
proof -
  let ?w1 = "w\<lparr> sw_projected := sw_projected w @ [(re_event_id e, outcome = None)] \<rparr>"
  have w1: "serial_grows 0 w ?w1" "cursors ?w1 = cursors w" by (simp_all add: serial_grows_def)
  show ?thesis
  proof (cases outcome)
    case (Some err)
    have "event_outcome wanted cfg e ?w1 (\<not> isl res) w'"
      by (rule parked_outcome [OF log]) (use eq Some inv in \<open>simp_all add: after_project_def\<close>)
    then show ?thesis by (rule event_outcome_from [OF w1])
  next
    case None
    let ?w2 = "?w1\<lparr> sw_failure := failure_clear (re_event_id e) (sw_failure ?w1) \<rparr>"
    obtain r w3 where a: "serial_advance cfg (re_position e) ?w2 = (r, w3)" by fastforce
    have "handled wanted cfg ?w2 e" using None by (simp add: handled_def)
    then have "event_outcome wanted cfg e w (r \<noteq> None) w3"
      by (rule advance_outcome [OF _ _ _ a]) (auto simp: serial_grows_def log_room_def)
    then show ?thesis using eq None a by (auto simp: after_project_def Let_def split: option.splits)
  qed
qed

section \<open>The two runners\<close>

definition projector_wants :: "('f, 'a) projector_config \<Rightarrow> recorded_event \<Rightarrow> bool" where
  "projector_wants cfg e \<longleftrightarrow> matches_kind (re_event_type e) (pc_kind cfg)"

definition multi_wants :: "'a multi_config \<Rightarrow> recorded_event \<Rightarrow> bool" where
  "multi_wants cfg e \<longleftrightarrow> list_ex (is_subscribed_kind (re_event_type e)) (mc_kinds cfg)"

lemma after_fold_outcome:
  assumes inv: "log_inv (sw_store w)" "log_room 1 (sw_store w)" and first: "fold_first cfg e w = (r, w1)"
    and rest: "\<lbrakk>log_inv (sw_store w1); log_room 1 (sw_store w1)\<rbrakk> \<Longrightarrow> event_outcome wanted cfg e w1 ok w'"
  shows "event_outcome wanted cfg e w ok w'"
proof -
  have q: "serial_quiet w w1" by (rule fold_first_quiet [OF first])
  have g: "serial_grows 0 w w1" by (rule quiet_grows [OF q])
  have "log_inv (sw_store w1)" "log_room 1 (sw_store w1)"
    using q inv same_log_inv by (auto simp: serial_quiet_def log_room_def same_log_def)
  then show ?thesis using event_outcome_from [OF g] rest serial_quiet_cursors [OF q] by blast
qed

lemma project_event_outcome:
  assumes log: "sc_log cfg = memory_backend" and inv: "log_inv (sw_store w)" "log_room 1 (sw_store w)"
    and eq: "project_event cfg e w = (res, w')"
  shows "event_outcome (projector_wants cfg) cfg e w (\<not> isl res) w'"
proof -
  obtain r w1 where f: "fold_first cfg e w = (r, w1)" by fastforce
  show ?thesis
  proof (rule after_fold_outcome [OF inv f])
    assume inv1: "log_inv (sw_store w1)" "log_room 1 (sw_store w1)"
    show "event_outcome (projector_wants cfg) cfg e w1 (\<not> isl res) w'"
    proof (cases r)
      case (Some err)
      show ?thesis
        by (rule parked_outcome [OF log inv1]) (use eq f Some in \<open>simp add: project_event_def\<close>)
    next
      case None
      show ?thesis
      proof (cases "projector_wants cfg e")
        case False
        then show ?thesis
          using skip_outcome [of "projector_wants cfg" e cfg w1 res w'] eq f None
          by (simp add: project_event_def projector_wants_def)
      next
        case True
        then have "matches_kind (re_event_type e) (pc_kind cfg)" by (simp add: projector_wants_def)
        then show ?thesis
          using eq f None parked_outcome [OF log inv1] after_project_outcome [OF log inv1]
          by (cases "pc_decode cfg (re_payload e)") (simp_all add: project_event_def Let_def)
      qed
    qed
  qed
qed

lemma multi_event_outcome:
  assumes log: "sc_log cfg = memory_backend" and inv: "log_inv (sw_store w)" "log_room 1 (sw_store w)"
    and eq: "multi_event cfg e w = (res, w')"
  shows "event_outcome (multi_wants cfg) cfg e w (\<not> isl res) w'"
proof -
  obtain r w1 where f: "fold_first cfg e w = (r, w1)" by fastforce
  show ?thesis
  proof (rule after_fold_outcome [OF inv f])
    assume inv1: "log_inv (sw_store w1)" "log_room 1 (sw_store w1)"
    show "event_outcome (multi_wants cfg) cfg e w1 (\<not> isl res) w'"
    proof (cases r)
      case (Some err)
      show ?thesis
        by (rule parked_outcome [OF log inv1]) (use eq f Some in \<open>simp add: multi_event_def\<close>)
    next
      case None
      show ?thesis
      proof (cases "multi_wants cfg e")
        case False
        then show ?thesis
          using skip_outcome [of "multi_wants cfg" e cfg w1 res w'] eq f None
          by (simp add: multi_event_def multi_wants_def)
      next
        case True
        then show ?thesis
          using eq f None after_project_outcome [OF log inv1]
          by (simp add: multi_event_def multi_wants_def Let_def)
      qed
    qed
  qed
qed

section \<open>A step\<close>

text \<open>Every event of the log up to the cursor is accounted for, and the cursor is not ahead of the log.\<close>

definition caught_up ::
  "(recorded_event \<Rightarrow> bool) \<Rightarrow> 'z serial_config_scheme \<Rightarrow> 'a serial_world \<Rightarrow> bool" where
  "caught_up wanted cfg w \<longleftrightarrow>
     (\<forall>e \<in> set (slog w). re_position e \<le> cursor_at (sc_consumer cfg) (sw_store w) \<longrightarrow> handled wanted cfg w e) \<and>
     (cursor_at (sc_consumer cfg) (sw_store w) = cursor_zero \<or>
      (\<exists>e \<in> set (slog w). cursor_at (sc_consumer cfg) (sw_store w) \<le> re_position e))"

text \<open>What is left of the log after a cursor.\<close>

definition beyond :: "log_cursor \<Rightarrow> recorded_event list \<Rightarrow> recorded_event list" where
  "beyond cur rows = filter (\<lambda>e. cur < re_position e) rows"

lemma set_beyond: "x \<in> set (beyond c rows) \<longleftrightarrow> x \<in> set rows \<and> c < re_position x"
  by (simp add: beyond_def)

lemma serial_read_memory:
  assumes "sc_log cfg = memory_backend" "log_inv (sw_store w)" "serial_read cfg cur batch w = (Inr es, w')"
  shows "es = take batch (beyond cur (slog w))"
  using serial_read_quiet [OF assms(3)] assms(1,2) by (auto simp: memory_backend_def read_all_rows beyond_def)

lemma hydrate_batch_quiet:
  "hydrate_batch cfg cur es w = (res, w') \<Longrightarrow> sw_registry w \<noteq> None \<Longrightarrow>
     same_log (sw_store w) (sw_store w') \<and> cursors w' = cursors w \<and> sw_projected w' = sw_projected w \<and>
     sw_registry w' \<noteq> None \<and> (sw_io w = [] \<longrightarrow> sw_io w' = [])"
proof (induction es arbitrary: w)
  case (Cons e es)
  obtain rg where rg: "sw_registry w = Some rg" using Cons.prems(2) by blast
  obtain r w1 where f: "serial_fold cfg e rg w = (r, w1)" by fastforce
  have q: "same_log (sw_store w) (sw_store w1)" "cursors w1 = cursors w" "sw_projected w1 = sw_projected w"
    "sw_io w = [] \<longrightarrow> sw_io w1 = []"
    using serial_fold_quiet [OF f] by (simp_all add: serial_quiet_def)
  have some: "sw_registry w1 \<noteq> None" using f by (auto simp: serial_fold_def split: prod.splits)
  have "w' = w \<or> w' = w1 \<or> hydrate_batch cfg cur es w1 = (res, w')"
    using Cons.prems(1) rg f by (auto split: if_splits sum.splits)
  then show ?case
  proof (elim disjE)
    assume "hydrate_batch cfg cur es w1 = (res, w')"
    from Cons.IH [OF this some] q show ?thesis by (auto simp: same_log_def)
  qed (use q some rg in \<open>auto simp: same_log_def\<close>)
qed (simp add: same_log_def)

lemma hydrate_loop_quiet:
  "hydrate_loop cfg cur fuel from_pos w = Some (res, w') \<Longrightarrow> sw_registry w \<noteq> None \<Longrightarrow> serial_quiet w w'"
proof (induction fuel arbitrary: from_pos w)
  case (Suc fuel)
  obtain r w1 where rd: "serial_read cfg from_pos 1024 w = (r, w1)" by fastforce
  note q1 = serial_read_quiet [OF rd]
  show ?case
  proof (cases "isl r \<or> r = Inr []")
    case True
    then show ?thesis using Suc.prems(1) rd q1 by (cases r) auto
  next
    case False
    then obtain batch where b: "r = Inr batch" "batch \<noteq> []" by (cases r) auto
    obtain r2 w2 where h: "hydrate_batch cfg cur batch w1 = (r2, w2)" by fastforce
    have some: "sw_registry w1 \<noteq> None" using q1 Suc.prems(2) by simp
    have q2: "serial_quiet w w2" "sw_registry w2 \<noteq> None"
      using hydrate_batch_quiet [OF h some] q1 Suc.prems(2) by (auto simp: serial_quiet_def same_log_def)
    have "w' = w2 \<or> hydrate_loop cfg cur fuel (re_position (last batch)) w2 = Some (res, w')"
      using Suc.prems(1) rd b h by (auto split: sum.splits if_splits)
    then show ?thesis using Suc.IH [OF _ q2(2)] q2(1) serial_quiet_trans by blast
  qed
qed simp

lemma ensure_hydrated_quiet:
  assumes "ensure_hydrated cfg fuel cur w = Some (res, w')"
  shows "serial_quiet w w'"
proof (cases "sw_registry w = None \<or> sw_hydrated w \<or> cur = cursor_zero")
  case True
  then show ?thesis using assms by (auto simp: ensure_hydrated_def serial_quiet_def same_log_def split: if_splits)
next
  case False
  then obtain r w1 where h: "hydrate_loop cfg cur fuel cursor_zero w = Some (r, w1)"
    "w' = (if r = None then w1\<lparr> sw_hydrated := True \<rparr> else w1)"
    using assms by (auto simp: ensure_hydrated_def)
  have "serial_quiet w w1" by (rule hydrate_loop_quiet [OF h(1)]) (use False in simp)
  then show ?thesis using h(2) by (simp add: serial_quiet_def)
qed

lemma fence_deps_quiet:
  "fence_deps cur deps w = (res, w') \<Longrightarrow> serial_quiet w w' \<and> sw_store w' = sw_store w \<and>
     sw_registry w' = sw_registry w"
proof (induction deps arbitrary: w)
  case (Cons dep deps)
  obtain r w1 where c: "serial_cursor dep w = (r, w1)" by fastforce
  note q = serial_cursor_quiet [OF c]
  have "w' = w1 \<or> fence_deps cur deps w1 = (res, w')"
    using Cons.prems c by (auto split: option.splits if_splits)
  then show ?case using Cons.IH [of w1] q serial_quiet_trans by fastforce
qed simp

section \<open>Any loop body that accounts for its events\<close>

locale serial_consumer =
  fixes cfg :: "'z serial_config_scheme"
    and each :: "recorded_event \<Rightarrow> 'a serial_world \<Rightarrow> (step_error + bool) \<times> 'a serial_world"
    and wanted :: "recorded_event \<Rightarrow> bool"
  assumes each_outcome: "sc_log cfg = memory_backend \<Longrightarrow> log_inv (sw_store w) \<Longrightarrow> log_room 1 (sw_store w) \<Longrightarrow>
      each e w = (res, w') \<Longrightarrow> event_outcome wanted cfg e w (\<not> isl res) w'"
begin

abbreviation cur :: "'a serial_world \<Rightarrow> log_cursor" where
  "cur w \<equiv> cursor_at (sc_consumer cfg) (sw_store w)"

text \<open>The cursor moves to the next event of the log: nothing is skipped.\<close>

lemma next_caught_up:
  assumes inv: "log_inv (sw_store w')" and up: "caught_up wanted cfg w" and grow: "serial_grows k w w'"
    and rest: "beyond (cur w) (slog w) = e # es" and fin: "handled wanted cfg w' e"
    and moved: "cur w' = re_position e"
  shows "caught_up wanted cfg w' \<and> (\<exists>new. beyond (cur w') (slog w') = es @ new)"
proof -
  have sorted: "sorted_wrt (\<lambda>x y. re_position x < re_position y) (slog w')"
    by (rule log_inv_positions_sorted [OF inv])
  obtain new where new: "slog w' = slog w @ new" using grow by (auto simp: serial_grows_def)
  then have s: "sorted_wrt (\<lambda>x y. re_position x < re_position y) (slog w)"
    and later: "\<forall>x \<in> set (slog w). \<forall>y \<in> set new. re_position x < re_position y"
    using sorted by (auto simp: sorted_wrt_append)
  have sb: "sorted_wrt (\<lambda>x y. re_position x < re_position y) (e # es)"
    using sorted_wrt_filter [OF s, of "\<lambda>e. cur w < re_position e"] rest by (simp add: beyond_def)
  have e: "e \<in> set (slog w)" "cur w < re_position e"
    using set_beyond [of e "cur w" "slog w"] by (simp_all add: rest)
  have other: "x = e \<or> x \<in> set es" if "x \<in> set (slog w)" "cur w < re_position x" for x
    using that set_beyond [of x "cur w" "slog w"] by (simp add: rest)
  have tip: "\<exists>x \<in> set (slog w'). cur w' \<le> re_position x" using e(1) new moved by auto
  have "handled wanted cfg w' x" if x: "x \<in> set (slog w')" "re_position x \<le> cur w'" for x
  proof -
    have "x \<notin> set new" using x later e(1) moved by (auto simp: not_less [symmetric])
    then have mem: "x \<in> set (slog w)" using x(1) new by simp
    show "handled wanted cfg w' x"
    proof (cases "re_position x \<le> cur w")
      case True
      then have "handled wanted cfg w x" using up mem unfolding caught_up_def by blast
      then show ?thesis by (rule handled_grows [OF _ grow])
    next
      case False
      then have "x = e \<or> x \<in> set es" using other mem by simp
      then have "x = e" using sb x(2) moved by (auto simp: not_less [symmetric])
      then show ?thesis using fin by simp
    qed
  qed
  then have "caught_up wanted cfg w'" using tip unfolding caught_up_def by blast
  moreover have "filter (\<lambda>x. re_position e < re_position x) (slog w) = es"
  proof -
    have "filter (\<lambda>x. re_position e < re_position x) (slog w) =
          filter (\<lambda>x. re_position e < re_position x) (filter (\<lambda>x. cur w < re_position x) (slog w))"
      using e(2) by (auto simp: filter_filter intro: filter_cong)
    also have "\<dots> = es" using rest sb by (auto simp: beyond_def intro: filter_True)
    finally show ?thesis .
  qed
  then have "beyond (cur w') (slog w') = es @ beyond (cur w') new" by (simp add: beyond_def new moved)
  ultimately show ?thesis by blast
qed

lemma each_event_caught_up:
  assumes log: "sc_log cfg = memory_backend"
  shows "log_inv (sw_store w) \<Longrightarrow> log_room (length es) (sw_store w) \<Longrightarrow> caught_up wanted cfg w \<Longrightarrow>
     beyond (cur w) (slog w) = es @ more_rows \<Longrightarrow> each_event each es n w = (res, w') \<Longrightarrow>
     serial_grows (length es) w w' \<and> caught_up wanted cfg w' \<and> cur w \<le> cur w'"
proof (induction es arbitrary: n w more_rows)
  case (Cons e es)
  obtain r w1 where one: "each e w = (r, w1)" by fastforce
  have room1: "log_room 1 (sw_store w)" using Cons.prems(2) by (simp add: log_room_def)
  have out: "event_outcome wanted cfg e w (\<not> isl r) w1"
    by (rule each_outcome [OF log Cons.prems(1) room1 one])
  then have g: "serial_grows 1 w w1" by (simp add: event_outcome_def)
  have inv1: "log_inv (sw_store w1)" and room: "log_room (length es) (sw_store w1)"
    using g Cons.prems(1,2) room1 by (auto simp: serial_grows_def)
  have pos: "cur w < re_position e"
    using set_beyond [of e "cur w" "slog w"] by (simp add: Cons.prems(4))
  have rows: "beyond (cur w) (slog w) = e # (es @ more_rows)" using Cons.prems(4) by simp
  have stay: "caught_up wanted cfg w1 \<and> cur w1 = cur w" if "cursors w1 = cursors w"
  proof -
    have c: "cur w1 = cur w" using that by (rule cursor_at_cong)
    obtain new where new: "slog w1 = slog w @ new" using g by (auto simp: serial_grows_def)
    have "x \<in> set (slog w)" if "x \<in> set (slog w1)" "re_position x \<le> cur w" for x
    proof (rule ccontr)
      assume "x \<notin> set (slog w)"
      then have "x \<in> set new" using that(1) new by simp
      moreover have "e \<in> set (slog w)"
        using set_beyond [of e "cur w" "slog w"] by (simp add: rows)
      ultimately have "re_position e < re_position x"
        using log_inv_positions_sorted [OF inv1] new by (simp add: sorted_wrt_append)
      then show False using pos that(2) by simp
    qed
    then have "handled wanted cfg w x" if "x \<in> set (slog w1)" "re_position x \<le> cur w" for x
      using Cons.prems(3) that unfolding caught_up_def by blast
    moreover have "cur w1 = cursor_zero \<or> (\<exists>x \<in> set (slog w1). cur w1 \<le> re_position x)"
      using Cons.prems(3) new unfolding caught_up_def c by auto
    ultimately have "caught_up wanted cfg w1"
      unfolding caught_up_def c using handled_grows [OF _ g] by blast
    then show ?thesis using c by simp
  qed
  have move: "caught_up wanted cfg w1 \<and> (\<exists>new. beyond (cur w1) (slog w1) = es @ new) \<and> cur w1 = re_position e"
    if "advanced cfg e w w1" "handled wanted cfg w1 e"
  proof -
    have c: "cur w1 = re_position e"
      using advanced_cursor [OF that(1), of "sc_consumer cfg"] pos by simp
    from next_caught_up [OF inv1 Cons.prems(3) g rows that(2) c] obtain new
      where "caught_up wanted cfg w1" "beyond (cur w1) (slog w1) = (es @ more_rows) @ new" by blast
    then show ?thesis using c by simp
  qed
  show ?case
  proof (cases r)
    case (Inl err)
    then have w': "w' = w1" using Cons.prems(5) one by simp
    have "caught_up wanted cfg w1 \<and> cur w \<le> cur w1"
      using out stay move pos unfolding event_outcome_def by (metis order_le_less order_refl)
    then show ?thesis using serial_grows_mono [OF g, of "length (e # es)"] w' by simp
  next
    case (Inr b)
    then have "advanced cfg e w w1" "handled wanted cfg w1 e" using out by (simp_all add: event_outcome_def)
    from move [OF this] obtain new where up: "caught_up wanted cfg w1" "beyond (cur w1) (slog w1) = es @ new"
      "cur w1 = re_position e" by blast
    have "each_event each es (if b then Suc n else n) w1 = (res, w')" using Cons.prems(5) one Inr by simp
    from Cons.IH [OF inv1 room up(1,2) this] have
      "serial_grows (length es) w1 w'" "caught_up wanted cfg w'" "cur w1 \<le> cur w'" by simp_all
    then show ?thesis using serial_grows_trans [OF g, of "length es" w'] up(3) pos by simp
  qed
qed simp

lemma quiet_caught_up: "serial_quiet w w' \<Longrightarrow> caught_up wanted cfg w \<Longrightarrow> caught_up wanted cfg w'"
  using cursor_at_cong [of "sw_store w'" "sw_store w" "sc_consumer cfg"]
  by (auto simp: caught_up_def serial_quiet_def same_log_def handled_def)

text \<open>A step, whatever its calls do.\<close>

lemma step_caught_up:
  assumes log: "sc_log cfg = memory_backend" and inv: "log_inv (sw_store w)" and room: "log_room batch (sw_store w)"
    and up: "caught_up wanted cfg w" and step: "serial_step cfg each fuel batch w = Some (res, w')"
  shows "serial_grows batch w w' \<and> caught_up wanted cfg w' \<and> cur w \<le> cur w'"
proof -
  have quiet: "serial_grows batch w w2 \<and> caught_up wanted cfg w2 \<and> cur w \<le> cur w2" if "serial_quiet w w2" for w2
    using quiet_grows [OF that] quiet_caught_up [OF that up]
      cursor_at_cong [OF serial_quiet_cursors [OF that], of "sc_consumer cfg"] by simp
  obtain r1 w1 where 1: "ensure_leased cfg w = (r1, w1)" by fastforce
  obtain r2 w2 where 2: "serial_cursor (sc_consumer cfg) w1 = (r2, w2)" by fastforce
  obtain r3 w3 where 3: "fence_deps (case r2 of Some c \<Rightarrow> c | None \<Rightarrow> 0) (sc_depends_on cfg) w2 = (r3, w3)"
    by fastforce
  have q1: "serial_quiet w w1" using ensure_leased_quiet [OF 1] by simp
  have q2: "serial_quiet w w2" using q1 serial_cursor_quiet [OF 2] serial_quiet_trans by blast
  have q3: "serial_quiet w w3" using q2 fence_deps_quiet [OF 3] serial_quiet_trans by blast
  show ?thesis
  proof (cases "r1 = None \<or> r2 = None \<or> r3 \<noteq> Some None")
    case True
    then have "w' = w1 \<or> w' = w2 \<or> w' = w3"
      using step 1 2 3 by (auto simp: serial_step_def split: option.splits)
    then show ?thesis using quiet q1 q2 q3 by blast
  next
    case False
    then obtain c where c: "r2 = Some c" by auto
    have cw: "c = cur w"
      using serial_cursor_quiet [OF 2] c cursor_at_cong [OF serial_quiet_cursors [OF q1], of "sc_consumer cfg"] by simp
    have run: "(case ensure_hydrated cfg fuel c w3 of
        None \<Rightarrow> None
      | Some (Some err, w4) \<Rightarrow> Some (Inl err, w4)
      | Some (None, w4) \<Rightarrow>
          (case serial_read cfg c batch w4 of
             (Inl err, w5) \<Rightarrow> Some (Inl err, w5)
           | (Inr events, w5) \<Rightarrow>
               if events = [] then Some (Inr Idle, w5)
               else Some (each_event each events 0 w5))) = Some (res, w')"
      using step 1 2 3 c False by (auto simp: serial_step_def)
    then obtain r4 w4 where 4: "ensure_hydrated cfg fuel c w3 = Some (r4, w4)" by (auto split: option.splits)
    have q4: "serial_quiet w w4" using q3 ensure_hydrated_quiet [OF 4] serial_quiet_trans by blast
    obtain r5 w5 where 5: "serial_read cfg c batch w4 = (r5, w5)" by fastforce
    have q5: "serial_quiet w w5" using q4 serial_read_quiet [OF 5] serial_quiet_trans by blast
    show ?thesis
    proof (cases "r4 \<noteq> None \<or> isl r5 \<or> r5 = Inr []")
      case True
      then have "w' = w4 \<or> w' = w5" using run 4 5 by (auto split: option.splits sum.splits)
      then show ?thesis using quiet q4 q5 by blast
    next
      case False
      then obtain es where es: "r4 = None" "r5 = Inr es" "es \<noteq> []" by (cases r5) auto
      have each: "each_event each es 0 w5 = (res, w')" using run 4 5 es by simp
      have inv5: "log_inv (sw_store w5)" and l5: "slog w5 = slog w" "slog w4 = slog w"
        and inv4: "log_inv (sw_store w4)"
        using q4 q5 inv same_log_inv by (auto simp: serial_quiet_def same_log_def)
      have esq: "es = take batch (beyond (cur w) (slog w))"
        using serial_read_memory [OF log inv4 5 [unfolded es(2)]] l5 cw by simp
      have c5: "cur w5 = cur w" using cursor_at_cong [OF serial_quiet_cursors [OF q5]] by blast
      have rows: "beyond (cur w5) (slog w5) = es @ drop batch (beyond (cur w) (slog w))"
        using esq c5 l5 by simp
      have len: "length es \<le> batch" using esq by simp
      have room5: "log_room (length es) (sw_store w5)" using room len l5 by (simp add: log_room_def)
      from each_event_caught_up [OF log inv5 room5 quiet_caught_up [OF q5 up] rows each]
      have "serial_grows (length es) w5 w'" "caught_up wanted cfg w'" "cur w5 \<le> cur w'" by simp_all
      then show ?thesis
        using serial_grows_trans [OF quiet_grows [OF q5, of 0], of "length es" w'] serial_grows_mono len c5 by auto
    qed
  qed
qed

end

section \<open>A run without faults\<close>

definition deps_ahead :: "'z serial_config_scheme \<Rightarrow> log_cursor \<Rightarrow> 'a serial_world \<Rightarrow> bool" where
  "deps_ahead cfg pos w \<longleftrightarrow> (\<forall>dep \<in> set (sc_depends_on cfg). pos \<le> cursor_at dep (sw_store w))"

text \<open>No call fails and no aggregators are attached.\<close>

definition plain :: "'a serial_world \<Rightarrow> bool" where
  "plain w \<longleftrightarrow> sw_io w = [] \<and> sw_registry w = None"

lemma plain_cursor:
  "plain w \<Longrightarrow> serial_cursor c w = (Some (cursor_at c (sw_store w)), w)"
  by (simp add: serial_cursor_def serial_call_fault_free plain_def cursor_at_def)

lemma plain_read:
  "plain w \<Longrightarrow> sc_log cfg = memory_backend \<Longrightarrow> log_inv (sw_store w) \<Longrightarrow>
     serial_read cfg c batch w = (Inr (take batch (beyond c (slog w))), w)"
  by (simp add: serial_read_def serial_call_fault_free plain_def memory_backend_def read_all_rows beyond_def)

lemma plain_leased:
  "plain w \<Longrightarrow> ensure_leased cfg w = (Some (), w\<lparr> sw_leased := sw_leased w \<or> sc_leasor cfg \<rparr>)"
  by (auto simp: ensure_leased_def serial_call_fault_free plain_def)

lemma plain_hydrated: "plain w \<Longrightarrow> ensure_hydrated cfg fuel c w = Some (None, w)"
  by (simp add: ensure_hydrated_def plain_def)

lemma plain_fence:
  "plain w \<Longrightarrow> \<forall>dep \<in> set deps. pos \<le> cursor_at dep (sw_store w) \<Longrightarrow> fence_deps pos deps w = (Some None, w)"
  by (induction deps) (auto simp: plain_cursor not_less)

text \<open>A step up to its first event.\<close>

lemma plain_step:
  assumes "sc_log cfg = memory_backend" "plain w" "log_inv (sw_store w)"
    and "deps_ahead cfg (cursor_at (sc_consumer cfg) (sw_store w)) w"
    and "es = take batch (beyond (cursor_at (sc_consumer cfg) (sw_store w)) (slog w))"
  shows "serial_step cfg f fuel batch w =
     (let w1 = w\<lparr> sw_leased := sw_leased w \<or> sc_leasor cfg \<rparr>
      in Some (if es = [] then (Inr Idle, w1) else each_event f es 0 w1))"
proof -
  let ?w1 = "w\<lparr> sw_leased := sw_leased w \<or> sc_leasor cfg \<rparr>"
  have p: "plain ?w1" using assms(2) by (simp add: plain_def)
  have d: "\<forall>dep \<in> set (sc_depends_on cfg). cursor_at (sc_consumer cfg) (sw_store w) \<le> cursor_at dep (sw_store ?w1)"
    using assms(4) by (simp add: deps_ahead_def)
  show ?thesis
    unfolding serial_step_def plain_leased [OF assms(2)] prod.case option.case plain_cursor [OF p]
    using plain_fence [OF p d] plain_hydrated [OF p, of cfg] plain_read [OF p assms(1)] assms(3,5)
    by (simp add: Let_def)
qed

text \<open>What comes after the last event of a page.\<close>

lemma beyond_last:
  assumes sorted: "sorted_wrt (\<lambda>x y. re_position x < re_position y) rows"
    and es: "es = take k (beyond c rows)" "es \<noteq> []"
  shows "beyond (re_position (last es)) rows = drop k (beyond c rows)" "c < re_position (last es)"
proof -
  let ?p = "re_position (last es)"
  have split: "beyond c rows = es @ drop k (beyond c rows)" using es(1) by simp
  have sb: "sorted_wrt (\<lambda>x y. re_position x < re_position y) (es @ drop k (beyond c rows))"
    using sorted_wrt_filter [OF sorted, of "\<lambda>e. c < re_position e"] split by (simp add: beyond_def)
  have "last es \<in> set (beyond c rows)" using es by (metis in_set_takeD last_in_set)
  then show c: "c < ?p" by (simp add: set_beyond)
  have "sorted_wrt (\<lambda>x y. re_position x < re_position y) (butlast es @ [last es])"
    using sb es(2) by (simp add: sorted_wrt_append)
  then have "\<forall>x \<in> set (butlast es @ [last es]). re_position x \<le> ?p" by (auto simp: sorted_wrt_append)
  then have low: "\<forall>x \<in> set es. re_position x \<le> ?p" using es(2) by simp
  have high: "\<forall>x \<in> set (drop k (beyond c rows)). ?p < re_position x"
    using sb es(2) by (simp add: sorted_wrt_append)
  have "beyond ?p rows = filter (\<lambda>e. ?p < re_position e) (beyond c rows)"
    using c by (auto simp: beyond_def filter_filter intro: filter_cong)
  also have "\<dots> = filter (\<lambda>e. ?p < re_position e) es @ filter (\<lambda>e. ?p < re_position e) (drop k (beyond c rows))"
    by (subst split) simp
  also have "\<dots> = drop k (beyond c rows)" using low high by (simp add: filter_id_conv filter_empty_conv not_less)
  finally show "beyond ?p rows = drop k (beyond c rows)" .
qed

lemma hydrate_loop_returns:
  assumes log: "sc_log cfg = memory_backend"
  shows "log_inv (sw_store w) \<Longrightarrow> sw_registry w \<noteq> None \<Longrightarrow> length (beyond from_pos (slog w)) \<le> 1024 * n \<Longrightarrow>
     hydrate_loop cfg c (Suc n) from_pos w \<noteq> None"
proof (induction n arbitrary: from_pos w)
  case 0
  obtain r w1 where rd: "serial_read cfg from_pos 1024 w = (r, w1)" by fastforce
  have "isl r \<or> r = Inr []" using serial_read_memory [OF log 0(1), of from_pos 1024] rd 0(3) by (cases r) auto
  then show ?case using rd by (auto split: sum.splits)
next
  case (Suc n)
  obtain r w1 where rd: "serial_read cfg from_pos 1024 w = (r, w1)" by fastforce
  note q1 = serial_read_quiet [OF rd]
  show ?case
  proof (cases "isl r \<or> r = Inr []")
    case True
    then show ?thesis using rd by (cases r) auto
  next
    case False
    then obtain batch where b: "r = Inr batch" "batch \<noteq> []" by (cases r) auto
    then have batch: "batch = take 1024 (beyond from_pos (slog w))"
      using serial_read_memory [OF log Suc.prems(1)] rd by blast
    obtain r2 w2 where h: "hydrate_batch cfg c batch w1 = (r2, w2)" by fastforce
    have some: "sw_registry w1 \<noteq> None" using q1 Suc.prems(2) by simp
    note q2 = hydrate_batch_quiet [OF h some]
    have l2: "slog w2 = slog w" "log_inv (sw_store w2)"
      using q1 q2 Suc.prems(1) same_log_inv by (auto simp: same_log_def)
    have "length (beyond (re_position (last batch)) (slog w2)) \<le> 1024 * n"
      using beyond_last(1) [OF log_inv_positions_sorted [OF Suc.prems(1)] batch b(2)] l2(1) Suc.prems(3) by simp
    from Suc.IH [OF l2(2) _ this] have "hydrate_loop cfg c (Suc n) (re_position (last batch)) w2 \<noteq> None"
      using q2 by blast
    then show ?thesis
      unfolding hydrate_loop.simps(2) [of cfg c "Suc n"] rd b(1) prod.case sum.case h if_not_P [OF b(2)]
      by (auto simp del: hydrate_loop.simps split: sum.splits)
  qed
qed

lemma serial_step_returns:
  assumes log: "sc_log cfg = memory_backend" and inv: "log_inv (sw_store w)"
    and fuel: "length (slog w) \<le> 1024 * n"
  shows "serial_step cfg f (Suc n) batch w \<noteq> None"
proof -
  have h: "ensure_hydrated cfg (Suc n) c w1 \<noteq> None" if "serial_quiet w w1" for c w1
  proof -
    have l: "slog w1 = slog w" "log_inv (sw_store w1)"
      using that inv same_log_inv by (auto simp: serial_quiet_def same_log_def)
    have "length (beyond cursor_zero (slog w1)) \<le> 1024 * n"
      using length_filter_le [of _ "slog w1"] l(1) fuel by (metis beyond_def order_trans)
    from hydrate_loop_returns [OF log l(2) _ this] show ?thesis
      by (auto simp: ensure_hydrated_def simp del: hydrate_loop.simps)
  qed
  obtain r1 w1 where 1: "ensure_leased cfg w = (r1, w1)" by fastforce
  obtain r2 w2 where 2: "serial_cursor (sc_consumer cfg) w1 = (r2, w2)" by fastforce
  obtain r3 w3 where 3: "fence_deps (case r2 of Some c \<Rightarrow> c | None \<Rightarrow> 0) (sc_depends_on cfg) w2 = (r3, w3)"
    by fastforce
  have "serial_quiet w w3"
    using ensure_leased_quiet [OF 1] serial_cursor_quiet [OF 2] fence_deps_quiet [OF 3] serial_quiet_trans by blast
  from h [OF this, of "case r2 of Some c \<Rightarrow> c | None \<Rightarrow> 0"] show ?thesis
    using 1 2 3 by (auto simp: serial_step_def split: option.splits sum.splits prod.splits)
qed

definition good_rows ::
  "(recorded_event \<Rightarrow> bool) \<Rightarrow> (recorded_event \<Rightarrow> bool) \<Rightarrow> recorded_event list \<Rightarrow> bool" where
  "good_rows wanted good es \<longleftrightarrow> (\<forall>e \<in> set es. wanted e \<longrightarrow> good e)"

definition runs_of :: "(recorded_event \<Rightarrow> bool) \<Rightarrow> recorded_event list \<Rightarrow> (uuid \<times> bool) list" where
  "runs_of wanted es = map (\<lambda>e. (re_event_id e, True)) (filter wanted es)"

lemma runs_of_append: "runs_of wanted (xs @ ys) = runs_of wanted xs @ runs_of wanted ys"
  by (simp add: runs_of_def)

text \<open>A loop body that, without faults, projects exactly what the consumer wants.\<close>

locale clean_consumer = serial_consumer cfg each wanted
  for cfg :: "'z serial_config_scheme"
    and each :: "recorded_event \<Rightarrow> 'a serial_world \<Rightarrow> (step_error + bool) \<times> 'a serial_world"
    and wanted :: "recorded_event \<Rightarrow> bool" +
  fixes good :: "recorded_event \<Rightarrow> bool"
  assumes each_clean: "plain w \<Longrightarrow> (wanted e \<longrightarrow> good e) \<Longrightarrow>
      fst (each e w) = Inr (wanted e) \<and> plain (snd (each e w)) \<and>
      sw_store (snd (each e w)) = cursor_advance (sc_consumer cfg) (re_position e) (sw_store w) \<and>
      sw_projected (snd (each e w)) =
        sw_projected w @ (if wanted e then [(re_event_id e, True)] else [])"
begin

lemma each_event_clean:
  "plain w \<Longrightarrow> good_rows wanted good es \<Longrightarrow>
     \<exists>w'. each_event each es n w = (Inr (Progressed (n + length (runs_of wanted es))), w') \<and> plain w' \<and>
       sw_store w' = fold (\<lambda>e. cursor_advance (sc_consumer cfg) (re_position e)) es (sw_store w) \<and>
       sw_projected w' = sw_projected w @ runs_of wanted es"
proof (induction es arbitrary: n w)
  case (Cons e es)
  have one: "wanted e \<longrightarrow> good e" using Cons.prems(2) by (simp add: good_rows_def)
  obtain r w1 where e: "each e w = (r, w1)" by fastforce
  note c = each_clean [OF Cons.prems(1) one, unfolded e fst_conv snd_conv]
  have "good_rows wanted good es" using Cons.prems(2) by (simp add: good_rows_def)
  from Cons.IH [OF _ this, of w1 "if wanted e then Suc n else n"] c
  obtain w' where "each_event each es (if wanted e then Suc n else n) w1 =
      (Inr (Progressed ((if wanted e then Suc n else n) + length (runs_of wanted es))), w')" "plain w'"
    "sw_store w' = fold (\<lambda>e. cursor_advance (sc_consumer cfg) (re_position e)) es (sw_store w1)"
    "sw_projected w' = sw_projected w1 @ runs_of wanted es" by blast
  then show ?case using e c by (auto simp: runs_of_def)
qed (simp add: runs_of_def)

lemma fold_advances:
  "sorted_wrt (\<lambda>x y. re_position x < re_position y) es \<Longrightarrow> es \<noteq> [] \<Longrightarrow> cursor_at c s < re_position (hd es) \<Longrightarrow>
     cursor_at c (fold (\<lambda>e. cursor_advance c (re_position e)) es s) = re_position (last es)"
proof (induction es arbitrary: s)
  case (Cons e es)
  have e: "cursor_at c (cursor_advance c (re_position e) s) = re_position e"
    using Cons.prems(3) by (simp add: cursor_at_advance)
  show ?case
  proof (cases "es = []")
    case False
    then show ?thesis using Cons.IH [of "cursor_advance c (re_position e) s"] Cons.prems e by simp
  qed (simp add: e)
qed simp

lemma fold_advances_frame:
  "same_log s (fold (\<lambda>e. cursor_advance c (re_position e)) es s) \<and>
   (c' \<noteq> c \<longrightarrow> cursor_at c' (fold (\<lambda>e. cursor_advance c (re_position e)) es s) = cursor_at c' s)"
proof (induction es arbitrary: s)
  case (Cons e es)
  then show ?case
    using Cons.IH [of "cursor_advance c (re_position e) s"] cursor_advance_log [of s c "re_position e"]
    by (simp add: same_log_def cursor_at_advance)
qed (simp add: same_log_def)

text \<open>One step: the page is projected in the order of the log.\<close>

lemma step_clean:
  assumes log: "sc_log cfg = memory_backend" and w: "plain w" and inv: "log_inv (sw_store w)"
    and deps: "deps_ahead cfg (cur w) w"
    and es: "es = take batch (beyond (cur w) (slog w))" and good: "good_rows wanted good es"
  shows "\<exists>w'. serial_step cfg each fuel batch w =
           Some (Inr (if es = [] then Idle else Progressed (length (runs_of wanted es))), w') \<and>
         plain w' \<and> slog w' = slog w \<and> log_inv (sw_store w') \<and>
         sw_projected w' = sw_projected w @ runs_of wanted es \<and>
         cur w' = (if es = [] then cur w else re_position (last es)) \<and>
         (\<forall>c. c \<noteq> sc_consumer cfg \<longrightarrow> cursor_at c (sw_store w') = cursor_at c (sw_store w))"
proof -
  let ?w1 = "w\<lparr> sw_leased := sw_leased w \<or> sc_leasor cfg \<rparr>"
  note step = plain_step [OF log w inv deps es, unfolded Let_def, of each fuel]
  show ?thesis
  proof (cases "es = []")
    case True
    then show ?thesis using step w inv by (intro exI [of _ ?w1]) (simp add: plain_def runs_of_def)
  next
    case False
    have p: "plain ?w1" using w by (simp add: plain_def)
    obtain w' where run: "each_event each es 0 ?w1 = (Inr (Progressed (length (runs_of wanted es))), w')" "plain w'"
      "sw_store w' = fold (\<lambda>e. cursor_advance (sc_consumer cfg) (re_position e)) es (sw_store w)"
      "sw_projected w' = sw_projected w @ runs_of wanted es"
      using each_event_clean [OF p good, of 0] by auto
    have sorted: "sorted_wrt (\<lambda>x y. re_position x < re_position y) es"
      using log_inv_positions_sorted [OF inv] es by (simp add: beyond_def sorted_wrt_filter sorted_wrt_take)
    have "hd es \<in> set (beyond (cur w) (slog w))" using es False by (metis hd_in_set in_set_takeD)
    then have "cur w < re_position (hd es)" by (simp add: set_beyond)
    from fold_advances [OF sorted False this]
    have c: "cur w' = re_position (last es)" by (simp add: run(3))
    note fr = fold_advances_frame [of "sw_store w" "sc_consumer cfg" es]
    have "slog w' = slog w" "log_inv (sw_store w')"
      using fr inv same_log_inv by (auto simp: run(3) same_log_def)
    then show ?thesis using step run c fr False by auto
  qed
qed

end

section \<open>The two runners meet both contracts\<close>

definition projector_good :: "('f, 'a) projector_config \<Rightarrow> recorded_event \<Rightarrow> bool" where
  "projector_good cfg e \<longleftrightarrow>
     (\<exists>decoded. pc_decode cfg (re_payload e) = Inr decoded \<and> (\<forall>n ctx. pc_project cfg n decoded ctx = None))"

definition multi_good :: "'a multi_config \<Rightarrow> recorded_event \<Rightarrow> bool" where
  "multi_good cfg e \<longleftrightarrow> (\<forall>n ctx. mc_project cfg n e ctx = None)"

lemma plain_advance:
  "plain w \<Longrightarrow> serial_advance cfg pos w = (Some (), in_store (cursor_advance (sc_consumer cfg) pos) w)"
  by (simp add: serial_advance_def serial_call_fault_free plain_def)

lemma plain_after_project:
  assumes "plain w"
  shows "after_project cfg e None w =
     (Inr True, w\<lparr> sw_projected := sw_projected w @ [(re_event_id e, True)],
                   sw_failure := failure_clear (re_event_id e) (sw_failure w),
                   sw_store := cursor_advance (sc_consumer cfg) (re_position e) (sw_store w) \<rparr>)"
proof -
  let ?w2 = "w\<lparr> sw_projected := sw_projected w @ [(re_event_id e, True)],
               sw_failure := failure_clear (re_event_id e) (sw_failure w) \<rparr>"
  have "plain ?w2" using assms by (simp add: plain_def)
  from plain_advance [OF this, of cfg "re_position e"] show ?thesis by (simp add: after_project_def)
qed

lemma project_event_clean:
  assumes "plain w" "projector_wants cfg e \<longrightarrow> projector_good cfg e"
  shows "fst (project_event cfg e w) = Inr (projector_wants cfg e) \<and> plain (snd (project_event cfg e w)) \<and>
      sw_store (snd (project_event cfg e w)) = cursor_advance (sc_consumer cfg) (re_position e) (sw_store w) \<and>
      sw_projected (snd (project_event cfg e w)) =
        sw_projected w @ (if projector_wants cfg e then [(re_event_id e, True)] else [])"
proof -
  have f: "fold_first cfg e w = (None, w)" using assms(1) by (simp add: fold_first_def plain_def)
  show ?thesis
  proof (cases "projector_wants cfg e")
    case False
    then show ?thesis
      using assms(1) f plain_advance [OF assms(1), of cfg]
      by (simp add: project_event_def projector_wants_def skip_event_def plain_def)
  next
    case True
    then obtain d where "pc_decode cfg (re_payload e) = Inr d" "\<forall>n ctx. pc_project cfg n d ctx = None"
      using assms(2) by (auto simp: projector_good_def)
    then show ?thesis
      using True f plain_after_project [OF assms(1), of cfg] assms(1)
      by (simp add: project_event_def projector_wants_def plain_def)
  qed
qed

lemma multi_event_clean:
  assumes "plain w" "multi_wants cfg e \<longrightarrow> multi_good cfg e"
  shows "fst (multi_event cfg e w) = Inr (multi_wants cfg e) \<and> plain (snd (multi_event cfg e w)) \<and>
      sw_store (snd (multi_event cfg e w)) = cursor_advance (sc_consumer cfg) (re_position e) (sw_store w) \<and>
      sw_projected (snd (multi_event cfg e w)) =
        sw_projected w @ (if multi_wants cfg e then [(re_event_id e, True)] else [])"
proof -
  have f: "fold_first cfg e w = (None, w)" using assms(1) by (simp add: fold_first_def plain_def)
  show ?thesis
    using assms f plain_advance [OF assms(1), of cfg] plain_after_project [OF assms(1), of cfg]
    by (simp add: multi_event_def multi_wants_def multi_good_def skip_event_def plain_def)
qed

interpretation typed: clean_consumer cfg "project_event cfg" "projector_wants cfg" "projector_good cfg"
  for cfg :: "('f, 'a) projector_config"
  by unfold_locales (rule project_event_outcome, assumption+, rule project_event_clean)

interpretation multi: clean_consumer cfg "multi_event cfg" "multi_wants cfg" "multi_good cfg"
  for cfg :: "'a multi_config"
  by unfold_locales (rule multi_event_outcome, assumption+, rule multi_event_clean)

end
