(* ===== verification/Projection_Properties.thy ===== *)
theory Projection_Properties
  imports Projection_Laws
begin

text \<open>
  What the serial runners promise: no event is passed unaccounted for, whatever fails and whenever
  the process restarts; every step returns; without faults the log is projected in order; the
  dependency fence. Two scenarios show where the parking of a failing event wedges a consumer.
\<close>

section \<open>Reachable runners\<close>

text \<open>A serial consumer over the in-memory store: any steps with any fates of their calls, any growth
  of the store by others (who leave its cursor alone), and restarts, with any policy and registry.\<close>

inductive serial_reach ::
  "'z serial_config_scheme \<Rightarrow>
   (recorded_event \<Rightarrow> 'a serial_world \<Rightarrow> (step_error + bool) \<times> 'a serial_world) \<Rightarrow> 'a serial_world \<Rightarrow> bool"
  for cfg each where
  sr_start: "log_inv s \<Longrightarrow> cursor_get (sc_consumer cfg) s = None \<Longrightarrow>
     serial_reach cfg each (projection_runner_new policy ags settle s)"
| sr_step: "serial_reach cfg each w \<Longrightarrow> log_room batch (sw_store w) \<Longrightarrow>
     serial_step cfg each fuel batch (w\<lparr> sw_io := fates \<rparr>) = Some (res, w') \<Longrightarrow> serial_reach cfg each w'"
| sr_others: "serial_reach cfg each w \<Longrightarrow> log_inv s' \<Longrightarrow> global_log s' = slog w @ new \<Longrightarrow>
     cursor_get (sc_consumer cfg) s' = cursor_get (sc_consumer cfg) (sw_store w) \<Longrightarrow>
     serial_reach cfg each (w\<lparr> sw_store := s' \<rparr>)"
| sr_restart: "serial_reach cfg each w \<Longrightarrow>
     serial_reach cfg each ((projection_runner_new policy ags settle (sw_store w))
       \<lparr> sw_ticks := sw_ticks w, sw_projected := sw_projected w, sw_parked := sw_parked w \<rparr>)"

context serial_consumer
begin

lemma others_caught_up:
  fixes w :: "'a serial_world"
  assumes inv: "log_inv s'" and grow: "global_log s' = slog w @ new" and up: "caught_up wanted cfg w"
    and same: "cursor_get (sc_consumer cfg) s' = cursor_get (sc_consumer cfg) (sw_store w)"
  shows "caught_up wanted cfg (w\<lparr> sw_store := s' \<rparr>)"
proof -
  let ?w' = "w\<lparr> sw_store := s' \<rparr>"
  have c: "cur ?w' = cur w" using same by (simp add: cursor_at_def)
  have later: "cur w < re_position x" if x: "x \<in> set new" for x
  proof (cases "cur w = cursor_zero")
    case True
    then show ?thesis using log_inv_position_pos [OF inv, of x] x grow by (simp add: cursor_zero_def)
  next
    case False
    then obtain e where e: "e \<in> set (slog w)" "cur w \<le> re_position e" using up by (auto simp: caught_up_def)
    then have "re_position e < re_position x"
      using log_inv_positions_sorted [OF inv] x grow by (simp add: sorted_wrt_append)
    then show ?thesis using e(2) by simp
  qed
  have "handled wanted cfg ?w' x" if "x \<in> set (slog ?w')" "re_position x \<le> cur ?w'" for x
  proof -
    have "x \<in> set (slog w)" using that later [of x] grow c by auto
    then have "handled wanted cfg w x" using that(2) up c by (simp add: caught_up_def)
    then show ?thesis using grow parked_in_log_grows by (auto simp: handled_def)
  qed
  moreover have "cur ?w' = cursor_zero \<or> (\<exists>e \<in> set (slog ?w'). cur ?w' \<le> re_position e)"
    using up grow c by (auto simp: caught_up_def)
  ultimately show ?thesis unfolding caught_up_def by blast
qed

lemma reach_caught_up:
  assumes log: "sc_log cfg = memory_backend"
  shows "serial_reach cfg each w \<Longrightarrow> log_inv (sw_store w) \<and> caught_up wanted cfg w"
proof (induction rule: serial_reach.induct)
  case (sr_start s policy ags settle)
  then show ?case
    using log_inv_position_pos
    by (fastforce simp: projection_runner_new_def caught_up_def cursor_at_def cursor_zero_def not_less [symmetric])
next
  case (sr_step w batch fuel fates res w')
  let ?w = "w\<lparr> sw_io := fates \<rparr>"
  have up: "caught_up wanted cfg ?w" using sr_step.IH by (simp add: caught_up_def handled_def)
  have "serial_grows batch ?w w' \<and> caught_up wanted cfg w' \<and> cur ?w \<le> cur w'"
    by (rule step_caught_up [OF log _ _ up sr_step.hyps(3)]) (use sr_step in simp_all)
  then show ?case using sr_step by (simp add: serial_grows_def)
next
  case (sr_others w s' new)
  then show ?case using others_caught_up [of s' w new] by simp
next
  case (sr_restart w policy ags settle)
  then show ?case by (simp add: projection_runner_new_def caught_up_def handled_def)
qed

end

text \<open>C5: no event is ever passed unaccounted for. Whatever calls fail before or after their effect,
  however often the process restarts with another policy or registry and whatever others append:
  each event of the log at or below the durable cursor of a projector is not of its kind, or its
  body ran on the event and succeeded, or the log holds the event's terminal fact
  \<open>causal:projection_failed\<close>.\<close>

theorem projector_cursor_safe:
  assumes "serial_reach cfg (project_event cfg) w" "sc_log cfg = memory_backend"
    and "e \<in> set (global_log (sw_store w))" "cursor_get (sc_consumer cfg) (sw_store w) = Some c" "re_position e \<le> c"
  shows "\<not> matches_kind (re_event_type e) (pc_kind cfg) \<or> (re_event_id e, True) \<in> set (sw_projected w) \<or>
         parked_in_log cfg (global_log (sw_store w)) e"
  using typed.reach_caught_up [OF assms(2,1)] assms(3-5)
  by (auto simp: caught_up_def handled_def projector_wants_def cursor_at_def)

text \<open>The same for a multi-projector and its declared kinds.\<close>

theorem multi_projector_cursor_safe:
  assumes "serial_reach cfg (multi_event cfg) w" "sc_log cfg = memory_backend"
    and "e \<in> set (global_log (sw_store w))" "cursor_get (sc_consumer cfg) (sw_store w) = Some c" "re_position e \<le> c"
  shows "\<not> list_ex (is_subscribed_kind (re_event_type e)) (mc_kinds cfg) \<or>
         (re_event_id e, True) \<in> set (sw_projected w) \<or> parked_in_log cfg (global_log (sw_store w)) e"
  using multi.reach_caught_up [OF assms(2,1)] assms(3-5)
  by (auto simp: caught_up_def handled_def multi_wants_def cursor_at_def)

text \<open>A step returns. The replay that brings a consumer's registry up to its cursor pages through
  the log in batches of 1024; one batch more than it takes to hold the log is enough, whatever the
  calls, the folds and the bodies do.\<close>

lemma projection_step_returns:
  assumes "sc_log cfg = memory_backend" "log_inv (sw_store w)" "length (global_log (sw_store w)) \<le> 1024 * n"
  shows "\<exists>res w'. projection_step cfg (Suc n) batch w = Some (res, w')"
  using serial_step_returns [OF assms, of "project_event cfg" batch]
  by (auto simp: projection_step_def)

section \<open>Draining the log\<close>

text \<open>Consecutive steps, as the supervisor drives them, with their results.\<close>

fun serial_drive ::
  "(nat \<Rightarrow> 'a serial_world \<Rightarrow> ((step_error + step_outcome) \<times> 'a serial_world) option) \<Rightarrow> nat \<Rightarrow> nat \<Rightarrow>
   'a serial_world \<Rightarrow> ((step_error + step_outcome) list \<times> 'a serial_world) option" where
  "serial_drive f batch 0 w = Some ([], w)"
| "serial_drive f batch (Suc n) w =
     (case f batch w of
        None \<Rightarrow> None
      | Some (r, w1) \<Rightarrow> map_option (\<lambda>(rs, w2). (r # rs, w2)) (serial_drive f batch n w1))"

context clean_consumer
begin

lemma drive_clean:
  assumes log: "sc_log cfg = memory_backend" and other: "sc_consumer cfg \<notin> set (sc_depends_on cfg)"
  shows "plain w \<Longrightarrow> log_inv (sw_store w) \<Longrightarrow> deps_ahead cfg (cur w) w \<Longrightarrow>
     (\<forall>e \<in> set (slog w). deps_ahead cfg (re_position e) w) \<Longrightarrow> good_rows wanted good (beyond (cur w) (slog w)) \<Longrightarrow>
     length (beyond (cur w) (slog w)) \<le> n * batch \<Longrightarrow>
     \<exists>rs w'. serial_drive (serial_step cfg each fuel) batch n w = Some (rs, w') \<and> slog w' = slog w \<and>
       sw_projected w' = sw_projected w @ runs_of wanted (beyond (cur w) (slog w)) \<and>
       beyond (cur w') (slog w') = [] \<and> fst (the (serial_step cfg each fuel batch w')) = Inr Idle"
proof (induction n arbitrary: w)
  case 0
  then have none: "beyond (cur w) (slog w) = []" by simp
  then show ?case
    using step_clean [OF log 0(1-3), of "[]" batch fuel] by (auto simp: good_rows_def runs_of_def)
next
  case (Suc n)
  let ?b = "beyond (cur w) (slog w)"
  define es where "es = take batch ?b"
  have good: "good_rows wanted good es" "good_rows wanted good (drop batch ?b)"
    using Suc.prems(5) by (auto simp: good_rows_def es_def dest: in_set_takeD in_set_dropD)
  obtain w1 where one: "serial_step cfg each fuel batch w =
      Some (Inr (if es = [] then Idle else Progressed (length (runs_of wanted es))), w1)"
    and w1: "plain w1" "slog w1 = slog w" "log_inv (sw_store w1)"
      "sw_projected w1 = sw_projected w @ runs_of wanted es"
      "cur w1 = (if es = [] then cur w else re_position (last es))"
      "\<forall>c. c \<noteq> sc_consumer cfg \<longrightarrow> cursor_at c (sw_store w1) = cursor_at c (sw_store w)"
    using step_clean [OF log Suc.prems(1-3) es_def good(1), of fuel] by blast
  have rest: "beyond (cur w1) (slog w1) = drop batch ?b"
  proof (cases "es = []")
    case True
    then show ?thesis using w1(2,5) by (auto simp: es_def)
  next
    case False
    then show ?thesis
      using beyond_last(1) [OF log_inv_positions_sorted [OF Suc.prems(2)] es_def] w1(2,5) by simp
  qed
  have ahead: "deps_ahead cfg p w1 \<longleftrightarrow> deps_ahead cfg p w" for p
  proof -
    have "cursor_at dep (sw_store w1) = cursor_at dep (sw_store w)" if "dep \<in> set (sc_depends_on cfg)" for dep
      using w1(6) other that by metis
    then show ?thesis by (simp add: deps_ahead_def)
  qed
  have "deps_ahead cfg (cur w1) w"
  proof (cases "es = []")
    case True
    then show ?thesis using w1(5) Suc.prems(3) by simp
  next
    case False
    then have "last es \<in> set (take batch ?b)" unfolding es_def by (rule last_in_set)
    then have "last es \<in> set (slog w)" using in_set_takeD set_beyond by metis
    then show ?thesis using w1(5) False Suc.prems(4) by simp
  qed
  moreover have "\<forall>e \<in> set (slog w1). deps_ahead cfg (re_position e) w1" using Suc.prems(4) w1(2) ahead by simp
  moreover have "length (beyond (cur w1) (slog w1)) \<le> n * batch" using rest Suc.prems(6) by simp
  ultimately obtain rs w' where nxt: "serial_drive (serial_step cfg each fuel) batch n w1 = Some (rs, w')"
    "slog w' = slog w1" "sw_projected w' = sw_projected w1 @ runs_of wanted (drop batch ?b)"
    "beyond (cur w') (slog w') = []" "fst (the (serial_step cfg each fuel batch w')) = Inr Idle"
    using Suc.IH [OF w1(1,3)] good(2) ahead rest by metis
  have "runs_of wanted ?b = runs_of wanted es @ runs_of wanted (drop batch ?b)"
    by (simp add: runs_of_append [symmetric] es_def)
  then show ?case using one nxt w1(2,4) by simp
qed

end

text \<open>C6: a projector drains the log when nothing stands in its way. On the memory log, without
  faults, without aggregators, not depending on itself, with every dependency already at or beyond the
  cursor and all rows of the log, and with events of its kind that all decode and on which the body always
  succeeds, \<open>n\<close> steps of a batch that covers what lies beyond the cursor run the body exactly
  on those events, once each and in the order of the log; the log is untouched, nothing is left beyond the
  cursor, and the next step is idle. A lagging dependency, an undecodable event or a failing body is not
  covered.\<close>

theorem projector_drains_in_order:
  assumes "sc_log cfg = memory_backend" "sw_io w = []" "sw_registry w = None" "log_inv (sw_store w)"
    and "sc_consumer cfg \<notin> set (sc_depends_on cfg)"
    and "\<forall>dep \<in> set (sc_depends_on cfg).
           \<forall>p \<in> insert (cursor_at (sc_consumer cfg) (sw_store w)) (re_position ` set (global_log (sw_store w))).
             p \<le> cursor_at dep (sw_store w)"
    and "left = filter (\<lambda>e. cursor_at (sc_consumer cfg) (sw_store w) < re_position e) (global_log (sw_store w))"
    and "mine = filter (\<lambda>e. matches_kind (re_event_type e) (pc_kind cfg)) left"
    and "\<forall>e \<in> set mine. projector_good cfg e" "length left \<le> n * batch"
  shows "\<exists>rs w'. serial_drive (projection_step cfg fuel) batch n w = Some (rs, w') \<and>
           global_log (sw_store w') = global_log (sw_store w) \<and>
           sw_projected w' = sw_projected w @ map (\<lambda>e. (re_event_id e, True)) mine \<and>
           (\<forall>e \<in> set (global_log (sw_store w)). re_position e \<le> cursor_at (sc_consumer cfg) (sw_store w')) \<and>
           fst (the (projection_step cfg fuel batch w')) = Inr Idle"
proof -
  have step: "serial_step cfg (project_event cfg) fuel = projection_step cfg fuel"
    by (intro ext) (simp add: projection_step_def)
  have left: "left = beyond (cursor_at (sc_consumer cfg) (sw_store w)) (slog w)" using assms(7) by (simp add: beyond_def)
  have mine: "mine = filter (projector_wants cfg) left" using assms(8) by (simp add: projector_wants_def [abs_def])
  have "plain w" using assms(2,3) by (simp add: plain_def)
  moreover have "deps_ahead cfg (cursor_at (sc_consumer cfg) (sw_store w)) w"
    "\<forall>e \<in> set (slog w). deps_ahead cfg (re_position e) w"
    using assms(6) by (simp_all add: deps_ahead_def)
  moreover have "good_rows (projector_wants cfg) (projector_good cfg) (beyond (cursor_at (sc_consumer cfg) (sw_store w)) (slog w))"
    using assms(9) mine left by (auto simp: good_rows_def)
  ultimately obtain rs w' where "serial_drive (projection_step cfg fuel) batch n w = Some (rs, w')" "slog w' = slog w"
    "sw_projected w' = sw_projected w @ runs_of (projector_wants cfg) left"
    "beyond (cursor_at (sc_consumer cfg) (sw_store w')) (slog w') = []"
    "fst (the (projection_step cfg fuel batch w')) = Inr Idle"
    using typed.drive_clean [OF assms(1,5) _ assms(4), where n = n and batch = batch and fuel = fuel] assms(10) left step by auto
  then show ?thesis
    using mine by (auto simp: runs_of_def beyond_def filter_empty_conv not_less)
qed

section \<open>The dependency fence\<close>

lemma fence_passed:
  "fence_deps pos deps w = (Some None, w') \<Longrightarrow> \<forall>dep \<in> set deps. pos \<le> cursor_at dep (sw_store w)"
proof (induction deps arbitrary: w)
  case (Cons dep deps)
  obtain r w1 where c: "serial_cursor dep w = (r, w1)" by fastforce
  have "r = Some (cursor_at dep (sw_store w))" "sw_store w1 = sw_store w"
    using serial_cursor_quiet [OF c] Cons.prems c by (auto split: option.splits)
  then show ?case using Cons.IH [of w1] Cons.prems c by (auto split: if_splits simp: not_less)
qed simp

text \<open>The dependency fence. Whatever the fates of its calls, a step moves the cursor of a projector only
  when every consumer it depends on had a cursor at least as far as the projector's own at the start
  of the step.\<close>

lemma dependency_fence:
  assumes "projection_step cfg fuel batch w = Some (res, w')" "dep \<in> set (sc_depends_on cfg)"
    and "projection_cursors (sw_store w') \<noteq> projection_cursors (sw_store w)"
  shows "cursor_at (sc_consumer cfg) (sw_store w) \<le> cursor_at dep (sw_store w)"
proof -
  obtain r1 w1 where 1: "ensure_leased cfg w = (r1, w1)" by fastforce
  obtain r2 w2 where 2: "serial_cursor (sc_consumer cfg) w1 = (r2, w2)" by fastforce
  obtain r3 w3 where 3: "fence_deps (case r2 of Some c \<Rightarrow> c | None \<Rightarrow> 0) (sc_depends_on cfg) w2 = (r3, w3)"
    by fastforce
  note q1 = ensure_leased_quiet [OF 1] and q2 = serial_cursor_quiet [OF 2] and q3 = fence_deps_quiet [OF 3]
  have "r1 \<noteq> None \<and> r2 \<noteq> None \<and> r3 = Some None"
  proof (rule ccontr)
    assume "\<not> (r1 \<noteq> None \<and> r2 \<noteq> None \<and> r3 = Some None)"
    then have "w' = w1 \<or> w' = w2 \<or> w' = w3"
      using assms(1) 1 2 3 by (auto simp: projection_step_def serial_step_def split: option.splits)
    then show False using assms(3) q1 q2 q3 by auto
  qed
  then show ?thesis using fence_passed [of _ _ w2 w3] 3 q1 q2 assms(2) by auto
qed

text \<open>The fence is checked once per step: with a dependency exactly at the projector's cursor, a step
  goes on past it, by a whole page.\<close>

lemma step_passes_dependency:
  assumes "sc_log cfg = memory_backend" "sw_io w = []" "sw_registry w = None" "log_inv (sw_store w)"
    and "\<forall>dep \<in> set (sc_depends_on cfg). cursor_at dep (sw_store w) = cursor_at (sc_consumer cfg) (sw_store w)"
    and "es = take batch (beyond (cursor_at (sc_consumer cfg) (sw_store w)) (slog w))" "es \<noteq> []"
    and "good_rows (projector_wants cfg) (projector_good cfg) es"
    and "dep \<in> set (sc_depends_on cfg)" "dep \<noteq> sc_consumer cfg"
  shows "\<exists>res w'. projection_step cfg fuel batch w = Some (res, w') \<and>
           cursor_at (sc_consumer cfg) (sw_store w') = re_position (last es) \<and>
           cursor_at dep (sw_store w') < cursor_at (sc_consumer cfg) (sw_store w')"
proof -
  have "plain w" "deps_ahead cfg (cursor_at (sc_consumer cfg) (sw_store w)) w"
    using assms(2,3,5) by (simp_all add: plain_def deps_ahead_def)
  from typed.step_clean [OF assms(1) this(1) assms(4) this(2) assms(6,8), of fuel]
  obtain w' where "projection_step cfg fuel batch w =
      Some (Inr (Progressed (length (runs_of (projector_wants cfg) es))), w')"
    "cursor_at (sc_consumer cfg) (sw_store w') = re_position (last es)"
    "cursor_at dep (sw_store w') = cursor_at dep (sw_store w)"
    using assms(7,10) by (auto simp: projection_step_def)
  moreover have "cursor_at (sc_consumer cfg) (sw_store w) < re_position (last es)"
    by (rule beyond_last(2) [OF log_inv_positions_sorted [OF assms(4)] assms(6,7)])
  ultimately show ?thesis using assms(5,9) by simp
qed

section \<open>A lost acknowledgement\<close>

definition undecodable :: "('f, 'a) projector_config \<Rightarrow> recorded_event \<Rightarrow> bool" where
  "undecodable cfg e \<longleftrightarrow> projector_wants cfg e \<and> (\<exists>msg. pc_decode cfg (re_payload e) = Inl msg)"

lemma poison_on_failure:
  assumes "fs_attempts fs = None \<and> n = 1 \<or> fs_attempts fs = Some (i, n - 1)"
  shows "\<exists>fs'. on_failure now i [\<lparr> el_kind = SerdeJson, el_message = msg \<rparr>] fs = (Park PoisonFailure n, fs') \<and>
    fs_attempts fs' = Some (i, n)"
  using assms by (auto simp: on_failure_def classify_structural_def Let_def)

lemma undecodable_event:
  assumes "undecodable cfg e" "sw_registry w = None"
    and "fs_attempts (sw_failure w) = None \<and> n = 1 \<or> fs_attempts (sw_failure w) = Some (re_event_id e, n - 1)"
  shows "\<exists>fs text. fs_attempts fs = Some (re_event_id e, n) \<and>
    project_event cfg e w = parked_as
      (case park_event cfg e PoisonFailure n text (w\<lparr> sw_failure := fs, sw_ticks := Suc (sw_ticks w) \<rparr>) of
         (Inl perr, w2) \<Rightarrow> (Some perr, w2)
       | (Inr _, w2) \<Rightarrow> (case serial_advance cfg (re_position e) w2 of
                            (None, w3) \<Rightarrow> (Some IoError, w3) | (Some _, w3) \<Rightarrow> (None, w3)))"
proof -
  obtain msg where m: "pc_decode cfg (re_payload e) = Inl msg" "projector_wants cfg e"
    using assms(1) by (auto simp: undecodable_def)
  let ?err = "[\<lparr> el_kind = SerdeJson, el_message = msg \<rparr>]"
  obtain fs where f: "on_failure (sc_instant cfg (sw_ticks w)) (re_event_id e) ?err (sw_failure w) = (Park PoisonFailure n, fs)"
    "fs_attempts fs = Some (re_event_id e, n)"
    using poison_on_failure [OF assms(3)] by blast
  have "project_event cfg e w = parked_as (park_or_propagate cfg e ?err w)"
    using m assms(2) by (simp add: project_event_def fold_first_def projector_wants_def)
  then show ?thesis using f by (auto simp: park_or_propagate_def Let_def)
qed

text \<open>The first park, whose append works but is not acknowledged.\<close>

lemma park_ack_lost:
  assumes log: "sc_log cfg = memory_backend" and inv: "log_inv (sw_store w)" "log_room 1 (sw_store w)"
    and io: "sw_io w = [IoFailAfter]"
    and fresh: "ids_fresh (slog w) [projection_failed_event cfg e fc n text (sc_clock cfg (sw_ticks w))]"
  shows "\<exists>w' row. park_event cfg e fc n text w = (Inl IoError, w') \<and> slog w' = slog w @ [row] \<and>
    same_row (re_category e) (re_subject_id e)
      (projection_failed_event cfg e fc n text (sc_clock cfg (sw_ticks w))) row \<and>
    log_inv (sw_store w') \<and> cursors w' = cursors w \<and> sw_io w' = [] \<and> sw_registry w' = sw_registry w \<and>
    sw_failure w' = sw_failure w"
proof -
  let ?out = "projection_failed_event cfg e fc n text (sc_clock cfg (sw_ticks w))"
  let ?w1 = "w\<lparr> sw_ticks := Suc (sw_ticks w), sw_parked := (if sc_observer cfg then sw_parked w @ [re_event_id e] else sw_parked w) \<rparr>"
  have "\<exists>r s'. append_to_stream (re_category e) (re_subject_id e) AnyState [?out] (sw_store w) = (Inr r, s')"
    using mem_log.append_fresh [OF inv(1) _ _ fresh, of AnyState "re_category e" "re_subject_id e"]
    by (simp add: memory_backend_def)
  then obtain r s' where app: "append_to_stream (re_category e) (re_subject_id e) AnyState [?out] (sw_store w) = (Inr r, s')"
    by blast
  have run: "park_event cfg e fc n text w = (Inl IoError, ?w1\<lparr> sw_io := [], sw_store := s' \<rparr>)"
    using app log io
    by (simp add: park_event_def serial_clock_def append_projection_failed_def serial_call_def memory_backend_def Let_def)
  have "append_projection_failed cfg e fc n text (sc_clock cfg (sw_ticks w)) (?w1\<lparr> sw_io := [IoFailAfter] \<rparr>) =
      (Inl IoError, ?w1\<lparr> sw_io := [], sw_store := s' \<rparr>)"
    using app log by (simp add: append_projection_failed_def serial_call_def memory_backend_def)
  from append_projection_failed_effect [OF log _ _ this] inv
  have "log_inv s'" "projection_cursors s' = cursors w" by (simp_all add: serial_grows_def)
  moreover have "\<not> batch_persisted (slog w) (re_category e) (re_subject_id e) [?out]"
    using fresh by (force simp: ids_fresh_def batch_persisted_def same_row_def)
  then obtain row where "global_log s' = slog w @ [row]" "same_row (re_category e) (re_subject_id e) ?out row"
    using append_ok_mem [OF inv(1) app] by (auto simp: list_all2_Cons1)
  ultimately show ?thesis using run by simp
qed

text \<open>Every later park of the event counts one attempt more, so its fact has another payload.\<close>

lemma failed_event_payload:
  assumes "same_row c i (projection_failed_event cfg e fc n text now) row"
    and "same_row c i (projection_failed_event cfg e fc' n' text' now') row"
  shows "n = n'"
proof -
  have "(ucast n :: u64) = ucast n'"
    using assms by (simp add: same_row_def projection_failed_event_def)
  then have "unat (ucast n :: u64) = unat (ucast n' :: u64)" by simp
  moreover have "unat (ucast k :: u64) = unat k" for k :: u32
  proof -
    have "unat k < 2 ^ 32" using unsigned_less [of k] by simp
    then show ?thesis by (simp add: unsigned_ucast_eq take_bit_nat_eq_self)
  qed
  ultimately show ?thesis by (simp add: word_unat_eq_iff)
qed

text \<open>The log's refusal of a fact whose id it holds with another content.\<close>

definition refused_as_divergent :: "'z serial_config_scheme \<Rightarrow> recorded_event \<Rightarrow> step_error \<Rightarrow> bool" where
  "refused_as_divergent cfg e err \<longleftrightarrow>
     (\<exists>diff row. err = LogError (DivergentRedelivery
        (derive_output_event_id (sc_v5 cfg) (sc_consumer cfg) (re_event_id e) projection_failed_kind (re_subject_id e) (- 1))
        diff (Some row)))"

lemma park_diverges:
  assumes log: "sc_log cfg = memory_backend" and inv: "log_inv (sw_store w)" and io: "sw_io w = []"
    and row: "row \<in> set (slog w)" "same_row (re_category e) (re_subject_id e)
      (projection_failed_event cfg e fc n text now) row" "n' \<noteq> n"
  shows "\<exists>err w'. park_event cfg e fc' n' text' w = (Inl err, w') \<and> refused_as_divergent cfg e err \<and> sw_store w' = sw_store w \<and> sw_io w' = [] \<and>
    sw_registry w' = sw_registry w \<and> sw_failure w' = sw_failure w"
proof -
  let ?out = "projection_failed_event cfg e fc' n' text' (sc_clock cfg (sw_ticks w))"
  have "re_event_id row = ed_event_id ?out" using row(2) by (simp add: same_row_def projection_failed_event_def)
  moreover have "\<not> same_row (re_category e) (re_subject_id e) ?out row"
    using failed_event_payload row(2,3) by metis
  ultimately obtain d where "append_to_stream (re_category e) (re_subject_id e) AnyState [?out] (sw_store w) =
      (Inl (DivergentRedelivery (ed_event_id ?out) d (Some row)), sw_store w)"
    using append_divergent_single [OF inv row(1)] by blast
  moreover have "ed_event_id ?out = derive_output_event_id (sc_v5 cfg) (sc_consumer cfg) (re_event_id e)
      projection_failed_kind (re_subject_id e) (- 1)"
    by (simp add: projection_failed_event_def)
  ultimately show ?thesis
    using log io
    by (simp add: refused_as_divergent_def park_event_def serial_clock_def append_projection_failed_def serial_call_def memory_backend_def Let_def)
qed

text \<open>While the fact of the first attempt stands, every further step fails and nothing moves.\<close>

lemma wedged_drive:
  assumes log: "sc_log cfg = memory_backend" and bad: "undecodable cfg e" and batch: "0 < batch"
    and other: "sc_depends_on cfg = []"
  shows "plain w \<Longrightarrow> log_inv (sw_store w) \<Longrightarrow>
     beyond (cursor_at (sc_consumer cfg) (sw_store w)) (slog w) = e # es \<Longrightarrow>
     row \<in> set (slog w) \<Longrightarrow> same_row (re_category e) (re_subject_id e)
       (projection_failed_event cfg e fc 1 text now) row \<Longrightarrow>
     fs_attempts (sw_failure w) = Some (re_event_id e, of_nat (Suc k)) \<Longrightarrow> Suc k + n < 2 ^ 32 \<Longrightarrow>
     \<exists>rs w'. serial_drive (projection_step cfg fuel) batch n w = Some (rs, w') \<and> length rs = n \<and>
       (\<forall>r \<in> set rs. \<exists>err. r = Inl err \<and> refused_as_divergent cfg e err) \<and> sw_store w' = sw_store w"
proof (induction n arbitrary: k w)
  case (Suc n)
  have deps: "deps_ahead cfg (cursor_at (sc_consumer cfg) (sw_store w)) w" using other by (simp add: deps_ahead_def)
  let ?w1 = "w\<lparr> sw_leased := sw_leased w \<or> sc_leasor cfg \<rparr>"
  let ?n = "of_nat (Suc (Suc k)) :: u32"
  have page: "take batch (e # es) = e # take (batch - 1) es" using batch by (cases batch) simp_all
  have step: "projection_step cfg fuel batch w = Some (each_event (project_event cfg) (e # take (batch - 1) es) 0 ?w1)"
    using plain_step [OF log Suc.prems(1,2) deps refl, where batch = batch and f = "project_event cfg" and fuel = fuel] Suc.prems(3) page
    by (simp add: projection_step_def Let_def)
  have "?n \<noteq> 1"
  proof
    assume "?n = 1"
    then have "unat ?n = unat (1 :: u32)" by (rule arg_cong)
    moreover have "unat ?n = Suc (Suc k)" using Suc.prems(7) by (simp only: unat_of_nat) simp
    ultimately show False by (simp del: of_nat_Suc)
  qed
  have reg: "sw_registry ?w1 = None" using Suc.prems(1) by (simp add: plain_def)
  have att: "fs_attempts (sw_failure ?w1) = None \<and> ?n = 1 \<or> fs_attempts (sw_failure ?w1) = Some (re_event_id e, ?n - 1)"
    using Suc.prems(6) by simp
  obtain fs text' where fs: "fs_attempts fs = Some (re_event_id e, ?n)"
    and ev: "project_event cfg e ?w1 = parked_as
      (case park_event cfg e PoisonFailure ?n text' (?w1\<lparr> sw_failure := fs, sw_ticks := Suc (sw_ticks ?w1) \<rparr>) of
         (Inl perr, w2) \<Rightarrow> (Some perr, w2)
       | (Inr _, w2) \<Rightarrow> (case serial_advance cfg (re_position e) w2 of
                            (None, w3) \<Rightarrow> (Some IoError, w3) | (Some _, w3) \<Rightarrow> (None, w3)))"
    using undecodable_event [OF bad reg att] by blast
  let ?w2 = "?w1\<lparr> sw_failure := fs, sw_ticks := Suc (sw_ticks ?w1) \<rparr>"
  have io: "sw_io ?w2 = []" using Suc.prems(1) by (simp add: plain_def)
  have "\<exists>err w'. park_event cfg e PoisonFailure ?n text' ?w2 = (Inl err, w') \<and> refused_as_divergent cfg e err \<and> sw_store w' = sw_store ?w2 \<and> sw_io w' = [] \<and>
    sw_registry w' = sw_registry ?w2 \<and> sw_failure w' = sw_failure ?w2"
    by (rule park_diverges [OF log _ io _ Suc.prems(5)]) (use Suc.prems(2,4) \<open>?n \<noteq> 1\<close> in simp_all)
  then obtain err w3 where park: "park_event cfg e PoisonFailure ?n text' ?w2 = (Inl err, w3)" "refused_as_divergent cfg e err" and
    w3: "sw_store w3 = sw_store w" "plain w3" "sw_failure w3 = fs"
    using Suc.prems(1) by (auto simp: plain_def)
  have one: "projection_step cfg fuel batch w = Some (Inl err, w3)"
    using step ev park(1) by (simp add: parked_as_def)
  have "\<exists>rs w'. serial_drive (projection_step cfg fuel) batch n w3 = Some (rs, w') \<and> length rs = n \<and>
       (\<forall>r \<in> set rs. \<exists>err. r = Inl err \<and> refused_as_divergent cfg e err) \<and> sw_store w' = sw_store w3"
    by (rule Suc.IH [of w3 "Suc k"]) (use w3 fs Suc.prems in simp_all)
  then obtain rs w' where "serial_drive (projection_step cfg fuel) batch n w3 = Some (rs, w')" "length rs = n"
    "\<forall>r \<in> set rs. \<exists>err. r = Inl err \<and> refused_as_divergent cfg e err" "sw_store w' = sw_store w3"
    by blast
  then show ?case using one w3(1) park(2) by (intro exI [of _ "Inl err # rs"] exI [of _ w']) simp
qed simp

text \<open>C7: a park whose acknowledgement is lost wedges the consumer. A projector without dependencies
  and aggregators meets an undecodable event for the first time, and the append of its terminal fact reaches
  the log while its answer does not reach the runner. Each further step counts one attempt more, so the fact
  it appends differs from the one in the log. If the log held no fact of this id before and had room for it,
  then, as long as nobody else appends, every one of the following steps, up to the counter's range, fails
  with the log's divergent redelivery, without any further fault, and the log and the cursor stay as they
  are.\<close>

theorem lost_park_ack_wedges:
  assumes "sc_log cfg = memory_backend" "sc_depends_on cfg = []" "undecodable cfg e" "0 < batch"
    and "sw_registry w = None" "log_inv (sw_store w)" "log_room 1 (sw_store w)"
    and "beyond (cursor_at (sc_consumer cfg) (sw_store w)) (global_log (sw_store w)) = e # es"
    and "fs_attempts (sw_failure w) = None" "n < 2 ^ 32 - 1"
    and "derive_output_event_id (sc_v5 cfg) (sc_consumer cfg) (re_event_id e) projection_failed_kind
           (re_subject_id e) (- 1) \<notin> re_event_id ` set (global_log (sw_store w))"
    and "project_event cfg e (w\<lparr> sw_io := [IoFailAfter] \<rparr>) = (res, w1)"
  shows "res = Inl IoError \<and> parked_in_log cfg (global_log (sw_store w1)) e \<and>
         (\<exists>rs w'. serial_drive (projection_step cfg fuel) batch n w1 = Some (rs, w') \<and> length rs = n \<and>
            (\<forall>r \<in> set rs. \<exists>err. r = Inl err \<and> refused_as_divergent cfg e err) \<and>
            global_log (sw_store w') = global_log (sw_store w1) \<and>
            cursor_at (sc_consumer cfg) (sw_store w') = cursor_at (sc_consumer cfg) (sw_store w))"
proof -
  let ?w0 = "w\<lparr> sw_io := [IoFailAfter] \<rparr>"
  obtain fs msg where fs: "fs_attempts fs = Some (re_event_id e, 1)"
    and ev: "project_event cfg e ?w0 = parked_as
      (case park_event cfg e PoisonFailure 1 msg (?w0\<lparr> sw_failure := fs, sw_ticks := Suc (sw_ticks ?w0) \<rparr>) of
         (Inl perr, w2) \<Rightarrow> (Some perr, w2)
       | (Inr _, w2) \<Rightarrow> (case serial_advance cfg (re_position e) w2 of
                            (None, w3) \<Rightarrow> (Some IoError, w3) | (Some _, w3) \<Rightarrow> (None, w3)))"
    using undecodable_event [OF assms(3), of ?w0 1] assms(5,9) by auto
  let ?wp = "?w0\<lparr> sw_failure := fs, sw_ticks := Suc (sw_ticks ?w0) \<rparr>"
  let ?out = "projection_failed_event cfg e PoisonFailure 1 msg (sc_clock cfg (sw_ticks ?wp))"
  have "ids_fresh (slog ?wp) [?out]" using assms(11) by (simp add: ids_fresh_def projection_failed_event_def)
  from park_ack_lost [OF assms(1) _ _ _ this] assms(6,7) obtain w3 row
    where park: "park_event cfg e PoisonFailure 1 msg ?wp = (Inl IoError, w3)" and l: "slog w3 = slog w @ [row]"
    and row: "same_row (re_category e) (re_subject_id e) ?out row"
    and w3: "log_inv (sw_store w3)" "cursors w3 = cursors w" "sw_io w3 = []" "sw_registry w3 = None"
      "sw_failure w3 = fs"
    using assms(5) by auto
  have res: "res = Inl IoError" "w1 = w3" using assms(12) ev park by (simp_all add: parked_as_def)
  have c: "cursor_at (sc_consumer cfg) (sw_store w3) = cursor_at (sc_consumer cfg) (sw_store w)"
    by (rule cursor_at_cong [OF w3(2)])
  have rows: "\<exists>es'. beyond (cursor_at (sc_consumer cfg) (sw_store w3)) (slog w3) = e # es'"
    using assms(8) c l by (simp add: beyond_def)
  then obtain es' where b: "beyond (cursor_at (sc_consumer cfg) (sw_store w3)) (slog w3) = e # es'" ..
  have "\<exists>rs w'. serial_drive (projection_step cfg fuel) batch n w3 = Some (rs, w') \<and> length rs = n \<and>
       (\<forall>r \<in> set rs. \<exists>err. r = Inl err \<and> refused_as_divergent cfg e err) \<and> sw_store w' = sw_store w3"
    by (rule wedged_drive [OF assms(1,3,4,2) _ w3(1) b _ row, of 0]) (use w3 fs l assms(10) in \<open>simp_all add: plain_def\<close>)
  moreover have "parked_in_log cfg (slog w3) e" using row l by (intro parked_in_logI [OF _ row]) simp
  ultimately show ?thesis using res c by auto
qed

section \<open>A fold that fails\<close>

text \<open>The first aggregator folds the event's kind but not its stream.\<close>

definition misaligned :: "'a aggregator \<Rightarrow> recorded_event \<Rightarrow> bool" where
  "misaligned a e \<longleftrightarrow>
     ag_event_prefix a = re_event_type e \<and> ag_subject a \<noteq> [] \<and>
     (\<exists>i. ag_extract_id a (re_payload e) = Some i \<and> (i \<noteq> re_subject_id e \<or> ag_subject a \<noteq> re_category e))"

definition misaligned_chain :: "'z serial_config_scheme \<Rightarrow> 'a aggregator \<Rightarrow> recorded_event \<Rightarrow> error_chain" where
  "misaligned_chain cfg a e =
     fold_error_chain cfg (MisalignedFold (ag_aggregate_type a) (the (ag_extract_id a (re_payload e))))"

lemma misaligned_fold:
  assumes "misaligned a e" "rg_aggregators rg = a # others" "sw_registry w = Some rg" "sw_io w = []"
  shows "serial_fold cfg e rg w =
    (Inl (MisalignedFold (ag_aggregate_type a) (the (ag_extract_id a (re_payload e)))), w)"
proof -
  obtain i where i: "ag_extract_id a (re_payload e) = Some i"
    "ag_subject a \<noteq> [] \<and> (i \<noteq> re_subject_id e \<or> ag_subject a \<noteq> re_category e)"
    "ag_event_prefix a = re_event_type e"
    using assms(1) by (auto simp: misaligned_def)
  let ?err = "MisalignedFold (ag_aggregate_type a) i"
  have "apply_agg cd (fact_of_row e) a outcome_new rg = (Inl ?err, rg)" for cd
    using i by (auto simp: apply_agg_def fact_of_row_def)
  then have ev: "apply_event cd (fact_of_row e) rg = (Inl ?err, rg)" for cd
    using i(3) assms(2) by (simp add: apply_event_def find_by_durable_name_def fact_of_row_def)
  obtain n where n: "(8 :: nat) = Suc n" by (rule that [of 7]) simp
  have "fold_event cd S B (fact_of_row e) strict rg s = (Inl ?err, rg, s)" for cd S strict and s :: memory_store and B
    unfolding fold_event_def n fold_rounds.simps ev by simp
  then show ?thesis
    using assms(3,4) i(1) by (simp add: serial_fold_def fold_fate_def)
qed

lemma misaligned_unclassified [simp]:
  "classify_structural (misaligned_chain cfg a e) = None"
  by (simp add: misaligned_chain_def fold_error_chain_def classify_structural_def classify_def link_class_def)

text \<open>A park that works.\<close>

lemma park_works:
  assumes log: "sc_log cfg = memory_backend" and inv: "log_inv (sw_store w)" and io: "sw_io w = []"
    and fresh: "derive_output_event_id (sc_v5 cfg) (sc_consumer cfg) (re_event_id e) projection_failed_kind
           (re_subject_id e) (- 1) \<notin> re_event_id ` set (slog w)"
  shows "\<exists>w'. park_event cfg e fc n msg w = (Inr (), w') \<and> sw_io w' = []"
proof -
  let ?out = "projection_failed_event cfg e fc n msg (sc_clock cfg (sw_ticks w))"
  have "ids_fresh (slog w) [?out]" using fresh by (simp add: ids_fresh_def projection_failed_event_def)
  then have "\<exists>r s'. append_to_stream (re_category e) (re_subject_id e) AnyState [?out] (sw_store w) = (Inr r, s')"
    using mem_log.append_fresh [OF inv, of "[?out]" AnyState "re_category e" "re_subject_id e"]
    by (simp add: memory_backend_def)
  then show ?thesis
    using log io
    by (auto simp: park_event_def serial_clock_def append_projection_failed_def serial_call_def memory_backend_def Let_def)
qed

text \<open>The retry budget of the event is spent by the next failure.\<close>

definition last_attempt :: "recorded_event \<Rightarrow> failure_state \<Rightarrow> bool" where
  "last_attempt e fs \<longleftrightarrow>
     rp_max_attempts (fs_retry_policy fs) \<le>
       (case fs_attempts fs of Some (i, n) \<Rightarrow> if i = re_event_id e then n + 1 else 1 | None \<Rightarrow> 1)"

lemma misaligned_parks:
  assumes log: "sc_log cfg = memory_backend" and inv: "log_inv (sw_store w)" "log_room 1 (sw_store w)"
    and io: "sw_io w = []" and reg: "sw_registry w = Some rg" "rg_aggregators rg = a # others"
    and mis: "misaligned a e" and budget: "last_attempt e (sw_failure w)"
    and fresh: "derive_output_event_id (sc_v5 cfg) (sc_consumer cfg) (re_event_id e) projection_failed_kind
           (re_subject_id e) (- 1) \<notin> re_event_id ` set (slog w)"
  shows "\<exists>w1. project_event cfg e w = (Inr False, w1) \<and> log_inv (sw_store w1) \<and> (\<exists>new. slog w1 = slog w @ new) \<and>
    cursor_at (sc_consumer cfg) (sw_store w1) = max (cursor_at (sc_consumer cfg) (sw_store w)) (re_position e)"
proof -
  note f = misaligned_fold [OF mis reg(2,1) io, of cfg]
  let ?err = "misaligned_chain cfg a e"
  obtain n fs where d: "on_failure (sc_instant cfg (sw_ticks w)) (re_event_id e) ?err (sw_failure w) =
      (Park Unclassified n, fs)"
    using budget by (auto simp: on_failure_def last_attempt_def Let_def)
  let ?w1 = "w\<lparr> sw_failure := fs, sw_ticks := Suc (sw_ticks w) \<rparr>"
  have "\<exists>w'. park_event cfg e Unclassified n (bounded_error_chain ?err) ?w1 = (Inr (), w') \<and> sw_io w' = []"
    by (rule park_works [OF log]) (use inv io fresh in simp_all)
  then obtain w2 where p: "park_event cfg e Unclassified n (bounded_error_chain ?err) ?w1 = (Inr (), w2)" "sw_io w2 = []"
    by blast
  have "serial_advance cfg (re_position e) w2 = (Some (), in_store (cursor_advance (sc_consumer cfg) (re_position e)) w2)"
    using p(2) by (simp add: serial_advance_def serial_call_fault_free)
  then have ev: "project_event cfg e w = (Inr False, in_store (cursor_advance (sc_consumer cfg) (re_position e)) w2)"
    using f reg d p by (simp add: misaligned_chain_def project_event_def fold_first_def park_or_propagate_def parked_as_def Let_def)
  have out: "event_outcome (projector_wants cfg) cfg e w True
      (in_store (cursor_advance (sc_consumer cfg) (re_position e)) w2)"
    using project_event_outcome [OF log inv ev] by simp
  then have adv: "advanced cfg e w (in_store (cursor_advance (sc_consumer cfg) (re_position e)) w2)"
    by (simp add: event_outcome_def)
  let ?w3 = "in_store (cursor_advance (sc_consumer cfg) (re_position e)) w2"
  have "log_inv (sw_store ?w3) \<and> (\<exists>new. slog ?w3 = slog w @ new)"
    using out inv unfolding event_outcome_def serial_grows_def by blast
  moreover have "cursor_at (sc_consumer cfg) (sw_store ?w3) =
      max (cursor_at (sc_consumer cfg) (sw_store w)) (re_position e)"
    by (rule trans [OF advanced_cursor [OF adv] if_P]) simp
  ultimately show ?thesis using ev by blast
qed

text \<open>A restarted runner meets the event again while it brings its registry up to the cursor.\<close>

lemma hydration_fails:
  assumes log: "sc_log cfg = memory_backend" and other: "sc_depends_on cfg = []" and mis: "misaligned a e"
  shows "sw_io w = [] \<Longrightarrow> sw_registry w = Some rg \<Longrightarrow> rg_aggregators rg = a # others \<Longrightarrow> \<not> sw_hydrated w \<Longrightarrow>
     log_inv (sw_store w) \<Longrightarrow> slog w = e # rows \<Longrightarrow> re_position e \<le> cursor_at (sc_consumer cfg) (sw_store w) \<Longrightarrow>
     \<exists>w'. serial_drive (projection_step cfg (Suc fuel)) batch n w =
         Some (replicate n (Inl (EventError (re_event_id e) (misaligned_chain cfg a e))), w') \<and> sw_store w' = sw_store w"
proof (induction n arbitrary: w)
  case (Suc n)
  let ?w1 = "w\<lparr> sw_leased := sw_leased w \<or> sc_leasor cfg \<rparr>"
  let ?c = "cursor_at (sc_consumer cfg) (sw_store w)"
  have pos: "0 < re_position e" using log_inv_position_pos [OF Suc.prems(5)] Suc.prems(6) by simp
  then have c0: "?c \<noteq> cursor_zero" using Suc.prems(7) by (auto simp: cursor_zero_def)
  have io: "sw_io ?w1 = []" "sw_registry ?w1 = Some rg" using Suc.prems(1,2) by simp_all
  note f = misaligned_fold [OF mis Suc.prems(3) io(2,1), of cfg]
  have read: "serial_read cfg cursor_zero 1024 ?w1 = (Inr (take 1024 (beyond cursor_zero (slog w))), ?w1)"
    using io(1) log Suc.prems(5)
    by (simp add: serial_read_def serial_call_fault_free memory_backend_def read_all_rows beyond_def)
  have page: "take 1024 (beyond cursor_zero (slog w)) = e # take 1023 (beyond cursor_zero rows)"
    using pos Suc.prems(6) by (simp add: beyond_def cursor_zero_def take_Cons')
  have batch: "hydrate_batch cfg ?c (take 1024 (beyond cursor_zero (slog w))) ?w1 =
      (Inl (EventError (re_event_id e) (misaligned_chain cfg a e)), ?w1)"
    unfolding page using Suc.prems(7) io(2) f by (simp add: not_less misaligned_chain_def [symmetric])
  have "hydrate_loop cfg ?c (Suc fuel) cursor_zero ?w1 =
      Some (Some (EventError (re_event_id e) (misaligned_chain cfg a e)), ?w1)"
    unfolding hydrate_loop.simps read prod.case sum.case batch by (simp add: page)
  then have "ensure_hydrated cfg (Suc fuel) ?c ?w1 =
      Some (Some (EventError (re_event_id e) (misaligned_chain cfg a e)), ?w1)"
    using io(2) c0 Suc.prems(4) by (simp add: ensure_hydrated_def del: hydrate_loop.simps)
  moreover have "ensure_leased cfg w = (Some (), ?w1)"
    using Suc.prems(1) by (auto simp: ensure_leased_def serial_call_fault_free)
  moreover have "serial_cursor (sc_consumer cfg) ?w1 = (Some ?c, ?w1)"
    using io(1) by (simp add: serial_cursor_def serial_call_fault_free cursor_at_def)
  ultimately have one: "projection_step cfg (Suc fuel) batch w =
      Some (Inl (EventError (re_event_id e) (misaligned_chain cfg a e)), ?w1)"
    using other by (simp add: projection_step_def serial_step_def)
  have "\<exists>w'. serial_drive (projection_step cfg (Suc fuel)) batch n ?w1 =
         Some (replicate n (Inl (EventError (re_event_id e) (misaligned_chain cfg a e))), w') \<and> sw_store w' = sw_store ?w1"
    by (rule Suc.IH) (use Suc.prems in simp_all)
  then show ?case using one by auto
qed simp

text \<open>C8: a parked fold failure can wedge the consumer at the next start. The case: the first row of
  the log is an event that the first registered aggregator folds by kind but not by stream, the consumer has
  no dependencies, nothing else fails, the log has room for the terminal fact and no row of its id, and the
  live runner is at the event with the attempt that makes \<open>max_attempts\<close>. The live runner parks
  the event and advances. The error is not classified poison, so a restarted runner with the same
  aggregators, which replays the log up to its cursor, does not skip the event: every one of its steps fails
  there with that error, and log and cursor never move again.\<close>

theorem parked_fold_wedges_restart:
  assumes "sc_log cfg = memory_backend" "sc_depends_on cfg = []" "misaligned a e"
    and "sw_io w = []" "sw_registry w = Some rg" "rg_aggregators rg = a # others"
    and "log_inv (sw_store w)" "log_room 1 (sw_store w)" "global_log (sw_store w) = e # rows"
    and "last_attempt e (sw_failure w)"
    and "derive_output_event_id (sc_v5 cfg) (sc_consumer cfg) (re_event_id e) projection_failed_kind
           (re_subject_id e) (- 1) \<notin> re_event_id ` set (global_log (sw_store w))"
    and "restarted = (\<lambda>w1. projection_runner_new policy (Some (a # others)) settle (sw_store w1))"
  shows "\<exists>w1. project_event cfg e w = (Inr False, w1) \<and>
           re_position e \<le> cursor_at (sc_consumer cfg) (sw_store w1) \<and>
           (\<exists>w'. serial_drive (projection_step cfg (Suc fuel)) batch n (restarted w1) =
              Some (replicate n (Inl (EventError (re_event_id e) (misaligned_chain cfg a e))), w') \<and>
              sw_store w' = sw_store w1)"
proof -
  obtain w1 new where live: "project_event cfg e w = (Inr False, w1)" "log_inv (sw_store w1)" "slog w1 = slog w @ new"
    "cursor_at (sc_consumer cfg) (sw_store w1) = max (cursor_at (sc_consumer cfg) (sw_store w)) (re_position e)"
    using misaligned_parks [OF assms(1,7,8,4,5,6,3,10,11)] by blast
  have "\<exists>w'. serial_drive (projection_step cfg (Suc fuel)) batch n (restarted w1) =
      Some (replicate n (Inl (EventError (re_event_id e) (misaligned_chain cfg a e))), w') \<and>
      sw_store w' = sw_store (restarted w1)"
    by (rule hydration_fails [OF assms(1,2,3), where rg = "registry_new (a # others)" and rows = "rows @ new"])
       (use live assms(9,12) in \<open>simp_all add: projection_runner_new_def registry_new_def\<close>)
  then show ?thesis using live assms(12) by (auto simp: projection_runner_new_def)
qed

section \<open>A concrete projector\<close>

definition tally_v5 :: "uuid \<Rightarrow> string \<Rightarrow> uuid" where
  "tally_v5 ns key = of_nat (length key)"

definition tally :: "(json \<Rightarrow> string + unit) \<Rightarrow> (unit, nat) projector_config" where
  "tally decode =
     \<lparr> sc_consumer = ''t'', sc_depends_on = [], sc_log = memory_backend, sc_codec = sample_codec,
       sc_v5 = tally_v5, sc_key_order = id, sc_clock = int, sc_instant = id, sc_observer = True,
       sc_leasor = True, sc_render = (\<lambda>_. ''fold failed''), sc_backend_chain = (\<lambda>_. []),
       pc_kind = ''order_placed'', pc_decode = decode, pc_occurred_at = (\<lambda>_. None),
       pc_project = (\<lambda>_ _ _. None) \<rparr>"

definition tally_all :: "nat multi_config" where
  "tally_all =
     \<lparr> sc_consumer = ''t'', sc_depends_on = [], sc_log = memory_backend, sc_codec = sample_codec,
       sc_v5 = tally_v5, sc_key_order = id, sc_clock = int, sc_instant = id, sc_observer = True,
       sc_leasor = True, sc_render = (\<lambda>_. []), sc_backend_chain = (\<lambda>_. []),
       mc_kinds = [''order_placed'', ''order_paid''], mc_project = (\<lambda>_ _ _. None) \<rparr>"

definition tally_start :: "nat aggregator list option \<Rightarrow> nat serial_world" where
  "tally_start ags = projection_runner_new None ags None sample_store"

abbreviation tally_row :: recorded_event where
  "tally_row \<equiv> placed_row ''order'' 9 1 0 (sample_event 1 JNull)"

abbreviation tally_row2 :: recorded_event where
  "tally_row2 \<equiv> placed_row ''order'' 9 2 1 (sample_event 2 (JBool True))"

lemma tally_sel [simp]:
  "sc_log (tally d) = memory_backend" "sc_depends_on (tally d) = []" "sc_consumer (tally d) = ''t''"
  "sc_v5 (tally d) = tally_v5" "pc_decode (tally d) = d"
  by (simp_all add: tally_def)

lemma tally_all_sel [simp]:
  "sc_log tally_all = memory_backend" "sc_consumer tally_all = ''t''" "mc_kinds tally_all = [''order_placed'', ''order_paid'']"
  by (simp_all add: tally_all_def)

lemma tally_start_sel [simp]:
  "sw_store (tally_start ags) = sample_store" "sw_io (tally_start ags) = []"
  "sw_registry (tally_start None) = None" "sw_projected (tally_start ags) = []"
  "fs_attempts (sw_failure (tally_start ags)) = None"
  by (simp_all add: tally_start_def projection_runner_new_def failure_state_new_def)

lemma tally_log: "global_log sample_store = [tally_row, tally_row2]" "cursor_get c sample_store = None"
  by (simp_all add: sample_store_eq memory_store_new_def cursor_get_def)

lemma tally_good: "projector_good (tally (\<lambda>_. Inr ())) e"
  by (simp add: projector_good_def tally_def)

lemmas tally_rows = placed_row_def sample_event_def matches_kind_def cursor_at_def cursor_zero_def

theorem projector_drains_in_order_witness:
  "\<exists>rs w'. serial_drive (projection_step (tally (\<lambda>_. Inr ())) 1) 1 2 (tally_start None) = Some (rs, w') \<and>
     sw_projected w' = [(1, True), (2, True)]"
proof -
  let ?cfg = "tally (\<lambda>_. Inr ())" and ?w = "tally_start None"
  have left: "[tally_row, tally_row2] = filter (\<lambda>e. cursor_at (sc_consumer ?cfg) (sw_store ?w) < re_position e)
      (global_log (sw_store ?w))"
    by (simp add: tally_log tally_rows)
  have mine: "[tally_row, tally_row2] = filter (\<lambda>e. matches_kind (re_event_type e) (pc_kind ?cfg)) [tally_row, tally_row2]"
    by (simp add: tally_def tally_rows)
  have "\<exists>rs w'. serial_drive (projection_step ?cfg 1) 1 2 ?w = Some (rs, w') \<and>
      global_log (sw_store w') = global_log (sw_store ?w) \<and>
      sw_projected w' = sw_projected ?w @ map (\<lambda>e. (re_event_id e, True)) [tally_row, tally_row2] \<and>
      (\<forall>e \<in> set (global_log (sw_store ?w)). re_position e \<le> cursor_at (sc_consumer ?cfg) (sw_store w')) \<and>
      fst (the (projection_step ?cfg 1 1 w')) = Inr Idle"
    by (rule projector_drains_in_order [OF _ _ _ _ _ _ left mine]) (simp_all add: sample_store_inv tally_good)
  then show ?thesis by (auto simp: placed_row_def sample_event_def)
qed

lemma projection_step_returns_witness:
  "\<exists>res w'. projection_step (tally (\<lambda>_. Inr ())) 2 10 (tally_start (Some [])) = Some (res, w')"
  using projection_step_returns [of "tally (\<lambda>_. Inr ())" "tally_start (Some [])" 1 10] sample_store_inv
  by (simp add: tally_log numeral_2_eq_2)

text \<open>After one step of one event, and the same for the multi-projector.\<close>

definition tally_one :: "nat serial_world" where
  "tally_one = snd (the (projection_step (tally (\<lambda>_. Inr ())) 2 1 (tally_start None)))"

definition tally_all_one :: "nat serial_world" where
  "tally_all_one = snd (the (multi_step tally_all 2 1 (tally_start None)))"

lemma tally_one_eval:
  "sw_projected tally_one = [(1, True)]" "cursor_get ''t'' (sw_store tally_one) = Some 1"
  "global_log (sw_store tally_one) = [tally_row, tally_row2]"
  "sw_projected tally_all_one = [(1, True)]" "cursor_get ''t'' (sw_store tally_all_one) = Some 1"
  "global_log (sw_store tally_all_one) = [tally_row, tally_row2]"
  by code_simp+

lemma first_reach:
  assumes "sc_log cfg = memory_backend" "sc_consumer cfg = ''t''"
  shows "serial_reach cfg each (snd (the (serial_step cfg each 2 1 (tally_start None))))"
proof -
  have start: "serial_reach cfg each (tally_start None)"
    unfolding tally_start_def by (rule sr_start [OF sample_store_inv]) (simp add: tally_log)
  have "serial_step cfg each (Suc 1) 1 (tally_start None) \<noteq> None"
    by (rule serial_step_returns [OF assms(1)]) (simp_all add: sample_store_inv tally_log)
  then obtain res w' where "serial_step cfg each 2 1 (tally_start None) = Some (res, w')"
    by (auto simp: numeral_2_eq_2)
  moreover have same: "(tally_start None)\<lparr> sw_io := [] \<rparr> = tally_start None"
    by (simp add: tally_start_def projection_runner_new_def)
  moreover have "log_room 1 (sw_store (tally_start None))" using log_room_sample by (simp add: log_room_def)
  ultimately have "serial_reach cfg each w'"
    by (intro sr_step [OF start, of 1 2 "[]" res w']) (simp_all only: same)
  then show ?thesis using \<open>serial_step cfg each 2 1 (tally_start None) = Some (res, w')\<close> by simp
qed

theorem projector_cursor_safe_witness:
  "(1, True) \<in> set (sw_projected tally_one) \<or>
   parked_in_log (tally (\<lambda>_. Inr ())) [tally_row, tally_row2] tally_row"
proof -
  have "serial_reach (tally (\<lambda>_. Inr ())) (project_event (tally (\<lambda>_. Inr ()))) tally_one"
    using first_reach [of "tally (\<lambda>_. Inr ())" "project_event (tally (\<lambda>_. Inr ()))"]
    by (simp add: tally_one_def projection_step_def)
  from projector_cursor_safe [OF this, of tally_row 1] show ?thesis
    by (simp add: tally_one_eval tally_rows tally_def)
qed

theorem multi_projector_cursor_safe_witness:
  "(1, True) \<in> set (sw_projected tally_all_one) \<or> parked_in_log tally_all [tally_row, tally_row2] tally_row"
proof -
  have "serial_reach tally_all (multi_event tally_all) tally_all_one"
    using first_reach [of tally_all "multi_event tally_all"]
    by (simp add: tally_all_one_def multi_step_def)
  from multi_projector_cursor_safe [OF this, of tally_row 1] show ?thesis
    by (simp add: tally_one_eval tally_rows is_subscribed_kind_def)
qed

definition fenced_tally :: "(unit, nat) projector_config" where
  "fenced_tally = (tally (\<lambda>_. Inr ()))\<lparr> sc_depends_on := [''d''] \<rparr>"

definition fenced_start :: "nat serial_world" where
  "fenced_start = (tally_start None)\<lparr> sw_store := cursor_set ''t'' 1 (cursor_set ''d'' 1 sample_store) \<rparr>"

lemma dependency_fence_witness:
  "cursor_at ''t'' (sw_store fenced_start) \<le> cursor_at ''d'' (sw_store fenced_start)"
proof -
  have moved: "cursors (snd (the (projection_step fenced_tally 1 1 fenced_start))) \<noteq> cursors fenced_start"
    "projection_step fenced_tally 1 1 fenced_start \<noteq> None"
    by code_simp+
  then obtain res w' where s: "projection_step fenced_tally 1 1 fenced_start = Some (res, w')" by auto
  have "cursors w' \<noteq> cursors fenced_start" using moved s by simp
  from dependency_fence [OF s _ this, of "''d''"] show ?thesis by (simp add: fenced_tally_def)
qed

definition lost_ack :: "nat serial_world" where
  "lost_ack = snd (project_event (tally (\<lambda>_. Inl ''eof'')) tally_row ((tally_start None)\<lparr> sw_io := [IoFailAfter] \<rparr>))"

lemma park_id:
  "derive_output_event_id tally_v5 ''t'' 1 projection_failed_kind 9 (- 1) = 65"
  by (simp add: derive_output_event_id_def tally_v5_def output_id_key_def projection_failed_kind_def)

theorem lost_park_ack_wedges_witness:
  "\<exists>err1 err2 w'. serial_drive (projection_step (tally (\<lambda>_. Inl ''eof'')) 1) 10 2 lost_ack = Some ([Inl err1, Inl err2], w') \<and>
     refused_as_divergent (tally (\<lambda>_. Inl ''eof'')) tally_row err1 \<and>
     refused_as_divergent (tally (\<lambda>_. Inl ''eof'')) tally_row err2 \<and> cursor_at ''t'' (sw_store w') = 0"
proof -
  let ?cfg = "tally (\<lambda>_. Inl ''eof'')"
  obtain res where ev: "project_event ?cfg tally_row ((tally_start None)\<lparr> sw_io := [IoFailAfter] \<rparr>) = (res, lost_ack)"
    by (simp add: lost_ack_def) (metis surj_pair snd_conv)
  have bad: "undecodable ?cfg tally_row"
    by (simp add: undecodable_def projector_wants_def tally_def tally_rows)
  have rows: "beyond (cursor_at (sc_consumer ?cfg) (sw_store (tally_start None))) (global_log (sw_store (tally_start None))) =
      tally_row # [tally_row2]"
    by (simp add: tally_log beyond_def tally_rows)
  have room: "log_room 1 (sw_store (tally_start None))" using log_room_sample by (simp add: log_room_def)
  have "res = Inl IoError \<and> parked_in_log ?cfg (global_log (sw_store lost_ack)) tally_row \<and>
    (\<exists>rs w'. serial_drive (projection_step ?cfg 1) 10 2 lost_ack = Some (rs, w') \<and> length rs = 2 \<and>
       (\<forall>r \<in> set rs. \<exists>err. r = Inl err \<and> refused_as_divergent ?cfg tally_row err) \<and>
       global_log (sw_store w') = global_log (sw_store lost_ack) \<and>
       cursor_at (sc_consumer ?cfg) (sw_store w') = cursor_at (sc_consumer ?cfg) (sw_store (tally_start None)))"
    by (rule lost_park_ack_wedges [OF _ _ bad _ _ _ room rows _ _ _ ev])
       (simp_all add: sample_store_inv tally_log tally_rows park_id)
  then obtain rs w' where run: "serial_drive (projection_step ?cfg 1) 10 2 lost_ack = Some (rs, w')" "length rs = 2"
    "\<forall>r \<in> set rs. \<exists>err. r = Inl err \<and> refused_as_divergent ?cfg tally_row err"
    "cursor_at ''t'' (sw_store w') = 0"
    by (auto simp: cursor_at_def tally_log cursor_zero_def)
  obtain r1 r2 where "rs = [r1, r2]" using run(2) by (auto simp: numeral_2_eq_2 length_Suc_conv)
  then show ?thesis using run by auto
qed

definition wrong_agg :: "nat aggregator" where
  "wrong_agg =
     \<lparr> ag_event_prefix = ''order_placed'', ag_aggregate_type = ''UserCount'', ag_subject = ''user'',
       ag_invariant = False, ag_event_subject = ''order'', ag_custom_id = False,
       ag_extract_id = (\<lambda>_. Some 9), ag_apply = (\<lambda>n _. Some (Suc n)), ag_default = 0,
       ag_serialize = (\<lambda>_. Some JNull), ag_deserialize = (\<lambda>_. Some 0) \<rparr>"

theorem parked_fold_wedges_restart_witness:
  "\<exists>w1 w'. project_event (tally (\<lambda>_. Inr ())) tally_row
       (projection_runner_new (Some (from_max_attempts 1)) (Some [wrong_agg]) None sample_store) = (Inr False, w1) \<and>
     serial_drive (projection_step (tally (\<lambda>_. Inr ())) 1) 10 5
         (projection_runner_new None (Some [wrong_agg]) None (sw_store w1)) =
       Some (replicate 5 (Inl (EventError 1 (misaligned_chain (tally (\<lambda>_. Inr ())) wrong_agg tally_row))), w')"
proof -
  let ?cfg = "tally (\<lambda>_. Inr ())"
  let ?w = "projection_runner_new (Some (from_max_attempts 1)) (Some [wrong_agg]) None sample_store"
  have mis: "misaligned wrong_agg tally_row" by (simp add: misaligned_def wrong_agg_def tally_rows)
  have room: "log_room 1 (sw_store ?w)" using log_room_sample by (simp add: log_room_def projection_runner_new_def)
  have "\<exists>w1. project_event ?cfg tally_row ?w = (Inr False, w1) \<and>
      re_position tally_row \<le> cursor_at (sc_consumer ?cfg) (sw_store w1) \<and>
      (\<exists>w'. serial_drive (projection_step ?cfg (Suc 0)) 10 5 (projection_runner_new None (Some (wrong_agg # [])) None (sw_store w1)) =
         Some (replicate 5 (Inl (EventError (re_event_id tally_row) (misaligned_chain ?cfg wrong_agg tally_row))), w') \<and>
         sw_store w' = sw_store w1)"
    by (rule parked_fold_wedges_restart [OF _ _ mis, where rg = "registry_new [wrong_agg]" and rows = "[tally_row2]"
          and policy = None and settle = None
          and restarted = "\<lambda>w1. projection_runner_new None (Some (wrong_agg # [])) None (sw_store w1)"])
       (use room in \<open>simp_all add: projection_runner_new_def registry_new_def sample_store_inv tally_log last_attempt_def
          failure_state_new_def from_max_attempts_def tally_rows park_id\<close>)
  then show ?thesis by (auto simp: placed_row_def sample_event_def)
qed

end
