(* ===== verification/Engine.thy ===== *)
theory Engine
  imports Projection_Runner
begin

text \<open>
  The write and read paths of the engine (\<open>modules/causal/src/engine.rs\<close>): \<open>emit\<close>, the command path
  \<open>append\<close>, \<open>load\<close>, \<open>state_of\<close> and \<open>cancel_workflow\<close>, over the state \<open>engine\<close> they read and write.

  Every call of the log takes its fate from \<open>eg_io\<close> (an empty list: all further calls work). Other
  writers share the log: \<open>en_rivals cfg n\<close> is what they do to the store before the engine's \<open>n\<close>-th
  append call, so between a command's read and its append. \<open>en_fresh\<close> and \<open>en_clock\<close> are the draws
  of \<open>Uuid::new_v4\<close> and the readings of the clock. The back-off between two attempts of \<open>append\<close>
  only waits: its draw of a random id is kept, the wait is not.
\<close>

section \<open>Configuration and state\<close>

record engine_config =
  en_log :: "memory_store backend"
  en_codec :: codec
  en_v5 :: "uuid \<Rightarrow> uuid \<Rightarrow> uuid"
  en_default_metadata :: jmap
  en_occ :: "string list"
  en_observer :: bool
  en_snapshots :: "memory_store snapshot_store option"
  en_snapshot_every :: u64
  en_clock :: "nat \<Rightarrow> datetime"
  en_fresh :: "nat \<Rightarrow> uuid"
  en_rivals :: "nat \<Rightarrow> memory_store \<Rightarrow> memory_store"

record 'a engine =
  eg_store :: memory_store
  eg_registry :: "'a registry option"
  eg_cancelled :: "uuid list"
  eg_io :: "io_fate list"
  eg_ticks :: nat
  eg_draws :: nat
  eg_appends :: nat

record emit_result =
  er_position :: log_cursor
  er_workflow_id :: uuid

datatype engine_error =
    WorkflowConflict uuid uuid
  | MixedRoots
  | EventIdForBatch nat
  | OccRequired string
  | Unserializable string
  | Undecodable string
  | Undecided string
  | ForeignSubject uuid
  | Rejected append_error
  | RestoreFailed registry_error
  | RetriesExhausted
  | Panicked string
  | Unavailable

definition engine_call :: "('a engine \<Rightarrow> 'x \<times> 'a engine) \<Rightarrow> 'a engine \<Rightarrow> 'x option \<times> 'a engine" where
  "engine_call call g =
     (case eg_io g of
        [] \<Rightarrow> (case call g of (x, g') \<Rightarrow> (Some x, g'))
      | IoOk # fs \<Rightarrow> (case call (g\<lparr> eg_io := fs \<rparr>) of (x, g') \<Rightarrow> (Some x, g'))
      | IoFailBefore # fs \<Rightarrow> (None, g\<lparr> eg_io := fs \<rparr>)
      | IoFailAfter # fs \<Rightarrow> (None, snd (call (g\<lparr> eg_io := fs \<rparr>))))"

definition engine_clock :: "engine_config \<Rightarrow> 'a engine \<Rightarrow> datetime \<times> 'a engine" where
  "engine_clock cfg g = (en_clock cfg (eg_ticks g), g\<lparr> eg_ticks := Suc (eg_ticks g) \<rparr>)"

definition draw_id :: "engine_config \<Rightarrow> 'a engine \<Rightarrow> uuid \<times> 'a engine" where
  "draw_id cfg g = (en_fresh cfg (eg_draws g), g\<lparr> eg_draws := Suc (eg_draws g) \<rparr>)"

definition given_or_fresh :: "engine_config \<Rightarrow> uuid option \<Rightarrow> 'a engine \<Rightarrow> uuid \<times> 'a engine" where
  "given_or_fresh cfg given g = (case given of Some i \<Rightarrow> (i, g) | None \<Rightarrow> draw_id cfg g)"

definition occurred_or_now :: "engine_config \<Rightarrow> datetime option \<Rightarrow> 'a engine \<Rightarrow> datetime \<times> 'a engine" where
  "occurred_or_now cfg given g = (case given of Some t \<Rightarrow> (t, g) | None \<Rightarrow> engine_clock cfg g)"

definition engine_append ::
  "engine_config \<Rightarrow> string \<Rightarrow> uuid \<Rightarrow> stream_state \<Rightarrow> event_data list \<Rightarrow> 'a engine \<Rightarrow>
   (engine_error + write_result) \<times> 'a engine" where
  "engine_append cfg c sid ex es g =
     (case engine_call (\<lambda>g. case b_append (en_log cfg) c sid ex es (eg_store g) of
                              (x, s) \<Rightarrow> (x, g\<lparr> eg_store := s \<rparr>))
             (g\<lparr> eg_store := en_rivals cfg (eg_appends g) (eg_store g),
                eg_appends := Suc (eg_appends g) \<rparr>) of
        (None, g1) \<Rightarrow> (Inl Unavailable, g1)
      | (Some (Inl err), g1) \<Rightarrow> (Inl (Rejected err), g1)
      | (Some (Inr wr), g1) \<Rightarrow> (Inr wr, g1))"

definition engine_read ::
  "('a engine \<Rightarrow> append_error + 'x) \<Rightarrow> 'a engine \<Rightarrow> (engine_error + 'x) \<times> 'a engine" where
  "engine_read read g =
     (case engine_call (\<lambda>g. (read g, g)) g of
        (None, g1) \<Rightarrow> (Inl Unavailable, g1)
      | (Some (Inl err), g1) \<Rightarrow> (Inl (Rejected err), g1)
      | (Some (Inr x), g1) \<Rightarrow> (Inr x, g1))"

definition engine_read_stream ::
  "engine_config \<Rightarrow> string \<Rightarrow> uuid \<Rightarrow> 'a engine \<Rightarrow> (engine_error + recorded_event list) \<times> 'a engine" where
  "engine_read_stream cfg c sid g =
     engine_read (\<lambda>g. b_read_stream (en_log cfg) c sid None (eg_store g)) g"

definition engine_latest :: "engine_config \<Rightarrow> 'a engine \<Rightarrow> (engine_error + log_cursor) \<times> 'a engine" where
  "engine_latest cfg g = engine_read (\<lambda>g. b_latest_position (en_log cfg) (eg_store g)) g"

section \<open>The fold after an append\<close>

text \<open>\<open>fold_committed_fact_into_registry\<close> with its callers' use of the outcome: a failing fold is
  logged and dropped. \<open>save\<close> tells the two callers apart: only \<open>emit\<close> saves snapshots.\<close>

definition notify_engine_folds ::
  "uuid \<Rightarrow> log_cursor \<Rightarrow> uuid \<Rightarrow> (string \<times> json) list \<Rightarrow> memory_store \<Rightarrow> memory_store" where
  "notify_engine_folds wfl pos ev folds s =
     fold (\<lambda>(key, state). aggregate_folded wfl pos ev key state) folds s"

definition fold_committed ::
  "engine_config \<Rightarrow> bool \<Rightarrow> event_data \<Rightarrow> string \<Rightarrow> uuid \<Rightarrow> write_result \<Rightarrow> 'a engine \<Rightarrow> 'a engine" where
  "fold_committed cfg save ev c sid wr g =
     (case eg_registry g of
        None \<Rightarrow> g
      | Some rg \<Rightarrow>
          let up = (case eg_io g of [] \<Rightarrow> True | f # _ \<Rightarrow> f = IoOk);
              g0 = g\<lparr> eg_io := tl (eg_io g) \<rparr>;
              f = \<lparr> ff_type = ed_event_type ev, ff_payload = ed_payload ev, ff_subject_id = sid,
                    ff_category = c, ff_revision = wr_revision wr, ff_position = wr_position wr \<rparr>
          in (case fold_event (en_codec cfg) (en_snapshots cfg)
                     (if up then en_log cfg else failing_reads (en_log cfg)) f False rg (eg_store g0) of
                (Inl err, rg1, s1) \<Rightarrow> g0\<lparr> eg_registry := Some rg1, eg_store := s1 \<rparr>
              | (Inr outcome, rg1, s1) \<Rightarrow>
                  if \<not> fo_applied outcome then g0\<lparr> eg_registry := Some rg1, eg_store := s1 \<rparr>
                  else
                    let s2 = (if en_observer cfg
                              then notify_engine_folds (ed_workflow_id ev) (wr_position wr) (ed_event_id ev)
                                     (notify_observer rg1 (fo_snapshots outcome)) s1
                              else s1)
                    in (case (if save then en_snapshots cfg else None) of
                          None \<Rightarrow> g0\<lparr> eg_registry := Some rg1, eg_store := s2 \<rparr>
                        | Some S \<Rightarrow>
                            (case engine_clock cfg g0 of
                               (now, g1) \<Rightarrow>
                                 (case maybe_save_snapshots (en_codec cfg) S (en_snapshot_every cfg) now
                                         (fo_snapshots outcome) (rg1, s2) of
                                    (rg2, s3) \<Rightarrow> g1\<lparr> eg_registry := Some rg2, eg_store := s3 \<rparr>)))))"

text \<open>The facts of one atomic batch: fact \<open>k\<close> of \<open>n\<close> sits at \<open>revision - (n - 1 - k)\<close>, and every one
  is folded with the position of the last.\<close>

fun fold_batch ::
  "engine_config \<Rightarrow> bool \<Rightarrow> string \<Rightarrow> uuid \<Rightarrow> write_result \<Rightarrow> event_data list \<Rightarrow> 'a engine \<Rightarrow> 'a engine" where
  "fold_batch cfg save c sid wr [] g = g"
| "fold_batch cfg save c sid wr (ev # evs) g =
     fold_batch cfg save c sid wr evs
       (fold_committed cfg save ev c sid
          \<lparr> wr_position = wr_position wr, wr_revision = wr_revision wr - of_nat (length evs) \<rparr> g)"

section \<open>Emit\<close>

text \<open>A fact behind \<open>ErasedFact\<close>, and the chained \<open>EmitBuilder\<close>.\<close>

record erased_fact =
  ef_name :: string
  ef_subject :: string
  ef_subject_id :: uuid
  ef_occurred_at :: "datetime option"
  ef_workflow :: "uuid option"
  ef_value :: "string + json"

record emit_builder =
  eb_facts :: "erased_fact list"
  eb_workflow_id :: "uuid option"
  eb_causation_id :: "uuid option"
  eb_event_id :: "uuid option"
  eb_metadata :: jmap

definition emit_new :: "erased_fact list \<Rightarrow> emit_builder" where
  "emit_new facts =
     \<lparr> eb_facts = facts, eb_workflow_id = None, eb_causation_id = None, eb_event_id = None,
       eb_metadata = [] \<rparr>"

definition add_metadata :: "string \<Rightarrow> json \<Rightarrow> emit_builder \<Rightarrow> emit_builder" where
  "add_metadata key value b = b\<lparr> eb_metadata := bt_insert key value (eb_metadata b) \<rparr>"

text \<open>\<open>Boundary::emit\<close>.\<close>

definition boundary_emit :: "string \<Rightarrow> erased_fact list \<Rightarrow> emit_builder" where
  "boundary_emit name facts = add_metadata ''_origin'' (JString name) (emit_new facts)"

definition resolve_workflow ::
  "engine_config \<Rightarrow> emit_builder \<Rightarrow> 'a engine \<Rightarrow> (engine_error + uuid) \<times> 'a engine" where
  "resolve_workflow cfg b g =
     (let declared = map ef_workflow (eb_facts b) in
      case find_map (\<lambda>d. d) declared of
        Some first \<Rightarrow>
          (case eb_workflow_id b of
             Some explicit \<Rightarrow> (Inl (WorkflowConflict explicit first), g)
           | None \<Rightarrow>
               if \<exists>d \<in> set declared. d \<noteq> Some first then (Inl MixedRoots, g) else (Inr first, g))
      | None \<Rightarrow> (case given_or_fresh cfg (eb_workflow_id b) g of (w, g1) \<Rightarrow> (Inr w, g1)))"

definition merged_metadata :: "engine_config \<Rightarrow> emit_builder \<Rightarrow> jmap" where
  "merged_metadata cfg b = fold (\<lambda>(k, v). bt_insert k v) (eb_metadata b) (en_default_metadata cfg)"

record pending_emit =
  pe_subject :: string
  pe_subject_id :: uuid
  pe_event :: event_data

text \<open>The whole batch is built and validated before anything is written.\<close>

fun build_pending ::
  "engine_config \<Rightarrow> emit_builder \<Rightarrow> uuid \<Rightarrow> erased_fact list \<Rightarrow> 'a engine \<Rightarrow>
   (engine_error + pending_emit list) \<times> 'a engine" where
  "build_pending cfg b wfl [] g = (Inr [], g)"
| "build_pending cfg b wfl (f # fs) g =
     (if ef_name f \<in> set (en_occ cfg) then (Inl (OccRequired (ef_name f)), g)
      else case occurred_or_now cfg (ef_occurred_at f) g of
        (occurred_at, g1) \<Rightarrow>
          (case ef_value f of
             Inl m \<Rightarrow> (Inl (Unserializable m), g1)
           | Inr payload \<Rightarrow>
               (case given_or_fresh cfg (eb_event_id b) g1 of
                  (event_id, g2) \<Rightarrow>
                    let ev = \<lparr> ed_event_id = event_id, ed_causation_id = eb_causation_id b,
                               ed_workflow_id = wfl, ed_event_type = ef_name f, ed_payload = payload,
                               ed_created_at = occurred_at, ed_category = Some (ef_subject f),
                               ed_subject_id = Some (ef_subject_id f),
                               ed_metadata = merged_metadata cfg b, ed_ephemeral = None,
                               ed_persistent = True \<rparr>
                    in (case build_pending cfg b wfl fs g2 of
                          (Inl err, g3) \<Rightarrow> (Inl err, g3)
                        | (Inr ps, g3) \<Rightarrow>
                            (Inr (\<lparr> pe_subject = ef_subject f, pe_subject_id = ef_subject_id f,
                                    pe_event = ev \<rparr> # ps), g3)))))"

abbreviation same_target :: "pending_emit \<Rightarrow> pending_emit \<Rightarrow> bool" where
  "same_target p q \<equiv> pe_subject q = pe_subject p \<and> pe_subject_id q = pe_subject_id p"

text \<open>One atomic append per run of consecutive facts of one stream.\<close>

lemma length_dropWhile_less [termination_simp]: "length (dropWhile P xs) < Suc (length xs)"
  by (simp add: length_dropWhile_le less_Suc_eq_le)

fun emit_runs ::
  "engine_config \<Rightarrow> log_cursor \<Rightarrow> pending_emit list \<Rightarrow> 'a engine \<Rightarrow>
   (engine_error + log_cursor) \<times> 'a engine" where
  "emit_runs cfg last_position [] g = (Inr last_position, g)"
| "emit_runs cfg last_position (p # ps) g =
     (let chunk = map pe_event (p # takeWhile (same_target p) ps) in
      case engine_append cfg (pe_subject p) (pe_subject_id p) AnyState chunk g of
        (Inl err, g1) \<Rightarrow> (Inl err, g1)
      | (Inr wr, g1) \<Rightarrow>
          emit_runs cfg (wr_position wr) (dropWhile (same_target p) ps)
            (fold_batch cfg True (pe_subject p) (pe_subject_id p) wr chunk g1))"

definition execute_emit ::
  "engine_config \<Rightarrow> emit_builder \<Rightarrow> 'a engine \<Rightarrow> (engine_error + emit_result) \<times> 'a engine" where
  "execute_emit cfg b g =
     (if eb_facts b = [] then
        (case engine_latest cfg g of
           (Inl err, g1) \<Rightarrow> (Inl err, g1)
         | (Inr position, g1) \<Rightarrow>
             (case given_or_fresh cfg (eb_workflow_id b) g1 of
                (w, g2) \<Rightarrow> (Inr \<lparr> er_position = position, er_workflow_id = w \<rparr>, g2)))
      else case resolve_workflow cfg b g of
        (Inl err, g1) \<Rightarrow> (Inl err, g1)
      | (Inr wfl, g1) \<Rightarrow>
          if eb_event_id b \<noteq> None \<and> 1 < length (eb_facts b)
          then (Inl (EventIdForBatch (length (eb_facts b))), g1)
          else case build_pending cfg b wfl (eb_facts b) g1 of
            (Inl err, g2) \<Rightarrow> (Inl err, g2)
          | (Inr pending, g2) \<Rightarrow>
              (case emit_runs cfg cursor_zero pending g2 of
                 (Inl err, g3) \<Rightarrow> (Inl err, g3)
               | (Inr pos, g3) \<Rightarrow> (Inr \<lparr> er_position = pos, er_workflow_id = wfl \<rparr>, g3)))"

section \<open>Load and append\<close>

text \<open>An aggregate type \<open>'a\<close> with an event type \<open>'f\<close>: \<open>Apply<F>\<close> and the items of \<open>trait Event\<close>.\<close>

record ('f, 'a) command_type =
  ct_name :: string
  ct_subject :: string
  ct_decode :: "json \<Rightarrow> string + 'f"
  ct_encode :: "'f \<Rightarrow> string + json"
  ct_subject_id :: "'f \<Rightarrow> uuid"
  ct_occurred_at :: "'f \<Rightarrow> datetime option"
  ct_default :: 'a
  ct_apply :: "'f \<Rightarrow> 'a \<Rightarrow> 'a"

fun fold_stream :: "('f, 'a) command_type \<Rightarrow> recorded_event list \<Rightarrow> 'a \<Rightarrow> string + 'a" where
  "fold_stream ct [] agg = Inr agg"
| "fold_stream ct (e # es) agg =
     (if re_event_type e \<noteq> ct_name ct then fold_stream ct es agg
      else case ct_decode ct (re_payload e) of
        Inl m \<Rightarrow> Inl m
      | Inr decoded \<Rightarrow> fold_stream ct es (ct_apply ct decoded agg))"

definition load_aggregate ::
  "engine_config \<Rightarrow> ('f, 'b) command_type \<Rightarrow> uuid \<Rightarrow> 'a engine \<Rightarrow>
   (engine_error + 'b \<times> stream_revision) \<times> 'a engine" where
  "load_aggregate cfg ct i g =
     (case engine_read_stream cfg (ct_subject ct) i g of
        (Inl err, g1) \<Rightarrow> (Inl err, g1)
      | (Inr es, g1) \<Rightarrow>
          (case fold_stream ct es (ct_default ct) of
             Inl m \<Rightarrow> (Inl (Undecodable m), g1)
           | Inr agg \<Rightarrow> (Inr (agg, if es = [] then 0 else re_revision (last es)), g1)))"

fun build_decision ::
  "engine_config \<Rightarrow> ('f, 'b) command_type \<Rightarrow> uuid \<Rightarrow> uuid \<Rightarrow> 'f list \<Rightarrow> 'a engine \<Rightarrow>
   (engine_error + event_data list) \<times> 'a engine" where
  "build_decision cfg ct i wfl [] g = (Inr [], g)"
| "build_decision cfg ct i wfl (f # fs) g =
     (if ct_subject_id ct f \<noteq> i then (Inl (ForeignSubject (ct_subject_id ct f)), g)
      else case ct_encode ct f of
        Inl m \<Rightarrow> (Inl (Unserializable m), g)
      | Inr payload \<Rightarrow>
          (case draw_id cfg g of
             (event_id, g1) \<Rightarrow>
               (case occurred_or_now cfg (ct_occurred_at ct f) g1 of
                  (created_at, g2) \<Rightarrow>
                    (case build_decision cfg ct i wfl fs g2 of
                       (Inl err, g3) \<Rightarrow> (Inl err, g3)
                     | (Inr evs, g3) \<Rightarrow>
                         (Inr (\<lparr> ed_event_id = event_id, ed_causation_id = None, ed_workflow_id = wfl,
                                 ed_event_type = ct_name ct, ed_payload = payload,
                                 ed_created_at = created_at, ed_category = Some (ct_subject ct),
                                 ed_subject_id = Some i, ed_metadata = en_default_metadata cfg,
                                 ed_ephemeral = None, ed_persistent = True \<rparr> # evs), g3)))))"

definition max_occ_retries :: nat where "max_occ_retries = 16"

definition stream_head :: "recorded_event list \<Rightarrow> stream_state" where
  "stream_head es = (if es = [] then NoStream else StreamRevision (re_revision (last es)))"

fun append_attempts_left ::
  "engine_config \<Rightarrow> ('f, 'b) command_type \<Rightarrow> uuid \<Rightarrow> ('b \<Rightarrow> string + 'f list) \<Rightarrow> nat \<Rightarrow>
   append_error option \<Rightarrow> 'a engine \<Rightarrow> (engine_error + emit_result) \<times> 'a engine" where
  "append_attempts_left cfg ct i decide 0 last_conflict g =
     (Inl (case last_conflict of Some err \<Rightarrow> Rejected err | None \<Rightarrow> RetriesExhausted), g)"
| "append_attempts_left cfg ct i decide (Suc n) last_conflict g =
     (case engine_read_stream cfg (ct_subject ct) i g of
        (Inl err, g1) \<Rightarrow> (Inl err, g1)
      | (Inr es, g1) \<Rightarrow>
          (case fold_stream ct es (ct_default ct) of
             Inl m \<Rightarrow> (Inl (Undecodable m), g1)
           | Inr agg \<Rightarrow>
               (case decide agg of
                  Inl m \<Rightarrow> (Inl (Undecided m), g1)
                | Inr [] \<Rightarrow>
                    (case engine_latest cfg g1 of
                       (Inl err, g2) \<Rightarrow> (Inl err, g2)
                     | (Inr position, g2) \<Rightarrow>
                         (case draw_id cfg g2 of
                            (w, g3) \<Rightarrow> (Inr \<lparr> er_position = position, er_workflow_id = w \<rparr>, g3)))
                | Inr facts \<Rightarrow>
                    (case draw_id cfg g1 of
                       (wfl, g2) \<Rightarrow>
                         (case build_decision cfg ct i wfl facts g2 of
                            (Inl err, g3) \<Rightarrow> (Inl err, g3)
                          | (Inr evs, g3) \<Rightarrow>
                              (case engine_append cfg (ct_subject ct) i (stream_head es) evs g3 of
                                 (Inr wr, g4) \<Rightarrow>
                                   (Inr \<lparr> er_position = wr_position wr, er_workflow_id = wfl \<rparr>,
                                    fold_batch cfg False (ct_subject ct) i wr evs g4)
                               | (Inl (Rejected (ConflictError want actual)), g4) \<Rightarrow>
                                   append_attempts_left cfg ct i decide n
                                     (Some (ConflictError want actual)) (snd (draw_id cfg g4))
                               | (Inl err, g4) \<Rightarrow> (Inl err, g4)))))))"

definition append_command ::
  "engine_config \<Rightarrow> ('f, 'b) command_type \<Rightarrow> uuid \<Rightarrow> ('b \<Rightarrow> string + 'f list) \<Rightarrow> 'a engine \<Rightarrow>
   (engine_error + emit_result) \<times> 'a engine" where
  "append_command cfg ct i decide g = append_attempts_left cfg ct i decide max_occ_retries None g"

section \<open>Reading a state\<close>

definition state_of ::
  "engine_config \<Rightarrow> string \<Rightarrow> string \<Rightarrow> uuid \<Rightarrow> 'a engine \<Rightarrow> (engine_error + 'a option) \<times> 'a engine" where
  "state_of cfg ty subject i g =
     (case eg_registry g of
        None \<Rightarrow> (Inl (Panicked ''no aggregators''), g)
      | Some rg \<Rightarrow>
          if get_transition (en_codec cfg) ty i rg = None then (Inl (Panicked ''unregistered''), g)
          else
            let key = agg_key (en_codec cfg) ty i in
            case (if hget (rg_state rg) key = None \<and> en_snapshots cfg \<noteq> None
                  then (let up = (case eg_io g of [] \<Rightarrow> True | f # _ \<Rightarrow> f = IoOk);
                            g0 = g\<lparr> eg_io := tl (eg_io g) \<rparr>
                        in (case restore_aggregate (en_codec cfg) (en_snapshots cfg)
                                   (if up then en_log cfg else failing_reads (en_log cfg))
                                   ty subject i rg (eg_store g0) of
                              (Inl err, rg1, s1) \<Rightarrow>
                                (Some err, g0\<lparr> eg_registry := Some rg1, eg_store := s1 \<rparr>, rg1)
                            | (Inr _, rg1, s1) \<Rightarrow>
                                (None, g0\<lparr> eg_registry := Some rg1, eg_store := s1 \<rparr>, rg1)))
                  else (None, g, rg)) of
              (Some err, g1, _) \<Rightarrow> (Inl (RestoreFailed err), g1)
            | (None, g1, rg1) \<Rightarrow>
                (if hget (rg_state rg1) key = None then (Inr None, g1)
                 else (Inr (map_option snd (get_transition (en_codec cfg) ty i rg1)), g1)))"

section \<open>Cancelling a workflow\<close>

definition control_stream_subject :: string where
  "control_stream_subject = ''causal:control''"

definition control_namespace :: uuid where
  "control_namespace = 0x9b3c1f7a2d444e618c056f91a2b7d34e"

definition workflow_cancelled_event :: "engine_config \<Rightarrow> uuid \<Rightarrow> datetime \<Rightarrow> event_data" where
  "workflow_cancelled_event cfg wfl created_at =
     \<lparr> ed_event_id = en_v5 cfg control_namespace wfl, ed_causation_id = None, ed_workflow_id = 0,
       ed_event_type = workflow_cancelled_kind,
       ed_payload = JObject [(''target'', JString (cd_uuid (en_codec cfg) wfl))],
       ed_created_at = created_at, ed_category = Some control_stream_subject, ed_subject_id = Some 0,
       ed_metadata = [], ed_ephemeral = None, ed_persistent = True \<rparr>"

definition append_workflow_cancelled ::
  "engine_config \<Rightarrow> uuid \<Rightarrow> datetime \<Rightarrow> 'a engine \<Rightarrow> (engine_error + write_result) \<times> 'a engine" where
  "append_workflow_cancelled cfg wfl created_at g =
     engine_append cfg control_stream_subject 0 AnyState [workflow_cancelled_event cfg wfl created_at] g"

text \<open>The durable marker first, then the fence shared with the runners.\<close>

definition cancel_workflow :: "engine_config \<Rightarrow> uuid \<Rightarrow> 'a engine \<Rightarrow> engine_error option \<times> 'a engine" where
  "cancel_workflow cfg wfl g =
     (case engine_clock cfg g of
        (now, g1) \<Rightarrow>
          (case append_workflow_cancelled cfg wfl now g1 of
             (Inl err, g2) \<Rightarrow> (Some err, g2)
           | (Inr _, g2) \<Rightarrow> (None, g2\<lparr> eg_cancelled := List.insert wfl (eg_cancelled g2) \<rparr>)))"

end
