(* ===== verification/Engine_Build.thy ===== *)
theory Engine_Build
  imports Engine Effect_Store
begin

text \<open>
  Registration and boot (\<open>EngineBuilder\<close> in \<open>modules/causal/src/engine.rs\<close>): the claims a builder
  checks, the gates of \<open>build\<close>, the clamp and the seeds of the cursors, the rebuild of the cancel
  fence, the orphan scan, and the retention sweep the engine starts. The checkpoint store and the
  reactor checkpoint are the one \<open>MemoryStore\<close>. A consumer is known here by its name only: the
  runners have theories of their own. \<open>Duration\<close>s are nanoseconds.
\<close>

section \<open>The builder\<close>

datatype start_position = ResumeOrLatest | Latest | Zero | Specific log_cursor

record runner_startup =
  rs_skip_gap_on_start :: bool
  rs_attempt_timeout :: "nat option"

definition runner_startup_default :: runner_startup where
  "runner_startup_default = \<lparr> rs_skip_gap_on_start = False, rs_attempt_timeout = None \<rparr>"

definition start_at_latest_dropping_gap :: runner_startup where
  "start_at_latest_dropping_gap = \<lparr> rs_skip_gap_on_start = True, rs_attempt_timeout = None \<rparr>"

definition with_attempt_timeout :: "nat \<Rightarrow> runner_startup \<Rightarrow> runner_startup" where
  "with_attempt_timeout t c = c\<lparr> rs_attempt_timeout := Some t \<rparr>"

record 'a builder =
  bd_consumers :: "string list"
  bd_names :: "string list"
  bd_aggregators :: "'a aggregator list"
  bd_occ :: "string list"
  bd_seeds :: "(string \<times> start_position) list"
  bd_timeouts :: "(string \<times> nat option) list"
  bd_cancelled :: "uuid list"
  bd_effects :: "effect_store option"
  bd_decisions :: "decision_store option"
  bd_explicit_effects :: bool
  bd_allow_memory_effects :: bool
  bd_explicit_decisions :: bool
  bd_allow_memory_decisions :: bool
  bd_strict_orphans :: bool

definition builder_new :: "'a builder" where
  "builder_new =
     \<lparr> bd_consumers = [], bd_names = [], bd_aggregators = [], bd_occ = [], bd_seeds = [], bd_timeouts = [],
       bd_cancelled = [], bd_effects = Some [], bd_decisions = Some [], bd_explicit_effects = False,
       bd_allow_memory_effects = False, bd_explicit_decisions = False,
       bd_allow_memory_decisions = False, bd_strict_orphans = False \<rparr>"

definition allow_in_memory_stores :: "'a builder \<Rightarrow> 'a builder" where
  "allow_in_memory_stores b = b\<lparr> bd_allow_memory_effects := True, bd_allow_memory_decisions := True \<rparr>"

definition with_effect_store :: "effect_store \<Rightarrow> 'a builder \<Rightarrow> 'a builder" where
  "with_effect_store s b = b\<lparr> bd_effects := Some s, bd_explicit_effects := True \<rparr>"

definition with_decision_store :: "decision_store \<Rightarrow> 'a builder \<Rightarrow> 'a builder" where
  "with_decision_store s b = b\<lparr> bd_decisions := Some s, bd_explicit_decisions := True \<rparr>"

text \<open>\<open>None\<close> is a panic of the builder.\<close>

definition claim_name :: "string \<Rightarrow> 'a builder \<Rightarrow> 'a builder option" where
  "claim_name n b = (if n \<in> set (bd_names b) then None else Some (b\<lparr> bd_names := n # bd_names b \<rparr>))"

definition with_projector :: "string \<Rightarrow> 'a builder \<Rightarrow> 'a builder option" where
  "with_projector n b = map_option (\<lambda>b. b\<lparr> bd_consumers := bd_consumers b @ [n] \<rparr>) (claim_name n b)"

definition register_reactor :: "string \<Rightarrow> nat option \<Rightarrow> 'a builder \<Rightarrow> 'a builder option" where
  "register_reactor n timeout b =
     map_option (\<lambda>b. b\<lparr> bd_seeds := bd_seeds b @ [(n, ResumeOrLatest)],
                        bd_timeouts := bd_timeouts b @ [(n, timeout)],
                        bd_consumers := bd_consumers b @ [n] \<rparr>)
       (claim_name n b)"

definition seed_last :: "start_position \<Rightarrow> 'a builder \<Rightarrow> 'a builder" where
  "seed_last start b =
     (case bd_seeds b of [] \<Rightarrow> b
      | _ \<Rightarrow> b\<lparr> bd_seeds := butlast (bd_seeds b) @ [(fst (last (bd_seeds b)), start)] \<rparr>)"

definition reactor_with :: "string \<Rightarrow> runner_startup \<Rightarrow> 'a builder \<Rightarrow> 'a builder option" where
  "reactor_with n c b =
     map_option (seed_last (if rs_skip_gap_on_start c then Latest else ResumeOrLatest))
       (register_reactor n (rs_attempt_timeout c) b)"

definition with_reactor_start :: "string \<Rightarrow> start_position \<Rightarrow> 'a builder \<Rightarrow> 'a builder option" where
  "with_reactor_start n start b = map_option (seed_last start) (register_reactor n None b)"

fun with_aggregators :: "'a aggregator list \<Rightarrow> 'a builder \<Rightarrow> 'a builder option" where
  "with_aggregators [] b = Some b"
| "with_aggregators (a # ags) b =
     (if \<exists>x \<in> set (bd_aggregators b).
           ag_aggregate_type x = ag_aggregate_type a \<and> ag_event_prefix x = ag_event_prefix a
      then None
      else with_aggregators ags
             (b\<lparr> bd_occ := (if ag_invariant a then List.insert (ag_event_prefix a) (bd_occ b) else bd_occ b),
                 bd_aggregators := bd_aggregators b @ [a] \<rparr>))"

section \<open>Boot\<close>

datatype build_error =
    NoEffectStore nat
  | NoDecisionStore nat
  | EmptyName string
  | BootIo engine_error
  | FenceUnreadable engine_error
  | OrphanedState "(string \<times> string) list"

text \<open>\<open>event_type::validate_name\<close>, for every aggregator.\<close>

definition checked_name :: "string \<Rightarrow> string \<Rightarrow> build_error option" where
  "checked_name what n = (if validate_name n then None else Some (EmptyName what))"

fun validate_aggregators :: "'a aggregator list \<Rightarrow> build_error option" where
  "validate_aggregators [] = None"
| "validate_aggregators (a # ags) =
     (case checked_name ''aggregator event'' (ag_event_prefix a) of
        Some err \<Rightarrow> Some err
      | None \<Rightarrow>
          (case (if ag_subject a = [] then None else checked_name ''aggregate stream'' (ag_subject a)) of
             Some err \<Rightarrow> Some err
           | None \<Rightarrow> validate_aggregators ags))"

text \<open>Cursors beyond the tip are clamped in both stores, here twice in the one.\<close>

definition boot_call :: "('a engine \<Rightarrow> 'x \<times> 'a engine) \<Rightarrow> 'a engine \<Rightarrow> (build_error + 'x) \<times> 'a engine" where
  "boot_call call g =
     (case engine_call call g of
        (None, g1) \<Rightarrow> (Inl (BootIo Unavailable), g1)
      | (Some x, g1) \<Rightarrow> (Inr x, g1))"

definition clamp_once :: "log_cursor \<Rightarrow> 'a engine \<Rightarrow> (build_error + nat) \<times> 'a engine" where
  "clamp_once tip g =
     boot_call (\<lambda>g. case clamp_ahead_of tip (eg_store g) of (n, s) \<Rightarrow> (n, g\<lparr> eg_store := s \<rparr>)) g"

definition boot_latest :: "engine_config \<Rightarrow> 'a engine \<Rightarrow> (build_error + log_cursor) \<times> 'a engine" where
  "boot_latest cfg g =
     (case engine_latest cfg g of (Inl err, g1) \<Rightarrow> (Inl (BootIo err), g1) | (Inr p, g1) \<Rightarrow> (Inr p, g1))"

definition clamp_cursors :: "engine_config \<Rightarrow> 'a engine \<Rightarrow> (build_error + nat) \<times> 'a engine" where
  "clamp_cursors cfg g =
     (case boot_latest cfg g of
        (Inl err, g1) \<Rightarrow> (Inl err, g1)
      | (Inr tip, g1) \<Rightarrow>
          (case clamp_once tip g1 of
             (Inl err, g2) \<Rightarrow> (Inl err, g2)
           | (Inr n, g2) \<Rightarrow>
               (case clamp_once tip g2 of
                  (Inl err, g3) \<Rightarrow> (Inl err, g3)
                | (Inr m, g3) \<Rightarrow> (Inr (n + m), g3))))"

section \<open>Seeding\<close>

text \<open>What \<open>emit_skip_gap_warnings\<close> tells the operator about the skipped range.\<close>

record wf_info =
  wi_last_event_type :: string
  wi_last_position :: log_cursor
  wi_started_with :: "string option"

record gap_report =
  gr_count :: nat
  gr_truncated :: bool
  gr_no_prior :: bool
  gr_workflows :: "(uuid, wf_info) hmap"

definition note_workflow :: "recorded_event \<Rightarrow> (uuid, wf_info) hmap \<Rightarrow> (uuid, wf_info) hmap" where
  "note_workflow e m =
     (let root = (if re_causation_id e = None then Some (re_event_type e) else None);
          entry = (case hget m (re_workflow_id e) of
                     Some w \<Rightarrow> w
                   | None \<Rightarrow> \<lparr> wi_last_event_type = re_event_type e, wi_last_position = re_position e,
                              wi_started_with = root \<rparr>);
          moved = (if wi_last_position entry < re_position e
                   then entry\<lparr> wi_last_event_type := re_event_type e, wi_last_position := re_position e \<rparr>
                   else entry)
      in hput (re_workflow_id e)
           (if root \<noteq> None \<and> wi_started_with moved = None then moved\<lparr> wi_started_with := root \<rparr> else moved) m)"

definition skip_gap_report :: "log_cursor \<Rightarrow> log_cursor \<Rightarrow> recorded_event list \<Rightarrow> gap_report option" where
  "skip_gap_report from_pos to_pos scanned =
     (let events = filter (\<lambda>e. re_position e \<le> to_pos) scanned in
      if events = [] then None
      else Some \<lparr> gr_count = length events, gr_truncated = (10000 \<le> length events),
                  gr_no_prior = (from_pos = cursor_zero), gr_workflows = fold note_workflow events [] \<rparr>)"

definition emit_skip_gap_warnings ::
  "engine_config \<Rightarrow> log_cursor \<Rightarrow> log_cursor \<Rightarrow> 'a engine \<Rightarrow> gap_report option \<times> 'a engine" where
  "emit_skip_gap_warnings cfg from_pos to_pos g =
     (case engine_read (\<lambda>g. b_read_all (en_log cfg) from_pos 10000 (eg_store g)) g of
        (Inl _, g1) \<Rightarrow> (None, g1)
      | (Inr es, g1) \<Rightarrow> (skip_gap_report from_pos to_pos es, g1))"

definition seed_position ::
  "engine_config \<Rightarrow> start_position \<Rightarrow> log_cursor option \<Rightarrow> 'a engine \<Rightarrow>
   (build_error + log_cursor option) \<times> 'a engine" where
  "seed_position cfg start existing g =
     (let latest = (case boot_latest cfg g of (Inl err, g1) \<Rightarrow> (Inl err, g1) | (Inr p, g1) \<Rightarrow> (Inr (Some p), g1))
      in case start of
           ResumeOrLatest \<Rightarrow> (case existing of Some _ \<Rightarrow> (Inr None, g) | None \<Rightarrow> latest)
         | Latest \<Rightarrow> latest
         | Zero \<Rightarrow> (Inr (Some cursor_zero), g)
         | Specific c \<Rightarrow> (Inr (Some c), g))"

fun seed_reactors :: "engine_config \<Rightarrow> (string \<times> start_position) list \<Rightarrow> 'a engine \<Rightarrow> build_error option \<times> 'a engine" where
  "seed_reactors cfg [] g = (None, g)"
| "seed_reactors cfg ((consumer, start) # seeds) g =
     (case boot_call (\<lambda>g. (cursor_get consumer (eg_store g), g)) g of
        (Inl err, g1) \<Rightarrow> (Some err, g1)
      | (Inr existing, g1) \<Rightarrow>
          (case seed_position cfg start existing g1 of
             (Inl err, g2) \<Rightarrow> (Some err, g2)
           | (Inr None, g2) \<Rightarrow> seed_reactors cfg seeds g2
           | (Inr (Some pos), g2) \<Rightarrow>
               let old = (case existing of Some c \<Rightarrow> c | None \<Rightarrow> cursor_zero);
                   g3 = (if start = Latest \<and> old < pos then snd (emit_skip_gap_warnings cfg old pos g2) else g2)
               in (case boot_call (\<lambda>g. ((), g\<lparr> eg_store := cursor_set consumer pos (eg_store g) \<rparr>)) g3 of
                     (Inl err, g4) \<Rightarrow> (Some err, g4)
                   | (Inr _, g4) \<Rightarrow> seed_reactors cfg seeds g4)))"

section \<open>The cancel fence\<close>

text \<open>The control stream is read, after an error up to four times more.\<close>

fun fence_markers :: "engine_config \<Rightarrow> nat \<Rightarrow> 'a engine \<Rightarrow> (build_error + recorded_event list) \<times> 'a engine" where
  "fence_markers cfg retries g =
     (case engine_read_stream cfg control_stream_subject 0 g of
        (Inr es, g1) \<Rightarrow> (Inr es, g1)
      | (Inl err, g1) \<Rightarrow>
          (case retries of 0 \<Rightarrow> (Inl (FenceUnreadable err), g1) | Suc n \<Rightarrow> fence_markers cfg n g1))"

definition marker_target :: "engine_config \<Rightarrow> recorded_event \<Rightarrow> uuid option" where
  "marker_target cfg e =
     (if re_event_type e \<noteq> workflow_cancelled_kind then None
      else case re_payload e of
        JObject m \<Rightarrow> (case hget m ''target'' of Some (JString s) \<Rightarrow> cd_parse_uuid (en_codec cfg) s | _ \<Rightarrow> None)
      | _ \<Rightarrow> None)"

definition rebuild_fence :: "engine_config \<Rightarrow> 'a engine \<Rightarrow> build_error option \<times> 'a engine" where
  "rebuild_fence cfg g =
     (case fence_markers cfg 4 g of
        (Inl err, g1) \<Rightarrow> (Some err, g1)
      | (Inr es, g1) \<Rightarrow>
          (None, g1\<lparr> eg_cancelled := fold List.insert (List.map_filter (marker_target cfg) es) (eg_cancelled g1) \<rparr>))"

section \<open>Orphans and build\<close>

definition orphaned_ids :: "'a builder \<Rightarrow> string \<Rightarrow> string list \<Rightarrow> (string \<times> string) list" where
  "orphaned_ids b source ids = map (Pair source) (filter (\<lambda>i. i \<notin> set (bd_names b)) ids)"

text \<open>A scan that fails lists nothing (\<open>unwrap_or_default\<close>).\<close>

definition list_or_none :: "string list \<Rightarrow> 'a engine \<Rightarrow> string list \<times> 'a engine" where
  "list_or_none ids g =
     (case engine_call (\<lambda>g. (ids, g)) g of (None, g1) \<Rightarrow> ([], g1) | (Some xs, g1) \<Rightarrow> (xs, g1))"

definition find_orphans :: "'a builder \<Rightarrow> 'a engine \<Rightarrow> (string \<times> string) list \<times> 'a engine" where
  "find_orphans b g =
     (case list_or_none (cursor_consumers (eg_store g)) g of
        (cs, g1) \<Rightarrow>
          (case (case bd_decisions b of Some m \<Rightarrow> list_or_none (decision_consumers m) g1 | None \<Rightarrow> ([], g1)) of
             (ds, g2) \<Rightarrow>
               (case (case bd_effects b of Some m \<Rightarrow> list_or_none (effect_consumers m) g2 | None \<Rightarrow> ([], g2)) of
                  (es, g3) \<Rightarrow>
                    (orphaned_ids b ''checkpoint'' cs @ orphaned_ids b ''decision-store'' ds @
                     orphaned_ids b ''effect-store'' es, g3))))"

definition make_registry :: "'a builder \<Rightarrow> 'a registry option" where
  "make_registry b = (if bd_aggregators b = [] then None else Some (registry_new (bd_aggregators b)))"

text \<open>\<open>build\<close> on the state the engine starts from: the store, and the fence the builder carries.\<close>

definition build_engine :: "engine_config \<Rightarrow> 'a builder \<Rightarrow> 'a engine \<Rightarrow> build_error option \<times> 'a engine" where
  "build_engine cfg b g0 =
     (let g = g0\<lparr> eg_cancelled := bd_cancelled b \<rparr> in
      if bd_seeds b \<noteq> [] \<and> \<not> bd_explicit_effects b \<and> \<not> bd_allow_memory_effects b
      then (Some (NoEffectStore (length (bd_seeds b))), g)
      else if bd_seeds b \<noteq> [] \<and> \<not> bd_explicit_decisions b \<and> \<not> bd_allow_memory_decisions b
      then (Some (NoDecisionStore (length (bd_seeds b))), g)
      else case validate_aggregators (bd_aggregators b) of
        Some err \<Rightarrow> (Some err, g)
      | None \<Rightarrow>
          (case clamp_cursors cfg g of
             (Inl err, g1) \<Rightarrow> (Some err, g1)
           | (Inr _, g1) \<Rightarrow>
               (case seed_reactors cfg (bd_seeds b) g1 of
                  (Some err, g2) \<Rightarrow> (Some err, g2)
                | (None, g2) \<Rightarrow>
                    (case rebuild_fence cfg g2 of
                       (Some err, g3) \<Rightarrow> (Some err, g3)
                     | (None, g3) \<Rightarrow>
                         (case find_orphans b g3 of
                            (orphans, g4) \<Rightarrow>
                              if orphans \<noteq> [] \<and> bd_strict_orphans b then (Some (OrphanedState orphans), g4)
                              else (None, g4\<lparr> eg_registry := make_registry b \<rparr>))))))"

section \<open>Retention\<close>

text \<open>One sweep of the retention task over the consumers: a record goes only when it is older than
  the window and its consumer's cursor, where one is known, has passed it. A failed lookup or a
  failed removal is skipped. \<open>io\<close> are the fates of its calls.\<close>

definition next_fate :: "io_fate list \<Rightarrow> io_fate \<times> io_fate list" where
  "next_fate io = (case io of [] \<Rightarrow> (IoOk, []) | f # fs \<Rightarrow> (f, fs))"

fun gc_sweep ::
  "memory_store \<Rightarrow> datetime \<Rightarrow> string list \<Rightarrow> io_fate list \<Rightarrow> decision_store \<Rightarrow> nat \<times> decision_store" where
  "gc_sweep s aged_before [] io m = (0, m)"
| "gc_sweep s aged_before (consumer # cs) io m =
     (case next_fate io of
        (f, io1) \<Rightarrow>
          (case (if f = IoOk then cursor_get consumer s else None) of
             None \<Rightarrow> gc_sweep s aged_before cs io1 m
           | Some fl \<Rightarrow>
               (case next_fate io1 of
                  (f2, io2) \<Rightarrow>
                    (case (if f2 = IoFailBefore then (0, m) else remove_reclaimable consumer aged_before fl m) of
                       (n, m1) \<Rightarrow>
                         (case gc_sweep s aged_before cs io2 m1 of
                            (k, m2) \<Rightarrow> ((if f2 = IoOk then n else 0) + k, m2))))))"

end
