(* ===== verification/Engine_Laws.thy ===== *)
theory Engine_Laws
  imports Engine Reactor_Exec_Laws
begin

text \<open>
  What the steps of the engine's write paths do to the log: one call of the backend between the
  writes of rivals, the fold of a committed batch, which no reader of the log sees, and the build
  of a batch, which writes nothing.
\<close>

section \<open>The rivals' side of the bargain\<close>

text \<open>Other writers keep the log's invariant, append at most \<open>extra\<close> rows before each of the engine's
  calls, and never draw an id that \<open>Uuid::new_v4\<close> draws here.\<close>

definition rivals_fair :: "engine_config \<Rightarrow> nat \<Rightarrow> bool" where
  "rivals_fair cfg extra \<longleftrightarrow>
     (\<forall>n s. log_inv s \<longrightarrow> log_room extra s \<longrightarrow>
        log_inv (en_rivals cfg n s) \<and>
        (\<exists>new. global_log (en_rivals cfg n s) = global_log s @ new \<and> length new \<le> extra \<and>
           (\<forall>row \<in> set new. re_event_id row \<notin> range (en_fresh cfg))))"

definition engine_ready :: "engine_config \<Rightarrow> nat \<Rightarrow> 'a engine \<Rightarrow> bool" where
  "engine_ready cfg m g \<longleftrightarrow>
     en_log cfg = memory_backend \<and> our_snapshots (en_snapshots cfg) \<and>
     log_inv (eg_store g) \<and> log_room m (eg_store g)"

abbreviation rows_of :: "'a engine \<Rightarrow> recorded_event list" where
  "rows_of g \<equiv> global_log (eg_store g)"

text \<open>The ids still to be drawn are new, and any \<open>k\<close> draws in a row are different.\<close>

definition unused_ids :: "engine_config \<Rightarrow> 'a engine \<Rightarrow> bool" where
  "unused_ids cfg g \<longleftrightarrow> (\<forall>k \<ge> eg_draws g. en_fresh cfg k \<notin> re_event_id ` set (rows_of g))"

definition distinct_draws :: "engine_config \<Rightarrow> nat \<Rightarrow> bool" where
  "distinct_draws cfg k \<longleftrightarrow> (\<forall>n. inj_on (en_fresh cfg) {n ..< n + k})"

lemma log_room_less: "log_room n s \<Longrightarrow> m \<le> n \<Longrightarrow> log_room m s"
  by (simp add: log_room_def)

section \<open>One append call\<close>

text \<open>What a step leaves alone besides the store.\<close>

definition engine_frame :: "'a engine \<Rightarrow> 'a engine \<Rightarrow> bool" where
  "engine_frame g g' \<longleftrightarrow>
     eg_registry g' = eg_registry g \<and> eg_cancelled g' = eg_cancelled g \<and> eg_ticks g' = eg_ticks g \<and>
     eg_draws g' = eg_draws g \<and> (eg_io g = [] \<longrightarrow> eg_io g' = [])"

lemma io_nil [simp]: "eg_io g = [] \<Longrightarrow> g\<lparr> eg_io := [] \<rparr> = g"
  by (cases g) simp

lemma engine_call_cases:
  assumes "engine_call call g = (res, g')"
  obtains (dropped) fs where "res = None" "g' = g\<lparr> eg_io := fs \<rparr>" "eg_io g \<noteq> []"
    | (worked) x fs where "call (g\<lparr> eg_io := fs \<rparr>) = (x, g')" "res = Some x" "eg_io g = [] \<longrightarrow> fs = []"
    | (unheard) x fs where "call (g\<lparr> eg_io := fs \<rparr>) = (x, g')" "res = None" "eg_io g \<noteq> []"
proof (cases "eg_io g")
  case Nil
  then have "call (g\<lparr> eg_io := [] \<rparr>) = (the res, g')" "res = Some (the res)"
    using assms by (auto simp: engine_call_def split: prod.splits)
  then show ?thesis using worked by blast
next
  case (Cons f fs)
  show ?thesis
  proof (cases f)
    case IoOk
    then have "call (g\<lparr> eg_io := fs \<rparr>) = (the res, g')" "res = Some (the res)"
      using assms Cons by (auto simp: engine_call_def split: prod.splits)
    then show ?thesis using worked [of fs] Cons by simp
  next
    case IoFailBefore
    then show ?thesis using assms Cons dropped [of fs] by (auto simp: engine_call_def)
  next
    case IoFailAfter
    then have "call (g\<lparr> eg_io := fs \<rparr>) = (fst (call (g\<lparr> eg_io := fs \<rparr>)), g')" "res = None"
      using assms Cons by (auto simp: engine_call_def)
    then show ?thesis using unheard [of fs] Cons by simp
  qed
qed

lemma engine_read_frame:
  assumes "engine_read read g = (res, g')"
  shows "eg_store g' = eg_store g" "engine_frame g g'" "eg_appends g' = eg_appends g"
    and "res = Inr x \<Longrightarrow> \<exists>fs. read (g\<lparr> eg_io := fs \<rparr>) = Inr x"
proof -
  obtain r where c: "engine_call (\<lambda>g. (read g, g)) g = (r, g')"
    and res: "res = (case r of None \<Rightarrow> Inl Unavailable | Some (Inl err) \<Rightarrow> Inl (Rejected err) | Some (Inr x) \<Rightarrow> Inr x)"
    using assms by (auto simp: engine_read_def split: prod.splits option.splits sum.splits)
  show "eg_store g' = eg_store g" "engine_frame g g'" "eg_appends g' = eg_appends g"
    using c by (auto elim!: engine_call_cases simp: engine_frame_def)
  show "\<exists>fs. read (g\<lparr> eg_io := fs \<rparr>) = Inr x" if "res = Inr x"
    using c that res by (auto elim!: engine_call_cases split: sum.splits)
qed

text \<open>One append: the rivals write, then the batch lands as the backend decides, or the call fails
  before it. \<open>landed\<close> is the answer of a call that reached the backend and succeeded.\<close>

lemma engine_append_cases:
  assumes ready: "engine_ready cfg m g" and fair: "rivals_fair cfg extra" and m: "extra + length es + k \<le> m"
    and app: "engine_append cfg c sid ex es g = (res, g')"
  obtains s other where "s = en_rivals cfg (eg_appends g) (eg_store g)" "log_inv s"
    "log_room (length es + k) s" "global_log s = rows_of g @ other"
    "\<forall>row \<in> set other. re_event_id row \<notin> range (en_fresh cfg)"
    "engine_frame g g'" "eg_appends g' = Suc (eg_appends g)" "engine_ready cfg k g'"
    "eg_store g' = s \<and> isl res \<and> (eg_io g = [] \<longrightarrow> (\<exists>err. res = Inl (Rejected err) \<and>
        append_to_stream c sid ex es s = (Inl err, s))) \<and>
      (\<forall>err. res = Inl (Rejected err) \<longrightarrow> append_to_stream c sid ex es s = (Inl err, s)) \<or>
     (\<exists>wr. append_to_stream c sid ex es s = (Inr wr, eg_store g') \<and>
        (res = Inr wr \<or> res = Inl Unavailable \<and> eg_io g \<noteq> []))"
proof -
  define s where "s = en_rivals cfg (eg_appends g) (eg_store g)"
  define h where "h = g\<lparr> eg_store := s, eg_appends := Suc (eg_appends g) \<rparr>"
  have base: "en_log cfg = memory_backend" "our_snapshots (en_snapshots cfg)" "log_inv (eg_store g)"
    "log_room m (eg_store g)" using ready by (simp_all add: engine_ready_def)
  have "log_room extra (eg_store g)" using base(4) m by (auto intro: log_room_less)
  then obtain other where s: "log_inv s" "global_log s = rows_of g @ other" "length other \<le> extra"
    "\<forall>row \<in> set other. re_event_id row \<notin> range (en_fresh cfg)"
    using fair base(3) unfolding rivals_fair_def s_def by blast
  have room: "log_room (length es + k) s" using base(4) m s(2,3) by (simp add: log_room_def)
  obtain r where c: "engine_call (\<lambda>g. case b_append (en_log cfg) c sid ex es (eg_store g) of
                              (x, s) \<Rightarrow> (x, g\<lparr> eg_store := s \<rparr>)) h = (r, g')"
    and res: "res = (case r of None \<Rightarrow> Inl Unavailable | Some (Inl err) \<Rightarrow> Inl (Rejected err) | Some (Inr x) \<Rightarrow> Inr x)"
    using app by (auto simp: engine_append_def h_def s_def split: prod.splits option.splits sum.splits)
  obtain y s1 where y: "append_to_stream c sid ex es s = (y, s1)" by fastforce
  have eff: "s1 = s" if "y = Inl err" for err using append_error_unchanged y that by blast
  have inv1: "log_inv s1" using append_inv [OF s(1)] room y by (metis log_room_less le_add1 snd_conv)
  have room1: "log_room k s1" using log_room_step [OF s(1)] room y by (metis snd_conv)
  have shape: "(\<exists>fs. g' = h\<lparr> eg_io := fs \<rparr> \<and> r = None \<and> eg_io g \<noteq> []) \<or>
      (\<exists>fs. g' = h\<lparr> eg_io := fs, eg_store := s1 \<rparr> \<and> (eg_io g = [] \<longrightarrow> fs = []) \<and>
        (r = Some y \<or> r = None \<and> eg_io g \<noteq> []))"
    using c by (rule engine_call_cases)
      (auto simp: h_def base(1) memory_backend_def y)
  have room0: "log_room k s" using room by (auto intro: log_room_less)
  show ?thesis
  proof (rule that [of s other])
    show "engine_frame g g'" "eg_appends g' = Suc (eg_appends g)"
      using shape by (auto simp: h_def engine_frame_def)
    show "engine_ready cfg k g'"
      using shape base(1,2) inv1 room1 room0 s(1) by (auto simp: h_def engine_ready_def)
    show "eg_store g' = s \<and> isl res \<and> (eg_io g = [] \<longrightarrow> (\<exists>err. res = Inl (Rejected err) \<and>
        append_to_stream c sid ex es s = (Inl err, s))) \<and>
      (\<forall>err. res = Inl (Rejected err) \<longrightarrow> append_to_stream c sid ex es s = (Inl err, s)) \<or>
     (\<exists>wr. append_to_stream c sid ex es s = (Inr wr, eg_store g') \<and>
        (res = Inr wr \<or> res = Inl Unavailable \<and> eg_io g \<noteq> []))"
    proof (cases y)
      case (Inl err)
      then show ?thesis using shape eff res y by (auto simp: h_def)
    next
      case (Inr wr)
      then show ?thesis using shape res y by (auto simp: h_def)
    qed
  qed (use s room in \<open>auto simp: s_def\<close>)
qed

section \<open>The fold of a committed batch\<close>

definition fold_frame :: "'a engine \<Rightarrow> 'a engine \<Rightarrow> bool" where
  "fold_frame g g' \<longleftrightarrow>
     same_log (eg_store g) (eg_store g') \<and> eg_cancelled g' = eg_cancelled g \<and>
     eg_draws g' = eg_draws g \<and> eg_appends g' = eg_appends g \<and> (eg_io g = [] \<longrightarrow> eg_io g' = [])"

lemma fold_frame_refl [simp]: "fold_frame g g"
  by (simp add: fold_frame_def)

lemma fold_frame_trans: "fold_frame g g' \<Longrightarrow> fold_frame g' g'' \<Longrightarrow> fold_frame g g''"
  by (auto simp: fold_frame_def intro: same_log_trans)

lemma notify_engine_folds_log: "same_log s (notify_engine_folds wfl pos ev folds s)"
proof -
  have "same_log s (fold (\<lambda>(key, state). aggregate_folded wfl pos ev key state) folds s)"
  proof (induction folds arbitrary: s)
    case (Cons p folds)
    obtain key state where p: "p = (key, state)" by fastforce
    show ?case
      using same_log_trans [OF aggregate_folded_log Cons.IH] by (simp add: p)
  qed simp
  then show ?thesis by (simp add: notify_engine_folds_def)
qed

lemma fold_committed_frame:
  assumes "our_snapshots (en_snapshots cfg)"
  shows "fold_frame g (fold_committed cfg save ev c sid wr g)"
proof (cases "eg_registry g")
  case (Some rg)
  define up where "up = (case eg_io g of [] \<Rightarrow> True | f # _ \<Rightarrow> f = IoOk)"
  define f where "f = \<lparr> ff_type = ed_event_type ev, ff_payload = ed_payload ev, ff_subject_id = sid,
                    ff_category = c, ff_revision = wr_revision wr, ff_position = wr_position wr \<rparr>"
  obtain x rg1 s1 where q: "fold_event (en_codec cfg) (en_snapshots cfg)
      (if up then en_log cfg else failing_reads (en_log cfg)) f False rg (eg_store g) = (x, rg1, s1)"
    by (metis surj_pair)
  have s1: "same_log (eg_store g) s1"
    using fold_event_snap_only [OF assms q] by (rule snap_only_fields(1))
  have noted: "same_log (eg_store g) (notify_engine_folds wfl pos i folds s1)" for wfl pos i folds
    using same_log_trans [OF s1 notify_engine_folds_log] .
  have save: "same_log (eg_store g) s3"
    if "en_snapshots cfg = Some S" "maybe_save_snapshots (en_codec cfg) S every now snaps (rg1, s2) = (rg2, s3)"
      "same_log (eg_store g) s2" for S every now snaps s2 rg2 s3
    using that assms save_snapshots_snap_only [of s2 "en_codec cfg" every now snaps rg1]
    by (auto simp: our_snapshots_def intro: same_log_trans [OF that(3) snap_only_fields(1)])
  show ?thesis
    using Some q s1 noted
    by (auto simp: fold_committed_def fold_frame_def engine_clock_def f_def [symmetric]
        up_def [symmetric] Let_def intro: save split: sum.splits prod.splits option.splits)
qed (simp add: fold_committed_def)

lemma fold_batch_frame:
  assumes "our_snapshots (en_snapshots cfg)"
  shows "fold_frame g (fold_batch cfg save c sid wr evs g)"
proof (induction evs arbitrary: g)
  case (Cons ev evs)
  show ?case
    unfolding fold_batch.simps by (rule fold_frame_trans [OF fold_committed_frame [OF assms] Cons.IH])
qed simp

lemma fold_frame_ready:
  assumes "fold_frame g g'" "engine_ready cfg m g"
  shows "engine_ready cfg m g'" "rows_of g' = rows_of g"
  using assms same_log_inv [of "eg_store g" "eg_store g'"]
  by (auto simp: fold_frame_def engine_ready_def same_log_def log_room_def)

end
