(* ===== verification/Engine_Commands.thy ===== *)
theory Engine_Commands
  imports Engine_Laws
begin

text \<open>
  The command path: a decision \<open>Engine::append\<close> reports as appended was taken on the stream exactly
  as it stood when the decision landed, whatever other writers did in between; a decision that is
  refused leaves nothing behind; and contention alone makes it fail only after sixteen conflicts.
\<close>

section \<open>The decision as rows\<close>

definition decided_event ::
  "('f, 'b) command_type \<Rightarrow> uuid \<Rightarrow> uuid \<Rightarrow> 'f \<Rightarrow> event_data \<Rightarrow> bool" where
  "decided_event ct i wfl f ev \<longleftrightarrow>
     ct_subject_id ct f = i \<and> ct_encode ct f = Inr (ed_payload ev) \<and> ed_event_type ev = ct_name ct \<and>
     ed_workflow_id ev = wfl \<and> ed_causation_id ev = None"

definition decided_row ::
  "('f, 'b) command_type \<Rightarrow> uuid \<Rightarrow> uuid \<Rightarrow> 'f \<Rightarrow> recorded_event \<Rightarrow> bool" where
  "decided_row ct i wfl f row \<longleftrightarrow>
     ct_subject_id ct f = i \<and> ct_encode ct f = Inr (re_payload row) \<and> re_event_type row = ct_name ct \<and>
     re_workflow_id row = wfl \<and> re_causation_id row = None \<and> row_key row = (ct_subject ct, i)"

lemma occurred_or_now_frame:
  "occurred_or_now cfg t g = (x, g') \<Longrightarrow>
     eg_store g' = eg_store g \<and> eg_draws g' = eg_draws g \<and> eg_appends g' = eg_appends g \<and>
     eg_cancelled g' = eg_cancelled g \<and> eg_io g' = eg_io g \<and> eg_registry g' = eg_registry g"
  by (auto simp: occurred_or_now_def engine_clock_def split: option.splits)

lemma build_decision_spec:
  assumes "build_decision cfg ct i wfl fs g = (res, g')"
  shows "eg_store g' = eg_store g \<and> eg_appends g' = eg_appends g \<and> eg_io g' = eg_io g \<and>
      eg_draws g \<le> eg_draws g' \<and>
      (\<forall>evs. res = Inr evs \<longrightarrow> list_all2 (decided_event ct i wfl) fs evs \<and>
         map ed_event_id evs = map (en_fresh cfg) [eg_draws g ..< eg_draws g'] \<and>
         eg_draws g' = eg_draws g + length fs)"
  using assms
proof (induction fs arbitrary: g g' res)
  case (Cons f fs)
  obtain t g2 where t: "occurred_or_now cfg (ct_occurred_at ct f) (g\<lparr> eg_draws := Suc (eg_draws g) \<rparr>) = (t, g2)"
    by fastforce
  obtain r3 g3 where r3: "build_decision cfg ct i wfl fs g2 = (r3, g3)" by fastforce
  note fr = occurred_or_now_frame [OF t]
  define ev where "ev p = \<lparr> ed_event_id = en_fresh cfg (eg_draws g), ed_causation_id = None,
      ed_workflow_id = wfl, ed_event_type = ct_name ct, ed_payload = p, ed_created_at = t,
      ed_category = Some (ct_subject ct), ed_subject_id = Some i,
      ed_metadata = en_default_metadata cfg, ed_ephemeral = None, ed_persistent = True \<rparr>" for p
  have step: "build_decision cfg ct i wfl (f # fs) g =
      (if ct_subject_id ct f \<noteq> i then (Inl (ForeignSubject (ct_subject_id ct f)), g)
       else case ct_encode ct f of
         Inl m \<Rightarrow> (Inl (Unserializable m), g)
       | Inr p \<Rightarrow> (case r3 of Inl err \<Rightarrow> (Inl err, g3) | Inr evs \<Rightarrow> (Inr (ev p # evs), g3)))"
    by (simp add: draw_id_def t r3 ev_def split: sum.split)
  note ih = Cons.IH [OF r3]
  have now: "(res, g') = (if ct_subject_id ct f \<noteq> i then (Inl (ForeignSubject (ct_subject_id ct f)), g)
       else case ct_encode ct f of
         Inl m \<Rightarrow> (Inl (Unserializable m), g)
       | Inr p \<Rightarrow> (case r3 of Inl err \<Rightarrow> (Inl err, g3) | Inr evs \<Rightarrow> (Inr (ev p # evs), g3)))"
    using Cons.prems step by simp
  show ?case
    using ih fr now
    by (auto simp: decided_event_def ev_def upt_conv_Cons simp del: upt_Suc split: if_splits sum.splits)
qed simp

lemma decided_rows:
  assumes "list_all2 (decided_event ct i wfl) fs evs" "list_all2 (same_row (ct_subject ct) i) evs rs"
  shows "list_all2 (decided_row ct i wfl) fs rs"
  using assms
proof (induction fs evs arbitrary: rs rule: list_all2_induct)
  case (Cons f fs ev evs)
  then show ?case
    by (cases rs) (auto simp: decided_event_def decided_row_def same_row_def)
qed simp

section \<open>The revision check\<close>

text \<open>When the head of a stream is where it was read, nothing was written to the stream since.\<close>

lemma head_unmoved:
  assumes inv: "log_inv s" and s: "global_log s = rows @ other"
    and head: "state_matches (stream_head (stream_rows rows key)) (last_revision (global_log s) key)"
  shows "stream_rows (global_log s) key = stream_rows rows key"
proof -
  let ?old = "stream_rows rows key" and ?now = "stream_rows (global_log s) key"
  have now: "?now = ?old @ stream_rows other key" using s by simp
  have len: "unat (re_revision (last xs)) = length xs - 1" if "xs \<noteq> []" "xs = ?old \<or> xs = ?now" for xs
  proof -
    have "take (length xs) ?now = xs" using that now by auto
    then have "last xs = ?now ! (length xs - 1)"
      using that(1) now by (metis diff_less last_conv_nth length_greater_0_conv nth_take zero_less_one)
    moreover have "length xs \<le> length ?now" using that now by auto
    then have "length xs - 1 < length ?now" using that(1) by (cases xs) auto
    ultimately show ?thesis using stream_rows_nth_revision [OF log_inv_dense [OF inv]] by simp
  qed
  show ?thesis
  proof (cases "?old = []")
    case True
    then have "last_revision (global_log s) key = None"
      using head by (cases "last_revision (global_log s) key") (auto simp: stream_head_def)
    then show ?thesis using True by (simp add: last_revision_def split: if_splits)
  next
    case False
    then have ne: "?now \<noteq> []" using now by simp
    have "re_revision (last ?now) = re_revision (last ?old)"
      using head False ne by (simp add: stream_head_def last_revision_def)
    then have "length ?now - 1 = length ?old - 1" using len False ne by metis
    then have "stream_rows other key = []" using now False ne
      by (metis One_nat_def Suc_pred add_cancel_right_right append_self_conv2 length_0_conv
          length_append length_greater_0_conv)
    then show ?thesis using now by simp
  qed
qed

section \<open>One command\<close>

definition decided_on ::
  "('f, 'b) command_type \<Rightarrow> uuid \<Rightarrow> ('b \<Rightarrow> string + 'f list) \<Rightarrow> uuid \<Rightarrow> log_cursor \<Rightarrow>
   recorded_event list \<Rightarrow> recorded_event list \<Rightarrow> bool" where
  "decided_on ct i decide wfl pos before new \<longleftrightarrow>
     (\<exists>agg facts. fold_stream ct (stream_rows before (ct_subject ct, i)) (ct_default ct) = Inr agg \<and>
        decide agg = Inr facts \<and> list_all2 (decided_row ct i wfl) facts new \<and>
        (new \<noteq> [] \<longrightarrow> pos = re_position (last new)))"

text \<open>How a command ends: as \<open>decided_on\<close> says, the rows before the decision being the start and
  what rivals wrote; or with nothing of its own in the log.\<close>

definition command_landed ::
  "engine_config \<Rightarrow> ('f, 'b) command_type \<Rightarrow> uuid \<Rightarrow> ('b \<Rightarrow> string + 'f list) \<Rightarrow> uuid \<Rightarrow> log_cursor \<Rightarrow>
   recorded_event list \<Rightarrow> recorded_event list \<Rightarrow> bool" where
  "command_landed cfg ct i decide wfl pos rows rows' \<longleftrightarrow>
     (\<exists>other new. rows' = rows @ other @ new \<and> (\<forall>row \<in> set other. re_event_id row \<notin> range (en_fresh cfg)) \<and>
        decided_on ct i decide wfl pos (rows @ other) new)"

definition rivals_only :: "engine_config \<Rightarrow> recorded_event list \<Rightarrow> recorded_event list \<Rightarrow> bool" where
  "rivals_only cfg rows rows' \<longleftrightarrow>
     (\<exists>other. rows' = rows @ other \<and> (\<forall>row \<in> set other. re_event_id row \<notin> range (en_fresh cfg)))"

lemma rivals_only_refl [simp]: "rivals_only cfg rows rows"
  by (simp add: rivals_only_def)

lemma rivals_only_trans: "rivals_only cfg a b \<Longrightarrow> rivals_only cfg b c \<Longrightarrow> rivals_only cfg a c"
  unfolding rivals_only_def by (metis Un_iff append.assoc set_append)

lemma rivals_then_landed:
  assumes "rivals_only cfg a b" "command_landed cfg ct i decide wfl pos b c"
  shows "command_landed cfg ct i decide wfl pos a c"
proof -
  obtain o1 where o1: "b = a @ o1" "\<forall>row \<in> set o1. re_event_id row \<notin> range (en_fresh cfg)"
    using assms(1) by (auto simp: rivals_only_def)
  obtain o2 new where "c = b @ o2 @ new" "\<forall>row \<in> set o2. re_event_id row \<notin> range (en_fresh cfg)"
    "decided_on ct i decide wfl pos (b @ o2) new"
    using assms(2) by (auto simp: command_landed_def)
  then show ?thesis
    using o1 unfolding command_landed_def by (intro exI [of _ "o1 @ o2"] exI [of _ new]) auto
qed

lemma unused_ids_grow:
  assumes "unused_ids cfg g" "rivals_only cfg (rows_of g) (rows_of g')" "eg_draws g \<le> eg_draws g'"
  shows "unused_ids cfg g'"
proof -
  obtain other where o: "rows_of g' = rows_of g @ other"
    "\<forall>row \<in> set other. re_event_id row \<notin> range (en_fresh cfg)"
    using assms(2) by (auto simp: rivals_only_def)
  have "en_fresh cfg k \<notin> re_event_id ` set other" for k using o(2) by (metis imageE rangeI)
  then show ?thesis using assms(1,3) o(1) by (simp add: unused_ids_def image_Un)
qed

lemma decided_ids_fresh:
  assumes "unused_ids cfg g" "map ed_event_id evs = map (en_fresh cfg) [d ..< d']" "eg_draws g \<le> d"
    and "global_log s = rows_of g @ other" "\<forall>row \<in> set other. re_event_id row \<notin> range (en_fresh cfg)"
  shows "ids_fresh (global_log s) evs"
proof -
  have "ed_event_id ` set evs = en_fresh cfg ` {d ..< d'}" using assms(2) by (metis image_set set_upt)
  then have drawn: "\<exists>k. eg_draws g \<le> k \<and> ed_event_id e = en_fresh cfg k" if "e \<in> set evs" for e
  proof -
    have "ed_event_id e \<in> en_fresh cfg ` {d ..< d'}" using \<open>ed_event_id ` set evs = _\<close> that by blast
    then obtain x where "d \<le> x" "ed_event_id e = en_fresh cfg x" by auto
    then show ?thesis using assms(3) order_trans by blast
  qed
  show ?thesis
    unfolding ids_fresh_def
  proof
    fix e assume "e \<in> set evs"
    then obtain k where k: "eg_draws g \<le> k" "ed_event_id e = en_fresh cfg k" using drawn by blast
    then have "ed_event_id e \<notin> re_event_id ` set (rows_of g)" using assms(1) by (simp add: unused_ids_def)
    moreover have "ed_event_id e \<notin> re_event_id ` set other" using assms(5) k(2) by fastforce
    ultimately show "ed_event_id e \<notin> re_event_id ` set (global_log s)" using assms(4) by auto
  qed
qed

lemma decision_lands:
  assumes inv: "log_inv s" and s: "global_log s = rows @ other"
    and es: "es = stream_rows rows (ct_subject ct, i)"
    and app: "append_to_stream (ct_subject ct) i (stream_head es) evs s = (Inr wr, s')"
    and fresh: "ids_fresh (global_log s) evs" and evs: "list_all2 (decided_event ct i wfl) facts evs"
    and agg: "fold_stream ct es (ct_default ct) = Inr agg" "decide agg = Inr facts"
  shows "\<exists>new. global_log s' = rows @ other @ new \<and>
           decided_on ct i decide wfl (wr_position wr) (rows @ other) new"
proof -
  have ne: "evs \<noteq> []" using app by (auto simp: append_to_stream_def)
  then have "ed_event_id (last evs) \<notin> re_event_id ` set (global_log s)" using fresh by (simp add: ids_fresh_def)
  then have none: "hget (li_by_event_id (log_idx s)) (ed_event_id (last evs)) = None"
    by (simp add: id_index_None [OF inv])
  note new = append_new_rows [OF inv app none]
  let ?new = "placed_rows (ct_subject ct) i (global_position s) (stream_count s (ct_subject ct, i)) evs"
  have "stream_rows (rows @ other) (ct_subject ct, i) = es"
    using head_unmoved [OF inv s, of "(ct_subject ct, i)"] new(5) s es by simp
  moreover have "wr_position wr = re_position (last ?new)"
    using new(6) last_placed_rows [OF ne] by (simp add: placed_row_def)
  moreover have "list_all2 (decided_row ct i wfl) facts ?new"
    using decided_rows [OF evs placed_rows_same] .
  ultimately have "decided_on ct i decide wfl (wr_position wr) (rows @ other) ?new"
    using agg by (auto simp: decided_on_def)
  then show ?thesis using new(1) s by (intro exI [of _ ?new]) simp
qed

lemma append_attempts_outcome:
  assumes "engine_ready cfg (n * (extra + k)) g" "rivals_fair cfg extra" "unused_ids cfg g"
    and dec: "\<And>agg facts. decide agg = Inr facts \<Longrightarrow> length facts \<le> k"
    and "append_attempts_left cfg ct i decide n last_conflict g = (res, g')"
  shows "case res of
      Inr r \<Rightarrow> command_landed cfg ct i decide (er_workflow_id r) (er_position r) (rows_of g) (rows_of g')
    | Inl err \<Rightarrow> rivals_only cfg (rows_of g) (rows_of g') \<or>
        err = Unavailable \<and> (\<exists>wfl pos. command_landed cfg ct i decide wfl pos (rows_of g) (rows_of g'))"
  using assms(1,3,5)
proof (induction n arbitrary: last_conflict g)
  case (Suc n)
  have mem: "en_log cfg = memory_backend" "our_snapshots (en_snapshots cfg)" "log_inv (eg_store g)"
    using Suc.prems(1) by (auto simp: engine_ready_def)
  obtain r1 g1 where r1: "engine_read_stream cfg (ct_subject ct) i g = (r1, g1)" by fastforce
  note rd = engine_read_frame [OF r1 [unfolded engine_read_stream_def]]
  show ?case
  proof (cases r1)
    case (Inl err)
    then show ?thesis using Suc.prems(3) r1 rd by (auto split: sum.splits)
  next
    case es: (Inr es)
    have "\<exists>fs. b_read_stream memory_backend (ct_subject ct) i None (eg_store (g\<lparr> eg_io := fs \<rparr>)) = Inr es"
      using rd(4) [OF es] mem(1) by simp
    then have rows: "es = stream_rows (rows_of g) (ct_subject ct, i)"
      using mem_log.read_whole [OF mem(3), of "ct_subject ct" i] by simp
    show ?thesis
    proof (cases "fold_stream ct es (ct_default ct)")
      case (Inl m)
      then show ?thesis using Suc.prems(3) r1 rd es by auto
    next
      case agg: (Inr agg)
      show ?thesis
      proof (cases "decide agg")
        case (Inl m)
        then show ?thesis using Suc.prems(3) r1 rd es agg by auto
      next
        case facts: (Inr facts)
        show ?thesis
        proof (cases "facts = []")
          case True
          obtain r2 g2 where r2: "engine_latest cfg g1 = (r2, g2)" by fastforce
          note lt = engine_read_frame [OF r2 [unfolded engine_latest_def]]
          have "decided_on ct i decide wfl pos (rows_of g) []" for wfl pos
            using agg facts True rows by (auto simp: decided_on_def)
          then have "command_landed cfg ct i decide wfl pos (rows_of g) (rows_of g)" for wfl pos
            unfolding command_landed_def by (intro exI [of _ "[]"]) simp
          then show ?thesis
            using Suc.prems(3) r1 rd es agg facts True r2 lt
            by (auto simp: draw_id_def split: sum.splits)
        next
          case False
          define wfl where "wfl = en_fresh cfg (eg_draws g1)"
          obtain r3 g3 where r3: "build_decision cfg ct i wfl facts (g1\<lparr> eg_draws := Suc (eg_draws g1) \<rparr>) = (r3, g3)"
            by fastforce
          note bd = build_decision_spec [OF r3]
          have st: "eg_store g3 = eg_store g" "eg_draws g \<le> eg_draws g3" "eg_draws g1 = eg_draws g"
            using bd rd by (auto simp: engine_frame_def)
          show ?thesis
          proof (cases r3)
            case (Inl err)
            then show ?thesis
              using Suc.prems(3) r1 es agg facts False r3 st
              by (auto simp: draw_id_def wfl_def neq_Nil_conv)
          next
            case evs: (Inr evs)
            obtain r4 g4 where r4: "engine_append cfg (ct_subject ct) i (stream_head es) evs g3 = (r4, g4)"
              by fastforce
            have result: "(res, g') = (case r4 of
                Inr wr \<Rightarrow> (Inr \<lparr> er_position = wr_position wr, er_workflow_id = wfl \<rparr>,
                                fold_batch cfg False (ct_subject ct) i wr evs g4)
              | Inl (Rejected (ConflictError want actual)) \<Rightarrow>
                  append_attempts_left cfg ct i decide n (Some (ConflictError want actual)) (snd (draw_id cfg g4))
              | Inl err \<Rightarrow> (Inl err, g4))"
              using Suc.prems(3) r1 es agg facts False r3 evs r4
              by (auto simp: draw_id_def wfl_def neq_Nil_conv split: sum.splits engine_error.splits append_error.splits)
            have len: "extra + length evs + n * (extra + k) \<le> Suc n * (extra + k)"
              using bd evs dec [OF facts] by (auto dest!: list_all2_lengthD)
            have ready: "engine_ready cfg (Suc n * (extra + k)) g3"
              using Suc.prems(1) st(1) by (simp add: engine_ready_def)
            obtain s other where s: "log_inv s" "global_log s = rows_of g3 @ other"
              "\<forall>row \<in> set other. re_event_id row \<notin> range (en_fresh cfg)" "engine_frame g3 g4"
              "engine_ready cfg (n * (extra + k)) g4"
              and out: "eg_store g4 = s \<and> isl r4 \<or>
                (\<exists>wr. append_to_stream (ct_subject ct) i (stream_head es) evs s = (Inr wr, eg_store g4) \<and>
                  (r4 = Inr wr \<or> r4 = Inl Unavailable))"
              using engine_append_cases [OF ready assms(2) len r4] by metis
            have rows3: "rows_of g3 = rows_of g" using st(1) by simp
            show ?thesis
              using out
            proof
              assume refused: "eg_store g4 = s \<and> isl r4"
              have ro: "rivals_only cfg (rows_of g) (rows_of g4)"
                using refused s(2,3) rows3 by (auto simp: rivals_only_def)
              have unused: "unused_ids cfg (snd (draw_id cfg g4))"
                using unused_ids_grow [OF Suc.prems(2), of "snd (draw_id cfg g4)"] ro s(4) st(2) by (simp add: draw_id_def engine_frame_def)
              show ?thesis
              proof (cases "\<exists>want actual. r4 = Inl (Rejected (ConflictError want actual))")
                case True
                then obtain c where again: "append_attempts_left cfg ct i decide n c (snd (draw_id cfg g4)) = (res, g')"
                  using result by auto
                have "engine_ready cfg (n * (extra + k)) (snd (draw_id cfg g4))"
                  "rows_of (snd (draw_id cfg g4)) = rows_of g4"
                  using s(5) by (simp_all add: draw_id_def engine_ready_def)
                then show ?thesis
                  using Suc.IH [OF _ unused again] ro rivals_only_trans [OF ro] rivals_then_landed [OF ro]
                  by (fastforce split: sum.splits)
              next
                case False
                then have "g' = g4" "isl res"
                  using result refused by (auto split: sum.splits engine_error.splits append_error.splits)
                then show ?thesis using ro by (auto split: sum.splits)
              qed
            next
              assume "\<exists>wr. append_to_stream (ct_subject ct) i (stream_head es) evs s = (Inr wr, eg_store g4) \<and>
                  (r4 = Inr wr \<or> r4 = Inl Unavailable)"
              then obtain wr where wr: "append_to_stream (ct_subject ct) i (stream_head es) evs s = (Inr wr, eg_store g4)"
                "r4 = Inr wr \<or> r4 = Inl Unavailable" by blast
              have fresh: "ids_fresh (global_log s) evs"
                using bd evs st rows3 s(2)
                by (intro decided_ids_fresh [OF Suc.prems(2) _ _ _ s(3), of evs "Suc (eg_draws g1)" "eg_draws g3"])
                  auto
              have "list_all2 (decided_event ct i wfl) facts evs" using bd evs by blast
              moreover have "global_log s = rows_of g @ other" using s(2) rows3 by simp
              ultimately obtain new where new: "rows_of g4 = rows_of g @ other @ new"
                "decided_on ct i decide wfl (wr_position wr) (rows_of g @ other) new"
                using decision_lands [where decide = decide, OF s(1) _ rows wr(1) fresh _ agg facts] by blast
              have landed: "command_landed cfg ct i decide wfl (wr_position wr) (rows_of g) (rows_of g4)"
                using new s(3) unfolding command_landed_def by blast
              have "rows_of (fold_batch cfg False (ct_subject ct) i wr evs g4) = rows_of g4"
                using fold_frame_ready(2) [OF fold_batch_frame [OF mem(2)] s(5)] .
              then show ?thesis
                using wr(2) result landed by (auto split: sum.splits)
            qed
          qed
        qed
      qed
    qed
  qed
qed (auto split: option.splits)

section \<open>Contention\<close>

lemma fresh_append_outcome:
  assumes inv: "log_inv s" and ne: "es \<noteq> []" and dist: "distinct (map ed_event_id es)"
    and fresh: "ids_fresh (global_log s) es"
  shows "(\<exists>r s'. append_to_stream c sid ex es s = (Inr r, s')) \<or>
         (\<exists>want actual. append_to_stream c sid ex es s = (Inl (ConflictError want actual), s) \<and>
            \<not> state_matches ex (last_revision (global_log s) (c, sid)))"
proof (cases "state_matches ex (last_revision (global_log s) (c, sid))")
  case True
  then show ?thesis
    using mem_log.append_fresh [OF inv ne dist fresh True] by (simp add: memory_backend_def)
next
  case False
  have "batch_fresh s es" using fresh batch_fresh_ids [OF inv] by simp
  then have "append_to_stream c sid ex es s = (Inl (ConflictError ex (current_tail s (c, sid))), s)"
    using False ne dist current_tail_rows [OF inv]
    by (auto simp: append_to_stream_def Let_def duplicate_in_batch_None [THEN iffD2] batch_fresh_def
        last_revision_def)
  then show ?thesis using False by blast
qed

text \<open>A decision can always be taken and written down.\<close>

definition decidable ::
  "('f, 'b) command_type \<Rightarrow> uuid \<Rightarrow> nat \<Rightarrow> ('b \<Rightarrow> string + 'f list) \<Rightarrow> bool" where
  "decidable ct i k decide \<longleftrightarrow>
     (\<forall>p. \<exists>f. ct_decode ct p = Inr f) \<and>
     (\<forall>agg. \<exists>facts. decide agg = Inr facts \<and> length facts \<le> k \<and>
        (\<forall>f \<in> set facts. ct_subject_id ct f = i \<and> (\<exists>p. ct_encode ct f = Inr p)))"

lemma fold_stream_total: "\<forall>p. \<exists>f. ct_decode ct p = Inr f \<Longrightarrow> \<exists>agg'. fold_stream ct es agg = Inr agg'"
proof (induction es arbitrary: agg)
  case (Cons e es)
  obtain f where "ct_decode ct (re_payload e) = Inr f" using Cons.prems by blast
  then show ?case using Cons by simp
qed simp

lemma build_decision_total:
  assumes "\<forall>f \<in> set fs. ct_subject_id ct f = i \<and> (\<exists>p. ct_encode ct f = Inr p)"
  shows "\<exists>evs g'. build_decision cfg ct i wfl fs g = (Inr evs, g')"
  using assms
proof (induction fs arbitrary: g)
  case (Cons f fs)
  obtain t g2 where t: "occurred_or_now cfg (ct_occurred_at ct f) (g\<lparr> eg_draws := Suc (eg_draws g) \<rparr>) = (t, g2)"
    by fastforce
  have "\<exists>evs g'. build_decision cfg ct i wfl fs g2 = (Inr evs, g')" using Cons by auto
  then obtain evs g3 where "build_decision cfg ct i wfl fs g2 = (Inr evs, g3)" by blast
  then show ?case using Cons.prems t by (auto simp: draw_id_def)
qed simp

lemma engine_read_works:
  assumes "eg_io g = []" "read g = Inr x"
  shows "engine_read read g = (Inr x, g)"
  using assms by (simp add: engine_read_def engine_call_def)

definition quiet_call :: "engine_config \<Rightarrow> ('f, 'b) command_type \<Rightarrow> uuid \<Rightarrow> nat \<Rightarrow> bool" where
  "quiet_call cfg ct i n \<longleftrightarrow>
     (\<forall>s. stream_rows (global_log (en_rivals cfg n s)) (ct_subject ct, i) =
          stream_rows (global_log s) (ct_subject ct, i))"

lemma append_attempts_return:
  assumes "engine_ready cfg (n * (extra + k)) g" "unused_ids cfg g" "eg_io g = []"
    and "q < n" "quiet_call cfg ct i (eg_appends g + q)"
    and fair: "rivals_fair cfg extra" and dec: "decidable ct i k decide" and draws: "distinct_draws cfg k"
  shows "\<exists>r g'. append_attempts_left cfg ct i decide n last_conflict g = (Inr r, g')"
  using assms(1-5)
proof (induction n arbitrary: q last_conflict g)
  case (Suc n)
  have mem: "en_log cfg = memory_backend" "our_snapshots (en_snapshots cfg)" "log_inv (eg_store g)"
    using Suc.prems(1) by (auto simp: engine_ready_def)
  define es where "es = stream_rows (rows_of g) (ct_subject ct, i)"
  have read: "engine_read_stream cfg (ct_subject ct) i g = (Inr es, g)"
    unfolding engine_read_stream_def
    by (rule engine_read_works [OF Suc.prems(3)])
      (simp add: mem(1) mem_log.read_whole [OF mem(3)] es_def)
  obtain agg where agg: "fold_stream ct es (ct_default ct) = Inr agg"
    using fold_stream_total [of ct es "ct_default ct"] dec unfolding decidable_def by blast
  obtain facts where facts: "decide agg = Inr facts" "length facts \<le> k"
    "\<forall>f \<in> set facts. ct_subject_id ct f = i \<and> (\<exists>p. ct_encode ct f = Inr p)"
    using dec unfolding decidable_def by blast
  show ?case
  proof (cases "facts = []")
    case True
    have "engine_latest cfg g = (Inr (latest_position (eg_store g)), g)"
      unfolding engine_latest_def by (rule engine_read_works [OF Suc.prems(3)]) (simp add: mem(1) memory_backend_def)
    then show ?thesis using read agg facts(1) True by (simp add: draw_id_def)
  next
    case False
    define wfl where "wfl = en_fresh cfg (eg_draws g)"
    obtain evs g3 where bd: "build_decision cfg ct i wfl facts (g\<lparr> eg_draws := Suc (eg_draws g) \<rparr>) = (Inr evs, g3)"
      using build_decision_total [OF facts(3)] by blast
    note spec = build_decision_spec [OF bd]
    have g3: "eg_store g3 = eg_store g" "eg_io g3 = []" "eg_appends g3 = eg_appends g" "eg_draws g \<le> eg_draws g3"
      "length evs = length facts" "map ed_event_id evs = map (en_fresh cfg) [Suc (eg_draws g) ..< eg_draws g3]"
      using spec Suc.prems(3) by (auto dest: list_all2_lengthD)
    obtain r4 g4 where r4: "engine_append cfg (ct_subject ct) i (stream_head es) evs g3 = (r4, g4)"
      by fastforce
    have result: "append_attempts_left cfg ct i decide (Suc n) last_conflict g = (case r4 of
                Inr wr \<Rightarrow> (Inr \<lparr> er_position = wr_position wr, er_workflow_id = wfl \<rparr>,
                                fold_batch cfg False (ct_subject ct) i wr evs g4)
              | Inl (Rejected (ConflictError want actual)) \<Rightarrow>
                  append_attempts_left cfg ct i decide n (Some (ConflictError want actual)) (snd (draw_id cfg g4))
              | Inl err \<Rightarrow> (Inl err, g4))"
      using read agg facts(1) False bd r4
      by (auto simp: draw_id_def wfl_def neq_Nil_conv split: sum.splits engine_error.splits append_error.splits)
    have ready: "engine_ready cfg (Suc n * (extra + k)) g3"
      using Suc.prems(1) g3(1) by (simp add: engine_ready_def)
    have len: "extra + length evs + n * (extra + k) \<le> Suc n * (extra + k)" using g3(5) facts(2) by simp
    obtain s other where s: "s = en_rivals cfg (eg_appends g3) (eg_store g3)" "log_inv s"
      "global_log s = rows_of g3 @ other"
      "\<forall>row \<in> set other. re_event_id row \<notin> range (en_fresh cfg)" "engine_frame g3 g4"
      "eg_appends g4 = Suc (eg_appends g3)" "engine_ready cfg (n * (extra + k)) g4"
      and out: "eg_store g4 = s \<and> (\<exists>err. r4 = Inl (Rejected err) \<and>
           append_to_stream (ct_subject ct) i (stream_head es) evs s = (Inl err, s)) \<or> (\<exists>wr. r4 = Inr wr)"
      using engine_append_cases [OF ready fair len r4] g3(2) by metis
    show ?thesis
    proof (cases "\<exists>wr. r4 = Inr wr")
      case True
      then show ?thesis using result by auto
    next
      case refused: False
      then obtain err where err: "r4 = Inl (Rejected err)" "eg_store g4 = s"
        "append_to_stream (ct_subject ct) i (stream_head es) evs s = (Inl err, s)" using out by auto
      have fresh: "ids_fresh (global_log s) evs"
        using s(3) g3 by (intro decided_ids_fresh [OF Suc.prems(2) g3(6) _ _ s(4)]) auto
      have "{Suc (eg_draws g) ..< eg_draws g3} \<subseteq> {Suc (eg_draws g) ..< Suc (eg_draws g) + k}"
        using spec facts(2) by auto
      then have dist: "distinct (map ed_event_id evs)"
        using draws g3(6) unfolding distinct_draws_def by (metis distinct_map distinct_upt inj_on_subset set_upt)
      have "evs \<noteq> []" using g3(5) False by auto
      then obtain want actual where conflict: "err = ConflictError want actual"
        "\<not> state_matches (stream_head es) (last_revision (global_log s) (ct_subject ct, i))"
        using fresh_append_outcome [OF s(2) _ dist fresh, of "ct_subject ct" i "stream_head es"] err(3) by auto
      have "q \<noteq> 0"
      proof
        assume "q = 0"
        then have "stream_rows (global_log s) (ct_subject ct, i) = es"
          using Suc.prems(5) s(1) g3(1,3) by (simp add: quiet_call_def es_def)
        then show False using conflict(2) by (auto simp: last_revision_def stream_head_def split: if_splits)
      qed
      then obtain p where p: "q = Suc p" by (cases q) auto
      let ?g = "snd (draw_id cfg g4)"
      have ro: "rivals_only cfg (rows_of g) (rows_of ?g)"
        using err(2) s(3,4) g3(1) by (auto simp: rivals_only_def draw_id_def)
      have "unused_ids cfg ?g"
        by (rule unused_ids_grow [OF Suc.prems(2) ro]) (use s(5) g3(4) in \<open>simp add: draw_id_def engine_frame_def\<close>)
      moreover have "engine_ready cfg (n * (extra + k)) ?g" "eg_io ?g = []" "eg_appends ?g = Suc (eg_appends g)"
        using s(5-7) g3(2,3) by (simp_all add: draw_id_def engine_ready_def engine_frame_def)
      ultimately have "\<exists>r g'. append_attempts_left cfg ct i decide n (Some err) ?g = (Inr r, g')"
        using Suc.IH [of ?g p] Suc.prems(4,5) p by simp
      then show ?thesis using result err(1) conflict(1) by simp
    qed
  qed
qed simp

section \<open>A contended command\<close>

text \<open>A counter whose command appends the next number, and a rival that writes to the same stream
  between the first read and the first append.\<close>

definition tally_type :: "(nat, nat) command_type" where
  "tally_type =
     \<lparr> ct_name = ''counted'', ct_subject = ''tally'',
       ct_decode = (\<lambda>p. case p of JNumber (JPosInt n) \<Rightarrow> Inr (unat n) | _ \<Rightarrow> Inr 0),
       ct_encode = (\<lambda>n. Inr (JNumber (JPosInt (of_nat n)))), ct_subject_id = (\<lambda>_. 7),
       ct_occurred_at = (\<lambda>_. None), ct_default = 0, ct_apply = (\<lambda>n so_far. so_far + n) \<rparr>"

definition next_number :: "nat \<Rightarrow> string + nat list" where
  "next_number so_far = Inr [so_far + 1]"

definition rival_event :: event_data where
  "rival_event =
     \<lparr> ed_event_id = 5, ed_causation_id = None, ed_workflow_id = 3, ed_event_type = ''counted'',
       ed_payload = JNumber (JPosInt 40), ed_created_at = 0, ed_category = Some ''tally'',
       ed_subject_id = Some 7, ed_metadata = [], ed_ephemeral = None, ed_persistent = True \<rparr>"

definition sample_engine_config :: engine_config where
  "sample_engine_config =
     \<lparr> en_log = memory_backend, en_codec = sample_codec, en_v5 = (\<lambda>_ i. i), en_default_metadata = [],
       en_occ = [''counted''], en_observer = False, en_snapshots = None, en_snapshot_every = 0,
       en_clock = (\<lambda>n. int n), en_fresh = (\<lambda>n. 2 * of_nat n),
       en_rivals = (\<lambda>n s. if n = 0 then snd (append_to_stream ''tally'' 7 AnyState [rival_event] s) else s) \<rparr>"

definition sample_engine :: "nat engine" where
  "sample_engine =
     \<lparr> eg_store = memory_store_new, eg_registry = None, eg_cancelled = [], eg_io = [], eg_ticks = 0,
       eg_draws = 0, eg_appends = 0 \<rparr>"

lemma sample_ready: "engine_ready sample_engine_config 64 sample_engine"
proof -
  have "global_log memory_store_new = []" by (simp add: memory_store_new_def)
  then show ?thesis
    by (simp add: engine_ready_def sample_engine_config_def sample_engine_def our_snapshots_def log_inv_new
        log_room_def)
qed

lemma even_not_five: "2 * w \<noteq> (5 :: uuid)"
proof
  assume "2 * w = 5"
  then have "even (5 :: uuid)" by (metis dvd_triv_left)
  then show False by simp
qed

lemma sample_rivals: "rivals_fair sample_engine_config 1"
  unfolding rivals_fair_def
proof (intro allI impI)
  fix n s
  assume inv: "log_inv s" and room: "log_room 1 s"
  obtain res s' where app: "append_to_stream ''tally'' 7 AnyState [rival_event] s = (res, s')" by fastforce
  have "log_inv s'" using append_inv [of s "[rival_event]" "''tally''" 7 AnyState] inv room app by simp
  moreover have "\<exists>new. global_log s' = global_log s @ new \<and> length new \<le> 1 \<and>
      (\<forall>row \<in> set new. re_event_id row = 5)"
  proof (cases res)
    case (Inl err)
    then show ?thesis using append_error_unchanged app by fastforce
  next
    case (Inr r)
    then show ?thesis
      using append_ok_mem [OF inv, of "''tally''" 7 AnyState "[rival_event]" r s'] app
      by (fastforce simp: list_all2_Cons1 same_row_def rival_event_def)
  qed
  ultimately show "log_inv (en_rivals sample_engine_config n s) \<and>
      (\<exists>new. global_log (en_rivals sample_engine_config n s) = global_log s @ new \<and> length new \<le> 1 \<and>
         (\<forall>row \<in> set new. re_event_id row \<notin> range (en_fresh sample_engine_config)))"
    using inv app even_not_five by (fastforce simp: sample_engine_config_def)
qed

lemma sample_unused: "unused_ids sample_engine_config sample_engine"
  by (simp add: unused_ids_def sample_engine_def memory_store_new_def)

lemma sample_decidable: "decidable tally_type 7 1 next_number"
  unfolding decidable_def
  by (auto simp: tally_type_def next_number_def split: json.split jnum.split)

section \<open>Properties\<close>

text \<open>C10: a command whose result is \<open>Ok\<close> was decided on its stream as it stands in the log directly before
  the decision: the state handed to \<open>decide\<close> is the fold of exactly those rows, however many other
  writers came between the reads and the appends, and the decision's rows follow in one piece, in
  order, under one workflow, with the position of the last one returned. A command that fails left
  nothing of its own in the log, unless the failure was the loss of the answer to the append that
  landed the whole decision.\<close>

theorem command_decides_on_current_stream:
  assumes "engine_ready cfg (16 * (extra + k)) g" "rivals_fair cfg extra" "unused_ids cfg g"
    and "\<And>agg facts. decide agg = Inr facts \<Longrightarrow> length facts \<le> k"
    and "append_command cfg ct i decide g = (res, g')"
  shows "case res of
      Inr r \<Rightarrow> command_landed cfg ct i decide (er_workflow_id r) (er_position r) (rows_of g) (rows_of g')
    | Inl err \<Rightarrow> rivals_only cfg (rows_of g) (rows_of g') \<or>
        err = Unavailable \<and> (\<exists>wfl pos. command_landed cfg ct i decide wfl pos (rows_of g) (rows_of g'))"
  using append_attempts_outcome [of cfg max_occ_retries extra k g decide ct i None res g'] assms
  by (simp add: max_occ_retries_def append_command_def)

theorem command_decides_on_current_stream_witness:
  "\<exists>r g'. append_command sample_engine_config tally_type 7 next_number sample_engine = (Inr r, g') \<and>
     map re_payload (rows_of g') = [JNumber (JPosInt 40), JNumber (JPosInt 41)] \<and>
     command_landed sample_engine_config tally_type 7 next_number (er_workflow_id r) (er_position r)
       (rows_of sample_engine) (rows_of g')"
proof -
  obtain res g' where run: "append_command sample_engine_config tally_type 7 next_number sample_engine = (res, g')"
    by fastforce
  have "case append_command sample_engine_config tally_type 7 next_number sample_engine of
      (r, g) \<Rightarrow> \<not> isl r \<and> map re_payload (rows_of g) = [JNumber (JPosInt 40), JNumber (JPosInt 41)]"
    by code_simp
  then obtain r where r: "res = Inr r" "map re_payload (rows_of g') = [JNumber (JPosInt 40), JNumber (JPosInt 41)]"
    using run by (cases res) auto
  have "engine_ready sample_engine_config (16 * (1 + 1)) sample_engine"
    using sample_ready by (auto simp: engine_ready_def intro: log_room_less)
  then show ?thesis
    using command_decides_on_current_stream [of sample_engine_config 1 1, OF _ sample_rivals sample_unused _ run]
      r run by (fastforce simp: next_number_def)
qed

text \<open>Contention alone defeats a command only when it lasts: while the log works and the decision can
  be taken and written down, it is enough that in front of one of the sixteen append calls no other
  writer touches the stream, and the command returns \<open>Ok\<close>.\<close>

lemma command_outlasts_contention:
  assumes "engine_ready cfg (16 * (extra + k)) g" "rivals_fair cfg extra" "unused_ids cfg g"
    and "distinct_draws cfg k" "eg_io g = []" "decidable ct i k decide"
    and "q < 16" "quiet_call cfg ct i (eg_appends g + q)"
  shows "\<exists>r g'. append_command cfg ct i decide g = (Inr r, g')"
  using append_attempts_return [of cfg max_occ_retries extra k g q ct i decide] assms
  by (simp add: max_occ_retries_def append_command_def)


lemma command_outlasts_contention_witness:
  "\<exists>r g'. append_command sample_engine_config tally_type 7 next_number sample_engine = (Inr r, g')"
proof (rule command_outlasts_contention [where q = 1])
  show "engine_ready sample_engine_config (16 * (1 + 1)) sample_engine"
    using sample_ready by (auto simp: engine_ready_def intro: log_room_less)
  show "rivals_fair sample_engine_config 1" "unused_ids sample_engine_config sample_engine"
    "decidable tally_type 7 1 next_number"
    by (rule sample_rivals sample_unused sample_decidable)+
  show "distinct_draws sample_engine_config 1" by (simp add: distinct_draws_def)
  show "eg_io sample_engine = []" by (simp add: sample_engine_def)
  show "quiet_call sample_engine_config tally_type 7 (eg_appends sample_engine + 1)"
    by (simp add: quiet_call_def sample_engine_config_def sample_engine_def)
qed simp

end
