(* ===== verification/Engine_Emit.thy ===== *)
theory Engine_Emit
  imports Engine_Commands
begin

text \<open>
  The emit path: what of a batch is in the log when \<open>emit\<close> returns, and what the caller-supplied
  \<open>event_id\<close> gives a caller that repeats an emit; and the cancel marker, which rests on the same
  deduplication.
\<close>

section \<open>Validation\<close>

definition pending_of ::
  "engine_config \<Rightarrow> emit_builder \<Rightarrow> uuid \<Rightarrow> erased_fact \<Rightarrow> pending_emit \<Rightarrow> bool" where
  "pending_of cfg b wfl f p \<longleftrightarrow>
     ef_name f \<notin> set (en_occ cfg) \<and> pe_subject p = ef_subject f \<and> pe_subject_id p = ef_subject_id f \<and>
     ed_event_type (pe_event p) = ef_name f \<and> ef_value f = Inr (ed_payload (pe_event p)) \<and>
     ed_workflow_id (pe_event p) = wfl \<and> ed_causation_id (pe_event p) = eb_causation_id b \<and>
     (\<forall>i. eb_event_id b = Some i \<longrightarrow> ed_event_id (pe_event p) = i)"

definition quiet_step :: "'a engine \<Rightarrow> 'a engine \<Rightarrow> bool" where
  "quiet_step g g' \<longleftrightarrow>
     eg_store g' = eg_store g \<and> eg_appends g' = eg_appends g \<and> eg_io g' = eg_io g \<and>
     eg_registry g' = eg_registry g \<and> eg_cancelled g' = eg_cancelled g \<and> eg_draws g \<le> eg_draws g'"

lemma quiet_step_refl [simp]: "quiet_step g g"
  by (simp add: quiet_step_def)

lemma quiet_step_trans: "quiet_step g g' \<Longrightarrow> quiet_step g' g'' \<Longrightarrow> quiet_step g g''"
  by (simp add: quiet_step_def)

lemma quiet_step_ready: "quiet_step g g' \<Longrightarrow> engine_ready cfg m g \<Longrightarrow> engine_ready cfg m g'"
  by (simp add: quiet_step_def engine_ready_def)

lemma given_or_fresh_quiet: "given_or_fresh cfg t g = (x, g') \<Longrightarrow> quiet_step g g'"
  by (auto simp: given_or_fresh_def draw_id_def quiet_step_def split: option.splits)

lemma occurred_or_now_quiet: "occurred_or_now cfg t g = (x, g') \<Longrightarrow> quiet_step g g'"
  by (auto simp: occurred_or_now_def engine_clock_def quiet_step_def split: option.splits)

definition store_untouched :: "engine_error \<Rightarrow> bool" where
  "store_untouched err \<longleftrightarrow> (case err of Rejected _ \<Rightarrow> False | Unavailable \<Rightarrow> False | _ \<Rightarrow> True)"

lemma resolve_workflow_quiet:
  assumes "resolve_workflow cfg b g = (res, g')"
  shows "quiet_step g g'" and "res = Inl err \<Longrightarrow> store_untouched err"
  using assms given_or_fresh_quiet [of cfg "eb_workflow_id b" g]
  by (auto simp: resolve_workflow_def Let_def store_untouched_def split: option.splits prod.splits if_splits)

lemma build_pending_spec:
  assumes "build_pending cfg b wfl fs g = (res, g')"
  shows "quiet_step g g' \<and>
     (case res of Inr ps \<Rightarrow> list_all2 (pending_of cfg b wfl) fs ps | Inl err \<Rightarrow> store_untouched err)"
  using assms
proof (induction fs arbitrary: g g' res)
  case (Cons f fs)
  obtain t g1 where t: "occurred_or_now cfg (ef_occurred_at f) g = (t, g1)" by fastforce
  obtain i g2 where i: "given_or_fresh cfg (eb_event_id b) g1 = (i, g2)" by fastforce
  obtain r3 g3 where r3: "build_pending cfg b wfl fs g2 = (r3, g3)" by fastforce
  note quiet = occurred_or_now_quiet [OF t] given_or_fresh_quiet [OF i] Cons.IH [OF r3, THEN conjunct1]
  have id: "eb_event_id b = Some j \<Longrightarrow> i = j" for j using i by (simp add: given_or_fresh_def)
  define p where "p payload = \<lparr> pe_subject = ef_subject f, pe_subject_id = ef_subject_id f,
      pe_event = \<lparr> ed_event_id = i, ed_causation_id = eb_causation_id b, ed_workflow_id = wfl,
                   ed_event_type = ef_name f, ed_payload = payload, ed_created_at = t,
                   ed_category = Some (ef_subject f), ed_subject_id = Some (ef_subject_id f),
                   ed_metadata = merged_metadata cfg b, ed_ephemeral = None, ed_persistent = True \<rparr> \<rparr>" for payload
  have head: "ef_name f \<notin> set (en_occ cfg) \<Longrightarrow> ef_value f = Inr payload \<Longrightarrow> pending_of cfg b wfl f (p payload)"
    for payload by (simp add: pending_of_def p_def id)
  have "build_pending cfg b wfl (f # fs) g = (if ef_name f \<in> set (en_occ cfg) then (Inl (OccRequired (ef_name f)), g)
      else case ef_value f of
        Inl m \<Rightarrow> (Inl (Unserializable m), g1)
      | Inr payload \<Rightarrow>
          (case r3 of Inl err \<Rightarrow> (Inl err, g3) | Inr ps \<Rightarrow> (Inr (p payload # ps), g3)))"
    by (simp add: t i r3 p_def Let_def split: sum.split)
  then show ?case
    using Cons.prems Cons.IH [OF r3] quiet head quiet_step_trans [OF quiet(1) quiet_step_trans [OF quiet(2,3)]]
    by (auto simp: store_untouched_def split: if_splits sum.splits)
qed simp

section \<open>Runs\<close>

fun emit_groups :: "pending_emit list \<Rightarrow> pending_emit list list" where
  "emit_groups [] = []"
| "emit_groups (p # ps) = (p # takeWhile (same_target p) ps) # emit_groups (dropWhile (same_target p) ps)"

lemma concat_emit_groups [simp]: "concat (emit_groups ps) = ps"
  by (induction ps rule: emit_groups.induct) simp_all

text \<open>Runs in the log: each one whole, in order, rivals' rows between them. A run whose last id was
  in the log already is recognised, fact by fact.\<close>

definition run_rows :: "pending_emit list \<Rightarrow> recorded_event list \<Rightarrow> bool" where
  "run_rows r new \<longleftrightarrow> list_all2 (\<lambda>p row. same_row (pe_subject p) (pe_subject_id p) (pe_event p) row) r new"

inductive runs_landed ::
  "engine_config \<Rightarrow> recorded_event list \<Rightarrow> pending_emit list list \<Rightarrow> recorded_event list \<Rightarrow> bool" for cfg where
  no_run: "rivals_only cfg rows rows' \<Longrightarrow> runs_landed cfg rows [] rows'"
| run_new: "rivals_only cfg rows mid \<Longrightarrow> run_rows r new \<Longrightarrow> runs_landed cfg (mid @ new) rs rows' \<Longrightarrow>
     runs_landed cfg rows (r # rs) rows'"
| run_old: "rivals_only cfg rows mid \<Longrightarrow>
     \<forall>p \<in> set r. \<exists>row \<in> set mid. same_row (pe_subject p) (pe_subject_id p) (pe_event p) row \<Longrightarrow>
     runs_landed cfg mid rs rows' \<Longrightarrow> runs_landed cfg rows (r # rs) rows'"

lemma run_rows_map:
  assumes "\<forall>q \<in> set r. same_target p q"
    "list_all2 (same_row (pe_subject p) (pe_subject_id p)) (map pe_event r) new"
  shows "run_rows r new"
proof -
  have "list_all2 (\<lambda>q row. same_row (pe_subject p) (pe_subject_id p) (pe_event q) row) r new"
    using assms(2) by (simp add: list.rel_map)
  then show ?thesis
    unfolding run_rows_def by (rule list.rel_mono_strong) (use assms(1) in simp)
qed

lemma takeWhile_target: "\<forall>q \<in> set (p # takeWhile (same_target p) ps). same_target p q"
  by (auto dest: set_takeWhileD)

lemma one_run:
  assumes ready: "engine_ready cfg m g" and fair: "rivals_fair cfg extra" and m: "extra + length r + k \<le> m"
    and target: "\<forall>q \<in> set r. same_target p q"
    and app: "engine_append cfg (pe_subject p) (pe_subject_id p) AnyState (map pe_event r) g = (res, g1)"
  shows "engine_ready cfg k g1"
    and "case res of
      Inr _ \<Rightarrow> runs_landed cfg (rows_of g1) rs rows' \<longrightarrow> runs_landed cfg (rows_of g) (r # rs) rows'
    | Inl err \<Rightarrow> \<not> store_untouched err \<and>
        (rivals_only cfg (rows_of g) (rows_of g1) \<or>
         err = Unavailable \<and> runs_landed cfg (rows_of g) [r] (rows_of g1))"
proof -
  let ?es = "map pe_event r"
  have len: "extra + length ?es + k \<le> m" using m by simp
  obtain s other where s: "log_inv s" "global_log s = rows_of g @ other"
    "\<forall>row \<in> set other. re_event_id row \<notin> range (en_fresh cfg)" "engine_ready cfg k g1"
    and out: "eg_store g1 = s \<and> isl res \<or>
      (\<exists>wr. append_to_stream (pe_subject p) (pe_subject_id p) AnyState ?es s = (Inr wr, eg_store g1) \<and>
         (res = Inr wr \<or> res = Inl Unavailable))"
    using engine_append_cases [OF ready fair len app] by metis
  show "engine_ready cfg k g1" by fact
  have err: "\<not> store_untouched err" if "res = Inl err" for err
    using app that by (auto simp: engine_append_def store_untouched_def split: prod.splits option.splits sum.splits)
  have mid: "rivals_only cfg (rows_of g) (global_log s)" using s(2,3) by (auto simp: rivals_only_def)
  have landed: "runs_landed cfg (rows_of g) (r # rs') rows''"
    if wr: "append_to_stream (pe_subject p) (pe_subject_id p) AnyState ?es s = (Inr wr, eg_store g1)"
      and later: "runs_landed cfg (rows_of g1) rs' rows''" for wr rs' rows''
    using append_ok_mem [OF s(1) wr]
  proof
    assume old: "eg_store g1 = s \<and> ?es \<noteq> [] \<and> distinct (map ed_event_id ?es) \<and>
        batch_persisted (global_log s) (pe_subject p) (pe_subject_id p) ?es"
    then have "\<forall>q \<in> set r. \<exists>row \<in> set (global_log s). same_row (pe_subject q) (pe_subject_id q) (pe_event q) row"
      using target by (simp add: batch_persisted_def)
    then show ?thesis using run_old [OF mid] later old by simp
  next
    assume "\<exists>new. rows_of g1 = global_log s @ new \<and> ?es \<noteq> [] \<and> distinct (map ed_event_id ?es) \<and>
        list_all2 (same_row (pe_subject p) (pe_subject_id p)) ?es new \<and> ids_fresh (global_log s) ?es \<and>
        state_matches AnyState (last_revision (global_log s) (pe_subject p, pe_subject_id p))"
    then obtain new where "rows_of g1 = global_log s @ new" "run_rows r new"
      using run_rows_map [OF target] by blast
    then show ?thesis using run_new [OF mid] later by simp
  qed
  show "case res of
      Inr _ \<Rightarrow> runs_landed cfg (rows_of g1) rs rows' \<longrightarrow> runs_landed cfg (rows_of g) (r # rs) rows'
    | Inl err \<Rightarrow> \<not> store_untouched err \<and>
        (rivals_only cfg (rows_of g) (rows_of g1) \<or>
         err = Unavailable \<and> runs_landed cfg (rows_of g) [r] (rows_of g1))"
    using out mid err landed [where rs' = rs] landed [where rs' = "[]"] no_run [OF rivals_only_refl]
    by (cases res) auto
qed

lemma emit_runs_outcome:
  assumes "engine_ready cfg (length ps * (extra + 1)) g" "rivals_fair cfg extra"
    and "emit_runs cfg pos ps g = (res, g')"
  shows "case res of
      Inr _ \<Rightarrow> runs_landed cfg (rows_of g) (emit_groups ps) (rows_of g')
    | Inl err \<Rightarrow> \<not> store_untouched err \<and>
        (\<exists>k \<le> length (emit_groups ps). runs_landed cfg (rows_of g) (take k (emit_groups ps)) (rows_of g') \<and>
           (err \<noteq> Unavailable \<longrightarrow> k < length (emit_groups ps)))"
  using assms
proof (induction cfg pos ps g rule: emit_runs.induct)
  case (1 cfg last_position g)
  then show ?case by (auto intro!: no_run)
next
  case (2 cfg last_position p ps g)
  define r where "r = p # takeWhile (same_target p) ps"
  define later where "later = dropWhile (same_target p) ps"
  obtain r1 g1 where r1: "engine_append cfg (pe_subject p) (pe_subject_id p) AnyState (map pe_event r) g = (r1, g1)"
    by fastforce
  have "length ps = length (takeWhile (same_target p) ps) + length later"
    unfolding later_def by (metis length_append takeWhile_dropWhile_id)
  then have room: "extra + length r + length later * (extra + 1) \<le> length (p # ps) * (extra + 1)"
    by (simp add: r_def algebra_simps)
  have target: "\<forall>q \<in> set r. same_target p q" unfolding r_def by (rule takeWhile_target)
  note run = one_run [OF "2.prems"(1,2) room target r1]
  have snaps: "our_snapshots (en_snapshots cfg)" using "2.prems"(1) by (simp add: engine_ready_def)
  have groups: "emit_groups (p # ps) = r # emit_groups later" by (simp add: r_def later_def)
  show ?case
  proof (cases r1)
    case (Inl err)
    then have "res = Inl err" "g' = g1" using "2.prems"(3) r1 by (simp_all add: r_def Let_def)
    then show ?thesis
      using run(2) Inl groups no_run by (fastforce intro: exI [of _ 0] exI [of _ 1])
  next
    case (Inr wr)
    define g2 where "g2 = fold_batch cfg True (pe_subject p) (pe_subject_id p) wr (map pe_event r) g1"
    have warm: "engine_ready cfg (length later * (extra + 1)) g2" "rows_of g2 = rows_of g1"
      unfolding g2_def by (rule fold_frame_ready [OF fold_batch_frame [OF snaps] run(1)])+
    have rest: "emit_runs cfg (wr_position wr) later g2 = (res, g')"
      using "2.prems"(3) r1 Inr by (simp add: r_def later_def g2_def Let_def)
    have chunk: "map pe_event r = map pe_event (p # takeWhile (same_target p) ps)" by (simp only: r_def)
    note ih = "2.IH" [OF chunk r1 [symmetric] Inr, folded later_def g2_def, OF warm(1) "2.prems"(2) rest]
    have next_run: "runs_landed cfg (rows_of g2) rs rows' \<Longrightarrow> runs_landed cfg (rows_of g) (r # rs) rows'"
      for rs rows' using one_run(2) [OF "2.prems"(1,2) room target r1, of rs rows'] Inr warm(2) by simp
    show ?thesis
    proof (cases res)
      case (Inl err)
      then obtain k where k: "\<not> store_untouched err" "k \<le> length (emit_groups later)"
        "runs_landed cfg (rows_of g2) (take k (emit_groups later)) (rows_of g')"
        "err \<noteq> Unavailable \<longrightarrow> k < length (emit_groups later)" using ih by auto
      then show ?thesis
        using Inl groups next_run [OF k(3)] by (auto intro!: exI [of _ "Suc k"])
    next
      case ended: (Inr pos)
      then show ?thesis using ih groups next_run by simp
    qed
  qed
qed

section \<open>A repeated emit\<close>

text \<open>The workflow of a single-fact emit when it does not depend on a draw: the fact's own, or the
  caller's.\<close>

definition pinned_workflow :: "emit_builder \<Rightarrow> erased_fact \<Rightarrow> uuid option" where
  "pinned_workflow b f =
     (case ef_workflow f of
        Some w \<Rightarrow> (case eb_workflow_id b of None \<Rightarrow> Some w | Some _ \<Rightarrow> None)
      | None \<Rightarrow> eb_workflow_id b)"

text \<open>What every row that carries the supplied id must look like, and the rivals' part in it.\<close>

definition emitted_row :: "emit_builder \<Rightarrow> erased_fact \<Rightarrow> uuid \<Rightarrow> recorded_event \<Rightarrow> bool" where
  "emitted_row b f wfl row \<longleftrightarrow>
     ef_value f = Inr (re_payload row) \<and> re_event_type row = ef_name f \<and> re_workflow_id row = wfl \<and>
     re_causation_id row = eb_causation_id b \<and> row_key row = (ef_subject f, ef_subject_id f)"

definition id_owned :: "uuid \<Rightarrow> (recorded_event \<Rightarrow> bool) \<Rightarrow> memory_store \<Rightarrow> bool" where
  "id_owned i P s \<longleftrightarrow> (\<forall>row \<in> set (global_log s). re_event_id row = i \<longrightarrow> P row)"

definition rivals_respect :: "engine_config \<Rightarrow> uuid \<Rightarrow> (recorded_event \<Rightarrow> bool) \<Rightarrow> bool" where
  "rivals_respect cfg i P \<longleftrightarrow>
     (\<forall>n s. log_inv s \<longrightarrow> id_owned i P s \<longrightarrow> id_owned i P (en_rivals cfg n s))"

lemma resolved_emit:
  assumes b: "eb_facts b = [f]" "eb_event_id b = Some i"
    and res: "resolve_workflow cfg b g = (Inr wfl, g0)"
    and f: "ef_name f \<notin> set (en_occ cfg)" "ef_value f = Inr v"
  shows "\<exists>ev g1. quiet_step g0 g1 \<and> eg_draws g1 = eg_draws g0 \<and> ed_event_id ev = i \<and>
      (\<forall>row. same_row (ef_subject f) (ef_subject_id f) ev row \<longleftrightarrow> re_event_id row = i \<and> emitted_row b f wfl row) \<and>
      execute_emit cfg b g =
        (case engine_append cfg (ef_subject f) (ef_subject_id f) AnyState [ev] g1 of
           (Inl err, g2) \<Rightarrow> (Inl err, g2)
         | (Inr wr, g2) \<Rightarrow>
             (Inr \<lparr> er_position = wr_position wr, er_workflow_id = wfl \<rparr>,
              fold_batch cfg True (ef_subject f) (ef_subject_id f) wr [ev] g2))"
proof -
  obtain t g1 where t: "occurred_or_now cfg (ef_occurred_at f) g0 = (t, g1)" by fastforce
  define ev where "ev = \<lparr> ed_event_id = i, ed_causation_id = eb_causation_id b, ed_workflow_id = wfl,
      ed_event_type = ef_name f, ed_payload = v, ed_created_at = t, ed_category = Some (ef_subject f),
      ed_subject_id = Some (ef_subject_id f), ed_metadata = merged_metadata cfg b, ed_ephemeral = None,
      ed_persistent = True \<rparr>"
  have pend: "build_pending cfg b wfl [f] g0 =
      (Inr [\<lparr> pe_subject = ef_subject f, pe_subject_id = ef_subject_id f, pe_event = ev \<rparr>], g1)"
    using b f t by (simp add: given_or_fresh_def ev_def)
  have "execute_emit cfg b g =
        (case engine_append cfg (ef_subject f) (ef_subject_id f) AnyState [ev] g1 of
           (Inl err, g2) \<Rightarrow> (Inl err, g2)
         | (Inr wr, g2) \<Rightarrow>
             (Inr \<lparr> er_position = wr_position wr, er_workflow_id = wfl \<rparr>,
              fold_batch cfg True (ef_subject f) (ef_subject_id f) wr [ev] g2))"
    using b by (simp add: execute_emit_def res pend Let_def del: build_pending.simps split: sum.split prod.split)
  moreover have "same_row (ef_subject f) (ef_subject_id f) ev row \<longleftrightarrow> re_event_id row = i \<and> emitted_row b f wfl row" for row
    using f by (auto simp: same_row_def emitted_row_def ev_def)
  ultimately show ?thesis
    using occurred_or_now_quiet [OF t] occurred_or_now_frame [OF t]
    by (intro exI [of _ ev] exI [of _ g1]) (simp add: ev_def)
qed

lemma pinned_resolves:
  "eb_facts b = [f] \<Longrightarrow> pinned_workflow b f = Some wfl \<Longrightarrow> resolve_workflow cfg b g = (Inr wfl, g)"
  by (auto simp: resolve_workflow_def pinned_workflow_def given_or_fresh_def split: option.splits)

lemma owned_append:
  assumes ready: "engine_ready cfg m g" and fair: "rivals_fair cfg extra" and m: "extra + 1 + k \<le> m"
    and owned: "id_owned i P (eg_store g)" and resp: "rivals_respect cfg i P"
    and ev: "ed_event_id ev = i" "\<And>row. same_row c sid ev row \<longleftrightarrow> re_event_id row = i \<and> P row"
    and app: "engine_append cfg c sid AnyState [ev] g = (res, g')"
  shows "id_owned i P (eg_store g')" "engine_ready cfg k g'" "\<exists>new. rows_of g' = rows_of g @ new"
    and "engine_frame g g'" "eg_io g = [] \<Longrightarrow> \<exists>wr. res = Inr wr"
    and "res = Inr wr \<Longrightarrow> \<exists>row \<in> set (rows_of g'). re_event_id row = i \<and> re_position row = wr_position wr"
proof -
  obtain s other where s: "s = en_rivals cfg (eg_appends g) (eg_store g)" "log_inv s"
    "global_log s = rows_of g @ other" "engine_frame g g'" "engine_ready cfg k g'"
    and out: "eg_store g' = s \<and> isl res \<and> (eg_io g = [] \<longrightarrow> (\<exists>err. append_to_stream c sid AnyState [ev] s = (Inl err, s))) \<or>
      (\<exists>wr. append_to_stream c sid AnyState [ev] s = (Inr wr, eg_store g') \<and>
         (res = Inr wr \<or> res = Inl Unavailable \<and> eg_io g \<noteq> []))"
    using engine_append_cases [OF ready fair _ app, of k] m by (metis One_nat_def length_Cons list.size(3))
  show "engine_ready cfg k g'" "engine_frame g g'" by fact+
  have own: "id_owned i P s" using owned resp s(1) ready by (simp add: rivals_respect_def engine_ready_def)
  have taken: "\<exists>wr s'. append_to_stream c sid AnyState [ev] s = (Inr wr, s') \<and> id_owned i P s' \<and>
      (\<exists>new. global_log s' = global_log s @ new) \<and>
      (\<exists>row \<in> set (global_log s'). re_event_id row = i \<and> re_position row = wr_position wr)"
  proof (cases "i \<in> re_event_id ` set (global_log s)")
    case True
    then obtain row where row: "row \<in> set (global_log s)" "re_event_id row = i" by auto
    then have "batch_persisted (global_log s) c sid [ev]"
      using own ev(2) by (auto simp: batch_persisted_def id_owned_def)
    then show ?thesis
      using append_redelivered [OF s(2), of "[ev]" c sid AnyState] own ev(2)
      by (metis (no_types, lifting) append_Nil2 distinct_singleton last_ConsL list.map(1,2) list.simps(3)
          write_result.select_convs(1))
  next
    case False
    then have none: "hget (li_by_event_id (log_idx s)) (ed_event_id (last [ev])) = None"
      using ev(1) by (simp add: id_index_None [OF s(2)])
    obtain wr s' where app': "append_to_stream c sid AnyState [ev] s = (Inr wr, s')"
      using mem_log.append_fresh [OF s(2), of "[ev]" AnyState c sid] False ev(1)
      by (auto simp: ids_fresh_def memory_backend_def)
    note new = append_new_rows [OF s(2) app' none]
    let ?row = "placed_row c sid (global_position s) (stream_count s (c, sid)) ev"
    have "same_row c sid ev ?row" by (simp add: same_row_def placed_row_def)
    then have "id_owned i P s'" using own new(1) ev(2) by (auto simp: id_owned_def)
    moreover have "re_event_id ?row = i" "re_position ?row = wr_position wr"
      using ev(1) new(6) by (simp_all add: placed_row_def)
    ultimately show ?thesis using app' new(1) by auto
  qed
  then obtain wr s' where t: "append_to_stream c sid AnyState [ev] s = (Inr wr, s')" "id_owned i P s'"
      "\<exists>new. global_log s' = global_log s @ new"
      "\<exists>row \<in> set (global_log s'). re_event_id row = i \<and> re_position row = wr_position wr" by blast
  show "id_owned i P (eg_store g')" using out own t(1,2) by auto
  show "\<exists>new. rows_of g' = rows_of g @ new" using out s(3) t(1,3) by auto
  show "\<exists>wr. res = Inr wr" if "eg_io g = []" using out that t(1) by auto
  show "\<exists>row \<in> set (rows_of g'). re_event_id row = i \<and> re_position row = wr_position wr'" if "res = Inr wr'" for wr'
    using out that t(1,4) by auto
qed

lemma owned_once:
  assumes "log_inv s" "row \<in> set (global_log s)" "re_event_id row = i"
  shows "filter (\<lambda>r. re_event_id r = i) (global_log s) = [row]"
proof -
  have "distinct (map re_event_id rows) \<Longrightarrow> row \<in> set rows \<Longrightarrow> filter (\<lambda>r. re_event_id r = i) rows = [row]" for rows
  proof (induction rows)
    case (Cons x rows)
    show ?case
    proof (cases "re_event_id x = i")
      case True
      then have "x = row" "filter (\<lambda>r. re_event_id r = i) rows = []"
        using Cons.prems assms(3) by (auto simp: filter_empty_conv image_iff)
      then show ?thesis using True by simp
    next
      case False
      then show ?thesis using Cons assms(3) by auto
    qed
  qed simp
  then show ?thesis using log_inv_distinct_ids [OF assms(1)] assms(2) by blast
qed

text \<open>One guarded emit of a single fact: the owned id is kept, and \<open>Ok\<close> is its row's position.\<close>

lemma guarded_emit:
  assumes ready: "engine_ready cfg m g" and fair: "rivals_fair cfg extra" and m: "extra + 1 + k \<le> m"
    and owned: "id_owned i (emitted_row b f wfl) (eg_store g)" and resp: "rivals_respect cfg i (emitted_row b f wfl)"
    and b: "eb_facts b = [f]" "eb_event_id b = Some i" "pinned_workflow b f = Some wfl"
    and f: "ef_name f \<notin> set (en_occ cfg)" "ef_value f = Inr v"
    and run: "execute_emit cfg b g = (res, g')"
  shows "id_owned i (emitted_row b f wfl) (eg_store g')" "engine_ready cfg k g'"
    "\<exists>new. rows_of g' = rows_of g @ new" "eg_io g = [] \<Longrightarrow> \<exists>r. res = Inr r"
    and "res = Inr r \<Longrightarrow> er_workflow_id r = wfl \<and>
      (\<exists>row \<in> set (rows_of g'). re_event_id row = i \<and> re_position row = er_position r)"
proof -
  obtain ev g1 where q: "quiet_step g g1" "ed_event_id ev = i"
    "\<And>row. same_row (ef_subject f) (ef_subject_id f) ev row \<longleftrightarrow> re_event_id row = i \<and> emitted_row b f wfl row"
    and ex: "execute_emit cfg b g =
        (case engine_append cfg (ef_subject f) (ef_subject_id f) AnyState [ev] g1 of
           (Inl err, g2) \<Rightarrow> (Inl err, g2)
         | (Inr wr, g2) \<Rightarrow>
             (Inr \<lparr> er_position = wr_position wr, er_workflow_id = wfl \<rparr>,
              fold_batch cfg True (ef_subject f) (ef_subject_id f) wr [ev] g2))"
    using resolved_emit [OF b(1,2) pinned_resolves [OF b(1,3)] f] by blast
  obtain x g2 where x: "engine_append cfg (ef_subject f) (ef_subject_id f) AnyState [ev] g1 = (x, g2)" by fastforce
  have own1: "id_owned i (emitted_row b f wfl) (eg_store g1)" using owned q(1) by (simp add: quiet_step_def)
  note o = owned_append [OF quiet_step_ready [OF q(1) ready] fair m own1 resp q(2,3) x]
  have snaps: "our_snapshots (en_snapshots cfg)" using ready by (simp add: engine_ready_def)
  have same: "rows_of g' = rows_of g2" "engine_ready cfg k g'"
    using run ex x o(2) fold_frame_ready [OF fold_batch_frame [OF snaps] o(2)]
    by (auto simp del: fold_batch.simps split: sum.splits)
  show "id_owned i (emitted_row b f wfl) (eg_store g')" using o(1) same(1) by (simp add: id_owned_def)
  show "engine_ready cfg k g'" by fact
  show "\<exists>new. rows_of g' = rows_of g @ new" using o(3) same(1) q(1) by (simp add: quiet_step_def)
  show "\<exists>r. res = Inr r" if "eg_io g = []"
    using o(5) that q(1) run ex x by (auto simp: quiet_step_def)
  show "er_workflow_id r = wfl \<and>
      (\<exists>row \<in> set (rows_of g'). re_event_id row = i \<and> re_position row = er_position r)" if "res = Inr r"
    using o(6) that run ex x same(1) by (auto split: sum.splits)
qed

section \<open>Samples\<close>

definition noted :: "string \<Rightarrow> u64 \<Rightarrow> erased_fact" where
  "noted subject n =
     \<lparr> ef_name = ''noted'', ef_subject = subject, ef_subject_id = 2, ef_occurred_at = None,
       ef_workflow = None, ef_value = Inr (JNumber (JPosInt n)) \<rparr>"

lemma sample_respect: "i \<noteq> 5 \<Longrightarrow> rivals_respect sample_engine_config i P"
  unfolding rivals_respect_def
proof (intro allI impI)
  fix n s
  assume i: "i \<noteq> 5" and inv: "log_inv s" and owned: "id_owned i P s"
  obtain res s' where app: "append_to_stream ''tally'' 7 AnyState [rival_event] s = (res, s')" by fastforce
  have "id_owned i P s'"
  proof (cases res)
    case (Inl err)
    then show ?thesis using append_error_unchanged app owned by fastforce
  next
    case (Inr r)
    from append_ok_mem [OF inv, of "''tally''" 7 AnyState "[rival_event]" r s']
    show ?thesis using app Inr owned i
      by (auto simp: id_owned_def list_all2_Cons1 same_row_def rival_event_def)
  qed
  then show "id_owned i P (en_rivals sample_engine_config n s)"
    using owned app by (simp add: sample_engine_config_def)
qed

lemma sample_ready_io: "engine_ready sample_engine_config 64 (sample_engine\<lparr> eg_io := fs \<rparr>)"
  using sample_ready by (simp add: engine_ready_def)

lemma sample_ids: "rows_of sample_engine = []"
  by (simp add: sample_engine_def memory_store_new_def)

section \<open>Properties\<close>

text \<open>C12: a batch is validated as a whole before anything is written: an emit that fails otherwise than at
  the log leaves the store exactly as it was. Past that point the consecutive facts of one stream are
  one atomic append: when \<open>emit\<close> returns \<open>Ok\<close> every run of the batch is in the log in one piece and in
  the order of the input, and when it fails the runs that are there are the first ones, each of them
  whole.\<close>

theorem emit_lands_whole_runs:
  assumes "engine_ready cfg (length (eb_facts b) * (extra + 1)) g" "rivals_fair cfg extra"
    and "execute_emit cfg b g = (res, g')"
  shows "case res of
      Inr r \<Rightarrow> \<exists>ps. list_all2 (pending_of cfg b (er_workflow_id r)) (eb_facts b) ps \<and>
                 runs_landed cfg (rows_of g) (emit_groups ps) (rows_of g')
    | Inl err \<Rightarrow>
        if store_untouched err then eg_store g' = eg_store g
        else \<exists>wfl ps k. list_all2 (pending_of cfg b wfl) (eb_facts b) ps \<and> k \<le> length (emit_groups ps) \<and>
               runs_landed cfg (rows_of g) (take k (emit_groups ps)) (rows_of g') \<and>
               (err \<noteq> Unavailable \<longrightarrow> eb_facts b = [] \<or> k < length (emit_groups ps))"
proof (cases "eb_facts b = []")
  case True
  obtain x g1 where x: "engine_latest cfg g = (x, g1)" by fastforce
  note rd = engine_read_frame [OF x [unfolded engine_latest_def]]
  have st: "eg_store g' = eg_store g"
  proof -
    obtain w g2 where w: "given_or_fresh cfg (eb_workflow_id b) g1 = (w, g2)" by fastforce
    have "execute_emit cfg b g = (case x of Inl err \<Rightarrow> (Inl err, g1)
        | Inr position \<Rightarrow> (Inr \<lparr> er_position = position, er_workflow_id = w \<rparr>, g2))"
      by (simp add: execute_emit_def True x w split: sum.split)
    then show ?thesis
      using assms(3) rd(1) given_or_fresh_quiet [OF w] by (auto simp: quiet_step_def split: sum.splits)
  qed
  have none: "runs_landed cfg (rows_of g) [] (rows_of g')" using st no_run [OF rivals_only_refl] by simp
  show ?thesis
  proof (cases res)
    case (Inl err)
    have "\<exists>wfl ps k. list_all2 (pending_of cfg b wfl) (eb_facts b) ps \<and> k \<le> length (emit_groups ps) \<and>
               runs_landed cfg (rows_of g) (take k (emit_groups ps)) (rows_of g') \<and>
               (err \<noteq> Unavailable \<longrightarrow> eb_facts b = [] \<or> k < length (emit_groups ps))"
      using True none by (intro exI [of _ "[]"] exI [of _ 0]) simp
    then show ?thesis using st by (cases "store_untouched err") (simp_all only: Inl sum.case if_True if_False)
  next
    case (Inr r)
    then show ?thesis using True none by (simp only: sum.case) (intro exI [of _ "[]"], simp)
  qed
next
  case False
  obtain x g1 where x: "resolve_workflow cfg b g = (x, g1)" by fastforce
  note rw = resolve_workflow_quiet [OF x]
  show ?thesis
  proof (cases "isl x \<or> eb_event_id b \<noteq> None \<and> 1 < length (eb_facts b)")
    case True
    then show ?thesis
      using assms(3) False x rw
      by (cases x) (auto simp: execute_emit_def quiet_step_def store_untouched_def)
  next
    case ok: False
    then obtain wfl where wfl: "x = Inr wfl" by (cases x) auto
    obtain y g2 where y: "build_pending cfg b wfl (eb_facts b) g1 = (y, g2)" by fastforce
    note bp = build_pending_spec [OF y]
    have quiet: "quiet_step g g2" using quiet_step_trans [OF rw(1)] bp by blast
    show ?thesis
    proof (cases y)
      case (Inl err)
      then have "res = Inl err \<and> g' = g2" using assms(3) False ok x wfl y by (auto simp: execute_emit_def)
      then show ?thesis using bp Inl quiet by (simp add: quiet_step_def)
    next
      case (Inr ps)
      obtain z g3 where z: "emit_runs cfg cursor_zero ps g2 = (z, g3)" by fastforce
      have len: "length ps = length (eb_facts b)" using bp Inr by (auto dest: list_all2_lengthD)
      have "engine_ready cfg (length ps * (extra + 1)) g2"
        using quiet_step_ready [OF quiet] assms(1) len by simp
      note er = emit_runs_outcome [OF this assms(2) z]
      have "res = (case z of Inl err \<Rightarrow> Inl err | Inr pos \<Rightarrow> Inr \<lparr> er_position = pos, er_workflow_id = wfl \<rparr>)" "g' = g3"
        using assms(3) False ok x wfl y Inr z by (auto simp: execute_emit_def split: sum.splits)
      then show ?thesis
        using er bp Inr quiet by (cases z) (auto simp: quiet_step_def)
    qed
  qed
qed

theorem emit_lands_whole_runs_witness:
  "\<exists>g'. execute_emit sample_engine_config (emit_new [noted ''a'' 1, noted ''a'' 2, noted ''b'' 3])
           (sample_engine\<lparr> eg_io := [IoOk, IoFailBefore] \<rparr>) = (Inl Unavailable, g') \<and>
     map re_payload (rows_of g') = [JNumber (JPosInt 40), JNumber (JPosInt 1), JNumber (JPosInt 2)] \<and>
     (\<exists>wfl ps k. list_all2 (pending_of sample_engine_config (emit_new [noted ''a'' 1, noted ''a'' 2, noted ''b'' 3]) wfl)
          [noted ''a'' 1, noted ''a'' 2, noted ''b'' 3] ps \<and>
        runs_landed sample_engine_config [] (take k (emit_groups ps)) (rows_of g'))"
proof -
  let ?b = "emit_new [noted ''a'' 1, noted ''a'' 2, noted ''b'' 3]"
  let ?g = "sample_engine\<lparr> eg_io := [IoOk, IoFailBefore] \<rparr>"
  obtain res g' where run: "execute_emit sample_engine_config ?b ?g = (res, g')" by fastforce
  have "case execute_emit sample_engine_config ?b ?g of (r, g) \<Rightarrow> r = Inl Unavailable \<and>
      map re_payload (rows_of g) = [JNumber (JPosInt 40), JNumber (JPosInt 1), JNumber (JPosInt 2)]"
    by code_simp
  then have r: "res = Inl Unavailable" "map re_payload (rows_of g') =
      [JNumber (JPosInt 40), JNumber (JPosInt 1), JNumber (JPosInt 2)]" using run by simp_all
  have "engine_ready sample_engine_config (length (eb_facts ?b) * (1 + 1)) ?g"
    using sample_ready_io by (auto simp: engine_ready_def emit_new_def intro: log_room_less)
  from emit_lands_whole_runs [OF this sample_rivals run]
  have "\<exists>wfl ps k. list_all2 (pending_of sample_engine_config ?b wfl) (eb_facts ?b) ps \<and>
      runs_landed sample_engine_config (rows_of ?g) (take k (emit_groups ps)) (rows_of g')"
    using r(1) by (simp add: store_untouched_def) blast
  then show ?thesis using run r by (auto simp: emit_new_def sample_ids)
qed

text \<open>C11: an emit of one fact with a supplied \<open>event_id\<close> and a workflow that does not depend on a draw can
  be repeated after any outcome, a lost answer or a crash included, with other writers in between:
  once the log answers, the repetition returns \<open>Ok\<close>, the log holds exactly one row of that id, and
  the result is the one the first call returned, if it returned one.\<close>

theorem emit_with_event_id_lands_once:
  assumes "engine_ready cfg (2 * (extra + 1)) g" "rivals_fair cfg extra"
    and "id_owned i (emitted_row b f wfl) (eg_store g)" "rivals_respect cfg i (emitted_row b f wfl)"
    and "eb_facts b = [f]" "eb_event_id b = Some i" "pinned_workflow b f = Some wfl"
    and "ef_name f \<notin> set (en_occ cfg)" "ef_value f = Inr v"
    and "execute_emit cfg b g = (first, g1)" "execute_emit cfg b (g1\<lparr> eg_io := [] \<rparr>) = (second, g2)"
  shows "\<exists>r. second = Inr r \<and> er_workflow_id r = wfl \<and> (case first of Inr r1 \<Rightarrow> r = r1 | Inl _ \<Rightarrow> True) \<and>
           (\<exists>row. filter (\<lambda>row. re_event_id row = i) (rows_of g2) = [row] \<and> re_position row = er_position r)"
proof -
  note one = guarded_emit [OF assms(1,2) _ assms(3-10), of "extra + 1"]
  have g1: "id_owned i (emitted_row b f wfl) (eg_store g1)" "engine_ready cfg (extra + 1) g1"
    using one(1,2) by simp_all
  have ready: "engine_ready cfg (extra + 1) (g1\<lparr> eg_io := [] \<rparr>)"
    "id_owned i (emitted_row b f wfl) (eg_store (g1\<lparr> eg_io := [] \<rparr>))"
    using g1 by (simp_all add: engine_ready_def)
  note two = guarded_emit [OF ready(1) assms(2) _ ready(2) assms(4-9,11), of 0]
  obtain r where r: "second = Inr r" using two(4) by auto
  then obtain row where row: "row \<in> set (rows_of g2)" "re_event_id row = i" "re_position row = er_position r"
    and wfl: "er_workflow_id r = wfl" using two(5) [of r] by auto
  have "log_inv (eg_store g2)" using two(2) by (simp add: engine_ready_def)
  note only = owned_once [OF this row(1,2)]
  have "r = r1" if ok: "first = Inr r1" for r1
  proof -
    obtain row1 where row1: "row1 \<in> set (rows_of g1)" "re_event_id row1 = i" "re_position row1 = er_position r1"
      and "er_workflow_id r1 = wfl" using one(5) [OF _ ok] by auto
    have "row1 \<in> set (rows_of g2)" using row1(1) two(3) by auto
    then have "row1 = row" using arg_cong [OF only, of set] row1(2) by auto
    then show ?thesis using row(3) row1(3) wfl \<open>er_workflow_id r1 = wfl\<close> by simp
  qed
  then show ?thesis using r wfl only row(3) by (auto split: sum.split)
qed

theorem emit_with_event_id_lands_once_witness:
  "\<exists>r g'. execute_emit sample_engine_config ((emit_new [noted ''a'' 1])\<lparr> eb_event_id := Some 9, eb_workflow_id := Some 4 \<rparr>)
       ((snd (execute_emit sample_engine_config
           ((emit_new [noted ''a'' 1])\<lparr> eb_event_id := Some 9, eb_workflow_id := Some 4 \<rparr>)
           (sample_engine\<lparr> eg_io := [IoFailAfter] \<rparr>)))\<lparr> eg_io := [] \<rparr>) = (Inr r, g') \<and>
     (\<exists>row. filter (\<lambda>row. re_event_id row = 9) (rows_of g') = [row] \<and> re_position row = er_position r)"
proof -
  let ?b = "(emit_new [noted ''a'' 1])\<lparr> eb_event_id := Some 9, eb_workflow_id := Some 4 \<rparr>"
  let ?g = "sample_engine\<lparr> eg_io := [IoFailAfter] \<rparr>"
  obtain first g1 where one: "execute_emit sample_engine_config ?b ?g = (first, g1)" by fastforce
  obtain second g2 where two: "execute_emit sample_engine_config ?b (g1\<lparr> eg_io := [] \<rparr>) = (second, g2)" by fastforce
  have "engine_ready sample_engine_config (2 * (1 + 1)) ?g"
    using sample_ready_io by (auto simp: engine_ready_def intro: log_room_less)
  from emit_with_event_id_lands_once [OF this sample_rivals _ _ _ _ _ _ _ one two, of 9 "noted ''a'' 1" 4 "JNumber (JPosInt 1)"]
  have "\<exists>r. second = Inr r \<and>
      (\<exists>row. filter (\<lambda>row. re_event_id row = 9) (rows_of g2) = [row] \<and> re_position row = er_position r)"
    using sample_respect [of 9] sample_ids
    by (auto simp: id_owned_def emit_new_def pinned_workflow_def noted_def sample_engine_config_def)
  then show ?thesis using one two by auto
qed

section \<open>Cancelling\<close>

text \<open>The marker's row: the fence rebuild reads its type and its target.\<close>

definition marker_row :: "engine_config \<Rightarrow> uuid \<Rightarrow> recorded_event \<Rightarrow> bool" where
  "marker_row cfg wfl row \<longleftrightarrow>
     re_event_type row = workflow_cancelled_kind \<and>
     re_payload row = JObject [(''target'', JString (cd_uuid (en_codec cfg) wfl))] \<and>
     re_workflow_id row = 0 \<and> re_causation_id row = None \<and> row_key row = (control_stream_subject, 0)"

lemma one_cancel:
  assumes ready: "engine_ready cfg m g" and fair: "rivals_fair cfg extra" and m: "extra + 1 + k \<le> m"
    and owned: "id_owned (en_v5 cfg control_namespace wfl) (marker_row cfg wfl) (eg_store g)"
    and resp: "rivals_respect cfg (en_v5 cfg control_namespace wfl) (marker_row cfg wfl)"
    and run: "cancel_workflow cfg wfl g = (res, g')"
  shows "id_owned (en_v5 cfg control_namespace wfl) (marker_row cfg wfl) (eg_store g')"
    "engine_ready cfg k g'" "\<exists>new. rows_of g' = rows_of g @ new" "eg_io g = [] \<Longrightarrow> res = None"
    and "res = None \<Longrightarrow> wfl \<in> set (eg_cancelled g') \<and> set (eg_cancelled g') = insert wfl (set (eg_cancelled g)) \<and>
      (\<exists>row \<in> set (rows_of g'). re_event_id row = en_v5 cfg control_namespace wfl)"
    and "res \<noteq> None \<Longrightarrow> eg_cancelled g' = eg_cancelled g"
proof -
  define now where "now = en_clock cfg (eg_ticks g)"
  let ?ev = "workflow_cancelled_event cfg wfl now" and ?i = "en_v5 cfg control_namespace wfl"
  define g1 where "g1 = g\<lparr> eg_ticks := Suc (eg_ticks g) \<rparr>"
  obtain x g2 where x: "engine_append cfg control_stream_subject 0 AnyState [?ev] g1 = (x, g2)" by fastforce
  have ev: "ed_event_id ?ev = ?i"
    "\<And>row. same_row control_stream_subject 0 ?ev row \<longleftrightarrow> re_event_id row = ?i \<and> marker_row cfg wfl row"
    by (auto simp: workflow_cancelled_event_def same_row_def marker_row_def)
  have "engine_ready cfg m g1" "id_owned ?i (marker_row cfg wfl) (eg_store g1)" "eg_io g1 = eg_io g"
    "eg_cancelled g1 = eg_cancelled g" "rows_of g1 = rows_of g"
    using ready owned by (simp_all add: g1_def engine_ready_def)
  note g1 = this and o = owned_append [OF this(1) fair m this(2) resp ev x]
  have result: "(res, g') = (case x of Inl err \<Rightarrow> (Some err, g2)
      | Inr _ \<Rightarrow> (None, g2\<lparr> eg_cancelled := List.insert wfl (eg_cancelled g2) \<rparr>))"
    using run x by (simp add: cancel_workflow_def append_workflow_cancelled_def engine_clock_def now_def g1_def
        split: sum.splits)
  then have st: "eg_store g' = eg_store g2" by (auto split: sum.splits)
  show "id_owned ?i (marker_row cfg wfl) (eg_store g')" "engine_ready cfg k g'"
    "\<exists>new. rows_of g' = rows_of g @ new"
    using o(1-3) st g1(5) by (simp_all add: engine_ready_def)
  show "res = None" if "eg_io g = []" using result o(5) that g1(3) by auto
  show "wfl \<in> set (eg_cancelled g') \<and> set (eg_cancelled g') = insert wfl (set (eg_cancelled g)) \<and>
      (\<exists>row \<in> set (rows_of g'). re_event_id row = ?i)" if "res = None"
    using result that o(4,6) g1(4) by (auto simp: engine_frame_def split: sum.splits)
  show "eg_cancelled g' = eg_cancelled g" if "res \<noteq> None"
    using result that o(4) g1(4) by (auto simp: engine_frame_def split: sum.splits)
qed

text \<open>The marker is durable before the fence moves: a cancel that returns \<open>Ok\<close> has the workflow in the
  fence and its marker in the control stream, one that fails left the fence alone; and cancelling
  again, at another time or after a restart, adds no second marker.\<close>

lemma cancel_is_durable_and_idempotent:
  assumes "engine_ready cfg (2 * (extra + 1)) g" "rivals_fair cfg extra"
    and "id_owned (en_v5 cfg control_namespace wfl) (marker_row cfg wfl) (eg_store g)"
    and "rivals_respect cfg (en_v5 cfg control_namespace wfl) (marker_row cfg wfl)"
    and "cancel_workflow cfg wfl g = (first, g1)" "cancel_workflow cfg wfl (g1\<lparr> eg_io := [] \<rparr>) = (second, g2)"
  shows "(case first of
            None \<Rightarrow> wfl \<in> set (eg_cancelled g1) \<and> (\<exists>row \<in> set (rows_of g1). marker_row cfg wfl row)
          | Some _ \<Rightarrow> eg_cancelled g1 = eg_cancelled g) \<and>
         second = None \<and> wfl \<in> set (eg_cancelled g2) \<and>
         (\<exists>row. filter (\<lambda>row. re_event_id row = en_v5 cfg control_namespace wfl) (rows_of g2) = [row] \<and>
            marker_row cfg wfl row)"
proof -
  let ?i = "en_v5 cfg control_namespace wfl"
  note one = one_cancel [OF assms(1,2) _ assms(3-5), of "extra + 1"]
  have g1: "id_owned ?i (marker_row cfg wfl) (eg_store g1)" "engine_ready cfg (extra + 1) g1"
    using one(1,2) by simp_all
  have ready: "engine_ready cfg (extra + 1) (g1\<lparr> eg_io := [] \<rparr>)"
    "id_owned ?i (marker_row cfg wfl) (eg_store (g1\<lparr> eg_io := [] \<rparr>))"
    using g1 by (simp_all add: engine_ready_def)
  note two = one_cancel [OF ready(1) assms(2) _ ready(2) assms(4,6), of 0]
  have ok: "second = None" using two(4) by simp
  then obtain row where row: "row \<in> set (rows_of g2)" "re_event_id row = ?i" "wfl \<in> set (eg_cancelled g2)"
    using two(5) by auto
  have "log_inv (eg_store g2)" using two(2) by (simp add: engine_ready_def)
  note only = owned_once [OF this row(1,2)]
  have "marker_row cfg wfl row" using two(1) row by (simp add: id_owned_def)
  moreover have "case first of
            None \<Rightarrow> wfl \<in> set (eg_cancelled g1) \<and> (\<exists>row \<in> set (rows_of g1). marker_row cfg wfl row)
          | Some _ \<Rightarrow> eg_cancelled g1 = eg_cancelled g"
    using one(5,6) g1(1) by (auto simp: id_owned_def split: option.split)
  ultimately show ?thesis using ok row(3) only by blast
qed

lemma cancel_is_durable_and_idempotent_witness:
  "\<exists>g'. cancel_workflow sample_engine_config 9
       ((snd (cancel_workflow sample_engine_config 9 (sample_engine\<lparr> eg_io := [IoFailAfter] \<rparr>)))\<lparr> eg_io := [] \<rparr>) =
       (None, g') \<and> 9 \<in> set (eg_cancelled g') \<and>
     (\<exists>row. filter (\<lambda>row. re_event_id row = 9) (rows_of g') = [row] \<and> marker_row sample_engine_config 9 row)"
proof -
  let ?g = "sample_engine\<lparr> eg_io := [IoFailAfter] \<rparr>"
  obtain first g1 where one: "cancel_workflow sample_engine_config 9 ?g = (first, g1)" by fastforce
  obtain second g2 where two: "cancel_workflow sample_engine_config 9 (g1\<lparr> eg_io := [] \<rparr>) = (second, g2)" by fastforce
  have ready: "engine_ready sample_engine_config (2 * (1 + 1)) ?g"
    using sample_ready_io by (auto simp: engine_ready_def intro: log_room_less)
  have id: "en_v5 sample_engine_config control_namespace 9 = 9" by (simp add: sample_engine_config_def)
  have "id_owned 9 (marker_row sample_engine_config 9) (eg_store ?g)" by (simp add: id_owned_def sample_ids)
  then show ?thesis
    using cancel_is_durable_and_idempotent [OF ready sample_rivals _ _ one two] sample_respect [of 9] one two
    unfolding id by auto
qed

section \<open>Without a workflow\<close>

definition no_rivals :: "engine_config \<Rightarrow> bool" where
  "no_rivals cfg \<longleftrightarrow> (\<forall>n s. en_rivals cfg n s = s)"

lemma no_rivals_fair: "no_rivals cfg \<Longrightarrow> rivals_fair cfg 0 \<and> rivals_respect cfg i P"
  by (simp add: no_rivals_def rivals_fair_def rivals_respect_def)

text \<open>The supplied \<open>event_id\<close> alone does not make an emit repeatable: a fact that is no workflow root,
  emitted without a workflow, draws a new one on every call, and the repetition of an emit that
  succeeded is refused as a divergent redelivery of its own row.\<close>

lemma emit_with_event_id_alone_diverges:
  assumes "engine_ready cfg 2 g" "no_rivals cfg" "eg_io g = []"
    and "i \<notin> re_event_id ` set (rows_of g)"
    and "eb_facts b = [f]" "eb_event_id b = Some i" "eb_workflow_id b = None" "ef_workflow f = None"
    and "ef_name f \<notin> set (en_occ cfg)" "ef_value f = Inr v"
    and "en_fresh cfg (Suc (eg_draws g)) \<noteq> en_fresh cfg (eg_draws g)"
    and "execute_emit cfg b g = (first, g1)" "execute_emit cfg b g1 = (second, g2)"
  shows "\<exists>r d row. first = Inr r \<and> row \<in> set (rows_of g1) \<and> re_position row = er_position r \<and>
           second = Inl (Rejected (DivergentRedelivery i d (Some row))) \<and> rows_of g2 = rows_of g1"
proof -
  define w where "w n = en_fresh cfg n" for n
  have res: "resolve_workflow cfg b h = (Inr (w (eg_draws h)), h\<lparr> eg_draws := Suc (eg_draws h) \<rparr>)" for h :: "'a engine"
    using assms(5,7,8) by (simp add: resolve_workflow_def given_or_fresh_def draw_id_def w_def)
  have fair: "rivals_fair cfg 0" "rivals_respect cfg i P" for P using no_rivals_fair [OF assms(2)] by blast+
  obtain ev h1 where h1: "quiet_step (g\<lparr> eg_draws := Suc (eg_draws g) \<rparr>) h1" "eg_draws h1 = Suc (eg_draws g)"
    "ed_event_id ev = i" "\<And>row. same_row (ef_subject f) (ef_subject_id f) ev row \<longleftrightarrow>
        re_event_id row = i \<and> emitted_row b f (w (eg_draws g)) row"
    and ex1: "execute_emit cfg b g =
        (case engine_append cfg (ef_subject f) (ef_subject_id f) AnyState [ev] h1 of
           (Inl err, g2) \<Rightarrow> (Inl err, g2)
         | (Inr wr, g2) \<Rightarrow>
             (Inr \<lparr> er_position = wr_position wr, er_workflow_id = w (eg_draws g) \<rparr>,
              fold_batch cfg True (ef_subject f) (ef_subject_id f) wr [ev] g2))"
    using resolved_emit [OF assms(5,6) res assms(9,10), of g] by auto
  obtain x h2 where x: "engine_append cfg (ef_subject f) (ef_subject_id f) AnyState [ev] h1 = (x, h2)" by fastforce
  have ready1: "engine_ready cfg 2 h1" "id_owned i (emitted_row b f (w (eg_draws g))) (eg_store h1)" "eg_io h1 = []"
    using assms(1,3,4) h1(1) by (auto simp: quiet_step_def engine_ready_def id_owned_def image_iff)
  note o = owned_append [OF ready1(1) fair(1) _ ready1(2) fair(2) h1(3,4) x, of 1]
  obtain wr where wr: "x = Inr wr" using o(5) ready1(3) by auto
  obtain row where row: "row \<in> set (rows_of h2)" "re_event_id row = i" "re_position row = wr_position wr"
    using o(6) wr by auto
  define g1' where "g1' = fold_batch cfg True (ef_subject f) (ef_subject_id f) wr [ev] h2"
  have g1: "first = Inr \<lparr> er_position = wr_position wr, er_workflow_id = w (eg_draws g) \<rparr>" "g1 = g1'"
    using assms(12) ex1 x wr by (simp_all add: g1'_def)
  have snaps: "our_snapshots (en_snapshots cfg)" using assms(1) by (simp add: engine_ready_def)
  have "fold_frame h2 g1'" unfolding g1'_def by (rule fold_batch_frame [OF snaps])
  then have warm: "rows_of g1 = rows_of h2" "engine_ready cfg 1 g1" "eg_draws g1 = Suc (eg_draws g)" "eg_io g1 = []"
    using fold_frame_ready [of h2 g1' cfg 1] o(2,4) h1(2) ready1(3) g1(2)
    by (simp_all add: fold_frame_def engine_frame_def)
  have emitted: "emitted_row b f (w (eg_draws g)) row" using o(1) row(1,2) by (simp add: id_owned_def)
  obtain ev2 h3 where h3: "quiet_step (g1\<lparr> eg_draws := Suc (eg_draws g1) \<rparr>) h3" "ed_event_id ev2 = i"
    "\<And>row. same_row (ef_subject f) (ef_subject_id f) ev2 row \<longleftrightarrow>
        re_event_id row = i \<and> emitted_row b f (w (eg_draws g1)) row"
    and ex2: "execute_emit cfg b g1 =
        (case engine_append cfg (ef_subject f) (ef_subject_id f) AnyState [ev2] h3 of
           (Inl err, g2) \<Rightarrow> (Inl err, g2)
         | (Inr wr, g2) \<Rightarrow>
             (Inr \<lparr> er_position = wr_position wr, er_workflow_id = w (eg_draws g1) \<rparr>,
              fold_batch cfg True (ef_subject f) (ef_subject_id f) wr [ev2] g2))"
    using resolved_emit [OF assms(5,6) res assms(9,10), of g1] by auto
  have "\<not> same_row (ef_subject f) (ef_subject_id f) ev2 row"
    using h3(3) emitted assms(11) warm(3) by (auto simp: emitted_row_def w_def)
  moreover have st: "eg_store h3 = eg_store g1" "eg_io h3 = []" using h3(1) warm(4) by (simp_all add: quiet_step_def)
  ultimately obtain d where "append_to_stream (ef_subject f) (ef_subject_id f) AnyState [ev2] (eg_store h3) =
      (Inl (DivergentRedelivery i d (Some row)), eg_store h3)"
    using append_divergent_single [of "eg_store h3" row ev2 "ef_subject f" "ef_subject_id f" AnyState] warm(1,2) row(1,2) h3(2)
    by (auto simp: engine_ready_def)
  then have "execute_emit cfg b g1 =
      (Inl (Rejected (DivergentRedelivery i d (Some row))), h3\<lparr> eg_appends := Suc (eg_appends h3) \<rparr>)"
    using ex2 st assms(1,2) by (simp add: engine_append_def engine_call_def no_rivals_def engine_ready_def memory_backend_def)
  then show ?thesis using assms(13) g1(1) row warm(1) st by auto
qed

lemma emit_with_event_id_alone_diverges_witness:
  "\<exists>g1 r second g2 d row.
     execute_emit (sample_engine_config\<lparr> en_rivals := \<lambda>_ s. s \<rparr>)
       ((emit_new [noted ''a'' 1])\<lparr> eb_event_id := Some 9 \<rparr>) sample_engine = (Inr r, g1) \<and>
     execute_emit (sample_engine_config\<lparr> en_rivals := \<lambda>_ s. s \<rparr>)
       ((emit_new [noted ''a'' 1])\<lparr> eb_event_id := Some 9 \<rparr>) g1 = (second, g2) \<and>
     second = Inl (Rejected (DivergentRedelivery 9 d (Some row))) \<and> row \<in> set (rows_of g1)"
proof -
  let ?cfg = "sample_engine_config\<lparr> en_rivals := \<lambda>_ s. s \<rparr>"
  let ?b = "(emit_new [noted ''a'' 1])\<lparr> eb_event_id := Some 9 \<rparr>"
  obtain first g1 where one: "execute_emit ?cfg ?b sample_engine = (first, g1)" by fastforce
  obtain second g2 where two: "execute_emit ?cfg ?b g1 = (second, g2)" by fastforce
  have ready: "engine_ready ?cfg 2 sample_engine"
    using sample_ready by (auto simp: engine_ready_def intro: log_room_less)
  have "\<exists>r d row. first = Inr r \<and> row \<in> set (rows_of g1) \<and> re_position row = er_position r \<and>
           second = Inl (Rejected (DivergentRedelivery 9 d (Some row))) \<and> rows_of g2 = rows_of g1"
    by (rule emit_with_event_id_alone_diverges [OF ready _ _ _ _ _ _ _ _ _ _ one two,
        where f = "noted ''a'' 1" and v = "JNumber (JPosInt 1)"])
      (simp_all add: no_rivals_def sample_engine_def memory_store_new_def emit_new_def noted_def sample_engine_config_def)
  then show ?thesis using one two by blast
qed

end
