(* ===== verification/Engine_Boot.thy ===== *)
theory Engine_Boot
  imports Engine_Build Engine_Emit Reactor_Properties
begin

text \<open>
  What a boot guarantees: the builder's claims, the cursors every consumer starts from, the fence,
  and the retention sweep against the reactor runner it sweeps behind.
\<close>

section \<open>A well-formed builder\<close>

definition builder_ok :: "'a builder \<Rightarrow> bool" where
  "builder_ok b \<longleftrightarrow>
     distinct (bd_names b) \<and> set (bd_consumers b) = set (bd_names b) \<and> distinct (bd_consumers b) \<and>
     distinct (map fst (bd_seeds b)) \<and> list_all (\<lambda>(c, _). c \<in> set (bd_names b)) (bd_seeds b) \<and>
     distinct (map (\<lambda>a. (ag_aggregate_type a, ag_event_prefix a)) (bd_aggregators b)) \<and>
     set (bd_occ b) = {ag_event_prefix a | a. a \<in> set (bd_aggregators b) \<and> ag_invariant a}"

datatype registration =
    Projector string
  | MultiProjector string
  | PlainReactor string
  | ReactorWith string runner_startup
  | ReactorStart string start_position
  | Aggregators

fun register :: "'a aggregator list \<Rightarrow> registration \<Rightarrow> 'a builder \<Rightarrow> 'a builder option" where
  "register ags (Projector n) b = with_projector n b"
| "register ags (MultiProjector n) b = with_projector n b"
| "register ags (PlainReactor n) b = register_reactor n None b"
| "register ags (ReactorWith n c) b = reactor_with n c b"
| "register ags (ReactorStart n start) b = with_reactor_start n start b"
| "register ags Aggregators b = with_aggregators ags b"

lemma seed_last_ok:
  assumes "builder_ok b" "bd_seeds b \<noteq> []"
  shows "builder_ok (seed_last start b)"
proof -
  obtain ys x where x: "bd_seeds b = ys @ [x]" using assms(2) by (cases "bd_seeds b" rule: rev_cases) auto
  then have "seed_last start b = b\<lparr> bd_seeds := ys @ [(fst x, start)] \<rparr>"
    by (cases ys) (simp_all add: seed_last_def)
  then show ?thesis using assms(1) x by (auto simp: builder_ok_def)
qed

lemma seeds_named:
  assumes "list_all (\<lambda>(c, _). c \<in> set names) seeds"
  shows "list_all (\<lambda>(c, _). c = n \<or> c \<in> set names) seeds" "n \<notin> set names \<Longrightarrow> n \<notin> fst ` set seeds"
  using assms by (induction seeds) auto

lemma claim_name_ok:
  "builder_ok b \<Longrightarrow> claim_name n b = Some b' \<Longrightarrow>
     n \<notin> set (bd_names b) \<and> b' = b\<lparr> bd_names := n # bd_names b \<rparr>"
  by (simp add: claim_name_def split: if_splits)

lemma register_reactor_ok:
  assumes "builder_ok b" "register_reactor n t b = Some b'"
  shows "builder_ok b'" "bd_seeds b' \<noteq> []"
  using assms
  by (auto simp: register_reactor_def claim_name_def builder_ok_def seeds_named split: if_splits)

lemma seeded_reactor_ok:
  "builder_ok b \<Longrightarrow> register_reactor n t b = Some b1 \<Longrightarrow> builder_ok (seed_last start b1)"
  by (rule seed_last_ok; rule register_reactor_ok)

lemma with_projector_ok: "builder_ok b \<Longrightarrow> with_projector n b = Some b' \<Longrightarrow> builder_ok b'"
  by (auto simp: with_projector_def claim_name_def builder_ok_def seeds_named split: if_splits)

lemma with_aggregators_ok:
  "builder_ok b \<Longrightarrow> with_aggregators ags b = Some b' \<Longrightarrow> builder_ok b'"
proof (induction ags arbitrary: b)
  case (Cons a ags)
  let ?b = "b\<lparr> bd_occ := (if ag_invariant a then List.insert (ag_event_prefix a) (bd_occ b) else bd_occ b),
               bd_aggregators := bd_aggregators b @ [a] \<rparr>"
  have "with_aggregators ags ?b = Some b'" using Cons.prems(2) by (simp split: if_splits)
  moreover have "builder_ok ?b"
    using Cons.prems by (auto simp: builder_ok_def split: if_splits)
  ultimately show ?case using Cons.IH by blast
qed simp

text \<open>C19: every registration a builder accepts keeps it well formed: consumer names are distinct, every
  seeded reactor is a named consumer seeded once, no two aggregators share an aggregate type and an
  event kind, and the fenced kinds are exactly those of the invariant aggregates. What would break
  this is the panic of the builder.\<close>

theorem registrations_keep_builder_ok:
  assumes "builder_ok b" "register ags reg b = Some b'"
  shows "builder_ok b'"
proof (cases reg)
  case (ReactorWith n c)
  then show ?thesis
    using assms seeded_reactor_ok by (auto simp: reactor_with_def)
next
  case (ReactorStart n start)
  then show ?thesis
    using assms seeded_reactor_ok by (auto simp: with_reactor_start_def)
qed (use assms with_projector_ok register_reactor_ok(1) with_aggregators_ok in auto)

theorem registrations_keep_builder_ok_witness:
  "\<exists>b. register [] (ReactorWith ''billing'' start_at_latest_dropping_gap) (builder_new :: nat builder) = Some b \<and>
     builder_ok b \<and> bd_seeds b = [(''billing'', Latest)]"
proof -
  have ok: "builder_ok (builder_new :: nat builder)" by (simp add: builder_ok_def builder_new_def)
  have "\<exists>b. register [] (ReactorWith ''billing'' start_at_latest_dropping_gap) (builder_new :: nat builder) = Some b \<and>
      bd_seeds b = [(''billing'', Latest)]"
    by (simp add: builder_new_def reactor_with_def register_reactor_def claim_name_def seed_last_def
        start_at_latest_dropping_gap_def)
  then show ?thesis using registrations_keep_builder_ok [OF ok] by blast
qed

section \<open>The steps of a boot\<close>

definition boot_frame :: "'a engine \<Rightarrow> 'a engine \<Rightarrow> bool" where
  "boot_frame g g' \<longleftrightarrow> same_log (eg_store g) (eg_store g') \<and> eg_cancelled g' = eg_cancelled g"

lemma boot_frame_refl [simp]: "boot_frame g g"
  by (simp add: boot_frame_def)

lemma boot_frame_trans: "boot_frame g g' \<Longrightarrow> boot_frame g' g'' \<Longrightarrow> boot_frame g g''"
  by (auto simp: boot_frame_def intro: same_log_trans)

lemma boot_frame_tip: "boot_frame g g' \<Longrightarrow> latest_position (eg_store g') = latest_position (eg_store g)"
  by (simp add: boot_frame_def same_log_def latest_position_def)

lemma read_boot:
  assumes "engine_read read g = (res, g')"
  shows "eg_store g' = eg_store g" "eg_cancelled g' = eg_cancelled g"
  using engine_read_frame [OF assms] by (simp_all add: engine_frame_def)

lemma boot_latest_ok:
  assumes "en_log cfg = memory_backend" "boot_latest cfg g = (Inr p, g')"
  shows "p = latest_position (eg_store g)" "eg_store g' = eg_store g" "eg_cancelled g' = eg_cancelled g"
proof -
  have r: "engine_read (\<lambda>g. b_latest_position (en_log cfg) (eg_store g)) g = (Inr p, g')"
    using assms(2) by (auto simp: boot_latest_def engine_latest_def split: prod.splits sum.splits)
  show "p = latest_position (eg_store g)"
    using engine_read_frame(4) [OF r refl] assms(1) by (simp add: memory_backend_def)
  show "eg_store g' = eg_store g" "eg_cancelled g' = eg_cancelled g" using read_boot [OF r] by simp_all
qed

lemma boot_call_store:
  assumes "boot_call (\<lambda>g. case f (eg_store g) of (x, s) \<Rightarrow> (x, g\<lparr> eg_store := s \<rparr>)) g = (Inr x, g')"
  shows "(x, eg_store g') = f (eg_store g)" "eg_cancelled g' = eg_cancelled g"
  using assms unfolding boot_call_def
  by (auto elim!: engine_call_cases split: prod.splits option.splits)

lemma cursor_get_set: "cursor_get c (cursor_set c' p s) = (if c = c' then Some p else cursor_get c s)"
  by (rule mem_ckpt.get_set)

lemma same_log_set: "same_log s (cursor_set c p s)" "same_log s (snd (clamp_ahead_of tip s))"
  by (simp_all add: same_log_def cursor_set_def clamp_ahead_of_def)

lemma clamp_cursors_ok:
  assumes "en_log cfg = memory_backend" "clamp_cursors cfg g = (Inr n, g')"
  shows "boot_frame g g'"
    and "cursor_get c (eg_store g') = map_option (min (latest_position (eg_store g))) (cursor_get c (eg_store g))"
proof -
  obtain tip g1 where t: "boot_latest cfg g = (Inr tip, g1)"
    using assms(2) by (auto simp: clamp_cursors_def split: prod.splits sum.splits)
  then obtain k g2 m where c1: "clamp_once tip g1 = (Inr k, g2)" and c2: "clamp_once tip g2 = (Inr m, g')"
    using assms(2) by (auto simp: clamp_cursors_def split: prod.splits sum.splits)
  note l = boot_latest_ok [OF assms(1) t]
    and k = boot_call_store [OF c1 [unfolded clamp_once_def]]
    and m = boot_call_store [OF c2 [unfolded clamp_once_def]]
  have st: "eg_store g2 = snd (clamp_ahead_of tip (eg_store g))" "eg_store g' = snd (clamp_ahead_of tip (eg_store g2))"
    using arg_cong [OF k(1), of snd] arg_cong [OF m(1), of snd] l(2) by simp_all
  show "boot_frame g g'"
    using same_log_trans [OF same_log_set(2) same_log_set(2)] l(3) k(2) m(2) unfolding boot_frame_def st by simp
  show "cursor_get c (eg_store g') = map_option (min (latest_position (eg_store g))) (cursor_get c (eg_store g))"
    using l(1) unfolding st by (simp add: mem_ckpt.get_clamp option.map_comp comp_def)
qed

definition seeded_cursor :: "start_position \<Rightarrow> log_cursor option \<Rightarrow> log_cursor \<Rightarrow> log_cursor" where
  "seeded_cursor start existing tip =
     (case start of
        ResumeOrLatest \<Rightarrow> (case existing of Some c \<Rightarrow> c | None \<Rightarrow> tip)
      | Latest \<Rightarrow> tip | Zero \<Rightarrow> cursor_zero | Specific c \<Rightarrow> c)"

lemma warnings_boot:
  "eg_store (snd (emit_skip_gap_warnings cfg a b g)) = eg_store g"
  "eg_cancelled (snd (emit_skip_gap_warnings cfg a b g)) = eg_cancelled g"
proof -
  obtain r g1 where r: "engine_read (\<lambda>g. b_read_all (en_log cfg) a 10000 (eg_store g)) g = (r, g1)" by fastforce
  have "snd (emit_skip_gap_warnings cfg a b g) = g1" by (simp add: emit_skip_gap_warnings_def r split: sum.split)
  then show "eg_store (snd (emit_skip_gap_warnings cfg a b g)) = eg_store g"
    "eg_cancelled (snd (emit_skip_gap_warnings cfg a b g)) = eg_cancelled g"
    using read_boot [OF r] by simp_all
qed

lemma seed_position_ok:
  assumes mem: "en_log cfg = memory_backend" and seed: "seed_position cfg start existing g = (Inr pos, g')"
  shows "eg_store g' = eg_store g \<and> eg_cancelled g' = eg_cancelled g \<and>
    (case pos of Some p \<Rightarrow> Some p | None \<Rightarrow> existing) =
       Some (seeded_cursor start existing (latest_position (eg_store g)))"
proof -
  obtain r g1 where r: "boot_latest cfg g = (r, g1)" by fastforce
  have l: "p = latest_position (eg_store g) \<and> eg_store g1 = eg_store g \<and> eg_cancelled g1 = eg_cancelled g"
    if "r = Inr p" for p using boot_latest_ok [OF mem] r that by blast
  show ?thesis
  proof (cases start)
    case ResumeOrLatest
    then show ?thesis
      using seed r l by (cases existing) (auto simp: seed_position_def seeded_cursor_def split: sum.splits)
  qed (use seed r l in \<open>auto simp: seed_position_def seeded_cursor_def split: sum.splits\<close>)
qed

lemma seed_reactors_ok:
  assumes mem: "en_log cfg = memory_backend" and "seed_reactors cfg seeds g = (None, g')"
    and "distinct (map fst seeds)"
  shows "boot_frame g g' \<and>
     cursor_get c (eg_store g') =
       (case map_of seeds c of
          None \<Rightarrow> cursor_get c (eg_store g)
        | Some start \<Rightarrow> Some (seeded_cursor start (cursor_get c (eg_store g)) (latest_position (eg_store g))))"
  using assms(2,3)
proof (induction seeds arbitrary: g)
  case (Cons p seeds)
  obtain n start where p: "p = (n, start)" by fastforce
  obtain existing g1 where e: "boot_call (\<lambda>g. (cursor_get n (eg_store g), g)) g = (Inr existing, g1)"
    using Cons.prems(1) p by (auto split: prod.splits sum.splits)
  have e1: "existing = cursor_get n (eg_store g)" "eg_store g1 = eg_store g" "eg_cancelled g1 = eg_cancelled g"
    using e unfolding boot_call_def by (auto elim!: engine_call_cases split: prod.splits option.splits)
  obtain pos g2 where s: "seed_position cfg start existing g1 = (Inr pos, g2)"
    using Cons.prems(1) p e by (auto split: prod.splits sum.splits)
  note s1 = seed_position_ok [OF mem s]
  show ?case
  proof (cases pos)
    case None
    then have rest: "seed_reactors cfg seeds g2 = (None, g')" using Cons.prems(1) p e s by simp
    have "existing = Some (seeded_cursor start existing (latest_position (eg_store g)))"
      using s1 None e1(2) by simp
    then show ?thesis
      using Cons.IH [OF rest] Cons.prems(2) s1 e1 p
      by (auto simp: boot_frame_def image_iff map_of_eq_None_iff split: option.split)
  next
    case (Some q)
    define g3 where "g3 = (if start = Latest \<and> (case existing of Some c \<Rightarrow> c | None \<Rightarrow> cursor_zero) < q
        then snd (emit_skip_gap_warnings cfg (case existing of Some c \<Rightarrow> c | None \<Rightarrow> cursor_zero) q g2) else g2)"
    have g3: "eg_store g3 = eg_store g" "eg_cancelled g3 = eg_cancelled g"
      using s1 e1 by (simp_all add: g3_def warnings_boot)
    obtain g4 where b: "boot_call (\<lambda>g. ((), g\<lparr> eg_store := cursor_set n q (eg_store g) \<rparr>)) g3 = (Inr (), g4)"
      and rest: "seed_reactors cfg seeds g4 = (None, g')"
      using Cons.prems(1) p e s Some by (auto simp: g3_def Let_def split: prod.splits sum.splits)
    have g4: "eg_store g4 = cursor_set n q (eg_store g)" "eg_cancelled g4 = eg_cancelled g"
      using b g3 unfolding boot_call_def by (auto elim!: engine_call_cases split: prod.splits option.splits)
    have q: "q = seeded_cursor start (cursor_get n (eg_store g)) (latest_position (eg_store g))"
      using s1 Some e1 by simp
    have frame: "boot_frame g g4" using g4 same_log_set(1) by (simp add: boot_frame_def)
    then show ?thesis
      using Cons.IH [OF rest] Cons.prems(2) p q g4(1) boot_frame_trans [OF frame] boot_frame_tip [OF frame]
      by (auto simp: cursor_get_set image_iff map_of_eq_None_iff split: option.split)
  qed
qed simp

lemma fence_markers_ok:
  assumes mem: "en_log cfg = memory_backend"
  shows "log_inv (eg_store g) \<Longrightarrow> fence_markers cfg retries g = (Inr es, g') \<Longrightarrow>
    es = stream_rows (rows_of g) (control_stream_subject, 0) \<and> eg_store g' = eg_store g \<and>
    eg_cancelled g' = eg_cancelled g"
proof (induction retries arbitrary: g)
  case 0
  obtain r g1 where r: "engine_read_stream cfg control_stream_subject 0 g = (r, g1)" by fastforce
  note rd = read_boot [OF r [unfolded engine_read_stream_def]]
    engine_read_frame(4) [OF r [unfolded engine_read_stream_def]]
  show ?case
    using 0 r rd mem mem_log.read_whole [OF "0.prems"(1)] by (auto split: sum.splits)
next
  case (Suc n)
  obtain r g1 where r: "engine_read_stream cfg control_stream_subject 0 g = (r, g1)" by fastforce
  note rd = read_boot [OF r [unfolded engine_read_stream_def]]
    engine_read_frame(4) [OF r [unfolded engine_read_stream_def]]
  show ?case
  proof (cases r)
    case (Inl err)
    then show ?thesis using Suc.IH [of g1] Suc.prems r rd by simp
  next
    case (Inr xs)
    then show ?thesis
      using Suc.prems r rd mem mem_log.read_whole [OF Suc.prems(1)] by auto
  qed
qed

lemma fence_inserts: "set (fold List.insert xs ys) = set xs \<union> set ys"
  by (induction xs arbitrary: ys) auto

lemma list_or_none_boot: "list_or_none ids g = (xs, g') \<Longrightarrow> eg_store g' = eg_store g \<and> eg_cancelled g' = eg_cancelled g"
  by (auto simp: list_or_none_def elim!: engine_call_cases split: prod.splits option.splits)

lemma find_orphans_boot:
  assumes "find_orphans b g = (xs, g')"
  shows "eg_store g' = eg_store g \<and> eg_cancelled g' = eg_cancelled g"
proof -
  obtain cs g1 where c: "list_or_none (cursor_consumers (eg_store g)) g = (cs, g1)" by fastforce
  obtain ds g2 where d: "(case bd_decisions b of Some m \<Rightarrow> list_or_none (decision_consumers m) g1 | None \<Rightarrow> ([], g1)) = (ds, g2)"
    by fastforce
  obtain es g3 where e: "(case bd_effects b of Some m \<Rightarrow> list_or_none (effect_consumers m) g2 | None \<Rightarrow> ([], g2)) = (es, g3)"
    by fastforce
  have "g' = g3" using assms c d e by (simp add: find_orphans_def)
  moreover have "eg_store g2 = eg_store g1 \<and> eg_cancelled g2 = eg_cancelled g1"
    using d list_or_none_boot by (fastforce split: option.splits)
  moreover have "eg_store g3 = eg_store g2 \<and> eg_cancelled g3 = eg_cancelled g2"
    using e list_or_none_boot by (fastforce split: option.splits)
  ultimately show ?thesis using list_or_none_boot [OF c] by simp
qed

text \<open>What a boot that succeeds did, step by step.\<close>

lemma build_engine_ok:
  assumes mem: "en_log cfg = memory_backend" and inv: "log_inv (eg_store g)"
    and seeds: "distinct (map fst (bd_seeds b))" and build: "build_engine cfg b g = (None, g')"
  shows "same_log (eg_store g) (eg_store g')"
    and "set (eg_cancelled g') = set (bd_cancelled b) \<union>
           set (List.map_filter (marker_target cfg) (stream_rows (rows_of g) (control_stream_subject, 0)))"
    and "cursor_get c (eg_store g') =
       (let tip = latest_position (eg_store g);
            kept = map_option (min tip) (cursor_get c (eg_store g))
        in case map_of (bd_seeds b) c of None \<Rightarrow> kept | Some start \<Rightarrow> Some (seeded_cursor start kept tip))"
    and "eg_registry g' = make_registry b"
proof -
  define h where "h = g\<lparr> eg_cancelled := bd_cancelled b \<rparr>"
  have h: "eg_store h = eg_store g" "eg_cancelled h = bd_cancelled b" by (simp_all add: h_def)
  obtain n g1 where c: "clamp_cursors cfg h = (Inr n, g1)"
    using build by (auto simp: build_engine_def h_def Let_def split: if_splits option.splits prod.splits sum.splits)
  obtain g2 where s: "seed_reactors cfg (bd_seeds b) g1 = (None, g2)"
    using build c by (auto simp: build_engine_def h_def Let_def split: if_splits option.splits prod.splits)
  obtain g3 where f: "rebuild_fence cfg g2 = (None, g3)"
    using build c s by (auto simp: build_engine_def h_def Let_def split: if_splits option.splits prod.splits)
  obtain orphans g4 where o: "find_orphans b g3 = (orphans, g4)" by fastforce
  have g': "g' = g4\<lparr> eg_registry := make_registry b \<rparr>"
    using build c s f o by (auto simp: build_engine_def h_def Let_def split: if_splits option.splits)
  obtain es gr where m: "fence_markers cfg 4 g2 = (Inr es, gr)"
    "g3 = gr\<lparr> eg_cancelled := fold List.insert (List.map_filter (marker_target cfg) es) (eg_cancelled gr) \<rparr>"
    using f by (auto simp: rebuild_fence_def split: prod.splits sum.splits)
  note c' = clamp_cursors_ok [OF mem c] and s' = seed_reactors_ok [OF mem s seeds] and o' = find_orphans_boot [OF o]
  have frame: "boot_frame h g2" using boot_frame_trans c'(1) s' by blast
  then have inv2: "log_inv (eg_store g2)" "rows_of g2 = rows_of g" "eg_cancelled g2 = bd_cancelled b"
    using same_log_inv inv h by (auto simp: boot_frame_def same_log_def)
  note f' = fence_markers_ok [OF mem inv2(1) m(1)]
  have st: "eg_store g' = eg_store g2" using g' o' m(2) f' by simp
  show "same_log (eg_store g) (eg_store g')" using frame h st by (simp add: boot_frame_def)
  show "eg_registry g' = make_registry b" by (simp add: g')
  show "set (eg_cancelled g') = set (bd_cancelled b) \<union>
           set (List.map_filter (marker_target cfg) (stream_rows (rows_of g) (control_stream_subject, 0)))"
    using g' o' m(2) f' inv2 by (auto simp: fence_inserts)
  show "cursor_get c (eg_store g') =
       (let tip = latest_position (eg_store g);
            kept = map_option (min tip) (cursor_get c (eg_store g))
        in case map_of (bd_seeds b) c of None \<Rightarrow> kept | Some start \<Rightarrow> Some (seeded_cursor start kept tip))"
    using s' [THEN conjunct2, of c] by (simp only: st c'(2) [of c] boot_frame_tip [OF c'(1)] h(1) Let_def)
qed

section \<open>The retention sweep\<close>

lemma remove_reclaimable_keeps:
  assumes "distinct (map fst m)" "hget m (c, t) = Some sd"
    and "\<not> (c = consumer \<and> sd_trigger_position sd \<le> fl \<and> sd_sealed_at sd < aged \<and> \<not> sd_parked sd)"
  shows "hget (snd (remove_reclaimable consumer aged fl m)) (c, t) = Some sd"
    and "distinct (map fst (snd (remove_reclaimable consumer aged fl m)))"
  using remove_reclaimable_exact [OF assms(1), of consumer aged fl c t] assms
  by (auto simp: remove_reclaimable_def Let_def distinct_map_filter)

lemma gc_sweep_keeps:
  assumes "distinct (map fst m)" "hget m (c, t) = Some sd"
    and "\<And>fl. cursor_get c s = Some fl \<Longrightarrow>
           \<not> (sd_trigger_position sd \<le> fl \<and> sd_sealed_at sd < aged \<and> \<not> sd_parked sd)"
  shows "hget (snd (gc_sweep s aged cs io m)) (c, t) = Some sd"
  using assms(1,2)
proof (induction cs arbitrary: io m)
  case (Cons consumer cs)
  obtain f io1 where f: "next_fate io = (f, io1)" by fastforce
  obtain f2 io2 where f2: "next_fate io1 = (f2, io2)" by fastforce
  show ?case
  proof (cases "if f = IoOk then cursor_get consumer s else None")
    case None
    then show ?thesis using Cons f by simp
  next
    case (Some fl)
    then have fl: "cursor_get consumer s = Some fl" by (simp split: if_splits)
    define m1 where "m1 = (if f2 = IoFailBefore then m else snd (remove_reclaimable consumer aged fl m))"
    have keep: "\<not> (c = consumer \<and> sd_trigger_position sd \<le> fl \<and> sd_sealed_at sd < aged \<and> \<not> sd_parked sd)"
      using assms(3) fl by blast
    have "hget m1 (c, t) = Some sd" "distinct (map fst m1)"
      using remove_reclaimable_keeps [OF Cons.prems keep] Cons.prems by (simp_all add: m1_def)
    then have "hget (snd (gc_sweep s aged cs io2 m1)) (c, t) = Some sd" using Cons.IH by blast
    moreover have "snd (gc_sweep s aged (consumer # cs) io m) = snd (gc_sweep s aged cs io2 m1)"
      using f f2 Some by (simp add: m1_def split: prod.split)
    ultimately show ?thesis by simp
  qed
qed simp

text \<open>C16: the retention sweep never takes the decision of a trigger that may be delivered again: while a
  trigger above the runner's start is not finished, its sealed record survives every sweep over the
  runner's store, at any time, over any consumers and under any failure of the sweep's calls.\<close>

theorem gc_spares_unfinished_triggers:
  assumes "runner_reach cfg r" "rc_decision_store cfg"
    and "e \<in> set (global_log (ru_store r))" "matches_kind (re_event_type e) (rc_kind cfg)"
    and "ru_start r < re_position e" "e \<notin> set (ru_finished r)"
    and "distinct (map fst m)" "hget m (rc_consumer cfg, re_event_id e) = Some sd"
    and "sd_trigger_position sd = re_position e"
  shows "hget (snd (gc_sweep (ru_store r) aged_before cs io m)) (rc_consumer cfg, re_event_id e) = Some sd"
proof (rule gc_sweep_keeps [OF assms(7,8)])
  fix fl
  assume "cursor_get (rc_consumer cfg) (ru_store r) = Some fl"
  then have "stored_cursor cfg (ru_store r) = fl" by (simp add: stored_cursor_def)
  moreover have "\<not> re_position e \<le> stored_cursor cfg (ru_store r)"
    using cursor_passed_finished [OF assms(1,3-5)] assms(2,6) by blast
  ultimately show "\<not> (sd_trigger_position sd \<le> fl \<and> sd_sealed_at sd < aged_before \<and> \<not> sd_parked sd)"
    using assms(9) by simp
qed

theorem gc_spares_unfinished_triggers_witness:
  "\<exists>sd m. hget m (''billing'', re_event_id sample_row2) = Some sd \<and> sd_trigger_position sd = re_position sample_row2 \<and>
     hget (snd (gc_sweep (ru_store sample_half) 1000 [''billing''] [] m)) (''billing'', re_event_id sample_row2) = Some sd"
proof -
  let ?sd = "\<lparr> sd_outputs_json = JNull, sd_sealed_at = 0, sd_trigger_position = 2, sd_parked = False \<rparr>"
  let ?m = "[((''billing'', re_event_id sample_row2), ?sd)]"
  have "sample_row2 \<in> set (global_log (ru_store sample_half))" "matches_kind (re_event_type sample_row2) (rc_kind sample_cfg)"
    "ru_start sample_half < re_position sample_row2" "sample_row2 \<notin> set (ru_finished sample_half)"
    "rc_decision_store sample_cfg" "rc_consumer sample_cfg = ''billing''" "re_position sample_row2 = 2"
    by (simp_all add: sample_half_eq sample_eval)
  then show ?thesis
    using gc_spares_unfinished_triggers [OF sample_reach(1), of sample_row2 ?m ?sd 1000 "[''billing'']" "[]"]
    by (intro exI [of _ ?sd] exI [of _ ?m]) simp
qed

section \<open>Properties of a boot\<close>

text \<open>C18: on the memory log, a boot of an accepted builder leaves each consumer exactly the cursor
  its registration asks for. One without a seed keeps the cursor the store held, cut to the tip of the log,
  and none if it had none; a resuming reactor keeps it too, cut to the tip, or is put at the tip when it is
  new, so that history does not fire its side effects; \<open>Latest\<close> is the tip and
  \<open>Zero\<close> the zero. So only a \<open>Specific\<close> position, which is taken as it is, can
  leave a cursor beyond the log. The log is unchanged.\<close>

theorem boot_seeds_cursors:
  assumes "en_log cfg = memory_backend" "log_inv (eg_store g)" "builder_ok b"
    and "build_engine cfg b g = (None, g')"
  shows "same_log (eg_store g) (eg_store g') \<and>
     (let tip = latest_position (eg_store g);
          kept = map_option (min tip) (cursor_get c (eg_store g))
      in case map_of (bd_seeds b) c of
           None \<Rightarrow> cursor_get c (eg_store g') = kept
         | Some ResumeOrLatest \<Rightarrow> cursor_get c (eg_store g') = Some (case kept of Some p \<Rightarrow> p | None \<Rightarrow> tip)
         | Some Latest \<Rightarrow> cursor_get c (eg_store g') = Some tip
         | Some Zero \<Rightarrow> cursor_get c (eg_store g') = Some cursor_zero
         | Some (Specific p) \<Rightarrow> cursor_get c (eg_store g') = Some p)"
  using build_engine_ok(1,3) [OF assms(1,2) _ assms(4)] assms(3)
  by (auto simp: builder_ok_def Let_def seeded_cursor_def split: option.split start_position.split)

definition restored_engine :: "nat engine" where
  "restored_engine = sample_engine\<lparr> eg_store :=
     cursor_set ''roster'' 50 (snd (append_to_stream ''tally'' 7 AnyState [rival_event] memory_store_new)) \<rparr>"

definition sample_builder :: "nat builder" where
  "sample_builder = allow_in_memory_stores (the (register_reactor ''billing'' None (the (with_projector ''roster'' builder_new))))"

lemma restored_inv: "log_inv (eg_store restored_engine)"
proof -
  have "log_inv (snd (append_to_stream ''tally'' 7 AnyState [rival_event] memory_store_new))"
    by (rule append_inv [OF log_inv_new]) (simp add: log_room_def memory_store_new_def)
  then show ?thesis using same_log_inv [OF same_log_set(1)] by (simp add: restored_engine_def)
qed

lemma sample_builder_ok: "builder_ok sample_builder"
  by (simp add: sample_builder_def allow_in_memory_stores_def register_reactor_def with_projector_def
      claim_name_def builder_new_def builder_ok_def insert_commute)

theorem boot_seeds_cursors_witness:
  "\<exists>g'. build_engine sample_engine_config sample_builder restored_engine = (None, g') \<and>
     cursor_get ''roster'' (eg_store g') = Some 1 \<and> cursor_get ''billing'' (eg_store g') = Some 1"
proof -
  obtain res g' where run: "build_engine sample_engine_config sample_builder restored_engine = (res, g')" by fastforce
  have "fst (build_engine sample_engine_config sample_builder restored_engine) = None" by code_simp
  then have ok: "build_engine sample_engine_config sample_builder restored_engine = (None, g')" using run by simp
  have mem: "en_log sample_engine_config = memory_backend" by (simp add: sample_engine_config_def)
  have facts: "latest_position (eg_store restored_engine) = 1" "cursor_get ''roster'' (eg_store restored_engine) = Some 50"
    "cursor_get ''billing'' (eg_store restored_engine) = None" "map_of (bd_seeds sample_builder) ''roster'' = None"
    "map_of (bd_seeds sample_builder) ''billing'' = Some ResumeOrLatest"
    by code_simp+
  show ?thesis
    using boot_seeds_cursors [OF mem restored_inv sample_builder_ok ok, of "''roster''"]
      boot_seeds_cursors [OF mem restored_inv sample_builder_ok ok, of "''billing''"] ok
    by (simp add: facts Let_def min_def)
qed

text \<open>C13: a cancelled workflow stays cancelled: once \<open>cancel_workflow\<close> has returned \<open>Ok\<close>, every later boot
  on the same log, whatever was appended since, either fails or comes up with the workflow in the
  fence; a boot that cannot read the control stream is one that fails.\<close>

theorem cancel_survives_restart:
  assumes "engine_ready cfg (extra + 1) g" "rivals_fair cfg extra" "codec_ok (en_codec cfg)"
    and "id_owned (en_v5 cfg control_namespace wfl) (marker_row cfg wfl) (eg_store g)"
    and "rivals_respect cfg (en_v5 cfg control_namespace wfl) (marker_row cfg wfl)"
    and "cancel_workflow cfg wfl g = (None, g1)"
    and "log_inv (eg_store g2)" "rows_of g2 = rows_of g1 @ later" "builder_ok b"
    and "build_engine cfg b g2 = (None, g3)"
  shows "wfl \<in> set (eg_cancelled g3)"
proof -
  note one = one_cancel [OF assms(1,2) _ assms(4-6), of 0]
  obtain row where row: "row \<in> set (rows_of g1)" "re_event_id row = en_v5 cfg control_namespace wfl"
    using one(5) by auto
  then have mark: "marker_row cfg wfl row" using one(1) by (simp add: id_owned_def)
  have "marker_target cfg row = Some wfl"
    using mark assms(3) by (simp add: marker_target_def marker_row_def codec_ok_def)
  moreover have "row \<in> set (stream_rows (rows_of g2) (control_stream_subject, 0))"
    using row(1) mark assms(8) by (simp add: stream_rows_def marker_row_def)
  ultimately have "wfl \<in> set (List.map_filter (marker_target cfg) (stream_rows (rows_of g2) (control_stream_subject, 0)))"
    by (force simp: List.map_filter_def image_iff)
  moreover have "en_log cfg = memory_backend" "distinct (map fst (bd_seeds b))"
    using assms(1,9) by (simp_all add: engine_ready_def builder_ok_def)
  ultimately show ?thesis using build_engine_ok(2) [OF _ assms(7) _ assms(10)] by blast
qed

theorem cancel_survives_restart_witness:
  "\<exists>g1 g3. cancel_workflow sample_engine_config 9 sample_engine = (None, g1) \<and>
     build_engine sample_engine_config sample_builder (sample_engine\<lparr> eg_store := eg_store g1 \<rparr>) = (None, g3) \<and>
     9 \<in> set (eg_cancelled g3)"
proof -
  obtain res g1 where c: "cancel_workflow sample_engine_config 9 sample_engine = (res, g1)" by fastforce
  have ready: "engine_ready sample_engine_config (1 + 1) sample_engine"
    using sample_ready by (auto simp: engine_ready_def intro: log_room_less)
  have id: "en_v5 sample_engine_config control_namespace 9 = 9" by (simp add: sample_engine_config_def)
  have owned: "id_owned (en_v5 sample_engine_config control_namespace 9) (marker_row sample_engine_config 9) (eg_store sample_engine)"
    by (simp add: id_owned_def sample_ids)
  have resp: "rivals_respect sample_engine_config (en_v5 sample_engine_config control_namespace 9) (marker_row sample_engine_config 9)"
    unfolding id by (rule sample_respect) simp
  have "fst (cancel_workflow sample_engine_config 9 sample_engine) = None" by code_simp
  then have ok: "cancel_workflow sample_engine_config 9 sample_engine = (None, g1)" using c by simp
  note one = one_cancel [OF ready sample_rivals _ owned resp ok, of 0]
  let ?g2 = "sample_engine\<lparr> eg_store := eg_store (snd (cancel_workflow sample_engine_config 9 sample_engine)) \<rparr>"
  have "fst (build_engine sample_engine_config sample_builder ?g2) = None" by code_simp
  then obtain g3 where b: "build_engine sample_engine_config sample_builder (sample_engine\<lparr> eg_store := eg_store g1 \<rparr>) = (None, g3)"
    using ok by (metis prod.collapse snd_conv)
  have "log_inv (eg_store (sample_engine\<lparr> eg_store := eg_store g1 \<rparr>))" using one(2) by (simp add: engine_ready_def)
  moreover have "codec_ok (en_codec sample_engine_config)" using sample_codec_ok by (simp add: sample_engine_config_def)
  ultimately have "9 \<in> set (eg_cancelled g3)"
    using cancel_survives_restart [OF ready sample_rivals _ owned resp ok _ _ sample_builder_ok b, of "[]"] by simp
  then show ?thesis using ok b by blast
qed

end
