(* ===== verification/Settle.thy ===== *)
theory Settle
  imports Settle_Tracker Engine
begin

text \<open>
  Waiting for a workflow (\<open>Engine::settle\<close>, \<open>settle_tree\<close>, \<open>drain\<close> in \<open>modules/causal/src/engine.rs\<close>),
  with the liveness record its supervisor keeps for every consumer (\<open>ConsumerHealth\<close>,
  \<open>supervise_one\<close>). \<open>settle\<close> runs beside the consumers and the runners: what it sees of them at its
  \<open>n\<close>-th observation is \<open>sv_view n\<close>, and \<open>sv_others n\<close> is what the other holders of the tracker did to
  it before that. Instants are nanoseconds of the monotonic clock.
\<close>

section \<open>Liveness of a consumer\<close>

definition settle_wedge_failures :: u32 where "settle_wedge_failures = 10"

record consumer_health =
  ch_failures :: u32
  ch_last_error :: "string option"
  ch_last_activity :: nat

definition health_new :: "nat \<Rightarrow> consumer_health" where
  "health_new now = \<lparr> ch_failures = 0, ch_last_error = None, ch_last_activity = now \<rparr>"

definition note_progress :: "nat \<Rightarrow> consumer_health \<Rightarrow> consumer_health" where
  "note_progress now h = h\<lparr> ch_failures := 0, ch_last_activity := now \<rparr>"

definition note_failure :: "nat \<Rightarrow> string \<Rightarrow> consumer_health \<Rightarrow> consumer_health" where
  "note_failure now error h =
     h\<lparr> ch_failures := ch_failures h + 1, ch_last_error := Some error, ch_last_activity := now \<rparr>"

definition idle_for :: "nat \<Rightarrow> consumer_health \<Rightarrow> nat" where
  "idle_for now h = now - ch_last_activity h"

definition wedged :: "consumer_health \<Rightarrow> (u32 \<times> string) option" where
  "wedged h =
     (if settle_wedge_failures \<le> ch_failures h
      then Some (ch_failures h, case ch_last_error h of Some e \<Rightarrow> e | None \<Rightarrow> [])
      else None)"

text \<open>One cycle of \<open>supervise_one\<close>: the outcome of the step, an error with its bounded chain, or a
  panic with its message.\<close>

datatype cycle =
    Stepped step_outcome
  | StepFailed string
  | StepPanicked string

definition supervise_cycle :: "nat \<Rightarrow> cycle \<Rightarrow> consumer_health \<Rightarrow> consumer_health" where
  "supervise_cycle now c h =
     (case c of
        Stepped _ \<Rightarrow> note_progress now h
      | StepFailed chain \<Rightarrow> note_failure now chain h
      | StepPanicked m \<Rightarrow> note_failure now (''panic: '' @ m) h)"

section \<open>What settle sees\<close>

text \<open>\<open>cv_drained\<close> answers the probe of \<open>trait Supervisable\<close>; \<open>None\<close> is its error.\<close>

record consumer_view =
  cv_id :: string
  cv_drained :: "uuid \<Rightarrow> log_cursor \<Rightarrow> bool option"
  cv_stall :: "(u32 \<times> string) option"
  cv_health :: consumer_health

text \<open>The serial consumers answer with their durable cursor, the reactor runner with its own probe.\<close>

definition serial_view :: "string \<Rightarrow> log_cursor option option \<Rightarrow> consumer_health \<Rightarrow> consumer_view" where
  "serial_view i cursor h =
     \<lparr> cv_id = i,
       cv_drained = (\<lambda>w hw. map_option (\<lambda>c. case c of Some p \<Rightarrow> hw \<le> p | None \<Rightarrow> False) cursor),
       cv_stall = None, cv_health = h \<rparr>"

definition reactor_view ::
  "runner_config \<Rightarrow> bool \<Rightarrow> runner \<Rightarrow> (u32 \<times> string) option \<Rightarrow> consumer_health \<Rightarrow> consumer_view" where
  "reactor_view cfg io_ok r stall h =
     \<lparr> cv_id = rc_consumer cfg, cv_drained = (\<lambda>w hw. fst (drained cfg w hw io_ok r)),
       cv_stall = stall, cv_health = h \<rparr>"

record settle_env =
  sv_consumers :: nat
  sv_view :: "nat \<Rightarrow> nat \<Rightarrow> consumer_view"
  sv_now :: "nat \<Rightarrow> nat"
  sv_others :: "nat \<Rightarrow> settle_tracker \<Rightarrow> settle_tracker"
  sv_ceiling :: "nat option"

datatype settle_error =
    ProbeFailed
  | ConsumerWedged string u32 uuid log_cursor string
  | SettleTimeout uuid nat nat string

section \<open>The loop\<close>

datatype settle_phase =
    ReadMark
  | Draining log_cursor nat
  | Recheck log_cursor
  | Forgetting

datatype settle_outcome =
    Moved settle_phase nat settle_tracker
  | Returned "settle_error option" settle_tracker

text \<open>Why a consumer that is not drained ends the wait.\<close>

definition surfaced :: "settle_env \<Rightarrow> uuid \<Rightarrow> log_cursor \<Rightarrow> nat \<Rightarrow> consumer_view \<Rightarrow> settle_error option" where
  "surfaced env w hw n v =
     (case (case wedged (cv_health v) of
              Some x \<Rightarrow> Some x
            | None \<Rightarrow> (case cv_stall v of
                        Some (k, e) \<Rightarrow> if settle_wedge_failures \<le> k then Some (k, e) else None
                      | None \<Rightarrow> None)) of
        Some (k, err) \<Rightarrow> Some (ConsumerWedged (cv_id v) k w hw err)
      | None \<Rightarrow>
          (case sv_ceiling env of
             None \<Rightarrow> None
           | Some cap \<Rightarrow>
               let lapse = idle_for (sv_now env n) (cv_health v)
               in if cap < lapse then Some (SettleTimeout w lapse cap (cv_id v)) else None))"

text \<open>One move: a lock of the tracker, or a probe of consumer \<open>k\<close> and, when it is not drained, the look
  at its health. The mark is read again under one lock and forgotten under the next.\<close>

definition settle_move :: "settle_env \<Rightarrow> uuid \<Rightarrow> log_cursor \<Rightarrow> settle_phase \<Rightarrow> nat \<Rightarrow> settle_tracker \<Rightarrow> settle_outcome" where
  "settle_move env w position phase n t0 =
     (let t = sv_others env n t0 in
      case phase of
        ReadMark \<Rightarrow>
          Moved (Draining (case tracker_get w t of Some p \<Rightarrow> p | None \<Rightarrow> position) 0) (Suc n) t
      | Draining hw k \<Rightarrow>
          if sv_consumers env \<le> k then Moved (Recheck hw) (Suc n) t
          else (case cv_drained (sv_view env n k) w hw of
                  None \<Rightarrow> Returned (Some ProbeFailed) t
                | Some True \<Rightarrow> Moved (Draining hw (Suc k)) (Suc n) t
                | Some False \<Rightarrow>
                    (case surfaced env w hw n (sv_view env n k) of
                       Some err \<Rightarrow> Returned (Some err) t
                     | None \<Rightarrow> Moved (Draining hw k) (Suc n) t))
      | Recheck hw \<Rightarrow>
          if (case tracker_get w t of Some p \<Rightarrow> p | None \<Rightarrow> hw) = hw
          then Moved Forgetting (Suc n) t
          else Moved ReadMark (Suc n) t
      | Forgetting \<Rightarrow> Returned None (forget w t))"

fun settle_loop ::
  "settle_env \<Rightarrow> uuid \<Rightarrow> log_cursor \<Rightarrow> nat \<Rightarrow> settle_phase \<Rightarrow> nat \<Rightarrow> settle_tracker \<Rightarrow>
   (settle_error option \<times> nat \<times> settle_tracker) option" where
  "settle_loop env w position 0 phase n t = None"
| "settle_loop env w position (Suc fuel) phase n t =
     (case settle_move env w position phase n t of
        Returned r t' \<Rightarrow> Some (r, n, unpin w (sv_others env (Suc n) t'))
      | Moved phase' n' t' \<Rightarrow> settle_loop env w position fuel phase' n' t')"

text \<open>\<open>settle\<close>: the mark is pinned for the call, on every exit it is unpinned under a lock of its own.
  \<open>None\<close> means that the
  fuel, the number of moves, ran out.\<close>

definition settle ::
  "settle_env \<Rightarrow> nat \<Rightarrow> uuid \<Rightarrow> log_cursor \<Rightarrow> settle_tracker \<Rightarrow> (settle_error option \<times> nat \<times> settle_tracker) option" where
  "settle env fuel w position t = settle_loop env w position fuel ReadMark 0 (pin w t)"

section \<open>A tree of workflows\<close>

text \<open>\<open>scan_child_roots\<close>: the events of the parents, and per child workflow the furthest event one of
  them caused.\<close>

definition scan_event ::
  "uuid list \<Rightarrow> recorded_event \<Rightarrow> uuid list \<times> (uuid, log_cursor) hmap \<Rightarrow> uuid list \<times> (uuid, log_cursor) hmap" where
  "scan_event parents e acc =
     (case acc of (seen, children) \<Rightarrow>
        if re_workflow_id e \<in> set parents then (List.insert (re_event_id e) seen, children)
        else case re_causation_id e of
          None \<Rightarrow> (seen, children)
        | Some cause \<Rightarrow>
            if cause \<notin> set seen then (seen, children)
            else (seen, hput (re_workflow_id e)
                          (case hget children (re_workflow_id e) of
                             Some p \<Rightarrow> if p < re_position e then re_position e else p
                           | None \<Rightarrow> re_position e) children))"

text \<open>\<open>None\<close> means that the fuel, the number of pages, ran out.\<close>

fun scan_batches ::
  "'s backend \<Rightarrow> uuid list \<Rightarrow> nat \<Rightarrow> log_cursor \<Rightarrow> 's \<Rightarrow> uuid list \<times> (uuid, log_cursor) hmap \<Rightarrow>
   (append_error + emit_result list) option" where
  "scan_batches b parents 0 from_pos s acc = None"
| "scan_batches b parents (Suc fuel) from_pos s acc =
     (case b_read_all b from_pos 1024 s of
        Inl e \<Rightarrow> Some (Inl e)
      | Inr batch \<Rightarrow>
          if batch = []
          then Some (Inr (map (\<lambda>(w, p). \<lparr> er_position = p, er_workflow_id = w \<rparr>) (snd acc)))
          else scan_batches b parents fuel (re_position (last batch)) s (fold (scan_event parents) batch acc))"

definition scan_child_roots ::
  "'s backend \<Rightarrow> nat \<Rightarrow> uuid list \<Rightarrow> 's \<Rightarrow> (append_error + emit_result list) option" where
  "scan_child_roots b fuel parents s = scan_batches b parents fuel cursor_zero s ([], [])"

text \<open>\<open>settle_tree\<close>. The settles and the scans are numbered by \<open>n\<close>: \<open>tv_env n\<close> is what the \<open>n\<close>-th of them
  sees of the consumers, \<open>tv_store n\<close> the log at that moment, and \<open>tv_order\<close> the order in which a
  \<open>HashMap\<close> yields the children. The queue is popped at its end.\<close>

record 's tree_env =
  tv_log :: "'s backend"
  tv_env :: "nat \<Rightarrow> settle_env"
  tv_store :: "nat \<Rightarrow> 's"
  tv_order :: "emit_result list \<Rightarrow> emit_result list"

datatype tree_error = TreeSettle settle_error | TreeScan append_error

fun tree_loop ::
  "'s tree_env \<Rightarrow> nat \<Rightarrow> nat \<Rightarrow> uuid list \<Rightarrow> emit_result list \<Rightarrow> settle_tracker \<Rightarrow>
   (tree_error option \<times> nat \<times> uuid list \<times> settle_tracker) option" where
  "tree_loop env 0 n settled queue t = None"
| "tree_loop env (Suc fuel) n settled queue t =
     (if queue = []
      then case scan_child_roots (tv_log env) fuel settled (tv_store env n) of
          None \<Rightarrow> None
        | Some (Inl e) \<Rightarrow> Some (Some (TreeScan e), n, settled, t)
        | Some (Inr children) \<Rightarrow>
            if children = [] then Some (None, n, settled, t)
            else tree_loop env fuel (Suc n) settled (queue @ tv_order env children) t
      else let r = last queue; w = er_workflow_id r
        in if w \<in> set settled then tree_loop env fuel (Suc n) settled (butlast queue) t
           else case settle (tv_env env n) fuel w (er_position r) t of
               None \<Rightarrow> None
             | Some (Some err, _, t') \<Rightarrow> Some (Some (TreeSettle err), n, List.insert w settled, t')
             | Some (None, _, t') \<Rightarrow>
                 tree_loop env fuel (Suc n) (List.insert w settled) (butlast queue) t')"

definition settle_tree ::
  "'s tree_env \<Rightarrow> nat \<Rightarrow> emit_result \<Rightarrow> settle_tracker \<Rightarrow>
   (tree_error option \<times> nat \<times> uuid list \<times> settle_tracker) option" where
  "settle_tree env fuel r t = tree_loop env fuel 0 [] [r] t"

section \<open>Draining\<close>

text \<open>\<open>drain\<close>: the tasks are awaited one after the other until the deadline. A task is known by the
  instant at which it ends.\<close>

fun drain_tasks :: "nat \<Rightarrow> nat \<Rightarrow> (string \<times> nat option) list \<Rightarrow> string list" where
  "drain_tasks deadline now [] = []"
| "drain_tasks deadline now ((i, ends) # tasks) =
     (if deadline - now = 0
      then (case ends of Some t \<Rightarrow> if t \<le> now then [] else [i] | None \<Rightarrow> [i]) @ drain_tasks deadline now tasks
      else case ends of
        Some t \<Rightarrow> if t \<le> deadline then drain_tasks deadline (max now t) tasks
                  else i # drain_tasks deadline deadline tasks
      | None \<Rightarrow> i # drain_tasks deadline deadline tasks)"

record drain_result =
  dn_clean :: bool
  dn_timed_out :: "string list"

definition drain :: "nat \<Rightarrow> nat \<Rightarrow> (string \<times> nat option) list \<Rightarrow> drain_result" where
  "drain now timeout tasks =
     (let late = drain_tasks (now + timeout) now tasks in \<lparr> dn_clean = (late = []), dn_timed_out = late \<rparr>)"

end
