(* ===== verification/Settle_Properties.thy ===== *)
theory Settle_Properties
  imports Settle Log_Properties
begin

text \<open>
  What \<open>settle\<close>, \<open>settle_tree\<close> and \<open>drain\<close> promise: an answer of \<open>settle\<close> means that every consumer was
  seen drained at a mark no event of the workflow had outrun, it always comes back unless a consumer
  is silently stuck, \<open>settle_tree\<close> leaves no child of a settled workflow behind, and \<open>drain\<close> names
  exactly the tasks that outlived the deadline.
\<close>

section \<open>Health\<close>

definition failed_cycle :: "cycle \<Rightarrow> bool" where
  "failed_cycle c \<longleftrightarrow> (\<forall>out. c \<noteq> Stepped out)"

definition failure_streak :: "(nat \<times> cycle) list \<Rightarrow> nat" where
  "failure_streak cs = length (takeWhile (failed_cycle \<circ> snd) (List.rev cs))"

lemma supervised_failures:
  "ch_failures (fold (\<lambda>(now, c). supervise_cycle now c) cs (health_new t)) = of_nat (failure_streak cs)"
proof (induction cs rule: rev_induct)
  case (snoc x cs)
  then show ?case
    by (cases x; cases "snd x")
       (auto simp: failure_streak_def failed_cycle_def supervise_cycle_def note_progress_def note_failure_def)
qed (simp add: failure_streak_def health_new_def)

text \<open>The liveness guard of \<open>settle\<close> counts failures, not time. After any cycles of the supervisor
  a consumer is reported as wedged exactly when the last ten or more of them all failed or panicked,
  and then with their number; one cycle that completes, however late, clears it.\<close>

lemma wedged_iff_streak:
  assumes "length cs < 2 ^ 32"
  shows "(wedged (fold (\<lambda>(now, c). supervise_cycle now c) cs (health_new t)) = None \<longleftrightarrow> failure_streak cs < 10) \<and>
         (\<forall>k e. wedged (fold (\<lambda>(now, c). supervise_cycle now c) cs (health_new t)) = Some (k, e) \<longrightarrow>
                unat k = failure_streak cs)"
proof -
  have "failure_streak cs \<le> length cs"
    using length_takeWhile_le [of "failed_cycle \<circ> snd" "List.rev cs"] by (simp add: failure_streak_def)
  then have small: "unat (of_nat (failure_streak cs) :: u32) = failure_streak cs"
    using assms by (simp add: unat_of_nat)
  moreover have "(10 :: u32) \<le> of_nat (failure_streak cs) \<longleftrightarrow> 10 \<le> failure_streak cs"
    using small by (simp add: word_le_nat_alt)
  ultimately show ?thesis
    by (auto simp: wedged_def supervised_failures settle_wedge_failures_def)
qed

lemma wedged_iff_streak_witness:
  "wedged (fold (\<lambda>(now, c). supervise_cycle now c) ((0, Stepped Idle) # replicate 10 (5, StepFailed ''x''))
           (health_new 0)) \<noteq> None"
proof -
  have "failure_streak ((0, Stepped Idle) # replicate 10 (5, StepFailed ''x'')) = 10"
    by (simp add: failure_streak_def failed_cycle_def numeral_eq_Suc)
  then show ?thesis
    using wedged_iff_streak [of "(0, Stepped Idle) # replicate 10 (5, StepFailed ''x'')" 0] by simp
qed

section \<open>What an answer means\<close>

text \<open>The tracker as the \<open>n\<close>-th move of a settle finds it, and the mark it reads there.\<close>

definition tracker_at :: "settle_env \<Rightarrow> settle_tracker \<Rightarrow> nat \<Rightarrow> settle_tracker" where
  "tracker_at env t n = fold (sv_others env) [0..<Suc n] t"

definition mark_at :: "settle_env \<Rightarrow> uuid \<Rightarrow> settle_tracker \<Rightarrow> log_cursor \<Rightarrow> nat \<Rightarrow> log_cursor" where
  "mark_at env w t fallback n = (case tracker_get w (tracker_at env t n) of Some p \<Rightarrow> p | None \<Rightarrow> fallback)"

definition seen_drained :: "settle_env \<Rightarrow> uuid \<Rightarrow> log_cursor \<Rightarrow> nat \<Rightarrow> nat \<Rightarrow> nat \<Rightarrow> bool" where
  "seen_drained env w hw lo hi k \<longleftrightarrow> (\<exists>j. lo \<le> j \<and> j < hi \<and> cv_drained (sv_view env j k) w hw = Some True)"

text \<open>The last two locks: the mark is forgotten, and later unpinned.\<close>

definition released :: "settle_env \<Rightarrow> uuid \<Rightarrow> settle_tracker \<Rightarrow> nat \<Rightarrow> settle_tracker \<Rightarrow> bool" where
  "released env w t n t' \<longleftrightarrow> t' = unpin w (sv_others env (Suc n) (forget w (tracker_at env t n)))"

text \<open>The answer at move \<open>n\<close>: the mark was read again, unchanged, at the move before.\<close>

definition answered :: "settle_env \<Rightarrow> uuid \<Rightarrow> settle_tracker \<Rightarrow> log_cursor \<Rightarrow> nat \<Rightarrow> nat \<Rightarrow> nat \<Rightarrow> settle_tracker \<Rightarrow> bool" where
  "answered env w t hw lo k0 n t' \<longleftrightarrow>
     (\<exists>j\<ge>lo. n = Suc j \<and> (\<forall>k. k0 \<le> k \<longrightarrow> k < sv_consumers env \<longrightarrow> seen_drained env w hw lo j k) \<and>
        mark_at env w t hw j = hw \<and> released env w t n t')"

definition answered_afresh :: "settle_env \<Rightarrow> uuid \<Rightarrow> settle_tracker \<Rightarrow> log_cursor \<Rightarrow> nat \<Rightarrow> nat \<Rightarrow> settle_tracker \<Rightarrow> bool" where
  "answered_afresh env w t position lo n t' \<longleftrightarrow>
     (\<exists>m\<ge>lo. m < n \<and> answered env w t (mark_at env w t position m) (Suc m) 0 n t')"

lemma answered_afresh_later:
  "answered_afresh env w t position (Suc lo) n t' \<Longrightarrow> answered_afresh env w t position lo n t'"
  unfolding answered_afresh_def by (meson Suc_leD)

lemma seen_drained_mono:
  "seen_drained env w hw (Suc lo) n k \<Longrightarrow> seen_drained env w hw lo n k"
  unfolding seen_drained_def by (meson Suc_leD)

lemma answered_mono:
  "answered env w t hw (Suc lo) k n t' \<Longrightarrow> answered env w t hw lo k n t'"
  unfolding answered_def by (auto intro: seen_drained_mono Suc_leD)

lemma settle_loop_time: "settle_loop env w position fuel phase n0 t = Some (r, n, t') \<Longrightarrow> n0 \<le> n"
  by (induction env w position fuel phase n0 t rule: settle_loop.induct)
     (fastforce simp: settle_move_def Let_def split: settle_phase.splits if_splits option.splits bool.splits)+

lemma settle_loop_answer:
  assumes "settle_loop env w position fuel phase n0 (fold (sv_others env) [0..<n0] t) = Some (None, n, t')"
  shows "answered_afresh env w t position n0 n t' \<or>
         (case phase of ReadMark \<Rightarrow> False
          | Draining hw k \<Rightarrow> answered env w t hw n0 k n t'
          | Recheck hw \<Rightarrow> answered env w t hw n0 (sv_consumers env) n t'
          | Forgetting \<Rightarrow> n = n0 \<and> released env w t n t')"
  using assms
proof (induction fuel arbitrary: phase n0)
  case (Suc fuel)
  let ?t = "fold (sv_others env) [0..<n0] t"
  have now: "sv_others env n0 ?t = tracker_at env t n0" by (simp add: tracker_at_def)
  have step: "tracker_at env t n0 = fold (sv_others env) [0..<Suc n0] t" by (simp add: tracker_at_def)
  have next_move: "answered_afresh env w t position n0 n t' \<or>
      (case phase' of ReadMark \<Rightarrow> False
       | Draining hw k \<Rightarrow> answered env w t hw (Suc n0) k n t'
       | Recheck hw \<Rightarrow> answered env w t hw (Suc n0) (sv_consumers env) n t'
       | Forgetting \<Rightarrow> n = Suc n0 \<and> released env w t n t') \<and> n0 < n"
    if "settle_loop env w position fuel phase' (Suc n0) (tracker_at env t n0) = Some (None, n, t')" for phase'
    using Suc.IH [of phase' "Suc n0"] that answered_afresh_later settle_loop_time [OF that]
    unfolding step by (cases phase') auto
  show ?case
  proof (cases phase)
    case ReadMark
    with Suc.prems have
      "settle_loop env w position fuel (Draining (mark_at env w t position n0) 0) (Suc n0) (tracker_at env t n0)
       = Some (None, n, t')"
      by (simp add: settle_move_def Let_def now mark_at_def del: fold_simps upt_Suc)
    from next_move [OF this] ReadMark show ?thesis
      by (auto simp: answered_afresh_def)
  next
    case (Draining hw k)
    show ?thesis
    proof (cases "sv_consumers env \<le> k")
      case True
      with Suc.prems Draining have
        "settle_loop env w position fuel (Recheck hw) (Suc n0) (tracker_at env t n0) = Some (None, n, t')"
        by (simp add: settle_move_def Let_def now del: fold_simps upt_Suc)
      from next_move [OF this] Draining True show ?thesis by (auto simp: answered_def)
    next
      case False
      from Suc.prems Draining False consider
          (drained) "cv_drained (sv_view env n0 k) w hw = Some True"
            "settle_loop env w position fuel (Draining hw (Suc k)) (Suc n0) (tracker_at env t n0) = Some (None, n, t')"
        | (waits) "settle_loop env w position fuel (Draining hw k) (Suc n0) (tracker_at env t n0) = Some (None, n, t')"
        by (auto simp: settle_move_def Let_def now simp del: fold_simps upt_Suc split: option.splits bool.splits)
      then show ?thesis
      proof cases
        case drained
        from next_move [OF drained(2)] consider "answered_afresh env w t position n0 n t'"
          | "answered env w t hw (Suc n0) (Suc k) n t'" "n0 < n" by auto
        then show ?thesis
        proof cases
          case 2
          have first: "seen_drained env w hw n0 j k" if "n0 < j" for j
            using drained(1) that by (auto simp: seen_drained_def)
          obtain j where j: "Suc n0 \<le> j" "n = Suc j" "mark_at env w t hw j = hw" "released env w t n t'"
            "\<And>i. Suc k \<le> i \<Longrightarrow> i < sv_consumers env \<Longrightarrow> seen_drained env w hw (Suc n0) j i"
            using 2(1) by (auto simp: answered_def)
          have "seen_drained env w hw n0 j i" if "k \<le> i" "i < sv_consumers env" for i
            using first [of j] seen_drained_mono [OF j(5) [of i]] j(1) that by (cases "i = k") auto
          then have "answered env w t hw n0 k n t'" using j by (auto simp: answered_def)
          then show ?thesis using Draining by simp
        qed simp
      next
        case waits
        from next_move [OF waits] Draining answered_mono show ?thesis by auto
      qed
    qed
  next
    case (Recheck hw)
    from Suc.prems Recheck consider
        (stable) "mark_at env w t hw n0 = hw"
          "settle_loop env w position fuel Forgetting (Suc n0) (tracker_at env t n0) = Some (None, n, t')"
      | (moved) "settle_loop env w position fuel ReadMark (Suc n0) (tracker_at env t n0) = Some (None, n, t')"
      by (auto simp: settle_move_def Let_def now mark_at_def simp del: fold_simps upt_Suc split: if_splits)
    then show ?thesis
    proof cases
      case stable
      from next_move [OF stable(2)] stable(1) Recheck show ?thesis by (auto simp: answered_def)
    next
      case moved
      from next_move [OF this] show ?thesis by simp
    qed
  next
    case Forgetting
    with Suc.prems have "n = n0 \<and> t' = unpin w (sv_others env (Suc n0) (forget w (tracker_at env t n0)))"
      by (auto simp: settle_move_def Let_def now simp del: fold_simps upt_Suc)
    then show ?thesis using Forgetting by (simp add: released_def)
  qed
qed simp

text \<open>The other holders of the tracker, as sequences of its operations.\<close>

lemma tracker_at_ops:
  assumes "\<And>i. sv_others env i = fold (tracker_step order) (ops i)"
  shows "tracker_at env t n = fold (tracker_step order) (concat (map ops [0..<Suc n])) t"
proof -
  have "fold (sv_others env) is t = fold (tracker_step order) (concat (map ops is)) t" for "is"
    by (induction "is" arbitrary: t) (simp_all add: assms)
  then show ?thesis by (simp only: tracker_at_def)
qed

lemma bumped_max_None: "bumped_max w ops acc = None \<longleftrightarrow> acc = None \<and> (\<forall>q. Bump w q \<notin> set ops)"
  by (induction w ops acc rule: bumped_max.induct) auto

text \<open>C14: when \<open>settle\<close> answers, the run has drained. Other tasks may bump, pin and
  evict as they like, as long as no other settle of this workflow ends meanwhile (none unpins or forgets
  it). The answer comes one move after the mark was read again. At a mark that is not below the emit's
  position nor below any position bumped for the workflow up to that second reading, every consumer was seen
  drained after the mark was read first; then the mark is forgotten and unpinned. The condition on the
  start: the tracker's mark is not below the emit's position, or there is none and no bump to come is below
  it; a stale mark below it is taken as it stands.\<close>

theorem settle_ok_quiesced:
  assumes ok: "settle env fuel w position t = Some (None, n, t')"
    and others: "\<And>i. sv_others env i = fold (tracker_step order) (ops i)"
    and keep: "\<And>i. Unpin w \<notin> set (ops i) \<and> Forget w \<notin> set (ops i)"
    and start: "case tracker_get w t of Some p \<Rightarrow> position \<le> p
                | None \<Rightarrow> \<forall>i q. Bump w q \<in> set (ops i) \<longrightarrow> position \<le> q"
  shows "\<exists>hw m j. m < j \<and> n = Suc j \<and> position \<le> hw \<and>
           (\<forall>i q. i \<le> j \<longrightarrow> Bump w q \<in> set (ops i) \<longrightarrow> q \<le> hw) \<and>
           (\<forall>k < sv_consumers env. seen_drained env w hw (Suc m) j k) \<and>
           t' = unpin w (sv_others env (Suc n) (forget w (tracker_at env (pin w t) n)))"
proof -
  have "answered_afresh env w (pin w t) position 0 n t'"
    using settle_loop_answer [of env w position fuel ReadMark 0 "pin w t"] ok by (simp add: settle_def)
  then obtain m where "answered env w (pin w t) (mark_at env w (pin w t) position m) (Suc m) 0 n t'"
    by (auto simp: answered_afresh_def)
  then obtain j where j: "m < j" "n = Suc j" "released env w (pin w t) n t'"
    and same: "mark_at env w (pin w t) (mark_at env w (pin w t) position m) j = mark_at env w (pin w t) position m"
    and seen: "\<And>k. k < sv_consumers env \<Longrightarrow> seen_drained env w (mark_at env w (pin w t) position m) (Suc m) j k"
    by (auto simp: answered_def)
  let ?past = "\<lambda>i. concat (map ops [0..<Suc i])" and ?hw = "mark_at env w (pin w t) position m"
  have mark: "tracker_get w (tracker_at env (pin w t) i) = bumped_max w (?past i) (tracker_get w t)" for i
  proof -
    have "tracker_get w (tracker_at env (pin w t) i) = bumped_max w (?past i) (tracker_get w (pin w t))"
      unfolding tracker_at_ops [OF others] by (rule pinned_mark_is_max) (use keep in \<open>auto simp: pin_def\<close>)
    then show ?thesis by (simp add: pin_def tracker_get_def)
  qed
  have past: "Bump w q \<in> set (?past i) \<longleftrightarrow> (\<exists>k\<le>i. Bump w q \<in> set (ops k))" for i q
    by (auto simp: less_Suc_eq_le simp del: upt_Suc)
  have "position \<le> ?hw \<and> (\<forall>i q. i \<le> j \<longrightarrow> Bump w q \<in> set (ops i) \<longrightarrow> q \<le> ?hw)"
  proof (cases "bumped_max w (?past j) (tracker_get w t)")
    case None
    then have unbumped: "tracker_get w t = None" "\<And>i q. i \<le> j \<Longrightarrow> Bump w q \<notin> set (ops i)"
      unfolding bumped_max_None past by auto
    then have "bumped_max w (?past m) (tracker_get w t) = None"
      unfolding bumped_max_None past using j(1) by (meson less_imp_le_nat order_trans)
    then have "?hw = position" by (simp only: mark_at_def mark option.case)
    then show ?thesis using unbumped(2) by simp
  next
    case (Some q)
    then have hw: "?hw = q" using same by (simp only: mark_at_def [of env w "pin w t" ?hw] mark option.case)
    note bounds = bumped_max_bounds [OF Some]
    have "position \<le> q"
    proof (cases "tracker_get w t")
      case None
      then obtain x where "Bump w x \<in> set (?past j)" using Some bumped_max_None [of w "?past j" None] by auto
      then show ?thesis using bounds start None order_trans unfolding past by fastforce
    qed (use bounds start order_trans in auto)
    then show ?thesis using bounds hw unfolding past by blast
  qed
  then show ?thesis using j seen unfolding released_def by blast
qed

text \<open>A consumer that has reached the mark, beside a reactor that appends once more while the settle
  waits.\<close>

definition sample_settle_env :: settle_env where
  "sample_settle_env =
     \<lparr> sv_consumers = 1,
       sv_view = (\<lambda>n k. serial_view ''audit'' (Some (Some (of_nat n))) (health_new 0)),
       sv_now = (\<lambda>n. n), sv_others = (\<lambda>i. fold (tracker_step id) (if i = 2 then [Bump 7 5] else [])),
       sv_ceiling = None \<rparr>"

definition sample_tracked :: settle_tracker where
  "sample_tracked = \<lparr> tk_hw = [(7, 2)], tk_pinned = [] \<rparr>"

lemma sample_settle_run:
  "map_option (\<lambda>(r, n, _). (r, n)) (settle sample_settle_env 20 7 2 sample_tracked) = Some (None, 9)"
  by code_simp

theorem settle_ok_quiesced_witness:
  "\<exists>hw m. m < (8::nat) \<and> (5::u64) \<le> hw \<and> seen_drained sample_settle_env 7 hw (Suc m) 8 0"
proof -
  obtain t' where run: "settle sample_settle_env 20 7 2 sample_tracked = Some (None, 9, t')"
    using sample_settle_run by auto
  define ops where "ops = (\<lambda>i::nat. if i = 2 then [Bump 7 5] else [])"
  obtain hw m j where mark: "m < j" "9 = Suc j" "\<forall>i q. i \<le> j \<longrightarrow> Bump 7 q \<in> set (ops i) \<longrightarrow> q \<le> hw"
      "\<forall>k < sv_consumers sample_settle_env. seen_drained sample_settle_env 7 hw (Suc m) j k"
    using settle_ok_quiesced [OF run, of id ops]
    by (auto simp: sample_settle_env_def sample_tracked_def tracker_get_def ops_def)
  have "j = 8" using mark(2) by simp
  moreover have "5 \<le> hw" using mark(3) \<open>j = 8\<close> by (auto simp: ops_def dest: spec [of _ 2])
  ultimately show ?thesis using mark(1,4) by (intro exI [of _ hw] exI [of _ m]) (simp add: sample_settle_env_def)
qed

text \<open>The second reading and the forgetting take the lock twice. A bump between them is neither waited for nor
  kept: \<open>settle\<close> answers while a consumer has not reached the bumped position, and the tracker no longer
  knows of it.\<close>

definition sample_race_env :: settle_env where
  "sample_race_env =
     \<lparr> sv_consumers = 1, sv_view = (\<lambda>n k. serial_view ''audit'' (Some (Some 2)) (health_new 0)),
       sv_now = (\<lambda>n. n), sv_others = (\<lambda>i. fold (tracker_step id) (if i = 4 then [Bump 7 5] else [])),
       sv_ceiling = None \<rparr>"

lemma bump_before_forget_is_lost:
  "map_option (\<lambda>(r, n, t'). (r, n, tracker_get 7 t')) (settle sample_race_env 20 7 2 sample_tracked) =
     Some (None, 4, None) \<and>
   cv_drained (sv_view sample_race_env 4 0) 7 5 = Some False"
  by code_simp

section \<open>It comes back\<close>

definition comes_back :: "settle_env \<Rightarrow> uuid \<Rightarrow> log_cursor \<Rightarrow> settle_phase \<Rightarrow> nat \<Rightarrow> settle_tracker \<Rightarrow> bool" where
  "comes_back env w position phase n t \<longleftrightarrow> (\<exists>fuel r. settle_loop env w position fuel phase n t = Some r)"

lemma comes_back_move:
  assumes "\<And>phase' t'. settle_move env w position phase n t = Moved phase' (Suc n) t' \<Longrightarrow>
             comes_back env w position phase' (Suc n) t'"
  shows "comes_back env w position phase n t"
proof (cases "settle_move env w position phase n t")
  case (Moved phase' n' t')
  then have "n' = Suc n"
    by (auto simp: settle_move_def Let_def split: settle_phase.splits if_splits option.splits bool.splits)
  with Moved assms obtain fuel r where "settle_loop env w position fuel phase' (Suc n) t' = Some r"
    by (auto simp: comes_back_def)
  then have "settle_loop env w position (Suc fuel) phase n t = Some r" by (simp add: Moved \<open>n' = Suc n\<close>)
  then show ?thesis unfolding comes_back_def by blast
next
  case (Returned r t')
  then have "settle_loop env w position 1 phase n t = Some (r, n, unpin w (sv_others env (Suc n) t'))" by simp
  then show ?thesis unfolding comes_back_def by blast
qed

text \<open>The consumer that is being waited for gives the wait an end.\<close>

definition wait_ends :: "settle_env \<Rightarrow> uuid \<Rightarrow> log_cursor \<Rightarrow> nat \<Rightarrow> nat \<Rightarrow> bool" where
  "wait_ends env w hw j k \<longleftrightarrow>
     cv_drained (sv_view env j k) w hw \<noteq> Some False \<or> surfaced env w hw j (sv_view env j k) \<noteq> None"

lemma comes_back_draining:
  assumes ends: "\<And>n k. k < sv_consumers env \<Longrightarrow> \<exists>j\<ge>n. wait_ends env w hw j k"
    and quiet: "\<And>n t. N \<le> n \<Longrightarrow> P t \<Longrightarrow> P (sv_others env n t)"
    and recheck: "\<And>n t. N \<le> n \<Longrightarrow> P t \<Longrightarrow> comes_back env w position (Recheck hw) n t"
  shows "N \<le> n \<Longrightarrow> P t \<Longrightarrow> comes_back env w position (Draining hw k) n t"
proof (induction "sv_consumers env - k" arbitrary: k n t)
  case 0
  show ?case
    by (rule comes_back_move) (use 0 quiet recheck in \<open>auto simp: settle_move_def Let_def\<close>)
next
  case (Suc d)
  then have k: "k < sv_consumers env" "d = sv_consumers env - Suc k" by auto
  obtain j where j: "n \<le> j" "wait_ends env w hw j k" using ends k(1) by blast
  have next_consumer: "comes_back env w position (Draining hw (Suc k)) m t'" if "N \<le> m" "P t'" for m t'
    using Suc.hyps(1) [OF k(2)] that by blast
  have here: "comes_back env w position (Draining hw k) j t'" if "N \<le> j" "P t'" for t'
    by (rule comes_back_move)
       (use that k(1) j(2) quiet next_consumer in
         \<open>auto simp: settle_move_def Let_def wait_ends_def split: option.splits bool.splits\<close>)
  show ?case
    using j(1) Suc.prems
  proof (induction "j - n" arbitrary: n t)
    case 0
    then show ?case using here by simp
  next
    case (Suc e)
    show ?case
      by (rule comes_back_move)
         (use Suc k(1) quiet next_consumer in
           \<open>auto simp: settle_move_def Let_def split: option.splits bool.splits\<close>)
  qed
qed

text \<open>Once the mark stands still, every phase of the loop comes back.\<close>

lemma comes_back_still:
  assumes still: "\<And>n t. N \<le> n \<Longrightarrow> tracker_get w (sv_others env n t) = tracker_get w t"
    and hw0: "hw0 = (case tracker_get w t0 of Some p \<Rightarrow> p | None \<Rightarrow> position)"
    and ends0: "\<And>n k. k < sv_consumers env \<Longrightarrow> \<exists>j\<ge>n. wait_ends env w hw0 j k"
    and ends: "\<And>hw k' n k. phase = Draining hw k' \<Longrightarrow> k < sv_consumers env \<Longrightarrow> \<exists>j\<ge>n. wait_ends env w hw j k"
  shows "N \<le> n \<Longrightarrow> tracker_get w t = tracker_get w t0 \<Longrightarrow> comes_back env w position phase n t"
proof -
  let ?P = "\<lambda>t. tracker_get w t = tracker_get w t0"
  have keep: "?P (sv_others env n t)" if "N \<le> n" "?P t" for n t using that still by simp
  have forgetting: "comes_back env w position Forgetting n t" for n t
    by (rule comes_back_move) (simp add: settle_move_def Let_def)
  have stable: "comes_back env w position (Recheck hw0) n t" if "N \<le> n" "?P t" for n t
    by (rule comes_back_move)
       (use that still forgetting in \<open>auto simp: settle_move_def Let_def hw0 split: option.splits\<close>)
  have drain: "comes_back env w position (Draining hw k) n t"
    if "\<And>n k. k < sv_consumers env \<Longrightarrow> \<exists>j\<ge>n. wait_ends env w hw j k"
      and "\<And>n t. N \<le> n \<Longrightarrow> ?P t \<Longrightarrow> comes_back env w position (Recheck hw) n t"
      and "N \<le> n" "?P t" for hw k n t
    by (rule comes_back_draining [where P = ?P and N = N]) (fact that keep)+
  have read: "comes_back env w position ReadMark n t" if "N \<le> n" "?P t" for n t
  proof (rule comes_back_move)
    fix phase' t'
    assume "settle_move env w position ReadMark n t = Moved phase' (Suc n) t'"
    then have "phase' = Draining hw0 0" "t' = sv_others env n t"
      using that still by (simp_all add: settle_move_def Let_def hw0)
    then show "comes_back env w position phase' (Suc n) t'"
      using drain [OF ends0 stable le_SucI [OF that(1)] keep [OF that]] by simp
  qed
  have recheck: "comes_back env w position (Recheck hw) n t" if "N \<le> n" "?P t" for hw n t
    by (rule comes_back_move)
       (use read [OF le_SucI [OF that(1)] keep [OF that]] forgetting in
         \<open>auto simp: settle_move_def Let_def split: if_splits\<close>)
  assume start: "N \<le> n" "?P t"
  show "comes_back env w position phase n t"
  proof (cases phase)
    case (Draining hw k)
    then show ?thesis using drain [OF ends recheck start] by simp
  qed (use start read recheck forgetting in auto)
qed

definition marks :: "settle_env \<Rightarrow> uuid \<Rightarrow> settle_tracker \<Rightarrow> log_cursor \<Rightarrow> log_cursor set" where
  "marks env w t position = range (mark_at env w t position)"

lemma comes_back_all:
  assumes still: "\<And>n t. N \<le> n \<Longrightarrow> tracker_get w (sv_others env n t) = tracker_get w t"
    and ends: "\<And>hw n k. hw \<in> marks env w t position \<Longrightarrow> k < sv_consumers env \<Longrightarrow> \<exists>j\<ge>n. wait_ends env w hw j k"
    and phase: "case phase of ReadMark \<Rightarrow> True | Draining hw k \<Rightarrow> hw \<in> marks env w t position
                | Recheck hw \<Rightarrow> hw \<in> marks env w t position | Forgetting \<Rightarrow> True"
  shows "comes_back env w position phase n (fold (sv_others env) [0..<n] t)"
  using phase
proof (induction "N - n" arbitrary: n phase)
  case 0
  let ?t = "fold (sv_others env) [0..<n] t"
  have N: "N \<le> n" using 0 by simp
  have "(case tracker_get w ?t of Some p \<Rightarrow> p | None \<Rightarrow> position) = mark_at env w t position n"
    by (simp add: mark_at_def tracker_at_def still [OF N])
  then have "(case tracker_get w ?t of Some p \<Rightarrow> p | None \<Rightarrow> position) \<in> marks env w t position"
    by (simp add: marks_def)
  note first_mark = this
  show ?case
  proof (rule comes_back_still [where N = N and w = w and env = env and t0 = ?t, OF still refl _ _ N refl])
    show "\<exists>j\<ge>m. wait_ends env w (case tracker_get w ?t of Some p \<Rightarrow> p | None \<Rightarrow> position) j k"
      if "k < sv_consumers env" for m k
      using ends [OF first_mark that] .
    show "\<exists>j\<ge>m. wait_ends env w hw j k" if "phase = Draining hw k'" "k < sv_consumers env" for hw k' m k
      using ends that 0(2) by simp
  qed
next
  case (Suc d)
  let ?t = "fold (sv_others env) [0..<n] t"
  have now: "sv_others env n ?t = fold (sv_others env) [0..<Suc n] t" by simp
  have here: "(case tracker_get w (sv_others env n ?t) of Some p \<Rightarrow> p | None \<Rightarrow> position) \<in> marks env w t position"
    by (auto simp: marks_def mark_at_def tracker_at_def)
  show ?case
  proof (rule comes_back_move)
    fix phase' t'
    assume move: "settle_move env w position phase n ?t = Moved phase' (Suc n) t'"
    have "t' = fold (sv_others env) [0..<Suc n] t"
      using move by (auto simp: settle_move_def Let_def split: settle_phase.splits if_splits option.splits bool.splits)
    moreover have "case phase' of ReadMark \<Rightarrow> True | Draining hw k \<Rightarrow> hw \<in> marks env w t position
                | Recheck hw \<Rightarrow> hw \<in> marks env w t position | Forgetting \<Rightarrow> True"
      using move Suc.prems here
      by (auto simp: settle_move_def Let_def split: settle_phase.splits if_splits option.splits bool.splits)
    ultimately show "comes_back env w position phase' (Suc n) t'"
      using Suc.hyps(1) [of "Suc n" phase'] Suc.hyps(2) by simp
  qed
qed

text \<open>C17: \<open>settle\<close> comes back, and a consumer that cannot drain ends it with an error. Suppose the mark
  of the workflow stops moving, and each consumer, however late, is seen drained to each mark that was
  read, fails its probe, shows ten failures in a row of its supervisor or of a worker, or is quiet
  beyond the ceiling. Then enough moves give a result; and if some consumer is never seen drained, the
  result is an error and never \<open>Ok\<close>.\<close>

theorem settle_returns:
  assumes "\<And>n t. N \<le> n \<Longrightarrow> tracker_get w (sv_others env n t) = tracker_get w t"
    and "\<And>hw n k. hw \<in> marks env w (pin w t) position \<Longrightarrow> k < sv_consumers env \<Longrightarrow>
           \<exists>j\<ge>n. wait_ends env w hw j k"
  shows "(\<exists>fuel r n t'. settle env fuel w position t = Some (r, n, t')) \<and>
         ((\<exists>k < sv_consumers env. \<forall>j hw. cv_drained (sv_view env j k) w hw \<noteq> Some True) \<longrightarrow>
            (\<forall>fuel r n t'. settle env fuel w position t = Some (r, n, t') \<longrightarrow> r \<noteq> None))"
proof (intro conjI impI allI)
  have "comes_back env w position ReadMark 0 (pin w t)"
    using comes_back_all [of N w env "pin w t" position ReadMark 0] assms by simp
  then show "\<exists>fuel r n t'. settle env fuel w position t = Some (r, n, t')"
    by (auto simp: comes_back_def settle_def)
next
  fix fuel r n t'
  assume stuck: "\<exists>k < sv_consumers env. \<forall>j hw. cv_drained (sv_view env j k) w hw \<noteq> Some True"
    and run: "settle env fuel w position t = Some (r, n, t')"
  show "r \<noteq> None"
  proof
    assume "r = None"
    then have "answered_afresh env w (pin w t) position 0 n t'"
      using settle_loop_answer [of env w position fuel ReadMark 0 "pin w t"] run by (simp add: settle_def)
    with stuck show False by (auto simp: answered_afresh_def answered_def seen_drained_def)
  qed
qed

text \<open>A projector whose write fails in every cycle: its health after \<open>n\<close> of them.\<close>

definition sample_wedged_env :: settle_env where
  "sample_wedged_env =
     \<lparr> sv_consumers = 1,
       sv_view = (\<lambda>n k. serial_view ''audit'' (Some None)
          (fold (\<lambda>(now, c). supervise_cycle now c) (replicate (min n 12) (0, StepFailed ''disk full'')) (health_new 0))),
       sv_now = (\<lambda>n. n), sv_others = (\<lambda>i. id), sv_ceiling = None \<rparr>"

theorem settle_returns_witness:
  "(\<exists>fuel r n t'. settle sample_wedged_env fuel 7 2 sample_tracked = Some (r, n, t')) \<and>
   map_option fst (settle sample_wedged_env 20 7 2 sample_tracked) =
     Some (Some (ConsumerWedged ''audit'' 10 7 2 ''disk full''))"
proof
  have wedge: "wait_ends sample_wedged_env 7 hw (max n 12) 0" for hw n
  proof -
    have "wedged (cv_health (sv_view sample_wedged_env (max n 12) 0)) =
            wedged (cv_health (sv_view sample_wedged_env 12 0))"
      by (simp add: sample_wedged_env_def serial_view_def)
    moreover have "wedged (cv_health (sv_view sample_wedged_env 12 0)) \<noteq> None" by code_simp
    ultimately show ?thesis by (auto simp: wait_ends_def surfaced_def)
  qed
  have "\<exists>j\<ge>n. wait_ends sample_wedged_env 7 hw j k" if "k < sv_consumers sample_wedged_env" for hw n k
    using that wedge [of hw n] by (intro exI [of _ "max n 12"]) (simp add: sample_wedged_env_def)
  then show "\<exists>fuel r n t'. settle sample_wedged_env fuel 7 2 sample_tracked = Some (r, n, t')"
    using settle_returns [of 0 7 sample_wedged_env sample_tracked 2] by (simp add: sample_wedged_env_def)
  show "map_option fst (settle sample_wedged_env 20 7 2 sample_tracked) =
     Some (Some (ConsumerWedged ''audit'' 10 7 2 ''disk full''))"
    by code_simp
qed

section \<open>The floor\<close>

lemma drained_throughout:
  assumes quiet: "\<And>i. sv_others env i = id" and mark: "tracker_get w t = Some q"
    and seen: "\<And>n k. k < sv_consumers env \<Longrightarrow> cv_drained (sv_view env n k) w q = Some True"
  shows "k \<le> sv_consumers env \<Longrightarrow>
    settle_loop env w position (Suc (Suc (Suc (sv_consumers env - k)))) (Draining q k) n t =
      Some (None, Suc (Suc n) + (sv_consumers env - k), unpin w (forget w t))"
proof (induction "sv_consumers env - k" arbitrary: k n)
  case (Suc d)
  then have k: "k < sv_consumers env" "sv_consumers env - k = Suc (sv_consumers env - Suc k)" by auto
  show ?case
    using Suc.hyps(1) [of "Suc k" "Suc n"] Suc.hyps(2) seen [OF k(1)] quiet k
    by (simp add: settle_move_def Let_def)
qed (use quiet mark in \<open>simp add: settle_move_def Let_def\<close>)

text \<open>The emit's position is a default and not a floor. A mark that is tracked is used as it stands:
  if it is below the position the caller waits for, because the entry was forgotten or evicted and an
  older event's bump came after that, \<open>settle\<close> answers as soon as the consumers are drained to the old
  mark, whatever the position of the emit.\<close>

lemma settle_floor_is_a_default:
  assumes "\<And>i. sv_others env i = id" "tracker_get w t = Some q"
    and "\<And>n k. k < sv_consumers env \<Longrightarrow> cv_drained (sv_view env n k) w q = Some True"
  shows "\<exists>fuel n t'. settle env fuel w position t = Some (None, n, t')"
proof -
  have "tracker_get w (pin w t) = Some q" using assms(2) by (simp add: pin_def tracker_get_def)
  with assms(1,3) drained_throughout [of env w "pin w t" q 0 position 1]
  have "settle env (Suc (Suc (Suc (Suc (sv_consumers env))))) w position t =
          Some (None, Suc (Suc 1) + sv_consumers env, unpin w (forget w (pin w t)))"
    by (simp add: settle_def settle_move_def Let_def del: settle_loop.simps(2))
       (simp add: settle_move_def Let_def)
  then show ?thesis by blast
qed

definition sample_stale_env :: settle_env where
  "sample_stale_env =
     \<lparr> sv_consumers = 1, sv_view = (\<lambda>n k. serial_view ''audit'' (Some (Some 3)) (health_new 0)),
       sv_now = (\<lambda>n. n), sv_others = (\<lambda>i. id), sv_ceiling = None \<rparr>"

lemma settle_floor_is_a_default_witness:
  "(\<exists>fuel n t'. settle sample_stale_env fuel 7 5
       (fold (tracker_step id) [Bump 7 5, Forget 7, Bump 7 3] settle_tracker_new) = Some (None, n, t')) \<and>
   cv_drained (sv_view sample_stale_env 4 0) 7 5 = Some False"
proof
  show "\<exists>fuel n t'. settle sample_stale_env fuel 7 5
       (fold (tracker_step id) [Bump 7 5, Forget 7, Bump 7 3] settle_tracker_new) = Some (None, n, t')"
    by (rule settle_floor_is_a_default [where q = 3])
       (simp_all add: sample_stale_env_def serial_view_def bump_same,
        simp add: bump_def evict_def forget_def settle_tracker_new_def settle_tracker_cap_def
          tracker_get_def)
  show "cv_drained (sv_view sample_stale_env 4 0) 7 5 = Some False"
    by (simp add: sample_stale_env_def serial_view_def)
qed

text \<open>A pin is not counted: of two settles of one workflow the first to end leaves the mark of the other
  open to eviction.\<close>

lemma first_settle_unpins_both: "w \<notin> set (tk_pinned (unpin w (pin w (pin w t))))"
  by (simp add: unpin_def)

section \<open>Draining the tasks\<close>

definition outlives :: "nat \<Rightarrow> nat option \<Rightarrow> bool" where
  "outlives deadline ends \<longleftrightarrow> (case ends of Some t \<Rightarrow> deadline < t | None \<Rightarrow> True)"

lemma drain_tasks_late:
  "now \<le> deadline \<Longrightarrow>
     drain_tasks deadline now tasks = map fst (filter (\<lambda>(_, ends). outlives deadline ends) tasks)"
  by (induction deadline now tasks rule: drain_tasks.induct)
     (auto simp: outlives_def max_def split: option.splits)

text \<open>\<open>drain\<close> reports exactly the tasks that outlive its deadline, in their order, although it awaits
  them one after the other: a task that ends in time is never reported because an earlier one used up
  the time, and the result is clean when there is none.\<close>

lemma drain_reports_exactly_late:
  "drain now timeout tasks =
     \<lparr> dn_clean = (\<forall>(i, ends) \<in> set tasks. \<not> outlives (now + timeout) ends),
       dn_timed_out = map fst (filter (\<lambda>(_, ends). outlives (now + timeout) ends) tasks) \<rparr>"
  by (auto simp: drain_def Let_def drain_tasks_late filter_empty_conv)

lemma drain_reports_exactly_late_witness:
  "dn_timed_out (drain 10 30 [(''orders'', Some 55), (''audit'', Some 40), (''mail'', None)]) = [''orders'', ''mail'']"
  by (simp add: drain_reports_exactly_late outlives_def)

section \<open>A tree of workflows\<close>

lemma scan_event_keeps:
  "set (fst acc) \<subseteq> set (fst (scan_event ps e acc)) \<and>
   (snd acc \<noteq> [] \<longrightarrow> snd (scan_event ps e acc) \<noteq> [])"
  by (cases acc; cases "snd acc") (auto simp: scan_event_def split: option.splits)

lemma scan_events_keep:
  "set (fst acc) \<subseteq> set (fst (fold (scan_event ps) es acc)) \<and>
   (snd acc \<noteq> [] \<longrightarrow> snd (fold (scan_event ps) es acc) \<noteq> [])"
proof (induction es arbitrary: acc)
  case (Cons e es)
  from scan_event_keeps [of acc ps e] Cons.IH [of "scan_event ps e acc"] show ?case
    by (simp del: prod.collapse split_paired_All) (meson subset_trans)
qed simp

lemma hput_not_Nil [simp]: "hput k v m \<noteq> []"
  by (cases m) auto

text \<open>The scan finds a child: its cause is an earlier event of a parent.\<close>

lemma scan_finds:
  assumes "re_workflow_id parent \<in> set ps" "re_workflow_id child \<notin> set ps"
    and "re_causation_id child = Some (re_event_id parent)"
  shows "snd (fold (scan_event ps) (xs @ parent # ys @ child # zs) acc) \<noteq> []"
proof -
  define a1 where "a1 = scan_event ps parent (fold (scan_event ps) xs acc)"
  define a2 where "a2 = fold (scan_event ps) ys a1"
  have "re_event_id parent \<in> set (fst a1)"
    using assms(1) by (auto simp: a1_def scan_event_def split: prod.split)
  then have "re_event_id parent \<in> set (fst a2)"
    using scan_events_keep [of a1 ps ys] by (auto simp: a2_def)
  then have "snd (scan_event ps child a2) \<noteq> []"
    using assms(2,3) by (cases a2) (simp add: scan_event_def)
  then show ?thesis
    using scan_events_keep [of "scan_event ps child a2" ps zs] by (simp add: a1_def a2_def)
qed

lemma scan_batches_all:
  assumes "log_inv s"
  shows "scan_batches memory_backend ps fuel from_pos s acc = Some (Inr rs) \<Longrightarrow>
    rs = map (\<lambda>(w, p). \<lparr> er_position = p, er_workflow_id = w \<rparr>)
           (snd (fold (scan_event ps) (filter (\<lambda>e. from_pos < re_position e) (global_log s)) acc))"
proof (induction fuel arbitrary: from_pos acc)
  case (Suc fuel)
  let ?rows = "filter (\<lambda>e. from_pos < re_position e) (global_log s)"
  have page: "read_all from_pos 1024 s = take 1024 ?rows" by (rule read_all_rows [OF assms])
  show ?case
  proof (cases "?rows = []")
    case True
    then show ?thesis using Suc.prems by (simp add: memory_backend_def page Let_def)
  next
    case False
    then have ne: "read_all from_pos 1024 s \<noteq> []" by (simp add: page)
    have "fold (scan_event ps) ?rows acc =
            fold (scan_event ps) (drop 1024 ?rows) (fold (scan_event ps) (take 1024 ?rows) acc)"
      by (metis append_take_drop_id fold_append comp_apply)
    then show ?thesis
      using Suc.prems Suc.IH [of "re_position (last (read_all from_pos 1024 s))"
          "fold (scan_event ps) (take 1024 ?rows) acc"] ne
      unfolding read_all_next_page [OF assms ne]
      by (simp add: memory_backend_def page Let_def)
  qed
qed simp

lemma scan_empty_closed:
  assumes "log_inv s" "scan_child_roots memory_backend fuel ps s = Some (Inr [])"
    and "global_log s = xs @ parent # ys @ child # zs" "re_workflow_id parent \<in> set ps"
    and "re_causation_id child = Some (re_event_id parent)"
  shows "re_workflow_id child \<in> set ps"
proof (rule ccontr)
  assume "re_workflow_id child \<notin> set ps"
  moreover have "filter (\<lambda>e. cursor_zero < re_position e) (global_log s) = global_log s"
    using log_inv_position_pos [OF assms(1)] by (auto simp: filter_id_conv cursor_zero_def)
  ultimately show False
    using scan_finds [of parent ps child xs ys zs "([], [])"] assms
      scan_batches_all [OF assms(1), of ps fuel cursor_zero "([], [])" "[]"]
    by (simp add: scan_child_roots_def)
qed

definition settled_ok :: "'s tree_env \<Rightarrow> uuid \<Rightarrow> bool" where
  "settled_ok env w \<longleftrightarrow> (\<exists>i fuel p t m t'. settle (tv_env env i) fuel w p t = Some (None, m, t'))"

lemma tree_loop_closed:
  "tree_loop env fuel i settled0 queue t = Some (None, n, settled, t') \<Longrightarrow>
     (\<exists>fuel'. scan_child_roots (tv_log env) fuel' settled (tv_store env n) = Some (Inr [])) \<and>
     set settled0 \<subseteq> set settled \<and> er_workflow_id ` set queue \<subseteq> set settled \<and>
     (\<forall>w \<in> set settled - set settled0. settled_ok env w)"
proof (induction env fuel i settled0 queue t rule: tree_loop.induct)
  case (2 env fuel i settled0 queue t)
  show ?case
  proof (cases "queue = []")
    case True
    with "2.prems" obtain children where
      scan: "scan_child_roots (tv_log env) fuel settled0 (tv_store env i) = Some (Inr children)"
      by (auto split: option.splits sum.splits)
    show ?thesis
    proof (cases "children = []")
      case True
      then show ?thesis using "2.prems" \<open>queue = []\<close> scan by auto
    next
      case False
      then show ?thesis using 2(1) [OF True scan refl False] "2.prems" True scan by auto
    qed
  next
    case False
    define r where "r = last queue"
    define w where "w = er_workflow_id r"
    have queue: "queue = butlast queue @ [r]" using False by (simp add: r_def)
    then have ids: "er_workflow_id ` set queue = insert w (er_workflow_id ` set (butlast queue))"
      by (metis (no_types) Un_insert_right empty_set image_insert list.simps(15) set_append sup_bot_right w_def)
    show ?thesis
    proof (cases "w \<in> set settled0")
      case True
      then show ?thesis
        using 2(2) [OF False r_def w_def True] "2.prems" False ids by (auto simp: r_def w_def)
    next
      case out: False
      with "2.prems" False obtain m t2 where
        run: "settle (tv_env env i) fuel w (er_position r) t = Some (None, m, t2)"
        by (auto simp: r_def w_def Let_def split: option.splits)
      then have "settled_ok env w" unfolding settled_ok_def by blast
      then show ?thesis
        using 2(3) [OF False r_def w_def out run refl refl refl] "2.prems" False out run ids
        by (auto simp: r_def w_def)
    qed
  qed
qed simp

text \<open>C15: when \<open>settle_tree\<close> answers, the tree has been settled as a whole. The workflow it was asked for
  and all the workflows it collected were each settled successfully, and the collection is closed: in the
  log as the last scan found it, an event caused by an earlier event of a settled workflow belongs to a
  settled workflow, so no child run, at any depth, is left out.\<close>

theorem settle_tree_closed:
  assumes "tv_log env = memory_backend" "log_inv (tv_store env n)"
    and run: "settle_tree env fuel r t = Some (None, n, settled, t')"
  shows "er_workflow_id r \<in> set settled \<and> (\<forall>w \<in> set settled. settled_ok env w) \<and>
         (\<forall>xs parent ys child zs. global_log (tv_store env n) = xs @ parent # ys @ child # zs \<longrightarrow>
            re_workflow_id parent \<in> set settled \<longrightarrow>
            re_causation_id child = Some (re_event_id parent) \<longrightarrow> re_workflow_id child \<in> set settled)"
proof -
  from tree_loop_closed [OF run [unfolded settle_tree_def]] obtain fuel' where
    "scan_child_roots memory_backend fuel' settled (tv_store env n) = Some (Inr [])"
    and "er_workflow_id r \<in> set settled" "\<forall>w \<in> set settled. settled_ok env w"
    using assms(1) by auto
  with scan_empty_closed [OF assms(2)] show ?thesis by blast
qed

text \<open>An order's workflow 7, whose first event roots the shipment's workflow 8.\<close>

definition sample_family :: memory_store where
  "sample_family =
     snd (append_to_stream ''shipment'' 3 NoStream
            [(sample_event 2 JNull)\<lparr> ed_workflow_id := 8, ed_causation_id := Some 1 \<rparr>]
            (snd (append_to_stream ''order'' 9 NoStream [sample_event 1 JNull] memory_store_new)))"

definition sample_tree_env :: "memory_store tree_env" where
  "sample_tree_env =
     \<lparr> tv_log = memory_backend, tv_env = (\<lambda>i. sample_stale_env), tv_store = (\<lambda>i. sample_family), tv_order = id \<rparr>"

lemma sample_tree_run:
  "map_option (\<lambda>(r, n, settled, _). (r, n, settled))
     (settle_tree sample_tree_env 20 \<lparr> er_position = 1, er_workflow_id = 7 \<rparr> sample_tracked) =
     Some (None, 3, [8, 7])"
  by code_simp

lemma sample_family_inv: "log_inv sample_family"
  unfolding sample_family_def
  by (intro append_inv log_inv_new) (simp_all add: log_room_def append_eval)

theorem settle_tree_closed_witness:
  "map re_workflow_id (global_log sample_family) = [7, 8] \<and>
   settled_ok sample_tree_env 7 \<and> settled_ok sample_tree_env 8"
proof -
  obtain t' where run: "settle_tree sample_tree_env 20 \<lparr> er_position = 1, er_workflow_id = 7 \<rparr> sample_tracked =
      Some (None, 3, [8, 7], t')"
    using sample_tree_run by auto
  have "map re_workflow_id (global_log sample_family) = [7, 8]" by code_simp
  then show ?thesis
    using settle_tree_closed [OF _ _ run] sample_family_inv by (simp add: sample_tree_env_def)
qed

end
