(* ===== verification/Mirroring.thy ===== *)
theory Mirroring
  imports Log_Properties
begin

text \<open>
  \<open>MirroringEventLogBackend\<close> (\<open>modules/causal_replay/src/mirroring.rs\<close>): every append goes to a legacy
  log, whose answer the caller sees, and then to a mirror, without an expected state; reads go to the
  legacy log alone. The state is the pair of both. The locale \<open>mirrored_pair\<close> takes two logs that keep
  the contract \<open>event_log\<close> and gives the pair the same contract, as long as the mirror holds the same
  events in the same order.
\<close>

section \<open>The wrapper\<close>

definition mirror_append ::
  "'s backend \<Rightarrow> 't backend \<Rightarrow> string \<Rightarrow> uuid \<Rightarrow> stream_state \<Rightarrow> event_data list \<Rightarrow> 's \<times> 't \<Rightarrow>
   (append_error + write_result) \<times> 's \<times> 't" where
  "mirror_append L M category subject_id expected events s =
     (case b_append L category subject_id expected events (fst s) of
        (Inl err, l) \<Rightarrow> (Inl err, l, snd s)
      | (Inr legacy_result, l) \<Rightarrow>
          (case b_append M category subject_id AnyState events (snd s) of
             (Inl err, m) \<Rightarrow> (Inl err, l, m)
           | (Inr _, m) \<Rightarrow> (Inr legacy_result, l, m)))"

definition mirroring_backend :: "'s backend \<Rightarrow> 't backend \<Rightarrow> ('s \<times> 't) backend" where
  "mirroring_backend L M =
     \<lparr> b_append = mirror_append L M,
       b_read_all = (\<lambda>after limit s. b_read_all L after limit (fst s)),
       b_read_stream = (\<lambda>category subject_id after s. b_read_stream L category subject_id after (fst s)),
       b_latest_position = (\<lambda>s. b_latest_position L (fst s)) \<rparr>"

definition parity_check_event ::
  "'s backend \<Rightarrow> 't backend \<Rightarrow> uuid \<Rightarrow> 's \<times> 't \<Rightarrow> append_error + bool" where
  "parity_check_event L M event_id s =
     (case b_read_all L cursor_zero 100000 (fst s) of
        Inl err \<Rightarrow> Inl err
      | Inr legacy_events \<Rightarrow>
          (case b_read_all M cursor_zero 100000 (snd s) of
             Inl err \<Rightarrow> Inl err
           | Inr v03_events \<Rightarrow>
               Inr ((\<exists>e \<in> set legacy_events. re_event_id e = event_id) \<and>
                    (\<exists>e \<in> set v03_events. re_event_id e = event_id))))"

section \<open>Parity\<close>

text \<open>Two rows of the same event, at whatever position and revision.\<close>

definition same_fact :: "recorded_event \<Rightarrow> recorded_event \<Rightarrow> bool" where
  "same_fact x y \<longleftrightarrow>
     re_event_id x = re_event_id y \<and> re_payload x = re_payload y \<and> re_event_type x = re_event_type y \<and>
     re_workflow_id x = re_workflow_id y \<and> re_causation_id x = re_causation_id y \<and>
     re_category x = re_category y \<and> re_subject_id x = re_subject_id y"

definition in_parity :: "recorded_event list \<Rightarrow> recorded_event list \<Rightarrow> bool" where
  "in_parity xs ys \<longleftrightarrow> list_all2 same_fact xs ys"

lemma same_fact_same_row: "same_fact x y \<Longrightarrow> same_row c sid e x \<longleftrightarrow> same_row c sid e y"
  by (auto simp: same_fact_def same_row_def)

lemma same_row_same_fact: "same_row c sid e x \<Longrightarrow> same_row c sid e y \<Longrightarrow> same_fact x y"
  by (simp add: same_fact_def same_row_def)

lemma in_parity_ids: "in_parity xs ys \<Longrightarrow> map re_event_id xs = map re_event_id ys"
  unfolding in_parity_def by (induction rule: list_all2_induct) (auto simp: same_fact_def)

lemma in_parity_other: "in_parity xs ys \<Longrightarrow> x \<in> set xs \<Longrightarrow> \<exists>y \<in> set ys. same_fact x y"
  unfolding in_parity_def by (induction rule: list_all2_induct) auto

lemma parity_persisted:
  "in_parity xs ys \<Longrightarrow> batch_persisted xs c sid es \<Longrightarrow> batch_persisted ys c sid es"
  unfolding batch_persisted_def by (metis in_parity_other same_fact_same_row)

lemma parity_fresh:
  assumes "in_parity xs ys"
  shows "ids_fresh xs es \<longleftrightarrow> ids_fresh ys es"
proof -
  have "re_event_id ` set xs = re_event_id ` set ys"
    using in_parity_ids [OF assms] by (metis list.set_map)
  then show ?thesis by (simp add: ids_fresh_def)
qed

lemma fresh_not_persisted: "ids_fresh rows es \<Longrightarrow> es \<noteq> [] \<Longrightarrow> \<not> batch_persisted rows c sid es"
  proof
  assume fresh: "ids_fresh rows es" and ne: "es \<noteq> []" and per: "batch_persisted rows c sid es"
  then obtain e row where "e \<in> set es" "row \<in> set rows" "same_row c sid e row"
    unfolding batch_persisted_def by (metis last_in_set)
  then show False using fresh by (force simp: ids_fresh_def same_row_def)
qed

lemma parity_extend:
  assumes "in_parity xs ys" "list_all2 (same_row c sid) es new" "list_all2 (same_row c sid) es new'"
  shows "in_parity (xs @ new) (ys @ new')"
proof -
  have "list_all2 same_fact new new'"
    using assms(2,3) by (auto simp: list_all2_conv_all_nth) (meson same_row_same_fact)
  then show ?thesis using assms(1) by (simp add: in_parity_def list_all2_appendI)
qed

section \<open>The contract of the pair\<close>

definition pair_inv ::
  "('s \<Rightarrow> recorded_event list) \<Rightarrow> ('s \<Rightarrow> bool) \<Rightarrow> ('t \<Rightarrow> recorded_event list) \<Rightarrow> ('t \<Rightarrow> bool) \<Rightarrow> 's \<times> 't \<Rightarrow> bool" where
  "pair_inv lrows linv mrows minv s \<longleftrightarrow>
     linv (fst s) \<and> minv (snd s) \<and> in_parity (lrows (fst s)) (mrows (snd s))"

definition pair_room :: "(nat \<Rightarrow> 's \<Rightarrow> bool) \<Rightarrow> (nat \<Rightarrow> 't \<Rightarrow> bool) \<Rightarrow> nat \<Rightarrow> 's \<times> 't \<Rightarrow> bool" where
  "pair_room lroom mroom n s \<longleftrightarrow> lroom n (fst s) \<and> mroom n (snd s)"

locale mirrored_pair =
  legacy: event_log L lrows linv lroom + mirror: event_log M mrows minv mroom
  for L :: "'s backend" and lrows linv lroom and M :: "'t backend" and mrows minv mroom
begin

text \<open>Under parity the mirror never refuses what the legacy log has taken.\<close>

lemma mirror_follows:
  assumes "pair_inv lrows linv mrows minv s" "b_append L c sid ex es (fst s) = (Inr r, l)"
  shows "\<exists>r' m. b_append M c sid AnyState es (snd s) = (Inr r', m) \<and> in_parity (lrows l) (mrows m) \<and>
           (batch_persisted (lrows (fst s)) c sid es \<longrightarrow> m = snd s)"
proof -
  have inv: "linv (fst s)" "minv (snd s)" and par: "in_parity (lrows (fst s)) (mrows (snd s))"
    using assms(1) by (simp_all add: pair_inv_def)
  from legacy.append_ok [OF inv(1) assms(2)] consider
      (old) "l = fst s" "es \<noteq> []" "distinct (map ed_event_id es)" "batch_persisted (lrows (fst s)) c sid es"
    | (new) rows where "lrows l = lrows (fst s) @ rows" "es \<noteq> []" "distinct (map ed_event_id es)"
        "list_all2 (same_row c sid) es rows" "ids_fresh (lrows (fst s)) es"
    by blast
  then show ?thesis
  proof cases
    case old
    then obtain r' where "b_append M c sid AnyState es (snd s) = (Inr r', snd s)"
      using mirror.append_again [OF inv(2)] parity_persisted [OF par] by blast
    then show ?thesis using old par by simp
  next
    case new
    have fresh: "ids_fresh (mrows (snd s)) es" using new(5) parity_fresh [OF par] by simp
    obtain r' m where app: "b_append M c sid AnyState es (snd s) = (Inr r', m)"
      using mirror.append_fresh [OF inv(2) new(2,3) fresh, of AnyState c sid] by auto
    obtain rows' where "mrows m = mrows (snd s) @ rows'" "list_all2 (same_row c sid) es rows'"
      using mirror.append_ok [OF inv(2) app] fresh_not_persisted [OF fresh new(2)] by blast
    then have "in_parity (lrows l) (mrows m)" using parity_extend [OF par new(4)] new(1) by simp
    then show ?thesis using app fresh_not_persisted [OF new(5,2)] by blast
  qed
qed

lemma mirror_append_ok:
  assumes "pair_inv lrows linv mrows minv s" "mirror_append L M c sid ex es s = (Inr r, s')"
  shows "b_append L c sid ex es (fst s) = (Inr r, fst s') \<and>
         (\<exists>r'. b_append M c sid AnyState es (snd s) = (Inr r', snd s')) \<and>
         in_parity (lrows (fst s')) (mrows (snd s')) \<and>
         (batch_persisted (lrows (fst s)) c sid es \<longrightarrow> snd s' = snd s)"
proof -
  obtain l where l: "b_append L c sid ex es (fst s) = (Inr r, l)"
    using assms(2) by (auto simp: mirror_append_def split: prod.splits sum.splits)
  from mirror_follows [OF assms(1) this] obtain r' m where
    m: "b_append M c sid AnyState es (snd s) = (Inr r', m)" "in_parity (lrows l) (mrows m)"
      "batch_persisted (lrows (fst s)) c sid es \<longrightarrow> m = snd s"
    by blast
  then have "s' = (l, m)" using assms(2) l by (simp add: mirror_append_def)
  then show ?thesis using l m by simp
qed

lemma mirror_append_err:
  assumes "pair_inv lrows linv mrows minv s" "mirror_append L M c sid ex es s = (Inl err, s')"
  shows "b_append L c sid ex es (fst s) = (Inl err, fst s') \<and> s' = s"
proof -
  obtain res l where Pair: "b_append L c sid ex es (fst s) = (res, l)" by (metis surj_pair)
  have "linv (fst s)" using assms(1) by (simp add: pair_inv_def)
  show ?thesis
  proof (cases res)
    case (Inl e)
    then have "l = fst s" using legacy.append_err [OF \<open>linv (fst s)\<close>] Pair by blast
    then show ?thesis using assms(2) Pair Inl by (auto simp: mirror_append_def)
  next
    case (Inr r)
    then obtain r' m where "b_append M c sid AnyState es (snd s) = (Inr r', m)"
      using mirror_follows [OF assms(1)] Pair by blast
    then show ?thesis using assms(2) Pair Inr by (auto simp: mirror_append_def)
  qed
qed

lemma mirror_append_takes:
  assumes "pair_inv lrows linv mrows minv s" "b_append L c sid ex es (fst s) = (Inr r, l)"
  shows "\<exists>m. mirror_append L M c sid ex es s = (Inr r, l, m)"
  using mirror_follows [OF assms] assms(2) by (auto simp: mirror_append_def)

end

text \<open>The pair keeps the contract of a log, read through the legacy side.\<close>

sublocale mirrored_pair \<subseteq> event_log "mirroring_backend L M" "\<lambda>s. lrows (fst s)"
  "pair_inv lrows linv mrows minv" "pair_room lroom mroom"
proof (unfold_locales, goal_cases)
  case 1 then show ?case using mirror_append_err by (simp add: mirroring_backend_def)
next
  case (2 s es c sid ex)
  obtain res s' where app: "mirror_append L M c sid ex es s = (res, s')" by (metis surj_pair)
  show ?case
  proof (cases res)
    case (Inl err)
    then have "s' = s" using mirror_append_err [OF 2(1)] app by blast
    then show ?thesis using app 2(1) by (simp add: mirroring_backend_def)
  next
    case (Inr r)
    then obtain r' where "b_append L c sid ex es (fst s) = (Inr r, fst s')"
      "b_append M c sid AnyState es (snd s) = (Inr r', snd s')"
      "in_parity (lrows (fst s')) (mrows (snd s'))"
      using mirror_append_ok [OF 2(1)] app by blast
    then show ?thesis
      using legacy.append_inv [of "fst s" es c sid ex] mirror.append_inv [of "snd s" es c sid AnyState] 2 app
      by (simp add: mirroring_backend_def pair_inv_def pair_room_def)
  qed
next
  case (3 s c sid ex es r s')
  then have ok: "b_append L c sid ex es (fst s) = (Inr r, fst s')"
    "batch_persisted (lrows (fst s)) c sid es \<longrightarrow> snd s' = snd s"
    using mirror_append_ok [OF 3(1), of c sid ex es r s'] by (auto simp: mirroring_backend_def)
  moreover have "linv (fst s)" using 3(1) by (simp add: pair_inv_def)
  ultimately show ?case using legacy.append_ok [of "fst s" c sid ex es r "fst s'"] by (auto intro: prod_eqI)
next
  case (4 s es c sid ex)
  then obtain r where "b_append L c sid ex es (fst s) = (Inr r, fst s)"
    using legacy.append_again [of "fst s" es c sid ex] by (auto simp: pair_inv_def)
  then have "mirror_append L M c sid ex es s = (Inr r, s)"
    using mirror_follows [OF 4(1), of c sid ex es r "fst s"] 4(4) by (auto simp: mirror_append_def)
  then show ?case by (simp add: mirroring_backend_def)
next
  case (5 s es ex c sid)
  then obtain r l where "b_append L c sid ex es (fst s) = (Inr r, l)"
    using legacy.append_fresh by (metis pair_inv_def)
  then show ?case using mirror_append_takes [OF 5(1)] by (fastforce simp: mirroring_backend_def)
next
  case (6 s row e c sid ex)
  then obtain d where "b_append L c sid ex [e] (fst s) = (Inl (DivergentRedelivery (ed_event_id e) d (Some row)), fst s)"
    using legacy.append_divergent [of "fst s" row e c sid ex] by (auto simp: pair_inv_def)
  then show ?case by (auto simp: mirroring_backend_def mirror_append_def)
next
  case 7 then show ?case using legacy.ids_distinct by (simp add: pair_inv_def)
next
  case 8 then show ?case using legacy.read_whole by (simp add: pair_inv_def mirroring_backend_def)
next
  case 9 then show ?case using legacy.read_after by (simp add: pair_inv_def mirroring_backend_def)
next
  case 10 then show ?case using legacy.dense by (simp add: pair_inv_def)
next
  case 11 then show ?case using legacy.revision_room by (auto simp: pair_inv_def)
next
  case 12 then show ?case using legacy.positive by (auto simp: pair_inv_def)
next
  case 13 then show ?case using legacy.ascending by (simp add: pair_inv_def)
next
  case (14 s es n c sid ex)
  obtain res s' where app: "mirror_append L M c sid ex es s = (res, s')" by (metis surj_pair)
  have inv: "linv (fst s)" "minv (snd s)" using 14(1) by (simp_all add: pair_inv_def)
  have room: "lroom n (fst s)" "mroom n (snd s)"
    using 14(2) legacy.room_less mirror.room_less by (auto simp: pair_room_def)
  show ?case
  proof (cases res)
    case (Inl err)
    then have "s' = s" using mirror_append_err [OF 14(1)] app by blast
    then show ?thesis using app room by (simp add: mirroring_backend_def pair_room_def)
  next
    case (Inr r)
    then obtain r' where "b_append L c sid ex es (fst s) = (Inr r, fst s')"
      "b_append M c sid AnyState es (snd s) = (Inr r', snd s')"
      using mirror_append_ok [OF 14(1)] app by blast
    then show ?thesis
      using legacy.room_step [OF inv(1), of es n c sid ex] mirror.room_step [OF inv(2), of es n c sid AnyState]
        14(2) app by (simp add: mirroring_backend_def pair_room_def)
  qed
next
  case 15 then show ?case using legacy.room_less mirror.room_less by (auto simp: pair_room_def)
qed

section \<open>Two memory logs\<close>

interpretation mem_pair: mirrored_pair memory_backend global_log log_inv log_room
  memory_backend global_log log_inv log_room ..

text \<open>C31: while the two logs are in parity, the wrapper is the legacy log. An append through it answers
  exactly what the legacy log alone answers and leaves it in the same state, whatever the batch and the
  expected state; an error leaves both logs as they were, so the mirror never refuses what the legacy log
  has taken; and the logs are in parity again, their events the same in the same order.\<close>

theorem mirroring_refines_legacy:
  assumes "log_inv l" "log_inv m" "in_parity (global_log l) (global_log m)"
  shows "case mirror_append memory_backend memory_backend c sid ex es (l, m) of
           (res, l', m') \<Rightarrow> append_to_stream c sid ex es l = (res, l') \<and>
              in_parity (global_log l') (global_log m') \<and> (\<forall>err. res = Inl err \<longrightarrow> l' = l \<and> m' = m)"
proof -
  obtain res l' m' where app: "mirror_append memory_backend memory_backend c sid ex es (l, m) = (res, l', m')"
    by (metis surj_pair)
  have inv: "pair_inv global_log log_inv global_log log_inv (l, m)" using assms by (simp add: pair_inv_def)
  have m: "b_append memory_backend = append_to_stream" by (simp add: memory_backend_def)
  show ?thesis
  proof (cases res)
    case (Inl err)
    then show ?thesis
      using mem_pair.mirror_append_err [OF inv, of c sid ex es err "(l', m')"] app assms(3) by (simp add: m)
  next
    case (Inr r)
    then show ?thesis
      using mem_pair.mirror_append_ok [OF inv, of c sid ex es r "(l', m')"] app by (simp add: m)
  qed
qed

theorem mirroring_refines_legacy_witness:
  "case mirror_append memory_backend memory_backend ''order'' 9 NoStream [sample_event 3 JNull]
          (sample_store, sample_store) of
     (res, l', m') \<Rightarrow> append_to_stream ''order'' 9 NoStream [sample_event 3 JNull] sample_store = (res, l') \<and>
        in_parity (global_log l') (global_log m')"
proof -
  have "in_parity (global_log sample_store) (global_log sample_store)"
    by (simp add: in_parity_def list_all2_refl same_fact_def)
  from mirroring_refines_legacy [OF sample_store_inv sample_store_inv this, of "''order''" 9 NoStream
      "[sample_event 3 JNull]"]
  show ?thesis by (auto split: prod.splits)
qed

section \<open>A mirror that was away\<close>

text \<open>The mirror's backend while it cannot be reached.\<close>

definition unreachable :: "'s backend \<Rightarrow> 's backend" where
  "unreachable B = B\<lparr> b_append := (\<lambda>_ _ _ _ s. (Inl (BackendError []), s)) \<rparr>"

lemma append_while_away:
  "mirror_append L (unreachable M) c sid ex es (l, m) =
     (case b_append L c sid ex es l of
        (Inl err, l') \<Rightarrow> (Inl err, l', m) | (Inr r, l') \<Rightarrow> (Inl (BackendError []), l', m))"
  by (simp add: mirror_append_def unreachable_def split: prod.split sum.split)

text \<open>An append that the mirror missed is repaired by its repetition. When the legacy log took a
  batch and the mirror could not be reached, the caller sees an error; the same batch sent again, under
  any expected state, is recognised by the legacy log, which keeps its rows and answers their
  coordinates, and is written to the mirror.\<close>

lemma mirror_retry_catches_up:
  assumes "log_inv l" "log_room (length es) l" "log_inv m" "ids_fresh (global_log m) es"
    and missed: "mirror_append memory_backend (unreachable memory_backend) c sid ex es (l, m) = (res, l1, m1)"
    and taken: "l1 \<noteq> l"
  shows "(\<exists>err. res = Inl err) \<and> m1 = m \<and>
         (\<exists>row m2. row \<in> set (global_log l1) \<and> same_row c sid (last es) row \<and>
            mirror_append memory_backend memory_backend c sid ex' es (l1, m1) =
              (Inr \<lparr> wr_position = re_position row, wr_revision = re_revision row \<rparr>, l1, m2) \<and>
            batch_persisted (global_log m2) c sid es)"
proof -
  have mem: "b_append memory_backend = append_to_stream" by (simp add: memory_backend_def)
  obtain r where app: "append_to_stream c sid ex es l = (Inr r, l1)" and res: "\<exists>err. res = Inl err" "m1 = m"
    using missed taken append_error_unchanged [of c sid ex es l]
    by (auto simp: append_while_away mem split: prod.splits sum.splits)
  have inv1: "log_inv l1" using append_inv [OF assms(1,2), of c sid ex] app by simp
  have per: "batch_persisted (global_log l1) c sid es" "es \<noteq> []" "distinct (map ed_event_id es)"
    using mem_log.append_persists [OF assms(1), unfolded mem, OF app] by blast+
  obtain row where row: "row \<in> set (global_log l1)" "same_row c sid (last es) row"
    "append_to_stream c sid ex' es l1 =
       (Inr \<lparr> wr_position = re_position row, wr_revision = re_revision row \<rparr>, l1)"
    using append_redelivered [OF inv1 per(2,3,1)] by blast
  obtain r2 m2 where m2: "append_to_stream c sid AnyState es m = (Inr r2, m2)"
    using mem_log.append_fresh [OF assms(3) per(2,3) assms(4), of AnyState c sid] by (auto simp: mem)
  then have "batch_persisted (global_log m2) c sid es"
    using mem_log.append_persists [OF assms(3), unfolded mem, OF m2] by blast
  then show ?thesis using res row m2 by (auto simp: mirror_append_def mem)
qed

lemma mirror_retry_catches_up_witness:
  "\<exists>m2. snd (mirror_append memory_backend memory_backend ''order'' 9 NoStream [sample_event 1 JNull]
      (snd (mirror_append memory_backend (unreachable memory_backend) ''order'' 9 NoStream
         [sample_event 1 JNull] (memory_store_new, memory_store_new)))) = m2 \<and>
    batch_persisted (global_log (snd m2)) ''order'' 9 [sample_event 1 JNull]"
proof -
  let ?l1 = "snd (append_to_stream ''order'' 9 NoStream [sample_event 1 JNull] memory_store_new)"
  have room: "log_room (length [sample_event 1 JNull]) memory_store_new"
    by (simp add: log_room_def memory_store_new_def)
  have fresh: "ids_fresh (global_log memory_store_new) [sample_event 1 JNull]"
    by (simp add: ids_fresh_def memory_store_new_def)
  have missed: "mirror_append memory_backend (unreachable memory_backend) ''order'' 9 NoStream
      [sample_event 1 JNull] (memory_store_new, memory_store_new) = (Inl (BackendError []), ?l1, memory_store_new)"
    by (simp add: append_while_away memory_backend_def append_eval)
  have "?l1 \<noteq> memory_store_new"
    by (simp add: append_eval)
  from mirror_retry_catches_up [OF log_inv_new room log_inv_new fresh missed this, of NoStream]
  show ?thesis unfolding missed by auto
qed

text \<open>A single fresh event, appended without an expectation, is the next row of the log.\<close>

lemma append_one:
  assumes "log_inv s" "log_room (Suc n) s" "ids_fresh (global_log s) [e]"
  shows "\<exists>r s' row. append_to_stream c sid AnyState [e] s = (Inr r, s') \<and> same_row c sid e row \<and>
           global_log s' = global_log s @ [row] \<and> log_inv s' \<and> log_room n s'"
proof -
  have mem: "b_append memory_backend = append_to_stream" by (simp add: memory_backend_def)
  obtain r s' where app: "append_to_stream c sid AnyState [e] s = (Inr r, s')"
    using mem_log.append_fresh [OF assms(1) _ _ assms(3), of AnyState c sid] by (auto simp: mem)
  have "\<not> batch_persisted (global_log s) c sid [e]"
    by (rule fresh_not_persisted [OF assms(3)]) simp
  then obtain new where new: "global_log s' = global_log s @ new" "list_all2 (same_row c sid) [e] new"
    using mem_log.append_ok [OF assms(1), unfolded mem, OF app] by blast
  then obtain row where "new = [row]" "same_row c sid e row" by (auto simp: list_all2_Cons1)
  moreover have "log_inv s'"
    using append_inv [of s "[e]" c sid AnyState] assms(1,2) app by (simp add: log_room_def)
  ultimately show ?thesis
    using app new log_room_step [OF assms(1), of "[e]" n c sid AnyState] assms(2) by simp
qed

text \<open>The repair does not restore the order. Two events are appended to one stream; the mirror misses
  the first, takes the second and then the repetition of the first: in the legacy log the first comes
  before the second, in the mirror after it, with the revisions exchanged, so a fold of the mirror's
  stream is not the fold of the legacy stream, and the logs are not in parity again.\<close>

lemma late_mirror_reorders:
  assumes "log_inv l" "log_room 3 l" "log_inv m" "log_room 3 m" "in_parity (global_log l) (global_log m)"
    and "ids_fresh (global_log l) [e1, e2]" "ed_event_id e1 \<noteq> ed_event_id e2"
    and "s1 = snd (mirror_append memory_backend (unreachable memory_backend) c sid AnyState [e1] (l, m))"
    and "s2 = snd (mirror_append memory_backend memory_backend c sid AnyState [e2] s1)"
    and "s3 = snd (mirror_append memory_backend memory_backend c sid AnyState [e1] s2)"
  shows "map re_event_id (stream_rows (global_log (fst s3)) (c, sid)) =
           map re_event_id (stream_rows (global_log l) (c, sid)) @ [ed_event_id e1, ed_event_id e2] \<and>
         map re_event_id (stream_rows (global_log (snd s3)) (c, sid)) =
           map re_event_id (stream_rows (global_log m) (c, sid)) @ [ed_event_id e2, ed_event_id e1] \<and>
         \<not> in_parity (global_log (fst s3)) (global_log (snd s3))"
proof -
  have mem: "b_append memory_backend = append_to_stream" by (simp add: memory_backend_def)
  have l_fresh: "ids_fresh (global_log l) [e1]" "ids_fresh (global_log l) [e2]"
    and m_fresh: "ids_fresh (global_log m) [e1]" "ids_fresh (global_log m) [e2]"
    using assms(6) parity_fresh [OF assms(5), of "[e1, e2]"] by (simp_all add: ids_fresh_def)
  obtain r1 l1 x1 where l1: "append_to_stream c sid AnyState [e1] l = (Inr r1, l1)" "same_row c sid e1 x1"
    "global_log l1 = global_log l @ [x1]" "log_inv l1" "log_room 2 l1"
    using append_one [OF assms(1) _ l_fresh(1), of 2 c sid] assms(2) by auto
  have "ids_fresh (global_log l1) [e2]"
    using l_fresh(2) l1(2,3) assms(7) by (auto simp: ids_fresh_def same_row_def)
  then obtain r2 l2 x2 where l2: "append_to_stream c sid AnyState [e2] l1 = (Inr r2, l2)" "same_row c sid e2 x2"
    "global_log l2 = global_log l1 @ [x2]" "log_inv l2"
    using append_one [OF l1(4) _, of 1 e2 c sid] l1(5) by (auto simp: numeral_2_eq_2)
  obtain r3 m2 y2 where m2: "append_to_stream c sid AnyState [e2] m = (Inr r3, m2)" "same_row c sid e2 y2"
    "global_log m2 = global_log m @ [y2]" "log_inv m2" "log_room 2 m2"
    using append_one [OF assms(3) _ m_fresh(2), of 2 c sid] assms(4) by auto
  have "ids_fresh (global_log m2) [e1]"
    using m_fresh(1) m2(2,3) assms(7) by (auto simp: ids_fresh_def same_row_def)
  then obtain r4 m3 y1 where m3: "append_to_stream c sid AnyState [e1] m2 = (Inr r4, m3)" "same_row c sid e1 y1"
    "global_log m3 = global_log m2 @ [y1]"
    using append_one [OF m2(4) _, of 1 e1 c sid] m2(5) by (auto simp: numeral_2_eq_2)
  have "batch_persisted (global_log l2) c sid [e1]"
    using l1(2,3) l2(3) by (simp add: batch_persisted_def)
  then obtain r5 where l3: "append_to_stream c sid AnyState [e1] l2 = (Inr r5, l2)"
    using append_redelivered [OF l2(4), of "[e1]" c sid AnyState] by auto
  have "s1 = (l1, m)" using assms(8) l1(1) by (simp add: append_while_away mem)
  then have "s2 = (l2, m2)" using assms(9) l2(1) m2(1) by (simp add: mirror_append_def mem)
  then have s3: "s3 = (l2, m3)" using assms(10) l3 m3(1) by (simp add: mirror_append_def mem)
  have keys: "row_key x1 = (c, sid)" "row_key x2 = (c, sid)" "row_key y1 = (c, sid)" "row_key y2 = (c, sid)"
    "map re_event_id [x1, x2, y1, y2] = map ed_event_id [e1, e2, e1, e2]"
    using l1(2) l2(2) m2(2) m3(2) by (simp_all add: same_row_def)
  have "\<not> in_parity (global_log l2) (global_log m3)"
  proof
    assume "in_parity (global_log l2) (global_log m3)"
    then have "map re_event_id (global_log l2) = map re_event_id (global_log m3)" by (rule in_parity_ids)
    then show False using l1(3) l2(3) m2(3) m3(3) keys(5) assms(7) by auto
  qed
  then show ?thesis using s3 keys l1(3) l2(3) m2(3) m3(3) by (simp add: stream_rows_def)
qed

lemma late_mirror_reorders_witness:
  "let s1 = snd (mirror_append memory_backend (unreachable memory_backend) ''order'' 9 AnyState
                   [sample_event 1 JNull] (memory_store_new, memory_store_new));
       s2 = snd (mirror_append memory_backend memory_backend ''order'' 9 AnyState [sample_event 2 JNull] s1);
       s3 = snd (mirror_append memory_backend memory_backend ''order'' 9 AnyState [sample_event 1 JNull] s2)
   in \<not> in_parity (global_log (fst s3)) (global_log (snd s3))"
proof -
  have room: "log_room 3 memory_store_new" by (simp add: log_room_def memory_store_new_def)
  have par: "in_parity (global_log memory_store_new) (global_log memory_store_new)"
    and fresh: "ids_fresh (global_log memory_store_new) [sample_event 1 JNull, sample_event 2 JNull]"
    by (simp_all add: in_parity_def ids_fresh_def memory_store_new_def)
  show ?thesis
    using late_mirror_reorders [OF log_inv_new room log_inv_new room par fresh _ refl refl refl, of "''order''" 9]
    by (simp add: Let_def sample_event_def)
qed

end
