(* ===== verification/Replay_Stream.thy ===== *)
theory Replay_Stream
  imports Reactor_Exec Log_Properties
begin

text \<open>
  \<open>ProjectionStream\<close> (\<open>modules/causal_replay/src/stream.rs\<close>), which rebuilds a read model from the log
  and promotes it, or follows the log live, and the two-column pointer it keeps
  (\<open>PgPointerStore\<close> in \<open>pointer.rs\<close>, one SQL statement per operation).

  The read model is a value \<open>st_model\<close> that the callbacks change. Every call of the log, of the pointer
  and of the gate takes its fate from \<open>st_io\<close>. Other writers share the log: \<open>pc_rivals cfg n\<close> is what
  they do to it before the \<open>n\<close>-th call. The wait for new events has no effect, as the log is read after
  every wait, whatever woke it; the progress callback is a list of reports.
\<close>

section \<open>The pointer\<close>

record replay_pointer =
  rp_active :: log_cursor
  rp_staged :: "log_cursor option"
  rp_updated_at :: datetime

definition pointer_new :: "datetime \<Rightarrow> replay_pointer" where
  "pointer_new now = \<lparr> rp_active = 0, rp_staged = None, rp_updated_at = now \<rparr>"

definition pointer_save :: "datetime \<Rightarrow> log_cursor \<Rightarrow> replay_pointer \<Rightarrow> replay_pointer" where
  "pointer_save now position p = p\<lparr> rp_active := position, rp_updated_at := now \<rparr>"

definition pointer_stage :: "datetime \<Rightarrow> log_cursor \<Rightarrow> replay_pointer \<Rightarrow> replay_pointer" where
  "pointer_stage now position p = p\<lparr> rp_staged := Some position, rp_updated_at := now \<rparr>"

text \<open>\<open>None\<close>: no row matches, and \<open>fetch_one\<close> is an error.\<close>

definition pointer_promote :: "datetime \<Rightarrow> replay_pointer \<Rightarrow> log_cursor option \<times> replay_pointer" where
  "pointer_promote now p =
     (case rp_staged p of
        None \<Rightarrow> (None, p)
      | Some position \<Rightarrow>
          (Some position, p\<lparr> rp_active := position, rp_staged := None, rp_updated_at := now \<rparr>))"

definition pointer_set :: "datetime \<Rightarrow> log_cursor \<Rightarrow> replay_pointer \<Rightarrow> replay_pointer" where
  "pointer_set now position p = p\<lparr> rp_active := position, rp_updated_at := now \<rparr>"

definition pointer_status :: "replay_pointer \<Rightarrow> log_cursor \<times> log_cursor option \<times> datetime" where
  "pointer_status p = (rp_active p, rp_staged p, rp_updated_at p)"

section \<open>The stream\<close>

datatype stream_mode = Live | Replay

text \<open>The value of \<open>REPLAY\<close> in the environment.\<close>

definition mode_from_env :: "string option \<Rightarrow> stream_mode" where
  "mode_from_env v = (if v = Some ''1'' \<or> v = Some ''true'' then Replay else Live)"

record replay_progress =
  rg_processed :: nat
  rg_target :: log_cursor
  rg_position :: log_cursor

record 'w stream_config =
  pc_log :: "memory_store backend"
  pc_rivals :: "nat \<Rightarrow> memory_store \<Rightarrow> memory_store"
  pc_now :: "nat \<Rightarrow> datetime"
  pc_gate :: "('w \<Rightarrow> (string + bool)) option"
  pc_progress :: bool
  pc_batch_size :: nat
  pc_checkpoint_interval :: nat
  pc_mode :: "stream_mode option"
  pc_env :: "string option"

text \<open>\<open>ProjectionStream::new\<close> sets the defaults.\<close>

definition stream_new :: "memory_store backend \<Rightarrow> 'w stream_config" where
  "stream_new b =
     \<lparr> pc_log = b, pc_rivals = (\<lambda>_ s. s), pc_now = of_nat, pc_gate = None, pc_progress = False,
       pc_batch_size = 1000, pc_checkpoint_interval = 1000, pc_mode = None, pc_env = None \<rparr>"

definition mode_of :: "'w stream_config \<Rightarrow> stream_mode" where
  "mode_of cfg = (case pc_mode cfg of Some m \<Rightarrow> m | None \<Rightarrow> mode_from_env (pc_env cfg))"

record 'w stream_world =
  st_store :: memory_store
  st_pointer :: replay_pointer
  st_io :: "io_fate list"
  st_calls :: nat
  st_progress :: "replay_progress list"
  st_model :: 'w

datatype stream_error =
    StreamIo
  | LogRefused append_error
  | ApplyFailed string
  | GateFailed string
  | GateClosed log_cursor
  | NothingStaged
  | ZeroInterval

definition stream_call ::
  "'w stream_config \<Rightarrow> ('w stream_world \<Rightarrow> 'x \<times> 'w stream_world) \<Rightarrow> 'w stream_world \<Rightarrow>
   (stream_error + 'x) \<times> 'w stream_world" where
  "stream_call cfg call w0 =
     (let w = w0\<lparr> st_store := pc_rivals cfg (st_calls w0) (st_store w0), st_calls := Suc (st_calls w0),
                  st_io := tl (st_io w0) \<rparr>
      in case st_io w0 of
           IoFailBefore # _ \<Rightarrow> (Inl StreamIo, w)
         | IoFailAfter # _ \<Rightarrow> (Inl StreamIo, snd (call w))
         | _ \<Rightarrow> (case call w of (x, w') \<Rightarrow> (Inr x, w')))"

definition stream_read ::
  "'w stream_config \<Rightarrow> log_cursor \<Rightarrow> 'w stream_world \<Rightarrow> (stream_error + recorded_event list) \<times> 'w stream_world" where
  "stream_read cfg position w =
     (case stream_call cfg (\<lambda>w. (b_read_all (pc_log cfg) position (pc_batch_size cfg) (st_store w), w)) w of
        (Inl err, w1) \<Rightarrow> (Inl err, w1)
      | (Inr (Inl err), w1) \<Rightarrow> (Inl (LogRefused err), w1)
      | (Inr (Inr es), w1) \<Rightarrow> (Inr es, w1))"

definition stream_latest ::
  "'w stream_config \<Rightarrow> 'w stream_world \<Rightarrow> (stream_error + log_cursor) \<times> 'w stream_world" where
  "stream_latest cfg w =
     (case stream_call cfg (\<lambda>w. (b_latest_position (pc_log cfg) (st_store w), w)) w of
        (Inl err, w1) \<Rightarrow> (Inl err, w1)
      | (Inr (Inl err), w1) \<Rightarrow> (Inl (LogRefused err), w1)
      | (Inr (Inr p), w1) \<Rightarrow> (Inr p, w1))"

definition stream_stage ::
  "'w stream_config \<Rightarrow> log_cursor \<Rightarrow> 'w stream_world \<Rightarrow> (stream_error + unit) \<times> 'w stream_world" where
  "stream_stage cfg position w =
     stream_call cfg
       (\<lambda>w. ((), w\<lparr> st_pointer := pointer_stage (pc_now cfg (st_calls w)) position (st_pointer w) \<rparr>)) w"

definition stream_save ::
  "'w stream_config \<Rightarrow> log_cursor \<Rightarrow> 'w stream_world \<Rightarrow> (stream_error + unit) \<times> 'w stream_world" where
  "stream_save cfg position w =
     stream_call cfg
       (\<lambda>w. ((), w\<lparr> st_pointer := pointer_save (pc_now cfg (st_calls w)) position (st_pointer w) \<rparr>)) w"

definition stream_promote ::
  "'w stream_config \<Rightarrow> 'w stream_world \<Rightarrow> (stream_error + log_cursor) \<times> 'w stream_world" where
  "stream_promote cfg w =
     (case stream_call cfg (\<lambda>w. case pointer_promote (pc_now cfg (st_calls w)) (st_pointer w) of
                                  (x, p) \<Rightarrow> (x, w\<lparr> st_pointer := p \<rparr>)) w of
        (Inl err, w1) \<Rightarrow> (Inl err, w1)
      | (Inr None, w1) \<Rightarrow> (Inl NothingStaged, w1)
      | (Inr (Some p), w1) \<Rightarrow> (Inr p, w1))"

definition report :: "'w stream_config \<Rightarrow> nat \<Rightarrow> log_cursor \<Rightarrow> log_cursor \<Rightarrow> 'w stream_world \<Rightarrow> 'w stream_world" where
  "report cfg count target position w =
     (if pc_progress cfg
      then w\<lparr> st_progress := st_progress w @
                [\<lparr> rg_processed = count, rg_target = target, rg_position = position \<rparr>] \<rparr>
      else w)"

text \<open>\<open>ProjectionStream::position\<close>.\<close>

definition stream_position ::
  "'w stream_config \<Rightarrow> 'w stream_world \<Rightarrow> (stream_error + log_cursor) \<times> 'w stream_world" where
  "stream_position cfg w =
     (case mode_of cfg of
        Live \<Rightarrow> stream_call cfg (\<lambda>w. (rp_active (st_pointer w), w)) w
      | Replay \<Rightarrow>
          (case stream_latest cfg w of
             (Inl err, w1) \<Rightarrow> (Inl err, w1)
           | (Inr target, w1) \<Rightarrow>
               (case stream_stage cfg target w1 of
                  (Inl err, w2) \<Rightarrow> (Inl err, w2)
                | (Inr _, w2) \<Rightarrow> (Inr target, w2))))"

section \<open>Replay\<close>

definition finish_replay ::
  "'w stream_config \<Rightarrow> log_cursor \<Rightarrow> nat \<Rightarrow> log_cursor \<Rightarrow> 'w stream_world \<Rightarrow> stream_error option \<times> 'w stream_world" where
  "finish_replay cfg position count target w =
     (case stream_stage cfg position w of
        (Inl err, w1) \<Rightarrow> (Some err, w1)
      | (Inr _, w1) \<Rightarrow>
          (let w2 = report cfg count target position w1;
               promote = (\<lambda>w. case stream_promote cfg w of
                            (Inl err, w') \<Rightarrow> (Some err, w') | (Inr _, w') \<Rightarrow> (None, w'))
           in case pc_gate cfg of
                None \<Rightarrow> promote w2
              | Some passes \<Rightarrow>
                  (case passes (st_model w2) of
                     Inl m \<Rightarrow> (Some (GateFailed m), w2)
                   | Inr True \<Rightarrow> promote w2
                   | Inr False \<Rightarrow> (Some (GateClosed position), w2))))"

text \<open>The events of one page; the first error of the callback ends the replay. \<open>count % interval\<close>
  panics when the interval is zero.\<close>

fun replay_page ::
  "'w stream_config \<Rightarrow> (recorded_event \<Rightarrow> 'w \<Rightarrow> string option \<times> 'w) \<Rightarrow> log_cursor \<Rightarrow> recorded_event list \<Rightarrow>
   log_cursor \<Rightarrow> nat \<Rightarrow> 'w stream_world \<Rightarrow> (stream_error + log_cursor \<times> nat) \<times> 'w stream_world" where
  "replay_page cfg apply target [] position count w = (Inr (position, count), w)"
| "replay_page cfg apply target (e # es) position count w =
     (case apply e (st_model w) of
        (Some m, b) \<Rightarrow> (Inl (ApplyFailed m), w\<lparr> st_model := b \<rparr>)
      | (None, b) \<Rightarrow>
          (let w1 = w\<lparr> st_model := b \<rparr>; pos = re_position e; n = Suc count in
           if pc_checkpoint_interval cfg = 0 then (Inl ZeroInterval, w1)
           else if n mod pc_checkpoint_interval cfg = 0
           then (case stream_stage cfg pos w1 of
                   (Inl err, w2) \<Rightarrow> (Inl err, w2)
                 | (Inr _, w2) \<Rightarrow> replay_page cfg apply target es pos n (report cfg n target pos w2))
           else replay_page cfg apply target es pos n w1))"

text \<open>\<open>None\<close> means that the fuel, the number of pages, ran out.\<close>

fun replay_loop ::
  "'w stream_config \<Rightarrow> (recorded_event \<Rightarrow> 'w \<Rightarrow> string option \<times> 'w) \<Rightarrow> log_cursor \<Rightarrow> nat \<Rightarrow>
   log_cursor \<Rightarrow> nat \<Rightarrow> 'w stream_world \<Rightarrow> (stream_error option \<times> 'w stream_world) option" where
  "replay_loop cfg apply target 0 position count w = None"
| "replay_loop cfg apply target (Suc fuel) position count w =
     (case stream_read cfg position w of
        (Inl err, w1) \<Rightarrow> Some (Some err, w1)
      | (Inr es, w1) \<Rightarrow>
          if es = [] then Some (finish_replay cfg position count target w1)
          else case replay_page cfg apply target es position count w1 of
            (Inl err, w2) \<Rightarrow> Some (Some err, w2)
          | (Inr (pos, n), w2) \<Rightarrow> replay_loop cfg apply target fuel pos n w2)"

definition run_replay ::
  "'w stream_config \<Rightarrow> (recorded_event \<Rightarrow> 'w \<Rightarrow> string option \<times> 'w) \<Rightarrow> nat \<Rightarrow> 'w stream_world \<Rightarrow>
   (stream_error option \<times> 'w stream_world) option" where
  "run_replay cfg apply fuel w =
     (case stream_latest cfg w of
        (Inl err, w1) \<Rightarrow> Some (Some err, w1)
      | (Inr target, w1) \<Rightarrow> replay_loop cfg apply target fuel cursor_zero 0 w1)"

text \<open>With batch callbacks the pointer is staged after every page.\<close>

fun batch_replay_loop ::
  "'w stream_config \<Rightarrow> (recorded_event list \<Rightarrow> 'w \<Rightarrow> string option \<times> 'w) \<Rightarrow> log_cursor \<Rightarrow> nat \<Rightarrow>
   log_cursor \<Rightarrow> nat \<Rightarrow> 'w stream_world \<Rightarrow> (stream_error option \<times> 'w stream_world) option" where
  "batch_replay_loop cfg apply target 0 position count w = None"
| "batch_replay_loop cfg apply target (Suc fuel) position count w =
     (case stream_read cfg position w of
        (Inl err, w1) \<Rightarrow> Some (Some err, w1)
      | (Inr es, w1) \<Rightarrow>
          if es = [] then Some (finish_replay cfg position count target w1)
          else case apply es (st_model w1) of
            (Some m, b) \<Rightarrow> Some (Some (ApplyFailed m), w1\<lparr> st_model := b \<rparr>)
          | (None, b) \<Rightarrow>
              (let n = count + length es; pos = re_position (last es) in
               case stream_stage cfg pos (w1\<lparr> st_model := b \<rparr>) of
                 (Inl err, w2) \<Rightarrow> Some (Some err, w2)
               | (Inr _, w2) \<Rightarrow> batch_replay_loop cfg apply target fuel pos n (report cfg n target pos w2)))"

definition run_batch_replay ::
  "'w stream_config \<Rightarrow> (recorded_event list \<Rightarrow> 'w \<Rightarrow> string option \<times> 'w) \<Rightarrow> nat \<Rightarrow> 'w stream_world \<Rightarrow>
   (stream_error option \<times> 'w stream_world) option" where
  "run_batch_replay cfg apply fuel w =
     (case stream_latest cfg w of
        (Inl err, w1) \<Rightarrow> Some (Some err, w1)
      | (Inr target, w1) \<Rightarrow> batch_replay_loop cfg apply target fuel cursor_zero 0 w1)"

section \<open>Live\<close>

text \<open>An error of the callback is logged and the event skipped.\<close>

fun live_page :: "(recorded_event \<Rightarrow> 'w \<Rightarrow> string option \<times> 'w) \<Rightarrow> recorded_event list \<Rightarrow> 'w \<Rightarrow> 'w" where
  "live_page apply [] b = b"
| "live_page apply (e # es) b = live_page apply es (snd (apply e b))"

text \<open>The catch-up loop and the tail loop, which is entered by the first empty page and never left
  without an error: one read, its events, and the pointer saved when there were any. The fuel counts the
  reads; when it is spent the stream is still running, in the state given.\<close>

fun live_loop ::
  "'w stream_config \<Rightarrow> (recorded_event list \<Rightarrow> 'w \<Rightarrow> 'w) \<Rightarrow> nat \<Rightarrow> log_cursor \<Rightarrow> 'w stream_world \<Rightarrow>
   stream_error option \<times> 'w stream_world" where
  "live_loop cfg page 0 position w = (None, w)"
| "live_loop cfg page (Suc fuel) position w =
     (case stream_read cfg position w of
        (Inl err, w1) \<Rightarrow> (Some err, w1)
      | (Inr es, w1) \<Rightarrow>
          if es = [] then live_loop cfg page fuel position w1
          else
            let w2 = w1\<lparr> st_model := page es (st_model w1) \<rparr>; pos = re_position (last es)
            in case stream_save cfg pos w2 of
                 (Inl err, w3) \<Rightarrow> (Some err, w3)
               | (Inr _, w3) \<Rightarrow> live_loop cfg page fuel pos w3)"

definition start_live ::
  "'w stream_config \<Rightarrow> (recorded_event list \<Rightarrow> 'w \<Rightarrow> 'w) \<Rightarrow> nat \<Rightarrow> 'w stream_world \<Rightarrow>
   stream_error option \<times> 'w stream_world" where
  "start_live cfg page fuel w =
     (case stream_call cfg (\<lambda>w. (rp_active (st_pointer w), w)) w of
        (Inl err, w1) \<Rightarrow> (Some err, w1)
      | (Inr position, w1) \<Rightarrow> live_loop cfg page fuel position w1)"

definition run_live ::
  "'w stream_config \<Rightarrow> (recorded_event \<Rightarrow> 'w \<Rightarrow> string option \<times> 'w) \<Rightarrow> nat \<Rightarrow> 'w stream_world \<Rightarrow>
   stream_error option \<times> 'w stream_world" where
  "run_live cfg apply fuel w = start_live cfg (live_page apply) fuel w"

definition run_batch_live ::
  "'w stream_config \<Rightarrow> (recorded_event list \<Rightarrow> 'w \<Rightarrow> string option \<times> 'w) \<Rightarrow> nat \<Rightarrow> 'w stream_world \<Rightarrow>
   stream_error option \<times> 'w stream_world" where
  "run_batch_live cfg apply fuel w = start_live cfg (\<lambda>es b. snd (apply es b)) fuel w"

definition run_stream ::
  "'w stream_config \<Rightarrow> (recorded_event \<Rightarrow> 'w \<Rightarrow> string option \<times> 'w) \<Rightarrow> nat \<Rightarrow> 'w stream_world \<Rightarrow>
   (stream_error option \<times> 'w stream_world) option" where
  "run_stream cfg apply fuel w =
     (case mode_of cfg of
        Replay \<Rightarrow> run_replay cfg apply fuel w
      | Live \<Rightarrow> Some (run_live cfg apply fuel w))"

definition run_batch_stream ::
  "'w stream_config \<Rightarrow> (recorded_event list \<Rightarrow> 'w \<Rightarrow> string option \<times> 'w) \<Rightarrow> nat \<Rightarrow> 'w stream_world \<Rightarrow>
   (stream_error option \<times> 'w stream_world) option" where
  "run_batch_stream cfg apply fuel w =
     (case mode_of cfg of
        Replay \<Rightarrow> run_batch_replay cfg apply fuel w
      | Live \<Rightarrow> Some (run_batch_live cfg apply fuel w))"

end
