(* ===== verification/Replay_Properties.thy ===== *)
theory Replay_Properties
  imports Replay_Stream
begin

text \<open>
  What a projection stream guarantees: a replay promotes its pointer only over a read model that was
  given every event of the log, it completes when nothing fails, the pointer of a live stream is never
  ahead of the read model, and what the pages' size and the pointer's name do to that.
\<close>

section \<open>Calls\<close>

text \<open>The other writers of the log only append to it.\<close>

definition stream_ok :: "'w stream_config \<Rightarrow> bool" where
  "stream_ok cfg \<longleftrightarrow>
     pc_log cfg = memory_backend \<and>
     (\<forall>n s. log_inv s \<longrightarrow> log_inv (pc_rivals cfg n s) \<and> (\<exists>new. global_log (pc_rivals cfg n s) = global_log s @ new))"

text \<open>A call may let the log grow; it leaves the read model alone.\<close>

definition stream_frame :: "'w stream_world \<Rightarrow> 'w stream_world \<Rightarrow> bool" where
  "stream_frame w w' \<longleftrightarrow>
     st_model w' = st_model w \<and> log_inv (st_store w') \<and>
     (\<exists>new. global_log (st_store w') = global_log (st_store w) @ new)"

lemma stream_frame_trans: "stream_frame w w1 \<Longrightarrow> stream_frame w1 w2 \<Longrightarrow> stream_frame w w2"
  by (auto simp: stream_frame_def)

definition called :: "'w stream_config \<Rightarrow> 'w stream_world \<Rightarrow> 'w stream_world" where
  "called cfg w =
     w\<lparr> st_store := pc_rivals cfg (st_calls w) (st_store w), st_calls := Suc (st_calls w), st_io := tl (st_io w) \<rparr>"

lemma called_frame: "stream_ok cfg \<Longrightarrow> log_inv (st_store w) \<Longrightarrow> stream_frame w (called cfg w)"
  by (simp add: stream_ok_def stream_frame_def called_def)

lemma called_sel [simp]:
  "st_pointer (called cfg w) = st_pointer w" "st_model (called cfg w) = st_model w"
  by (simp_all add: called_def)

lemma stream_call_called:
  "stream_call cfg call w =
     (case st_io w of
        IoFailBefore # _ \<Rightarrow> (Inl StreamIo, called cfg w)
      | IoFailAfter # _ \<Rightarrow> (Inl StreamIo, snd (call (called cfg w)))
      | _ \<Rightarrow> (case call (called cfg w) of (x, w') \<Rightarrow> (Inr x, w')))"
  unfolding stream_call_def called_def Let_def by (rule refl)

lemma stream_call_cases:
  obtains (failed) "stream_call cfg call w = (Inl StreamIo, called cfg w)"
  | (lost) "stream_call cfg call w = (Inl StreamIo, snd (call (called cfg w)))"
  | (works) "stream_call cfg call w = (Inr (fst (call (called cfg w))), snd (call (called cfg w)))"
  by (cases "st_io w"; cases "hd (st_io w)"; cases "call (called cfg w)") (simp_all add: stream_call_called)

lemma stream_call_fault_free:
  "st_io w = [] \<Longrightarrow> stream_call cfg call w = (Inr (fst (call (called cfg w))), snd (call (called cfg w)))"
  by (simp add: stream_call_called split: prod.split)

lemma stream_read_frame:
  assumes "stream_ok cfg" "log_inv (st_store w)" "stream_read cfg position w = (res, w1)"
  shows "stream_frame w w1 \<and> st_pointer w1 = st_pointer w \<and>
         (\<forall>es. res = Inr es \<longrightarrow> es = read_all position (pc_batch_size cfg) (st_store w1))"
proof (cases rule: stream_call_cases
    [of cfg "\<lambda>w. (b_read_all (pc_log cfg) position (pc_batch_size cfg) (st_store w), w)" w])
qed (use assms called_frame [OF assms(1,2)] in
      \<open>auto simp: stream_read_def stream_ok_def memory_backend_def\<close>)

lemma stream_latest_frame:
  assumes "stream_ok cfg" "log_inv (st_store w)" "stream_latest cfg w = (res, w1)"
  shows "stream_frame w w1 \<and> st_pointer w1 = st_pointer w"
proof (cases rule: stream_call_cases [of cfg "\<lambda>w. (b_latest_position (pc_log cfg) (st_store w), w)" w])
qed (use assms called_frame [OF assms(1,2)] in
      \<open>auto simp: stream_latest_def stream_ok_def memory_backend_def\<close>)

lemma stream_frame_pointer [simp]: "stream_frame w (w1\<lparr> st_pointer := p \<rparr>) = stream_frame w w1"
  by (simp add: stream_frame_def)

lemma stream_stage_frame:
  assumes "stream_ok cfg" "log_inv (st_store w)" "stream_stage cfg position w = (res, w1)"
  shows "stream_frame w w1 \<and> rp_active (st_pointer w1) = rp_active (st_pointer w) \<and>
         (\<forall>x. res = Inr x \<longrightarrow> rp_staged (st_pointer w1) = Some position)"
proof (cases rule: stream_call_cases
    [of cfg "\<lambda>w. ((), w\<lparr> st_pointer := pointer_stage (pc_now cfg (st_calls w)) position (st_pointer w) \<rparr>)" w])
qed (use assms called_frame [OF assms(1,2)] in \<open>auto simp: stream_stage_def pointer_stage_def\<close>)

lemma stream_save_frame:
  assumes "stream_ok cfg" "log_inv (st_store w)" "stream_save cfg position w = (res, w1)"
  shows "stream_frame w w1 \<and>
         (rp_active (st_pointer w1) = position \<or> rp_active (st_pointer w1) = rp_active (st_pointer w)) \<and>
         (\<forall>x. res = Inr x \<longrightarrow> rp_active (st_pointer w1) = position)"
proof (cases rule: stream_call_cases
    [of cfg "\<lambda>w. ((), w\<lparr> st_pointer := pointer_save (pc_now cfg (st_calls w)) position (st_pointer w) \<rparr>)" w])
qed (use assms called_frame [OF assms(1,2)] in \<open>auto simp: stream_save_def pointer_save_def\<close>)

lemma stream_promote_frame:
  assumes "stream_ok cfg" "log_inv (st_store w)" "rp_staged (st_pointer w) = Some position"
    and "stream_promote cfg w = (res, w1)"
  shows "stream_frame w w1 \<and>
         (rp_active (st_pointer w1) = position \<or> rp_active (st_pointer w1) = rp_active (st_pointer w)) \<and>
         (\<forall>x. res = Inr x \<longrightarrow> rp_active (st_pointer w1) = position)"
proof (cases rule: stream_call_cases
    [of cfg "\<lambda>w. case pointer_promote (pc_now cfg (st_calls w)) (st_pointer w) of
                   (x, p) \<Rightarrow> (x, w\<lparr> st_pointer := p \<rparr>)" w])
qed (use assms called_frame [OF assms(1,2)] in
      \<open>auto simp: stream_promote_def pointer_promote_def split: prod.splits option.splits\<close>)

lemma report_sel [simp]:
  "st_store (report cfg n t p w) = st_store w" "st_pointer (report cfg n t p w) = st_pointer w"
  "st_model (report cfg n t p w) = st_model w" "st_io (report cfg n t p w) = st_io w"
  by (simp_all add: report_def)

section \<open>Pages\<close>

definition reached :: "recorded_event list \<Rightarrow> log_cursor" where
  "reached xs = (if xs = [] then cursor_zero else re_position (last xs))"

lemma rows_after:
  assumes "log_inv s" "global_log s = xs @ ys"
  shows "filter (\<lambda>e. reached xs < re_position e) (global_log s) = ys"
proof (cases xs rule: rev_cases)
  case Nil
  then show ?thesis
    using assms(2) log_inv_position_pos [OF assms(1)] by (auto simp: reached_def cursor_zero_def filter_id_conv)
next
  case (snoc zs z)
  then have "sorted_wrt (\<lambda>x y. re_position x < re_position y) (zs @ [z] @ ys)"
    using log_inv_positions_sorted [OF assms(1)] assms(2) by simp
  then show ?thesis
    using snoc by (auto simp: assms(2) reached_def sorted_wrt_append filter_empty_conv filter_id_conv)
qed

lemma read_rest:
  assumes "stream_ok cfg" "log_inv (st_store w)" "global_log (st_store w) = xs @ ys"
    and "stream_read cfg (reached xs) w = (Inr es, w1)"
  shows "\<exists>new. global_log (st_store w1) = xs @ ys @ new \<and> es = take (pc_batch_size cfg) (ys @ new)"
proof -
  have frame: "stream_frame w w1" "es = read_all (reached xs) (pc_batch_size cfg) (st_store w1)"
    using stream_read_frame [OF assms(1,2,4)] by blast+
  then obtain new where new: "global_log (st_store w1) = xs @ ys @ new"
    using assms(3) by (auto simp: stream_frame_def)
  have inv1: "log_inv (st_store w1)" using frame(1) by (simp add: stream_frame_def)
  have "es = take (pc_batch_size cfg) (ys @ new)"
    unfolding frame(2) read_all_rows [OF inv1] by (simp only: rows_after [OF inv1 new])
  then show ?thesis using new by blast
qed

text \<open>The callback on all events, which stops at the first error.\<close>

fun apply_events :: "('e \<Rightarrow> 'w \<Rightarrow> string option \<times> 'w) \<Rightarrow> 'e list \<Rightarrow> 'w \<Rightarrow> string option \<times> 'w" where
  "apply_events apply [] b = (None, b)"
| "apply_events apply (e # es) b =
     (case apply e b of (Some m, b') \<Rightarrow> (Some m, b') | (None, b') \<Rightarrow> apply_events apply es b')"

lemma apply_events_append:
  "apply_events apply xs b = (None, b') \<Longrightarrow> apply_events apply (xs @ ys) b = apply_events apply ys b'"
  by (induction xs arbitrary: b) (auto split: prod.splits option.splits)

section \<open>A replay promotes what it has rebuilt\<close>

text \<open>The read model was given exactly the events \<open>xs\<close> with which the log begins, all with success.\<close>

definition rebuilt ::
  "(recorded_event \<Rightarrow> 'w \<Rightarrow> string option \<times> 'w) \<Rightarrow> 'w \<Rightarrow> recorded_event list \<Rightarrow> 'w stream_world \<Rightarrow> bool" where
  "rebuilt apply b0 xs w \<longleftrightarrow>
     log_inv (st_store w) \<and> (\<exists>ys. global_log (st_store w) = xs @ ys) \<and> apply_events apply xs b0 = (None, st_model w)"

definition gate_open :: "'w stream_config \<Rightarrow> 'w \<Rightarrow> bool" where
  "gate_open cfg b \<longleftrightarrow> (case pc_gate cfg of None \<Rightarrow> True | Some passes \<Rightarrow> passes b = Inr True)"

lemma rebuilt_frame: "rebuilt apply b0 xs w \<Longrightarrow> stream_frame w w' \<Longrightarrow> rebuilt apply b0 xs w'"
  by (auto simp: rebuilt_def stream_frame_def)

lemma rebuilt_report [simp]: "rebuilt apply b0 xs (report cfg n t p w) = rebuilt apply b0 xs w"
  by (simp add: rebuilt_def)

lemma replay_page_rebuilds:
  assumes "stream_ok cfg"
  shows "rebuilt apply b0 xs w \<Longrightarrow> global_log (st_store w) = xs @ es @ zs \<Longrightarrow>
    replay_page cfg apply target es (reached xs) (length xs) w = (res, w') \<Longrightarrow>
      rp_active (st_pointer w') = rp_active (st_pointer w) \<and>
      (\<forall>p n. res = Inr (p, n) \<longrightarrow>
         rebuilt apply b0 (xs @ es) w' \<and> p = reached (xs @ es) \<and> n = length (xs @ es) \<and>
         (\<exists>new. global_log (st_store w') = global_log (st_store w) @ new))"
proof (induction es arbitrary: xs w zs)
  case (Cons e es)
  obtain m b where app: "apply e (st_model w) = (m, b)" by fastforce
  show ?case
  proof (cases m)
    case (Some msg)
    then show ?thesis using Cons.prems(3) app by auto
  next
    case None
    let ?w1 = "w\<lparr> st_model := b \<rparr>"
    have all: "apply_events apply (xs @ [e]) b0 = (None, b)"
      using Cons.prems(1) app None by (simp add: rebuilt_def apply_events_append)
    then have reb: "rebuilt apply b0 (xs @ [e]) ?w1"
      using Cons.prems(1,2) by (auto simp: rebuilt_def)
    have at: "reached (xs @ [e]) = re_position e" by (simp add: reached_def)
    have rows: "global_log (st_store ?w1) = (xs @ [e]) @ es @ zs" using Cons.prems(2) by simp
    consider (panic) "pc_checkpoint_interval cfg = 0"
      | (quiet) "pc_checkpoint_interval cfg \<noteq> 0" "Suc (length xs) mod pc_checkpoint_interval cfg \<noteq> 0"
      | (checkpoint) "pc_checkpoint_interval cfg \<noteq> 0" "Suc (length xs) mod pc_checkpoint_interval cfg = 0"
      by blast
    then show ?thesis
    proof cases
      case panic
      then show ?thesis using Cons.prems(3) app None by (auto simp: Let_def)
    next
      case quiet
      then have step: "replay_page cfg apply target es (reached (xs @ [e])) (length (xs @ [e])) ?w1 = (res, w')"
        using Cons.prems(3) app None at by (simp add: Let_def)
      show ?thesis using Cons.IH [OF reb rows step] by simp
    next
      case checkpoint
      obtain r w2 where stage: "stream_stage cfg (re_position e) ?w1 = (r, w2)" by fastforce
      have inv1: "log_inv (st_store ?w1)" using reb by (simp add: rebuilt_def)
      note frame = stream_stage_frame [OF assms inv1 stage]
      show ?thesis
      proof (cases r)
        case (Inl err)
        then show ?thesis using Cons.prems(3) app None checkpoint stage frame by (auto simp: Let_def)
      next
        case (Inr u)
        let ?w3 = "report cfg (Suc (length xs)) target (re_position e) w2"
        have step: "replay_page cfg apply target es (reached (xs @ [e])) (length (xs @ [e])) ?w3 = (res, w')"
          using Cons.prems(3) app None checkpoint stage Inr at by (simp add: Let_def)
        have "rebuilt apply b0 (xs @ [e]) ?w3" using rebuilt_frame [OF reb] frame by simp
        moreover obtain new where "global_log (st_store w2) = (xs @ [e]) @ es @ zs @ new"
          using frame rows by (auto simp: stream_frame_def)
        ultimately show ?thesis
          using Cons.IH [of "xs @ [e]" ?w3 "zs @ new", OF _ _ step] frame Cons.prems(2) by auto
      qed
    qed
  qed
qed auto

lemma finish_replay_rebuilt:
  assumes ok: "stream_ok cfg" and reb: "rebuilt apply b0 xs w"
    and run: "finish_replay cfg (reached xs) n target w = (res, w')"
  shows "rp_active (st_pointer w') = rp_active (st_pointer w) \<and> res \<noteq> None \<or>
         rp_active (st_pointer w') = reached xs \<and> rebuilt apply b0 xs w' \<and> gate_open cfg (st_model w')"
proof -
  obtain r w1 where stage: "stream_stage cfg (reached xs) w = (r, w1)" by fastforce
  note frame = stream_stage_frame [OF ok _ stage]
  have inv: "log_inv (st_store w)" using reb by (simp add: rebuilt_def)
  show ?thesis
  proof (cases r)
    case (Inl err)
    then show ?thesis using run stage frame [OF inv] by (auto simp: finish_replay_def)
  next
    case (Inr u)
    define w2 where "w2 = report cfg n target (reached xs) w1"
    obtain r2 w3 where prom: "stream_promote cfg w2 = (r2, w3)" by fastforce
    have reb2: "rebuilt apply b0 xs w2" and staged: "rp_staged (st_pointer w2) = Some (reached xs)"
      and active: "rp_active (st_pointer w2) = rp_active (st_pointer w)"
      using frame [OF inv] rebuilt_frame [OF reb] Inr by (simp_all add: w2_def)
    have inv2: "log_inv (st_store w2)" using reb2 by (simp add: rebuilt_def)
    note promoted = stream_promote_frame [OF ok inv2 staged prom]
    have reb3: "rebuilt apply b0 xs w3" using rebuilt_frame [OF reb2] promoted by blast
    have model: "st_model w3 = st_model w2" using promoted by (simp add: stream_frame_def)
    consider (open_gate) "gate_open cfg (st_model w2)" "(res, w') = (case r2 of Inl err \<Rightarrow> (Some err, w3) | Inr _ \<Rightarrow> (None, w3))"
      | (closed) "w' = w2" "res \<noteq> None"
      using run stage Inr prom
      by (auto simp: finish_replay_def Let_def w2_def gate_open_def split: option.splits sum.splits bool.splits)
    then show ?thesis
    proof cases
      case open_gate
      then show ?thesis using promoted reb3 model active by (cases r2) auto
    next
      case closed
      then show ?thesis using active by simp
    qed
  qed
qed

lemma replay_loop_rebuilds:
  assumes ok: "stream_ok cfg" and "0 < pc_batch_size cfg"
  shows "rebuilt apply b0 xs w \<Longrightarrow>
    replay_loop cfg apply target fuel (reached xs) (length xs) w = Some (res, w') \<Longrightarrow>
      rp_active (st_pointer w') = rp_active (st_pointer w) \<and> res \<noteq> None \<or>
      (\<exists>zs. rp_active (st_pointer w') = reached (global_log (st_store w) @ zs) \<and>
         rebuilt apply b0 (global_log (st_store w) @ zs) w' \<and> gate_open cfg (st_model w'))"
proof (induction fuel arbitrary: xs w)
  case (Suc fuel)
  obtain ys where log: "log_inv (st_store w)" "global_log (st_store w) = xs @ ys"
    using Suc.prems(1) by (auto simp: rebuilt_def)
  obtain r w1 where read: "stream_read cfg (reached xs) w = (r, w1)" by fastforce
  note frame = stream_read_frame [OF ok log(1) read]
  show ?case
  proof (cases r)
    case (Inl err)
    then show ?thesis using Suc.prems(2) read frame by auto
  next
    case (Inr es)
    obtain new where rows: "global_log (st_store w1) = xs @ ys @ new" "es = take (pc_batch_size cfg) (ys @ new)"
      using read_rest [OF ok log] read Inr by blast
    have reb: "rebuilt apply b0 xs w1" using rebuilt_frame [OF Suc.prems(1)] frame by blast
    show ?thesis
    proof (cases "es = []")
      case True
      then have "ys @ new = []" using rows(2) assms(2) by (metis take_eq_Nil less_irrefl)
      then have xs: "global_log (st_store w) @ [] = xs" using log(2) by simp
      have "finish_replay cfg (reached xs) (length xs) target w1 = (res, w')"
        using Suc.prems(2) read Inr True by simp
      from finish_replay_rebuilt [OF ok reb this] show ?thesis
      proof
        assume "rp_active (st_pointer w') = reached xs \<and> rebuilt apply b0 xs w' \<and> gate_open cfg (st_model w')"
        then show ?thesis by (intro disjI2 exI [of _ "[]"]) (simp only: xs)
      qed (use frame in simp)
    next
      case False
      define zs where "zs = drop (pc_batch_size cfg) (ys @ new)"
      have split: "global_log (st_store w1) = xs @ es @ zs"
        unfolding rows zs_def by (simp only: append_take_drop_id)
      obtain r2 w2 where page: "replay_page cfg apply target es (reached xs) (length xs) w1 = (r2, w2)"
        by fastforce
      note paged = replay_page_rebuilds [OF ok reb split page]
      show ?thesis
      proof (cases r2)
        case (Inl err)
        then show ?thesis using Suc.prems(2) read Inr False page paged frame by auto
      next
        case (Inr pn)
        then have "rebuilt apply b0 (xs @ es) w2" and grown: "\<exists>new. global_log (st_store w2) = global_log (st_store w1) @ new"
          and "replay_loop cfg apply target fuel (reached (xs @ es)) (length (xs @ es)) w2 = Some (res, w')"
          using Suc.prems(2) read \<open>r = Inr es\<close> False page paged by (cases pn; auto)+
        from Suc.IH [OF this(1,3)] grown show ?thesis
          using paged frame rows log(2) by (fastforce simp: stream_frame_def)
      qed
    qed
  qed
qed simp

text \<open>C32: with a positive batch size, a replay promotes only a read model that was given the whole
  log. Whatever calls fail, whatever is appended meanwhile, and whether the replay answers \<open>Ok\<close>
  or not: either the promoted position is the one of before, and the answer is an error; or every event of
  the log of the start, and possibly some that followed, was applied from the beginning, once each, in order
  and with success, the promoted position is that of the last of them, and the gate let the result pass. The
  builder also accepts a batch size of zero, for which this fails:
  \<open>replay_batch_zero_promotes_nothing\<close>.\<close>

theorem replay_promotes_whole_log:
  assumes "stream_ok cfg" "0 < pc_batch_size cfg" "log_inv (st_store w)"
    and "run_replay cfg apply fuel w = Some (res, w')"
  shows "rp_active (st_pointer w') = rp_active (st_pointer w) \<and> res \<noteq> None \<or>
         (\<exists>zs ys. global_log (st_store w') = global_log (st_store w) @ zs @ ys \<and>
            apply_events apply (global_log (st_store w) @ zs) (st_model w) = (None, st_model w') \<and>
            rp_active (st_pointer w') = reached (global_log (st_store w) @ zs) \<and> gate_open cfg (st_model w'))"
proof -
  obtain r w1 where latest: "stream_latest cfg w = (r, w1)" by fastforce
  note frame = stream_latest_frame [OF assms(1,3) latest]
  show ?thesis
  proof (cases r)
    case (Inl err)
    then show ?thesis using assms(4) latest frame by (auto simp: run_replay_def)
  next
    case (Inr target)
    have reb: "rebuilt apply (st_model w) [] w1"
      using frame by (simp add: rebuilt_def stream_frame_def)
    have loop: "replay_loop cfg apply target fuel (reached []) (length []) w1 = Some (res, w')"
      using assms(4) latest Inr by (simp add: run_replay_def reached_def)
    obtain new where new: "global_log (st_store w1) = global_log (st_store w) @ new"
      using frame by (auto simp: stream_frame_def)
    from replay_loop_rebuilds [OF assms(1,2) reb loop] show ?thesis
    proof
      assume "\<exists>zs. rp_active (st_pointer w') = reached (global_log (st_store w1) @ zs) \<and>
         rebuilt apply (st_model w) (global_log (st_store w1) @ zs) w' \<and> gate_open cfg (st_model w')"
      then obtain zs where "rp_active (st_pointer w') = reached (global_log (st_store w) @ (new @ zs))"
        "rebuilt apply (st_model w) (global_log (st_store w) @ (new @ zs)) w'" "gate_open cfg (st_model w')"
        by (auto simp: new)
      then show ?thesis unfolding rebuilt_def by (metis append.assoc)
    qed (use frame in simp)
  qed
qed

text \<open>A stream over the two events of \<open>sample_store\<close> that collects their ids.\<close>

definition sample_stream :: "uuid list stream_config" where
  "sample_stream = (stream_new memory_backend)\<lparr> pc_batch_size := 1, pc_checkpoint_interval := 2 \<rparr>"

definition sample_world :: "io_fate list \<Rightarrow> uuid list stream_world" where
  "sample_world io =
     \<lparr> st_store = sample_store, st_pointer = pointer_new 0, st_io = io, st_calls = 0, st_progress = [], st_model = [] \<rparr>"

definition collect_id :: "recorded_event \<Rightarrow> uuid list \<Rightarrow> string option \<times> uuid list" where
  "collect_id e b = (None, b @ [re_event_id e])"

lemma sample_stream_ok: "stream_ok sample_stream"
  by (simp add: stream_ok_def sample_stream_def stream_new_def)

lemma sample_world_inv: "log_inv (st_store (sample_world io))"
  using sample_store_inv by (simp add: sample_world_def)

lemma sample_replay_runs:
  "case run_replay sample_stream collect_id 3 (sample_world [IoOk]) of None \<Rightarrow> False | Some (res, _) \<Rightarrow> res = None"
  by code_simp

theorem replay_promotes_whole_log_witness:
  "\<exists>w' zs. run_replay sample_stream collect_id 3 (sample_world [IoOk]) = Some (None, w') \<and>
      apply_events collect_id (global_log sample_store @ zs) [] = (None, st_model w') \<and>
      rp_active (st_pointer w') = reached (global_log sample_store @ zs)"
proof -
  obtain w' where run: "run_replay sample_stream collect_id 3 (sample_world [IoOk]) = Some (None, w')"
    using sample_replay_runs by (auto split: option.splits)
  have batch: "0 < pc_batch_size sample_stream" by (simp add: sample_stream_def)
  from replay_promotes_whole_log [OF sample_stream_ok batch sample_world_inv run]
  show ?thesis using run by (auto simp: sample_world_def)
qed

section \<open>A replay completes when nothing fails\<close>

definition quiet_stream :: "'w stream_config \<Rightarrow> bool" where
  "quiet_stream cfg \<longleftrightarrow> pc_log cfg = memory_backend \<and> pc_rivals cfg = (\<lambda>_ s. s)"

text \<open>No fault to come, the log, the read model and the promoted position as given.\<close>

definition calm :: "memory_store \<Rightarrow> 'w \<Rightarrow> log_cursor \<Rightarrow> 'w stream_world \<Rightarrow> bool" where
  "calm s b a w \<longleftrightarrow> st_store w = s \<and> st_io w = [] \<and> st_model w = b \<and> rp_active (st_pointer w) = a"

lemma quiet_latest:
  "quiet_stream cfg \<Longrightarrow> calm s b a w \<Longrightarrow> \<exists>t w1. stream_latest cfg w = (Inr t, w1) \<and> calm s b a w1"
  by (auto simp: stream_latest_def stream_call_fault_free quiet_stream_def memory_backend_def calm_def called_def)

lemma quiet_read:
  "quiet_stream cfg \<Longrightarrow> calm s b a w \<Longrightarrow>
   \<exists>w1. stream_read cfg p w = (Inr (read_all p (pc_batch_size cfg) s), w1) \<and> calm s b a w1"
  by (auto simp: stream_read_def stream_call_fault_free quiet_stream_def memory_backend_def calm_def called_def)

lemma quiet_stage:
  "quiet_stream cfg \<Longrightarrow> calm s b a w \<Longrightarrow>
   \<exists>w1. stream_stage cfg p w = (Inr (), w1) \<and> calm s b a w1 \<and> rp_staged (st_pointer w1) = Some p"
  by (auto simp: stream_stage_def stream_call_fault_free quiet_stream_def calm_def called_def pointer_stage_def)

lemma quiet_promote:
  "quiet_stream cfg \<Longrightarrow> calm s b a w \<Longrightarrow> rp_staged (st_pointer w) = Some p \<Longrightarrow>
   \<exists>w1. stream_promote cfg w = (Inr p, w1) \<and> calm s b p w1 \<and> rp_staged (st_pointer w1) = None"
  by (auto simp: stream_promote_def stream_call_fault_free quiet_stream_def calm_def called_def pointer_promote_def)

lemma calm_report [simp]: "calm s b a (report cfg n t p w) = calm s b a w"
  by (simp add: calm_def)

lemma quiet_finish:
  assumes "quiet_stream cfg" "calm s b a w" "gate_open cfg b"
  shows "\<exists>w'. finish_replay cfg p n target w = (None, w') \<and> calm s b p w' \<and> rp_staged (st_pointer w') = None"
proof -
  obtain w1 where w1: "stream_stage cfg p w = (Inr (), w1)" "calm s b a w1" "rp_staged (st_pointer w1) = Some p"
    using quiet_stage [OF assms(1,2)] by blast
  have "calm s b a (report cfg n target p w1)" "rp_staged (st_pointer (report cfg n target p w1)) = Some p"
    using w1(2,3) by simp_all
  then obtain w2 where w2: "stream_promote cfg (report cfg n target p w1) = (Inr p, w2)" "calm s b p w2"
    "rp_staged (st_pointer w2) = None"
    using quiet_promote [OF assms(1)] by blast
  have "st_model (report cfg n target p w1) = b" using w1(2) by (simp add: calm_def)
  then show ?thesis
    using w1(1) w2 assms(3) by (cases "pc_gate cfg") (simp_all add: finish_replay_def Let_def gate_open_def)
qed

lemma apply_events_split:
  assumes "apply_events apply ys b = (None, b')"
  obtains b1 where "apply_events apply (take n ys) b = (None, b1)" "apply_events apply (drop n ys) b1 = (None, b')"
proof -
  have "\<exists>b1. apply_events apply xs b = (None, b1) \<and> apply_events apply zs b1 = (None, b')"
    if "apply_events apply (xs @ zs) b = (None, b')" for xs zs
    using that by (induction xs arbitrary: b) (auto split: prod.splits option.splits)
  from this [of "take n ys" "drop n ys"] show thesis using assms that by auto
qed

lemma reached_append [simp]: "es \<noteq> [] \<Longrightarrow> reached (xs @ es) = re_position (last es)"
  by (simp add: reached_def)

lemma quiet_page:
  assumes "quiet_stream cfg" "0 < pc_checkpoint_interval cfg"
  shows "calm s b a w \<Longrightarrow> apply_events apply es b = (None, b') \<Longrightarrow>
    \<exists>w'. replay_page cfg apply target es (reached xs) (length xs) w =
           (Inr (reached (xs @ es), length (xs @ es)), w') \<and> calm s b' a w'"
proof (induction es arbitrary: xs w b)
  case (Cons e es)
  obtain b1 where app: "apply e b = (None, b1)" "apply_events apply es b1 = (None, b')"
    using Cons.prems(2) by (auto split: prod.splits option.splits)
  let ?w1 = "w\<lparr> st_model := b1 \<rparr>"
  have model: "st_model w = b" and calm1: "calm s b1 a ?w1" using Cons.prems(1) by (simp_all add: calm_def)
  have at: "reached (xs @ [e]) = re_position e" by simp
  show ?case
  proof (cases "Suc (length xs) mod pc_checkpoint_interval cfg = 0")
    case True
    obtain w2 where w2: "stream_stage cfg (re_position e) ?w1 = (Inr (), w2)" "calm s b1 a w2"
      using quiet_stage [OF assms(1) calm1] by blast
    have "calm s b1 a (report cfg (Suc (length xs)) target (re_position e) w2)" using w2(2) by simp
    from Cons.IH [OF this app(2), of "xs @ [e]"] show ?thesis
      using app(1) model assms(2) True w2(1) at by (simp add: Let_def)
  next
    case False
    from Cons.IH [OF calm1 app(2), of "xs @ [e]"] show ?thesis
      using app(1) model assms(2) False at by (simp add: Let_def)
  qed
qed (simp add: calm_def)

lemma quiet_read_rest:
  assumes "quiet_stream cfg" "calm s b a w" "log_inv s" "global_log s = xs @ ys"
  shows "\<exists>w1. stream_read cfg (reached xs) w = (Inr (take (pc_batch_size cfg) ys), w1) \<and> calm s b a w1"
  using quiet_read [OF assms(1,2), of "reached xs"] rows_after [OF assms(3,4)]
  by (simp add: read_all_rows [OF assms(3)])

lemma quiet_replay_loop:
  assumes "quiet_stream cfg" "0 < pc_checkpoint_interval cfg" "0 < pc_batch_size cfg" "log_inv s" "gate_open cfg b'"
  shows "calm s b a w \<Longrightarrow> global_log s = xs @ ys \<Longrightarrow> apply_events apply ys b = (None, b') \<Longrightarrow> length ys < fuel \<Longrightarrow>
    \<exists>w'. replay_loop cfg apply target fuel (reached xs) (length xs) w = Some (None, w') \<and>
         calm s b' (reached (xs @ ys)) w' \<and> rp_staged (st_pointer w') = None"
proof (induction fuel arbitrary: xs ys w b)
  case (Suc fuel)
  let ?es = "take (pc_batch_size cfg) ys" and ?zs = "drop (pc_batch_size cfg) ys"
  obtain w1 where w1: "stream_read cfg (reached xs) w = (Inr ?es, w1)" "calm s b a w1"
    using quiet_read_rest [OF assms(1) Suc.prems(1) assms(4) Suc.prems(2)] by blast
  show ?case
  proof (cases "ys = []")
    case True
    then have "b' = b" using Suc.prems(3) by simp
    then show ?thesis
      using True w1(1) quiet_finish [OF assms(1) w1(2), of "reached xs" "length xs" target] assms(5) by simp
  next
    case False
    obtain b1 where b1: "apply_events apply ?es b = (None, b1)" "apply_events apply ?zs b1 = (None, b')"
      by (rule apply_events_split [OF Suc.prems(3)])
    obtain w2 where w2: "replay_page cfg apply target ?es (reached xs) (length xs) w1 =
        (Inr (reached (xs @ ?es), length (xs @ ?es)), w2)" "calm s b1 a w2"
      using quiet_page [OF assms(1,2) w1(2) b1(1)] by blast
    have rest: "global_log s = (xs @ ?es) @ ?zs" "length ?zs < fuel"
      using Suc.prems(2,4) assms(3) length_greater_0_conv [of ys] False by (simp_all del: length_greater_0_conv)
    have "?es \<noteq> []" using False assms(3) by simp
    then show ?thesis
      using Suc.IH [OF w2(2) rest(1) b1(2) rest(2)] w1(1) w2(1) Suc.prems(2) rest(1) by simp
  qed
qed simp

lemma quiet_batch_replay_loop:
  assumes "quiet_stream cfg" "0 < pc_batch_size cfg" "log_inv s" "gate_open cfg b'"
  shows "calm s b a w \<Longrightarrow> global_log s = xs @ ys \<Longrightarrow> apply_events apply ys b = (None, b') \<Longrightarrow> length ys < fuel \<Longrightarrow>
    \<exists>w'. batch_replay_loop cfg (apply_events apply) target fuel (reached xs) (length xs) w = Some (None, w') \<and>
         calm s b' (reached (xs @ ys)) w' \<and> rp_staged (st_pointer w') = None"
proof (induction fuel arbitrary: xs ys w b)
  case (Suc fuel)
  let ?es = "take (pc_batch_size cfg) ys" and ?zs = "drop (pc_batch_size cfg) ys"
  obtain w1 where w1: "stream_read cfg (reached xs) w = (Inr ?es, w1)" "calm s b a w1"
    using quiet_read_rest [OF assms(1) Suc.prems(1) assms(3) Suc.prems(2)] by blast
  show ?case
  proof (cases "ys = []")
    case True
    then have "b' = b" using Suc.prems(3) by simp
    then show ?thesis
      using True w1(1) quiet_finish [OF assms(1) w1(2), of "reached xs" "length xs" target] assms(4) by simp
  next
    case False
    obtain b1 where b1: "apply_events apply ?es b = (None, b1)" "apply_events apply ?zs b1 = (None, b')"
      by (rule apply_events_split [OF Suc.prems(3)])
    have model: "st_model w1 = b" and calm2: "calm s b1 a (w1\<lparr> st_model := b1 \<rparr>)"
      using w1(2) by (simp_all add: calm_def)
    have ne: "?es \<noteq> []" using False assms(2) by simp
    then have at: "reached (xs @ ?es) = re_position (last ?es)" by simp
    obtain w2 where w2: "stream_stage cfg (re_position (last ?es)) (w1\<lparr> st_model := b1 \<rparr>) = (Inr (), w2)" "calm s b1 a w2"
      using quiet_stage [OF assms(1) calm2] by blast
    let ?w3 = "report cfg (length xs + length ?es) target (re_position (last ?es)) w2"
    have calm3: "calm s b1 a ?w3" using w2(2) by simp
    have rest: "global_log s = (xs @ ?es) @ ?zs" "length ?zs < fuel"
      using Suc.prems(2,4) assms(2) length_greater_0_conv [of ys] False by (simp_all del: length_greater_0_conv)
    from Suc.IH [OF calm3 rest(1) b1(2) rest(2)] show ?thesis
      using w1(1) b1(1) w2(1) model ne at Suc.prems(2) rest(1) by (simp add: Let_def)
  qed
qed simp

text \<open>C33: when nothing fails and nobody appends, a replay ends after at most one page more than the log
  has events, answers \<open>Ok\<close>, and promotes the position of the last event over the read model that
  applying the whole log gives; the replay with batch callbacks, the batch being applied event by event,
  ends with the same read model and the same pointer, whatever the sizes of the pages and the checkpoint
  interval.\<close>

theorem replay_completes:
  assumes "quiet_stream cfg" "st_io w = []" "log_inv (st_store w)"
    and "0 < pc_batch_size cfg" "0 < pc_checkpoint_interval cfg"
    and "apply_events apply (global_log (st_store w)) (st_model w) = (None, b)" "gate_open cfg b"
    and "length (global_log (st_store w)) < fuel"
  shows "\<exists>w1 w2. run_replay cfg apply fuel w = Some (None, w1) \<and>
           run_batch_replay cfg (apply_events apply) fuel w = Some (None, w2) \<and>
           (\<forall>w' \<in> {w1, w2}. st_model w' = b \<and> st_store w' = st_store w \<and>
              rp_active (st_pointer w') = reached (global_log (st_store w)) \<and> rp_staged (st_pointer w') = None)"
proof -
  have calm: "calm (st_store w) (st_model w) (rp_active (st_pointer w)) w" using assms(2) by (simp add: calm_def)
  obtain t w1 where w1: "stream_latest cfg w = (Inr t, w1)"
    "calm (st_store w) (st_model w) (rp_active (st_pointer w)) w1"
    using quiet_latest [OF assms(1) calm] by blast
  have zero: "reached [] = cursor_zero" by (simp add: reached_def)
  have start: "global_log (st_store w) = [] @ global_log (st_store w)" by simp
  from quiet_replay_loop [OF assms(1,5,4,3,7) w1(2) start assms(6,8), of t]
    quiet_batch_replay_loop [OF assms(1,4,3,7) w1(2) start assms(6,8), of t]
  show ?thesis using w1(1) zero by (fastforce simp: run_replay_def run_batch_replay_def calm_def)
qed

theorem replay_completes_witness:
  "\<exists>w1 w2. run_replay sample_stream collect_id 3 (sample_world []) = Some (None, w1) \<and>
     run_batch_replay sample_stream (apply_events collect_id) 3 (sample_world []) = Some (None, w2) \<and>
     st_model w1 = [1, 2] \<and> st_model w2 = [1, 2] \<and> rp_active (st_pointer w1) = 2 \<and> rp_active (st_pointer w2) = 2"
proof -
  have quiet: "quiet_stream sample_stream" by (simp add: quiet_stream_def sample_stream_def stream_new_def)
  have sizes: "0 < pc_batch_size sample_stream" "0 < pc_checkpoint_interval sample_stream"
    and gate: "gate_open sample_stream [1, 2]"
    by (simp_all add: sample_stream_def gate_open_def stream_new_def)
  have io: "st_io (sample_world []) = []" by (simp add: sample_world_def)
  have rows: "global_log (st_store (sample_world [])) =
      [placed_row ''order'' 9 1 0 (sample_event 1 JNull), placed_row ''order'' 9 2 1 (sample_event 2 (JBool True))]"
    by (simp add: sample_world_def sample_store_eq)
  have applied: "apply_events collect_id (global_log (st_store (sample_world []))) (st_model (sample_world [])) = (None, [1, 2])"
    unfolding rows by (simp add: collect_id_def sample_world_def sample_event_def)
  have fuel: "length (global_log (st_store (sample_world []))) < 3" by (simp add: rows)
  have end_: "reached (global_log (st_store (sample_world []))) = 2" by (simp add: rows reached_def)
  show ?thesis
    using replay_completes [OF quiet io sample_world_inv sizes applied gate fuel] unfolding end_ by auto
qed

section \<open>A live stream never skips an event\<close>

definition rows_beyond :: "log_cursor \<Rightarrow> memory_store \<Rightarrow> recorded_event list" where
  "rows_beyond p s = filter (\<lambda>e. p < re_position e) (global_log s)"

text \<open>The pointer after the events \<open>xs\<close>, from \<open>p\<close>.\<close>

definition moved :: "log_cursor \<Rightarrow> recorded_event list \<Rightarrow> log_cursor" where
  "moved p xs = (if xs = [] then p else re_position (last xs))"

lemma moved_append: "moved (moved p xs) ys = moved p (xs @ ys)"
  by (simp add: moved_def)

lemma rows_beyond_grow:
  "stream_frame w w' \<Longrightarrow> \<exists>new. rows_beyond p (st_store w') = rows_beyond p (st_store w) @ new"
  by (auto simp: stream_frame_def rows_beyond_def)

lemma rows_beyond_moved:
  assumes "log_inv s" "rows_beyond p s = xs @ ys"
  shows "rows_beyond (moved p xs) s = ys"
proof (cases xs rule: rev_cases)
  case Nil
  then show ?thesis using assms(2) by (simp add: moved_def)
next
  case (snoc zs z)
  have "sorted_wrt (\<lambda>x y. re_position x < re_position y) (rows_beyond p s)"
    unfolding rows_beyond_def by (rule sorted_wrt_filter [OF log_inv_positions_sorted [OF assms(1)]])
  then have sorted: "sorted_wrt (\<lambda>x y. re_position x < re_position y) (zs @ [z] @ ys)"
    using snoc assms(2) by simp
  have "z \<in> set (rows_beyond p s)" using snoc assms(2) by simp
  then have "p < re_position z" by (simp add: rows_beyond_def)
  then have "rows_beyond (re_position z) s = filter (\<lambda>e. re_position z < re_position e) (rows_beyond p s)"
    by (auto simp: rows_beyond_def intro!: filter_cong)
  also have "\<dots> = ys"
    using sorted snoc by (auto simp: assms(2) sorted_wrt_append filter_empty_conv filter_id_conv)
  finally show ?thesis using snoc by (simp add: moved_def)
qed

lemma live_loop_grows:
  assumes "stream_ok cfg"
  shows "log_inv (st_store w) \<Longrightarrow> live_loop cfg page fuel p w = (res, w') \<Longrightarrow>
    log_inv (st_store w') \<and> (\<exists>new. global_log (st_store w') = global_log (st_store w) @ new)"
proof (induction fuel arbitrary: w p)
  case (Suc fuel)
  obtain r w1 where read: "stream_read cfg p w = (r, w1)" by fastforce
  note frame = stream_read_frame [OF assms Suc.prems(1) read]
  show ?case
  proof (cases r)
    case (Inl err)
    then show ?thesis using Suc.prems(2) read frame by (auto simp: stream_frame_def)
  next
    case (Inr es)
    let ?w2 = "w1\<lparr> st_model := page es (st_model w1) \<rparr>"
    obtain r2 w3 where save: "stream_save cfg (re_position (last es)) ?w2 = (r2, w3)" by fastforce
    have inv1: "log_inv (st_store w1)" "log_inv (st_store ?w2)" using frame by (simp_all add: stream_frame_def)
    note saved = stream_save_frame [OF assms inv1(2) save]
    consider (quiet) "live_loop cfg page fuel p w1 = (res, w')" | (failed) "w' = w3"
      | (saved) "live_loop cfg page fuel (re_position (last es)) w3 = (res, w')"
      using Suc.prems(2) read Inr save by (cases r2) (auto simp: Let_def split: if_splits)
    then show ?thesis
    proof cases
      case quiet
      from Suc.IH [OF inv1(1) this] show ?thesis using frame by (auto simp: stream_frame_def)
    next
      case failed
      then show ?thesis using frame saved by (auto simp: stream_frame_def)
    next
      case saved
      have "log_inv (st_store w3)" using \<open>stream_frame ?w2 w3 \<and> _\<close> by (simp add: stream_frame_def)
      from Suc.IH [OF this saved] show ?thesis
        using frame \<open>stream_frame ?w2 w3 \<and> _\<close> by (auto simp: stream_frame_def)
    qed
  qed
qed simp

text \<open>The pages \<open>ps\<close> are applied and recorded in the pointer, the pages \<open>qs\<close> only applied.\<close>

lemma live_loop_pages:
  assumes "stream_ok cfg"
  shows "log_inv (st_store w) \<Longrightarrow> rp_active (st_pointer w) = p \<Longrightarrow> live_loop cfg page fuel p w = (res, w') \<Longrightarrow>
    \<exists>ps qs zs. rows_beyond p (st_store w') = concat ps @ concat qs @ zs \<and>
       st_model w' = fold page (ps @ qs) (st_model w) \<and>
       rp_active (st_pointer w') = moved p (concat ps) \<and>
       length (concat qs) \<le> pc_batch_size cfg \<and> (res = None \<longrightarrow> qs = [])"
proof (induction fuel arbitrary: w p)
  case 0
  then show ?case by (intro exI [of _ "[]"] exI [of _ "rows_beyond p (st_store w')"]) (auto simp: moved_def)
next
  case (Suc fuel)
  obtain r w1 where read: "stream_read cfg p w = (r, w1)" by fastforce
  note frame = stream_read_frame [OF assms Suc.prems(1) read]
  have inv1: "log_inv (st_store w1)" and model1: "st_model w1 = st_model w"
    using frame by (simp_all add: stream_frame_def)
  consider (failed) err where "r = Inl err" | (quiet) "r = Inr []" | (page) es where "r = Inr es" "es \<noteq> []"
    by (cases r) blast+
  then show ?case
  proof cases
    case failed
    then show ?thesis
      using Suc.prems(2,3) read frame model1
      by (intro exI [of _ "[]"] exI [of _ "rows_beyond p (st_store w')"]) (auto simp: moved_def)
  next
    case quiet
    have active: "rp_active (st_pointer w1) = p" using Suc.prems(2) frame by simp
    have run: "live_loop cfg page fuel p w1 = (res, w')" using Suc.prems(3) read quiet by simp
    from Suc.IH [OF inv1 active run] show ?thesis by (simp only: model1)
  next
    case page
    have es: "es = take (pc_batch_size cfg) (rows_beyond p (st_store w1))"
      using frame page(1) by (simp add: read_all_rows [OF inv1] rows_beyond_def)
    have at: "re_position (last es) = moved p es" using page(2) by (simp add: moved_def)
    let ?w2 = "w1\<lparr> st_model := page es (st_model w1) \<rparr>"
    obtain r2 w3 where save: "stream_save cfg (moved p es) ?w2 = (r2, w3)" by fastforce
    have "log_inv (st_store ?w2)" using inv1 by simp
    note saved = stream_save_frame [OF assms this save]
    obtain new where "rows_beyond p (st_store w3) = rows_beyond p (st_store w1) @ new"
      using rows_beyond_grow [of ?w2 w3 p] saved by auto
    then obtain ys where rows: "rows_beyond p (st_store w3) = es @ ys"
      by (metis append.assoc append_take_drop_id es)
    have model3: "st_model w3 = page es (st_model w)" using saved model1 by (simp add: stream_frame_def)
    show ?thesis
    proof (cases r2)
      case (Inl err)
      then have done_: "res = Some err" "w' = w3"
        using Suc.prems(3) read page save at by (auto simp: Let_def)
      have len: "length es \<le> pc_batch_size cfg" by (simp add: es)
      consider (kept) "rp_active (st_pointer w3) = p" | (moved) "rp_active (st_pointer w3) = moved p es"
        using saved Suc.prems(2) frame by auto
      then show ?thesis
      proof cases
        case kept
        then show ?thesis using done_ rows model3 len
          by (intro exI [of _ "[]"] exI [of _ "[es]"] exI [of _ ys]) (simp add: moved_def)
      next
        case moved
        then show ?thesis using done_ rows model3
          by (intro exI [of _ "[es]"] exI [of _ "[]"] exI [of _ ys]) simp
      qed
    next
      case (Inr u)
      have inv3: "log_inv (st_store w3)" using saved by (simp add: stream_frame_def)
      have active: "rp_active (st_pointer w3) = moved p es" using saved Inr by simp
      have run: "live_loop cfg page fuel (moved p es) w3 = (res, w')"
        using Suc.prems(3) read page save at Inr by (simp add: Let_def)
      from Suc.IH [OF inv3 active run] obtain ps qs zs where ih:
        "rows_beyond (moved p es) (st_store w') = concat ps @ concat qs @ zs"
        "st_model w' = fold page (ps @ qs) (st_model w3)" "rp_active (st_pointer w') = moved (moved p es) (concat ps)"
        "length (concat qs) \<le> pc_batch_size cfg" "res = None \<longrightarrow> qs = []" by blast
      obtain ys' where rows': "rows_beyond p (st_store w') = es @ ys'" and inv': "log_inv (st_store w')"
        using live_loop_grows [OF assms inv3 run] rows by (auto simp: rows_beyond_def)
      then have "ys' = concat ps @ concat qs @ zs" using rows_beyond_moved [OF inv' rows'] ih(1) by simp
      then show ?thesis using rows' ih model3
        by (intro exI [of _ "es # ps"] exI [of _ qs] exI [of _ zs]) (simp add: moved_append)
    qed
  qed
qed

lemma live_page_append: "live_page apply (xs @ ys) b = live_page apply ys (live_page apply xs b)"
  by (induction xs arbitrary: b) simp_all

lemma fold_live_page: "fold (live_page apply) ps b = live_page apply (concat ps) b"
  by (induction ps arbitrary: b) (simp_all add: live_page_append)

lemma start_live_pages:
  assumes ok: "stream_ok cfg" and inv: "log_inv (st_store w)" and run: "start_live cfg page fuel w = (res, w')"
    and p: "p = rp_active (st_pointer w)"
  shows "\<exists>ps qs zs. rows_beyond p (st_store w') = concat ps @ concat qs @ zs \<and>
       st_model w' = fold page (ps @ qs) (st_model w) \<and>
       rp_active (st_pointer w') = moved p (concat ps) \<and>
       length (concat qs) \<le> pc_batch_size cfg \<and> (res = None \<longrightarrow> qs = [])"
proof -
  have inv1: "log_inv (st_store (called cfg w))"
    using called_frame [OF ok inv] by (simp add: stream_frame_def)
  consider (failed) "res \<noteq> None" "w' = called cfg w" | (live) "live_loop cfg page fuel p (called cfg w) = (res, w')"
    by (cases rule: stream_call_cases [of cfg "\<lambda>w. (rp_active (st_pointer w), w)" w])
      (use run p in \<open>auto simp: start_live_def\<close>)
  then show ?thesis
  proof cases
    case failed
    then show ?thesis using p
      by (intro exI [of _ "[]"] exI [of _ "rows_beyond p (st_store w')"]) (simp add: moved_def)
  next
    case live
    have "rp_active (st_pointer (called cfg w)) = p" using p by simp
    from live_loop_pages [OF ok inv1 this live] show ?thesis by simp
  qed
qed

text \<open>C34: a live stream's pointer is never ahead of its read model. After any number of reads, whatever
  calls fail and whatever is appended meanwhile, the read model was given, from the position the pointer
  had, the events of the log in order and once each, up to some point; the pointer stands at that point,
  or, when a call failed, at most one page before it; so a restart skips no event and repeats at most a
  page.\<close>

theorem live_pointer_never_ahead:
  assumes "stream_ok cfg" "log_inv (st_store w)" "p = rp_active (st_pointer w)"
    and "run_live cfg apply fuel w = (res, w')"
  shows "\<exists>us vs zs. rows_beyond p (st_store w') = us @ vs @ zs \<and>
           st_model w' = live_page apply (us @ vs) (st_model w) \<and>
           rp_active (st_pointer w') = moved p us \<and>
           length vs \<le> pc_batch_size cfg \<and> (res = None \<longrightarrow> vs = [])"
proof -
  have "start_live cfg (live_page apply) fuel w = (res, w')" using assms(4) by (simp add: run_live_def)
  from start_live_pages [OF assms(1,2) this assms(3)] obtain ps qs zs where
    "rows_beyond p (st_store w') = concat ps @ concat qs @ zs"
    "st_model w' = fold (live_page apply) (ps @ qs) (st_model w)"
    "rp_active (st_pointer w') = moved p (concat ps)"
    "length (concat qs) \<le> pc_batch_size cfg" "res = None \<longrightarrow> qs = []" by blast
  then have "rows_beyond p (st_store w') = concat ps @ concat qs @ zs \<and>
      st_model w' = live_page apply (concat ps @ concat qs) (st_model w) \<and>
      rp_active (st_pointer w') = moved p (concat ps) \<and>
      length (concat qs) \<le> pc_batch_size cfg \<and> (res = None \<longrightarrow> concat qs = [])"
    by (simp add: fold_live_page live_page_append)
  then show ?thesis by blast
qed

text \<open>The second page is applied and then the save fails: the pointer is one page behind.\<close>

lemma sample_live_runs:
  "case run_live sample_stream collect_id 5 (sample_world [IoOk, IoOk, IoOk, IoOk, IoFailBefore]) of
     (res, w') \<Rightarrow> res = Some StreamIo \<and> st_model w' = [1, 2] \<and> rp_active (st_pointer w') = 1"
  by code_simp

theorem live_pointer_never_ahead_witness:
  "\<exists>w' us vs. run_live sample_stream collect_id 5 (sample_world [IoOk, IoOk, IoOk, IoOk, IoFailBefore]) =
       (Some StreamIo, w') \<and>
     st_model w' = live_page collect_id (us @ vs) [] \<and> rp_active (st_pointer w') = moved 0 us \<and> length vs \<le> 1"
proof -
  let ?w = "sample_world [IoOk, IoOk, IoOk, IoOk, IoFailBefore]"
  obtain w' where run: "run_live sample_stream collect_id 5 ?w = (Some StreamIo, w')"
    using sample_live_runs by (auto split: prod.splits)
  have p: "0 = rp_active (st_pointer ?w)" "st_model ?w = []" by (simp_all add: sample_world_def pointer_new_def)
  show ?thesis
    using live_pointer_never_ahead [OF sample_stream_ok sample_world_inv p(1) run] run p(2)
    by (auto simp: sample_stream_def)
qed

section \<open>Configurations that mislead\<close>

text \<open>With \<open>batch_size(0)\<close> the first page of a replay is empty: it promotes position 0 over a read model
  that was given nothing, whatever the log holds, and answers \<open>Ok\<close>.\<close>

lemma replay_batch_zero_promotes_nothing:
  assumes "quiet_stream cfg" "st_io w = []" "pc_batch_size cfg = 0" "gate_open cfg (st_model w)"
  shows "\<exists>w'. run_replay cfg apply (Suc fuel) w = Some (None, w') \<and>
              st_model w' = st_model w \<and> rp_active (st_pointer w') = 0"
proof -
  have calm: "calm (st_store w) (st_model w) (rp_active (st_pointer w)) w" using assms(2) by (simp add: calm_def)
  obtain t w1 where w1: "stream_latest cfg w = (Inr t, w1)"
    "calm (st_store w) (st_model w) (rp_active (st_pointer w)) w1"
    using quiet_latest [OF assms(1) calm] by blast
  obtain w2 where w2: "stream_read cfg cursor_zero w1 = (Inr [], w2)"
    "calm (st_store w) (st_model w) (rp_active (st_pointer w)) w2"
    using quiet_read [OF assms(1) w1(2), of cursor_zero] assms(3) by (auto simp: read_all_def Let_def)
  from quiet_finish [OF assms(1) w2(2) assms(4), of cursor_zero 0 t] show ?thesis
    using w1(1) w2(1) by (auto simp: run_replay_def calm_def cursor_zero_def)
qed

text \<open>\<open>position\<close> stages the target that names the database the replay builds; the replay promotes the
  last position it read. When events arrive in between, the two differ: the pointer then names a database
  that nobody built.\<close>

lemma replay_promotes_other_than_named:
  assumes "quiet_stream cfg" "pc_mode cfg = Some Replay" "st_io w = []" "log_inv s"
    and "0 < pc_batch_size cfg" "0 < pc_checkpoint_interval cfg"
    and "stream_position cfg w = (Inr named, w1)" "global_log s = global_log (st_store w) @ [e]"
    and "apply_events apply (global_log s) (st_model w) = (None, b)" "gate_open cfg b" "length (global_log s) < fuel"
  shows "rp_staged (st_pointer w1) = Some named \<and>
         (\<exists>w'. run_replay cfg apply fuel (w1\<lparr> st_store := s \<rparr>) = Some (None, w') \<and> named < rp_active (st_pointer w'))"
proof -
  let ?a = "rp_active (st_pointer w)"
  have w1: "named = latest_position (st_store w)" "rp_staged (st_pointer w1) = Some named"
    and calm: "calm s (st_model w) ?a (w1\<lparr> st_store := s \<rparr>)"
    using assms(1-3,7)
    by (auto simp: stream_position_def mode_of_def stream_latest_def stream_stage_def stream_call_fault_free
        quiet_stream_def memory_backend_def called_def pointer_stage_def calm_def)
  obtain t w2 where w2: "stream_latest cfg (w1\<lparr> st_store := s \<rparr>) = (Inr t, w2)" "calm s (st_model w) ?a w2"
    using quiet_latest [OF assms(1) calm] by blast
  have "global_log s = [] @ global_log s" by simp
  from quiet_replay_loop [OF assms(1,6,5,4,10) w2(2) this assms(9,11), of t]
  obtain w' where w': "run_replay cfg apply fuel (w1\<lparr> st_store := s \<rparr>) = Some (None, w')"
    "rp_active (st_pointer w') = reached (global_log s)"
    using w2(1) by (auto simp: run_replay_def calm_def reached_def)
  have "sorted_wrt (\<lambda>x y. re_position x < re_position y) (global_log (st_store w) @ [e])"
    using log_inv_positions_sorted [OF assms(4)] assms(8) by simp
  then have "named < re_position e"
    using w1(1) log_inv_position_pos [OF assms(4), of e] assms(8)
    by (auto simp: latest_position_def sorted_wrt_append cursor_zero_def)
  then show ?thesis using w1(2) w' assms(8) by auto
qed

end
