(* ===== verification/Batcher.thy ===== *)
theory Batcher
  imports Prelude "HOL-Library.Multiset"
begin

text \<open>
  The \<open>Batcher\<close> of \<open>modules/causal_utils/src/batcher.rs\<close>: concurrent submitters put their items into a
  named group, one of them, or a timer, flushes the group and hands every waiter its result.

  The threads of control are the values \<open>batch_task\<close>, at the points where another thread can come between:
  before and after the lookup of the group, before the group's items are taken, before its name is
  removed, while the batch function runs, and between two polls of a timer. \<open>task_step\<close> is what a task
  does to its next such point, under the lock that the code holds there. The groups live in a heap
  \<open>bw_groups\<close>, because a submitter keeps its reference to a group whose name is gone; \<open>bw_names\<close> is the
  \<open>DashMap\<close>. A one-shot channel is a number, \<open>bw_answers\<close> what was sent on them. A batch function is
  called at most once, so that its answer is a function of its items. The cast of a group to another
  type of item, which panics, is not modelled.
\<close>

section \<open>The state\<close>

record ('k, 'i) batch_group =
  bg_items :: "'i list"
  bg_keys :: "'k list"
  bg_waiters :: "nat list"
  bg_created_at :: nat
  bg_timer_active :: bool

record batch_info =
  bi_len :: nat
  bi_created_at :: nat

definition batch_age :: "nat \<Rightarrow> batch_info \<Rightarrow> nat" where
  "batch_age now info = now - bi_created_at info"

definition info_of :: "('k, 'i) batch_group \<Rightarrow> batch_info" where
  "info_of G = \<lparr> bi_len = length (bg_items G), bi_created_at = bg_created_at G \<rparr>"

text \<open>A predicate is given the time, as it may ask for the age.\<close>

record ('k, 'i, 'o) submission =
  sb_group :: string
  sb_key :: 'k
  sb_item :: 'i
  sb_flush_when :: "nat \<Rightarrow> batch_info \<Rightarrow> bool"
  sb_then :: "'i list \<Rightarrow> string + ('k \<rightharpoonup> 'o)"

datatype 'o batch_answer = BatchOk 'o | NoResultForKey | BatchFailed string | BatchDropped

datatype ('k, 'i, 'o) batch_task =
    Entering "('k, 'i, 'o) submission"
  | Pushing "('k, 'i, 'o) submission" nat
  | Sleeping "('k, 'i, 'o) submission" nat
  | Flushing "('k, 'i, 'o) submission" nat
  | Removing "('k, 'i, 'o) submission" "'i list" "'k list" "nat list"
  | Batching "('k, 'i, 'o) submission" "'i list" "'k list" "nat list"

record ('k, 'i, 'o) batch_world =
  bw_names :: "string \<rightharpoonup> nat"
  bw_groups :: "('k, 'i) batch_group list"
  bw_tasks :: "('k, 'i, 'o) batch_task list"
  bw_next :: nat
  bw_answers :: "(nat \<times> 'o batch_answer) list"
  bw_now :: nat

definition batcher_new :: "nat \<Rightarrow> ('k, 'i, 'o) batch_world" where
  "batcher_new now =
     \<lparr> bw_names = Map.empty, bw_groups = [], bw_tasks = [], bw_next = 0, bw_answers = [], bw_now = now \<rparr>"

definition new_group :: "nat \<Rightarrow> ('k, 'i) batch_group" where
  "new_group now =
     \<lparr> bg_items = [], bg_keys = [], bg_waiters = [], bg_created_at = now, bg_timer_active = False \<rparr>"

section \<open>Submitting\<close>

text \<open>\<open>entry(group).or_insert_with\<close>.\<close>

definition enter_group ::
  "('k, 'i, 'o) submission \<Rightarrow> ('k, 'i, 'o) batch_world \<Rightarrow> ('k, 'i, 'o) batch_task list \<times> ('k, 'i, 'o) batch_world" where
  "enter_group sub w =
     (case bw_names w (sb_group sub) of
        Some g \<Rightarrow> ([Pushing sub g], w)
      | None \<Rightarrow>
          (let g = length (bw_groups w) in
           ([Pushing sub g],
            w\<lparr> bw_names := (bw_names w)(sb_group sub \<mapsto> g), bw_groups := bw_groups w @ [new_group (bw_now w)] \<rparr>)))"

definition push_item ::
  "('k, 'i, 'o) submission \<Rightarrow> nat \<Rightarrow> ('k, 'i, 'o) batch_world \<Rightarrow> ('k, 'i, 'o) batch_task list \<times> ('k, 'i, 'o) batch_world" where
  "push_item sub g w =
     (let G = bw_groups w ! g;
          G1 = G\<lparr> bg_items := bg_items G @ [sb_item sub], bg_keys := bg_keys G @ [sb_key sub],
                  bg_waiters := bg_waiters G @ [bw_next w] \<rparr>;
          flush_now = sb_flush_when sub (bw_now w) (info_of G1);
          spawn_timer = (\<not> flush_now \<and> \<not> bg_timer_active G1);
          G2 = (if spawn_timer then G1\<lparr> bg_timer_active := True \<rparr> else G1);
          w1 = w\<lparr> bw_groups := (bw_groups w)[g := G2], bw_next := Suc (bw_next w) \<rparr>
      in (if flush_now then [Flushing sub g] else if spawn_timer then [Sleeping sub g] else [], w1))"

text \<open>One poll of the timer.\<close>

definition poll_timer ::
  "('k, 'i, 'o) submission \<Rightarrow> nat \<Rightarrow> ('k, 'i, 'o) batch_world \<Rightarrow> ('k, 'i, 'o) batch_task list \<times> ('k, 'i, 'o) batch_world" where
  "poll_timer sub g w =
     (let G = bw_groups w ! g in
      if bg_items G = [] then ([], w)
      else if sb_flush_when sub (bw_now w) (info_of G) then ([Flushing sub g], w)
      else ([Sleeping sub g], w))"

section \<open>Flushing\<close>

definition take_batch ::
  "('k, 'i, 'o) submission \<Rightarrow> nat \<Rightarrow> ('k, 'i, 'o) batch_world \<Rightarrow> ('k, 'i, 'o) batch_task list \<times> ('k, 'i, 'o) batch_world" where
  "take_batch sub g w =
     (let G = bw_groups w ! g in
      ([Removing sub (bg_items G) (bg_keys G) (bg_waiters G)],
       w\<lparr> bw_groups := (bw_groups w)[g := new_group (bw_now w)] \<rparr>))"

text \<open>Each waiter takes the result of its key out of the map.\<close>

fun deliver :: "'k list \<Rightarrow> nat list \<Rightarrow> ('k \<rightharpoonup> 'o) \<Rightarrow> (nat \<times> 'o batch_answer) list" where
  "deliver (k # ks) (i # is) results =
     (i, case results k of Some v \<Rightarrow> BatchOk v | None \<Rightarrow> NoResultForKey) # deliver ks is (results(k := None))"
| "deliver _ _ _ = []"

definition finish_batch ::
  "('k, 'i, 'o) submission \<Rightarrow> 'i list \<Rightarrow> 'k list \<Rightarrow> nat list \<Rightarrow> ('k, 'i, 'o) batch_world \<Rightarrow> ('k, 'i, 'o) batch_world" where
  "finish_batch sub items ks is w =
     w\<lparr> bw_answers := bw_answers w @
          (case sb_then sub items of
             Inr results \<Rightarrow> deliver ks is results
           | Inl m \<Rightarrow> map (\<lambda>i. (i, BatchFailed m)) is) \<rparr>"

fun task_step ::
  "('k, 'i, 'o) batch_task \<Rightarrow> ('k, 'i, 'o) batch_world \<Rightarrow> ('k, 'i, 'o) batch_task list \<times> ('k, 'i, 'o) batch_world" where
  "task_step (Entering sub) w = enter_group sub w"
| "task_step (Pushing sub g) w = push_item sub g w"
| "task_step (Sleeping sub g) w = poll_timer sub g w"
| "task_step (Flushing sub g) w = take_batch sub g w"
| "task_step (Removing sub items ks is) w =
     ([Batching sub items ks is], w\<lparr> bw_names := (bw_names w)(sb_group sub := None) \<rparr>)"
| "task_step (Batching sub items ks is) w = ([], finish_batch sub items ks is w)"

section \<open>Runs\<close>

definition submit :: "('k, 'i, 'o) submission \<Rightarrow> ('k, 'i, 'o) batch_world \<Rightarrow> ('k, 'i, 'o) batch_world" where
  "submit sub w = w\<lparr> bw_tasks := bw_tasks w @ [Entering sub] \<rparr>"

text \<open>The scheduler runs the \<open>n\<close>-th task to its next point.\<close>

definition run_task :: "nat \<Rightarrow> ('k, 'i, 'o) batch_world \<Rightarrow> ('k, 'i, 'o) batch_world" where
  "run_task n w =
     (case task_step (bw_tasks w ! n) (w\<lparr> bw_tasks := take n (bw_tasks w) @ drop (Suc n) (bw_tasks w) \<rparr>) of
        (ts, w1) \<Rightarrow> w1\<lparr> bw_tasks := bw_tasks w1 @ ts \<rparr>)"

text \<open>A batch function that panics, or whose caller is cancelled while it runs, drops the senders.\<close>

definition drop_batch :: "nat \<Rightarrow> ('k, 'i, 'o) batch_world \<Rightarrow> ('k, 'i, 'o) batch_world" where
  "drop_batch n w =
     (case bw_tasks w ! n of
        Batching sub items ks is \<Rightarrow>
          w\<lparr> bw_tasks := take n (bw_tasks w) @ drop (Suc n) (bw_tasks w),
             bw_answers := bw_answers w @ map (\<lambda>i. (i, BatchDropped)) is \<rparr>
      | _ \<Rightarrow> w)"

definition wait :: "nat \<Rightarrow> ('k, 'i, 'o) batch_world \<Rightarrow> ('k, 'i, 'o) batch_world" where
  "wait d w = w\<lparr> bw_now := bw_now w + d \<rparr>"

inductive batch_move :: "('k, 'i, 'o) batch_world \<Rightarrow> ('k, 'i, 'o) batch_world \<Rightarrow> bool" where
  moved: "n < length (bw_tasks w) \<Longrightarrow> batch_move w (run_task n w)"
| dropped: "n < length (bw_tasks w) \<Longrightarrow> batch_move w (drop_batch n w)"
| waited: "batch_move w (wait d w)"

inductive batch_step :: "('k, 'i, 'o) batch_world \<Rightarrow> ('k, 'i, 'o) batch_world \<Rightarrow> bool" where
  submitted: "batch_step w (submit sub w)"
| moves: "batch_move w w' \<Longrightarrow> batch_step w w'"

inductive_cases batch_moveE: "batch_move w w'"
inductive_cases batch_stepE: "batch_step w w'"

definition batcher_reachable :: "('k, 'i, 'o) batch_world \<Rightarrow> bool" where
  "batcher_reachable w \<longleftrightarrow> (\<exists>now. batch_step\<^sup>*\<^sup>* (batcher_new now) w)"

section \<open>No item is lost, none is answered twice\<close>

fun task_waiters :: "('k, 'i, 'o) batch_task \<Rightarrow> nat list" where
  "task_waiters (Removing _ _ _ is) = is"
| "task_waiters (Batching _ _ _ is) = is"
| "task_waiters _ = []"

definition waiters_mset :: "('k, 'i, 'o) batch_world \<Rightarrow> nat multiset" where
  "waiters_mset w =
     mset (concat (map bg_waiters (bw_groups w))) + mset (concat (map task_waiters (bw_tasks w))) +
     mset (map fst (bw_answers w))"

definition aligned :: "'k list \<Rightarrow> 'i list \<Rightarrow> nat list \<Rightarrow> bool" where
  "aligned ks items is \<longleftrightarrow> length ks = length is \<and> length items = length is"

fun task_ok :: "nat \<Rightarrow> ('k, 'i, 'o) batch_task \<Rightarrow> bool" where
  "task_ok n (Pushing _ g) = (g < n)"
| "task_ok n (Sleeping _ g) = (g < n)"
| "task_ok n (Flushing _ g) = (g < n)"
| "task_ok n (Removing _ items ks is) = aligned ks items is"
| "task_ok n (Batching _ items ks is) = aligned ks items is"
| "task_ok n (Entering _) = True"

text \<open>The tasks that will look at group \<open>g\<close> again.\<close>

fun watches :: "nat \<Rightarrow> ('k, 'i, 'o) batch_task \<Rightarrow> bool" where
  "watches g (Sleeping _ h) = (h = g)"
| "watches g (Flushing _ h) = (h = g)"
| "watches g _ = False"

definition watched :: "('k, 'i, 'o) batch_world \<Rightarrow> nat \<Rightarrow> bool" where
  "watched w g \<longleftrightarrow> (\<exists>t \<in> set (bw_tasks w). watches g t)"

definition group_ok :: "('k, 'i) batch_group \<Rightarrow> bool" where
  "group_ok G \<longleftrightarrow> aligned (bg_keys G) (bg_items G) (bg_waiters G) \<and> (bg_timer_active G \<longrightarrow> bg_items G \<noteq> [])"

definition batch_inv :: "('k, 'i, 'o) batch_world \<Rightarrow> bool" where
  "batch_inv w \<longleftrightarrow>
     waiters_mset w = mset [0..<bw_next w] \<and>
     (\<forall>G \<in> set (bw_groups w). group_ok G) \<and>
     (\<forall>t \<in> set (bw_tasks w). task_ok (length (bw_groups w)) t) \<and>
     (\<forall>g \<in> ran (bw_names w). g < length (bw_groups w)) \<and>
     (\<forall>g < length (bw_groups w). bg_items (bw_groups w ! g) \<noteq> [] \<longrightarrow> watched w g)"

lemma mset_concat_update:
  "i < length xs \<Longrightarrow>
   mset (concat (map f (xs[i := y]))) + mset (f (xs ! i)) = mset (concat (map f xs)) + mset (f y)"
proof (induction xs arbitrary: i)
  case (Cons x xs)
  then show ?case
  proof (cases i)
    case (Suc j)
    then show ?thesis using Cons.IH [of j] Cons.prems by (simp add: ac_simps)
  qed (simp add: ac_simps)
qed simp

lemma deliver_waiters: "length ks = length is \<Longrightarrow> map fst (deliver ks is m) = is"
  by (induction ks "is" m rule: deliver.induct) auto

lemma finish_batch_waiters:
  "aligned ks items is \<Longrightarrow> map fst (bw_answers (finish_batch sub items ks is w)) = map fst (bw_answers w) @ is"
  by (auto simp: finish_batch_def aligned_def deliver_waiters comp_def split: sum.split)

lemma finish_batch_sel [simp]:
  "bw_groups (finish_batch sub items ks is w) = bw_groups w" "bw_names (finish_batch sub items ks is w) = bw_names w"
  "bw_tasks (finish_batch sub items ks is w) = bw_tasks w" "bw_next (finish_batch sub items ks is w) = bw_next w"
  "bw_now (finish_batch sub items ks is w) = bw_now w"
  by (simp_all add: finish_batch_def)

lemmas task_step_defs = enter_group_def push_item_def poll_timer_def take_batch_def Let_def

lemma task_step_frame:
  "task_step t w = (ts, w1) \<Longrightarrow> bw_tasks w1 = bw_tasks w \<and> bw_now w1 = bw_now w \<and> bw_next w \<le> bw_next w1 \<and>
     length (bw_groups w) \<le> length (bw_groups w1)"
  by (cases t) (auto simp: task_step_defs split: option.splits if_splits)

lemma push_item_cases:
  assumes "push_item sub g w = (ts, w1)"
  obtains G where "w1 = w\<lparr> bw_groups := (bw_groups w)[g := G], bw_next := Suc (bw_next w) \<rparr>"
    "bg_waiters G = bg_waiters (bw_groups w ! g) @ [bw_next w]" "bg_items G = bg_items (bw_groups w ! g) @ [sb_item sub]"
    "bg_keys G = bg_keys (bw_groups w ! g) @ [sb_key sub]"
    "ts = [Flushing sub g] \<or> ts = [Sleeping sub g] \<or> ts = [] \<and> bg_timer_active (bw_groups w ! g)"
proof -
  let ?G = "bw_groups w ! g"
  let ?G1 = "?G\<lparr> bg_items := bg_items ?G @ [sb_item sub], bg_keys := bg_keys ?G @ [sb_key sub],
    bg_waiters := bg_waiters ?G @ [bw_next w] \<rparr>"
  show thesis
  proof (cases "\<not> sb_flush_when sub (bw_now w) (info_of ?G1) \<and> \<not> bg_timer_active ?G")
    case True
    then show thesis using assms that [of "?G1\<lparr> bg_timer_active := True \<rparr>"] by (auto simp: push_item_def Let_def)
  next
    case False
    then show thesis using assms that [of ?G1] by (auto simp: push_item_def Let_def split: if_splits)
  qed
qed

definition held :: "('k, 'i, 'o) batch_world \<Rightarrow> nat multiset" where
  "held w = mset (concat (map bg_waiters (bw_groups w))) + mset (map fst (bw_answers w))"

lemma task_step_waiters:
  assumes "task_step t w = (ts, w1)" "task_ok (length (bw_groups w)) t" "\<forall>G \<in> set (bw_groups w). group_ok G"
  shows "held w1 + mset (concat (map task_waiters ts)) =
         held w + mset (task_waiters t) + mset [bw_next w..<bw_next w1]"
proof (cases t)
  case (Entering sub)
  then show ?thesis using assms(1) by (auto simp: enter_group_def Let_def held_def new_group_def split: option.splits)
next
  case (Pushing sub g)
  then have g: "g < length (bw_groups w)" using assms(2) by simp
  have "push_item sub g w = (ts, w1)" using assms(1) Pushing by simp
  then obtain G where G: "w1 = w\<lparr> bw_groups := (bw_groups w)[g := G], bw_next := Suc (bw_next w) \<rparr>"
    "bg_waiters G = bg_waiters (bw_groups w ! g) @ [bw_next w]" "concat (map task_waiters ts) = []"
    by (rule push_item_cases) auto
  show ?thesis
    using mset_concat_update [OF g, of bg_waiters G] G Pushing by (simp add: held_def ac_simps)
next
  case (Flushing sub g)
  then have g: "g < length (bw_groups w)" using assms(2) by simp
  show ?thesis
    using mset_concat_update [OF g, of bg_waiters "new_group (bw_now w)"] assms(1) Flushing
    by (auto simp: take_batch_def Let_def held_def new_group_def ac_simps)
next
  case (Batching sub items ks "is")
  then have w1: "ts = []" "w1 = finish_batch sub items ks is w" and al: "aligned ks items is"
    using assms(1,2) by auto
  show ?thesis
    using Batching w1 finish_batch_waiters [OF al, of sub w]
    by (simp add: held_def ac_simps flip: mset_map)
qed (use assms(1) in \<open>auto simp: poll_timer_def Let_def held_def split: if_splits\<close>)

lemma group_ok_new [simp]: "group_ok (new_group now)"
  by (simp add: group_ok_def new_group_def aligned_def)

lemma task_step_groups:
  assumes "task_step t w = (ts, w1)" "\<forall>G \<in> set (bw_groups w). group_ok G" "task_ok (length (bw_groups w)) t"
  shows "\<forall>G \<in> set (bw_groups w1). group_ok G"
proof (cases t)
  case (Pushing sub g)
  then have "group_ok (bw_groups w ! g)" using assms(2,3) by simp
  moreover have "push_item sub g w = (ts, w1)" using assms(1) Pushing by simp
  then obtain G where "w1 = w\<lparr> bw_groups := (bw_groups w)[g := G], bw_next := Suc (bw_next w) \<rparr>"
    "bg_waiters G = bg_waiters (bw_groups w ! g) @ [bw_next w]" "bg_items G = bg_items (bw_groups w ! g) @ [sb_item sub]"
    "bg_keys G = bg_keys (bw_groups w ! g) @ [sb_key sub]"
    by (rule push_item_cases)
  ultimately have "group_ok G" "bw_groups w1 = (bw_groups w)[g := G]" by (simp_all add: group_ok_def aligned_def)
  then show ?thesis using assms(2) by (auto dest!: set_update_subset_insert [THEN subsetD])
next
  case (Flushing sub g)
  then show ?thesis using assms(1,2)
    by (auto simp: take_batch_def Let_def dest!: set_update_subset_insert [THEN subsetD])
qed (use assms in \<open>auto simp: task_step_defs split: option.splits if_splits\<close>)

lemma task_step_tasks:
  assumes "task_step t w = (ts, w1)" "\<forall>G \<in> set (bw_groups w). group_ok G" "task_ok (length (bw_groups w)) t"
    "\<forall>g \<in> ran (bw_names w). g < length (bw_groups w)"
  shows "\<forall>t' \<in> set ts. task_ok (length (bw_groups w1)) t'"
proof (cases t)
  case (Flushing sub g)
  then have "group_ok (bw_groups w ! g)" using assms(2,3) by simp
  then show ?thesis using assms(1) Flushing by (auto simp: take_batch_def Let_def group_ok_def)
qed (use assms in \<open>auto simp: enter_group_def push_item_def poll_timer_def Let_def ran_def split: option.splits if_splits\<close>)

lemma task_step_names:
  assumes "task_step t w = (ts, w1)" "\<forall>g \<in> ran (bw_names w). g < length (bw_groups w)"
  shows "\<forall>g \<in> ran (bw_names w1). g < length (bw_groups w1)"
proof (cases t)
  case (Entering sub)
  then show ?thesis using assms
    by (fastforce simp: enter_group_def Let_def ran_def less_Suc_eq split: option.splits if_splits)
next
  case (Removing sub items ks "is")
  then show ?thesis using assms by (fastforce simp: ran_def split: if_splits)
qed (use assms in \<open>auto simp: push_item_def poll_timer_def take_batch_def Let_def split: if_splits\<close>)

text \<open>A group that has items after a step is watched by a new task, or it had items before and the task
  that made the step was not the one that watched it.\<close>

lemma task_step_watch:
  assumes "task_step t w = (ts, w1)" "\<forall>G \<in> set (bw_groups w). group_ok G" "task_ok (length (bw_groups w)) t"
    and "g < length (bw_groups w1)" "bg_items (bw_groups w1 ! g) \<noteq> []"
  shows "(\<exists>t' \<in> set ts. watches g t') \<or>
         g < length (bw_groups w) \<and> bg_items (bw_groups w ! g) \<noteq> [] \<and> \<not> watches g t"
proof (cases t)
  case (Entering sub)
  then show ?thesis using assms(1,4,5)
    by (auto simp: enter_group_def Let_def nth_append new_group_def less_Suc_eq split: option.splits if_splits)
next
  case (Pushing sub h)
  then have "group_ok (bw_groups w ! h)" using assms(2,3) by simp
  moreover have "push_item sub h w = (ts, w1)" using assms(1) Pushing by simp
  then obtain G where "w1 = w\<lparr> bw_groups := (bw_groups w)[h := G], bw_next := Suc (bw_next w) \<rparr>"
    "ts = [Flushing sub h] \<or> ts = [Sleeping sub h] \<or> ts = [] \<and> bg_timer_active (bw_groups w ! h)"
    by (rule push_item_cases)
  ultimately show ?thesis using assms(4,5) Pushing
    by (cases "g = h") (auto simp: group_ok_def)
qed (use assms in \<open>auto simp: poll_timer_def take_batch_def new_group_def Let_def nth_list_update split: if_splits\<close>)

lemma run_task_parts:
  assumes "n < length (bw_tasks w)"
  obtains rest ts w1 where "task_step (bw_tasks w ! n) (w\<lparr> bw_tasks := rest \<rparr>) = (ts, w1)"
    "mset (bw_tasks w) = add_mset (bw_tasks w ! n) (mset rest)" "run_task n w = w1\<lparr> bw_tasks := rest @ ts \<rparr>"
proof -
  let ?rest = "take n (bw_tasks w) @ drop (Suc n) (bw_tasks w)"
  obtain ts w1 where step: "task_step (bw_tasks w ! n) (w\<lparr> bw_tasks := ?rest \<rparr>) = (ts, w1)" by fastforce
  have "bw_tasks w1 = ?rest" using task_step_frame [OF step] by simp
  then have "run_task n w = w1\<lparr> bw_tasks := ?rest @ ts \<rparr>" by (simp add: run_task_def step)
  moreover have "mset (bw_tasks w) = add_mset (bw_tasks w ! n) (mset ?rest)"
    by (subst id_take_nth_drop [OF assms]) simp
  ultimately show thesis using that step by blast
qed

lemma watched_mset: "watched w g \<longleftrightarrow> (\<exists>t \<in># mset (bw_tasks w). watches g t)"
  by (simp add: watched_def)

lemma task_waiters_mset: "mset (concat (map task_waiters ts)) = (\<Sum>t \<in># mset ts. mset (task_waiters t))"
  by (induction ts) simp_all

lemma waiters_held: "waiters_mset w = held w + (\<Sum>t \<in># mset (bw_tasks w). mset (task_waiters t))"
  by (simp add: waiters_mset_def held_def task_waiters_mset ac_simps)

lemma task_ok_mono: "task_ok n t \<Longrightarrow> n \<le> m \<Longrightarrow> task_ok m t"
  by (cases t) auto

lemma mset_rebalance:
  assumes "a + c = d + e + f" "d + (e + b) = x" "y = x + f"
  shows "a + (b + c) = (y :: 'a multiset)"
proof -
  have "a + (b + c) = (a + c) + b" by (simp add: ac_simps)
  also have "\<dots> = (d + (e + b)) + f" unfolding assms(1) by (simp add: ac_simps)
  finally show ?thesis by (simp add: assms(2,3))
qed

lemma run_task_inv:
  assumes inv: "batch_inv w" and n: "n < length (bw_tasks w)"
  shows "batch_inv (run_task n w)"
proof -
  obtain rest ts w1 where step: "task_step (bw_tasks w ! n) (w\<lparr> bw_tasks := rest \<rparr>) = (ts, w1)"
    and rest: "mset (bw_tasks w) = add_mset (bw_tasks w ! n) (mset rest)"
    and run: "run_task n w = w1\<lparr> bw_tasks := rest @ ts \<rparr>"
    by (rule run_task_parts [OF n])
  let ?w = "w\<lparr> bw_tasks := rest \<rparr>" and ?t = "bw_tasks w ! n"
  have tasks: "set (bw_tasks w) = insert ?t (set rest)" using rest by (metis set_mset_add_mset_insert set_mset_mset)
  have ok: "\<forall>G \<in> set (bw_groups ?w). group_ok G" "\<forall>g \<in> ran (bw_names ?w). g < length (bw_groups ?w)"
    and t_ok: "task_ok (length (bw_groups ?w)) ?t" and rest_ok: "\<forall>t \<in> set rest. task_ok (length (bw_groups w)) t"
    and watch: "\<forall>g < length (bw_groups w). bg_items (bw_groups w ! g) \<noteq> [] \<longrightarrow> watched w g"
    using inv tasks by (simp_all add: batch_inv_def)
  note frame = task_step_frame [OF step]
  have "held w1 + mset (concat (map task_waiters ts)) = held w + mset (task_waiters ?t) + mset [bw_next w..<bw_next w1]"
    using task_step_waiters [OF step t_ok ok(1)] by (simp add: held_def)
  moreover have "held w + (mset (task_waiters ?t) + (\<Sum>t \<in># mset rest. mset (task_waiters t))) = mset [0..<bw_next w]"
    using inv rest by (simp add: batch_inv_def waiters_held)
  moreover have "mset [0..<bw_next w1] = mset [0..<bw_next w] + mset [bw_next w..<bw_next w1]"
  proof -
    have "[0..<bw_next w1] = [0..<bw_next w] @ [bw_next w..<bw_next w1]"
      using frame upt_add_eq_append [of 0 "bw_next w" "bw_next w1 - bw_next w"] by simp
    then show ?thesis unfolding mset_append [symmetric] by (rule arg_cong)
  qed
  ultimately have "held w1 + ((\<Sum>t \<in># mset rest. mset (task_waiters t)) + mset (concat (map task_waiters ts))) =
      mset [0..<bw_next w1]"
    by (rule mset_rebalance)
  then have "waiters_mset (run_task n w) = mset [0..<bw_next (run_task n w)]"
    by (simp add: run waiters_held held_def task_waiters_mset)
  moreover have "\<forall>G \<in> set (bw_groups w1). group_ok G" by (rule task_step_groups [OF step ok(1) t_ok])
  moreover have "\<forall>t \<in> set (rest @ ts). task_ok (length (bw_groups w1)) t"
    using task_step_tasks [OF step ok(1) t_ok ok(2)] rest_ok frame task_ok_mono by fastforce
  moreover have "\<forall>g \<in> ran (bw_names w1). g < length (bw_groups w1)" by (rule task_step_names [OF step ok(2)])
  moreover have "watched (run_task n w) g" if "g < length (bw_groups w1)" "bg_items (bw_groups w1 ! g) \<noteq> []" for g
    using task_step_watch [OF step ok(1) t_ok that] watch tasks run by (auto simp: watched_def)
  ultimately show ?thesis by (simp add: batch_inv_def run)
qed

lemma drop_batch_parts:
  assumes "n < length (bw_tasks w)" "bw_tasks w ! n = Batching sub items ks is"
  obtains rest where "mset (bw_tasks w) = add_mset (Batching sub items ks is) (mset rest)"
    "drop_batch n w = w\<lparr> bw_tasks := rest, bw_answers := bw_answers w @ map (\<lambda>i. (i, BatchDropped)) is \<rparr>"
proof -
  let ?rest = "take n (bw_tasks w) @ drop (Suc n) (bw_tasks w)"
  have "mset (bw_tasks w) = add_mset (bw_tasks w ! n) (mset ?rest)"
    by (subst id_take_nth_drop [OF assms(1)]) simp
  then show thesis using that [of ?rest] assms(2) by (simp add: drop_batch_def)
qed

lemma drop_batch_inv:
  assumes inv: "batch_inv w" and n: "n < length (bw_tasks w)"
  shows "batch_inv (drop_batch n w)"
proof (cases "\<exists>sub items ks is. bw_tasks w ! n = Batching sub items ks is")
  case True
  then obtain sub items ks "is" where t: "bw_tasks w ! n = Batching sub items ks is" by blast
  obtain rest where rest: "mset (bw_tasks w) = add_mset (Batching sub items ks is) (mset rest)"
    and drop_: "drop_batch n w = w\<lparr> bw_tasks := rest, bw_answers := bw_answers w @ map (\<lambda>i. (i, BatchDropped)) is \<rparr>"
    by (rule drop_batch_parts [OF n t])
  have tasks: "set (bw_tasks w) = insert (Batching sub items ks is) (set rest)"
    using rest by (metis set_mset_add_mset_insert set_mset_mset)
  have "waiters_mset (drop_batch n w) = waiters_mset w"
    using rest by (simp add: waiters_held held_def drop_ comp_def ac_simps)
  then show ?thesis using inv tasks by (auto simp: batch_inv_def drop_ watched_def)
next
  case False
  then have "drop_batch n w = w" by (auto simp: drop_batch_def split: batch_task.split)
  then show ?thesis using inv by simp
qed

lemma batch_move_inv:
  assumes "batch_move w w'" "batch_inv w"
  shows "batch_inv w'"
  using assms(1)
proof cases
  case (moved n)
  then show ?thesis using run_task_inv [OF assms(2)] by simp
next
  case (dropped n)
  then show ?thesis using drop_batch_inv [OF assms(2)] by simp
next
  case (waited d)
  then show ?thesis using assms(2) by (simp add: batch_inv_def wait_def waiters_mset_def watched_def)
qed

lemma batch_step_inv:
  assumes "batch_step w w'" "batch_inv w"
  shows "batch_inv w'"
  using assms(1)
proof cases
  case (submitted sub)
  then show ?thesis using assms(2) by (auto simp: batch_inv_def submit_def waiters_mset_def watched_def)
qed (rule batch_move_inv [OF _ assms(2)])

lemma batch_steps_inv: "batch_step\<^sup>*\<^sup>* w w' \<Longrightarrow> batch_inv w \<Longrightarrow> batch_inv w'"
  by (induction rule: rtranclp_induct) (auto intro: batch_step_inv)

lemma batcher_new_inv: "batch_inv (batcher_new now)"
  by (simp add: batch_inv_def batcher_new_def waiters_mset_def)

lemma batcher_reachable_inv: "batcher_reachable w \<Longrightarrow> batch_inv w"
  using batch_steps_inv batcher_new_inv by (auto simp: batcher_reachable_def)

lemma batch_inv_places:
  assumes "batch_inv w" "i < bw_next w"
  shows "(\<exists>a. (i, a) \<in> set (bw_answers w)) \<or> (\<exists>t \<in> set (bw_tasks w). i \<in> set (task_waiters t)) \<or>
         (\<exists>g < length (bw_groups w). i \<in> set (bg_waiters (bw_groups w ! g)) \<and> watched w g)"
proof -
  have "i \<in># waiters_mset w" using assms by (simp add: batch_inv_def)
  then consider G where "G \<in> set (bw_groups w)" "i \<in> set (bg_waiters G)"
    | "\<exists>t \<in> set (bw_tasks w). i \<in> set (task_waiters t)" | "i \<in> fst ` set (bw_answers w)"
    by (auto simp: waiters_mset_def)
  then show ?thesis
  proof cases
    case (1 G)
    then obtain g where g: "g < length (bw_groups w)" "bw_groups w ! g = G" by (auto simp: in_set_conv_nth)
    have "bg_items G \<noteq> []" using assms(1) 1 by (force simp: batch_inv_def group_ok_def aligned_def)
    then have "watched w g" using assms(1) g by (simp add: batch_inv_def)
    then show ?thesis using g 1 by blast
  qed force+
qed

lemma batch_inv_answers_distinct: "batch_inv w \<Longrightarrow> distinct (map fst (bw_answers w))"
proof -
  assume "batch_inv w"
  then have "mset (map fst (bw_answers w)) \<subseteq># mset [0..<bw_next w]"
    unfolding batch_inv_def waiters_mset_def by (metis mset_subset_eq_add_right)
  then have "count (mset (map fst (bw_answers w))) i \<le> count (mset [0..<bw_next w]) i" for i
    by (rule mset_subset_eq_count)
  moreover have "count (mset [0..<bw_next w]) i \<le> 1" for i by (simp add: count_mset_set')
  ultimately show ?thesis
    by (subst distinct_count_atmost_1) (metis (no_types) count_eq_zero_iff count_greater_eq_one_iff le_antisym le_trans set_mset_mset)
qed

text \<open>C35: the batcher loses no submission and answers none twice. In every state it can reach, however the
  submitters, timers and flushes interleave, each waiter has at most one answer, and one that has none
  waits in a batch that is being processed or in a group that some timer or flush will look at again.\<close>

theorem batcher_loses_no_waiter:
  assumes "batcher_reachable w"
  shows "distinct (map fst (bw_answers w)) \<and>
    (\<forall>i < bw_next w. (\<exists>a. (i, a) \<in> set (bw_answers w)) \<or> (\<exists>t \<in> set (bw_tasks w). i \<in> set (task_waiters t)) \<or>
       (\<exists>g < length (bw_groups w). i \<in> set (bg_waiters (bw_groups w ! g)) \<and> watched w g))"
  using batch_inv_answers_distinct batch_inv_places batcher_reachable_inv [OF assms] by blast

section \<open>Every waiter can be answered\<close>

text \<open>A flush policy with an age limit \<open>d\<close>.\<close>

definition patient :: "nat \<Rightarrow> ('k, 'i, 'o) submission \<Rightarrow> bool" where
  "patient d sub \<longleftrightarrow> (\<forall>now info. 0 < bi_len info \<and> d \<le> batch_age now info \<longrightarrow> sb_flush_when sub now info)"

fun submission_of :: "('k, 'i, 'o) batch_task \<Rightarrow> ('k, 'i, 'o) submission" where
  "submission_of (Entering sub) = sub"
| "submission_of (Pushing sub _) = sub"
| "submission_of (Sleeping sub _) = sub"
| "submission_of (Flushing sub _) = sub"
| "submission_of (Removing sub _ _ _) = sub"
| "submission_of (Batching sub _ _ _) = sub"

fun task_rank :: "('k, 'i, 'o) batch_task \<Rightarrow> nat" where
  "task_rank (Entering _) = 6"
| "task_rank (Pushing _ _) = 5"
| "task_rank (Sleeping _ _) = 4"
| "task_rank (Flushing _ _) = 3"
| "task_rank (Removing _ _ _ _) = 2"
| "task_rank (Batching _ _ _ _) = 1"

definition world_rank :: "('k, 'i, 'o) batch_world \<Rightarrow> nat" where
  "world_rank w = sum_list (map task_rank (bw_tasks w))"

lemma task_step_submission: "task_step t w = (ts, w1) \<Longrightarrow> \<forall>t' \<in> set ts. submission_of t' = submission_of t"
  by (cases t) (auto simp: task_step_defs split: option.splits if_splits)

lemma task_step_rank:
  assumes "task_step t w = (ts, w1)"
    and "\<And>sub g. t = Sleeping sub g \<Longrightarrow> bg_items (bw_groups w ! g) = [] \<or> sb_flush_when sub (bw_now w) (info_of (bw_groups w ! g))"
  shows "sum_list (map task_rank ts) < task_rank t"
  using assms by (cases t) (auto simp: task_step_defs split: option.splits if_splits)

lemma patient_at:
  "patient d sub \<Longrightarrow> d + bg_created_at G \<le> now \<Longrightarrow> bg_items G \<noteq> [] \<Longrightarrow> sb_flush_when sub now (info_of G)"
  unfolding patient_def by (auto simp: info_of_def batch_age_def)

text \<open>The first task can be run, after a wait when it is a timer, and then less is left to do.\<close>

lemma batch_progress:
  assumes "bw_tasks w \<noteq> []" "\<forall>t \<in> set (bw_tasks w). patient d (submission_of t)"
  shows "\<exists>w'. batch_move\<^sup>*\<^sup>* w w' \<and> world_rank w' < world_rank w \<and>
              (\<forall>t \<in> set (bw_tasks w'). patient d (submission_of t))"
proof -
  obtain t rest where tasks: "bw_tasks w = t # rest" using assms(1) by (cases "bw_tasks w") auto
  define pause where "pause = (case t of Sleeping _ g \<Rightarrow> d + bg_created_at (bw_groups w ! g) | _ \<Rightarrow> 0)"
  let ?w = "wait pause w"
  obtain ts w1 where step: "task_step t (?w\<lparr> bw_tasks := rest \<rparr>) = (ts, w1)" by fastforce
  have run: "run_task 0 ?w = w1\<lparr> bw_tasks := rest @ ts \<rparr>"
    using step task_step_frame [OF step] tasks by (simp add: run_task_def wait_def)
  have "patient d (submission_of t)" using assms(2) tasks by simp
  then have "bg_items (bw_groups w ! g) = [] \<or> sb_flush_when sub (bw_now ?w) (info_of (bw_groups w ! g))"
    if "t = Sleeping sub g" for sub g
    using that patient_at [of d sub "bw_groups w ! g" "bw_now ?w"] by (auto simp: pause_def wait_def)
  then have "sum_list (map task_rank ts) < task_rank t"
    by (intro task_step_rank [OF step]) (simp add: wait_def)
  then have "world_rank (run_task 0 ?w) < world_rank w" by (simp add: run world_rank_def tasks)
  moreover have "batch_move\<^sup>*\<^sup>* w (run_task 0 ?w)"
  proof -
    have "0 < length (bw_tasks ?w)" by (simp add: wait_def tasks)
    then show ?thesis using batch_move.waited [of w pause] batch_move.moved [of 0 ?w] by (meson r_into_rtranclp rtranclp_trans)
  qed
  moreover have "\<forall>t' \<in> set (rest @ ts). patient d (submission_of t')"
    using assms(2) tasks task_step_submission [OF step] by auto
  ultimately show ?thesis by (intro exI [of _ "run_task 0 ?w"]) (simp add: run)
qed

lemma batch_moves_inv: "batch_move\<^sup>*\<^sup>* w w' \<Longrightarrow> batch_inv w \<Longrightarrow> batch_inv w'"
  by (induction rule: rtranclp_induct) (auto intro: batch_move_inv)

lemma batch_drains:
  "\<forall>t \<in> set (bw_tasks w). patient d (submission_of t) \<Longrightarrow> \<exists>w'. batch_move\<^sup>*\<^sup>* w w' \<and> bw_tasks w' = []"
proof (induction "world_rank w" arbitrary: w rule: less_induct)
  case less
  show ?case
  proof (cases "bw_tasks w = []")
    case False
    obtain w' where w': "batch_move\<^sup>*\<^sup>* w w'" "world_rank w' < world_rank w"
      "\<forall>t \<in> set (bw_tasks w'). patient d (submission_of t)"
      using batch_progress [OF False less.prems] by blast
    from less.hyps [OF this(2,3)] show ?thesis using w'(1) by (meson rtranclp_trans)
  qed blast
qed

text \<open>C36: when every flush policy has an age limit, no waiter can be stuck: from every state the batcher
  can reach, without another submission, there is a way on to a state where no task is left and every
  waiter has its one answer.\<close>

theorem batcher_can_answer_all:
  assumes "batcher_reachable w" "\<forall>t \<in> set (bw_tasks w). patient d (submission_of t)"
  shows "\<exists>w'. batch_move\<^sup>*\<^sup>* w w' \<and> bw_tasks w' = [] \<and> (\<forall>i < bw_next w'. \<exists>!a. (i, a) \<in> set (bw_answers w'))"
proof -
  obtain w' where w': "batch_move\<^sup>*\<^sup>* w w'" "bw_tasks w' = []" using batch_drains [OF assms(2)] by blast
  have inv: "batch_inv w'" using batch_moves_inv [OF w'(1)] batcher_reachable_inv [OF assms(1)] by blast
  have "\<exists>!a. (i, a) \<in> set (bw_answers w')" if "i < bw_next w'" for i
    using batch_inv_places [OF inv that] batch_inv_answers_distinct [OF inv] w'(2)
    by (auto simp: watched_def dest: eq_key_imp_eq_value)
  then show ?thesis using w' by blast
qed

section \<open>The answers\<close>

lemma deliver_nth:
  "n < length is \<Longrightarrow> length ks = length is \<Longrightarrow>
   deliver ks is m ! n =
     (is ! n, if ks ! n \<in> set (take n ks) then NoResultForKey
              else case m (ks ! n) of Some v \<Rightarrow> BatchOk v | None \<Rightarrow> NoResultForKey)"
proof (induction ks "is" m arbitrary: n rule: deliver.induct)
  case (1 k ks i "is" m)
  then show ?case by (cases n) (auto simp: fun_upd_def)
qed auto

text \<open>A batch that is processed answers every waiter in it, in the order of their submissions: with
  the error of the batch function when it fails, and else with the result for the waiter's key, which
  only the first waiter of a key gets.\<close>

lemma batch_results_by_key:
  assumes "length ks = length is" "(ts, w1) = task_step (Batching sub items ks is) w"
  shows "ts = [] \<and> length (bw_answers w1) = length (bw_answers w) + length is \<and>
    (\<forall>n < length is. bw_answers w1 ! (length (bw_answers w) + n) =
       (is ! n, case sb_then sub items of
                  Inl m \<Rightarrow> BatchFailed m
                | Inr results \<Rightarrow>
                    if ks ! n \<in> set (take n ks) then NoResultForKey
                    else case results (ks ! n) of Some v \<Rightarrow> BatchOk v | None \<Rightarrow> NoResultForKey))"
proof -
  have w1: "ts = []" "w1 = finish_batch sub items ks is w" using assms(2) by simp_all
  show ?thesis
  proof (cases "sb_then sub items")
    case (Inr results)
    have "length (deliver ks is results) = length is"
      using deliver_waiters [OF assms(1), of results] by (metis length_map)
    then show ?thesis
      using w1 Inr deliver_nth [OF _ assms(1), of _ results] by (simp add: finish_batch_def nth_append)
  qed (use w1 in \<open>simp add: finish_batch_def nth_append\<close>)
qed

text \<open>So the second of two submissions with one key is told that the batch function returned nothing for
  it, also when it did.\<close>

lemma duplicate_key_unanswered:
  assumes "a < b" "b < length is" "length ks = length is" "ks ! a = ks ! b"
  shows "deliver ks is m ! b = (is ! b, NoResultForKey)"
proof -
  have "ks ! b \<in> set (take b ks)" using assms by (auto simp: in_set_conv_nth intro!: exI [of _ a])
  then show ?thesis using deliver_nth [OF assms(2,3), of m] by simp
qed

section \<open>A group that lost its name\<close>

text \<open>A submitter that looked a group up before its name was removed pushes its item afterwards. Nobody
  else can join it: with a flush policy that counts items only, it waits forever.\<close>

definition stranded :: "nat \<Rightarrow> ('k, 'i, 'o) batch_world \<Rightarrow> bool" where
  "stranded g w \<longleftrightarrow>
     g < length (bw_groups w) \<and> length (bg_items (bw_groups w ! g)) = 1 \<and> g \<notin> ran (bw_names w) \<and>
     (\<forall>t \<in> set (bw_tasks w). case t of
        Pushing _ h \<Rightarrow> h \<noteq> g
      | Flushing _ h \<Rightarrow> h \<noteq> g
      | Sleeping sub h \<Rightarrow> h = g \<longrightarrow> (\<forall>now info. bi_len info = 1 \<longrightarrow> \<not> sb_flush_when sub now info)
      | _ \<Rightarrow> True)"

lemma task_step_stranded:
  assumes step: "task_step t w = (ts, w1)"
    and t: "\<And>sub h. t = Pushing sub h \<Longrightarrow> h \<noteq> g" "\<And>sub h. t = Flushing sub h \<Longrightarrow> h \<noteq> g"
    "\<And>sub h now info. t = Sleeping sub h \<Longrightarrow> h = g \<Longrightarrow> bi_len info = 1 \<Longrightarrow> \<not> sb_flush_when sub now info"
    and g: "g < length (bw_groups w)" "length (bg_items (bw_groups w ! g)) = 1" "g \<notin> ran (bw_names w)"
  shows "bw_groups w1 ! g = bw_groups w ! g \<and> g \<notin> ran (bw_names w1) \<and>
    (\<forall>t' \<in> set ts. case t' of
        Pushing _ h \<Rightarrow> h \<noteq> g
      | Flushing _ h \<Rightarrow> h \<noteq> g
      | Sleeping sub h \<Rightarrow> h = g \<longrightarrow> (\<forall>now info. bi_len info = 1 \<longrightarrow> \<not> sb_flush_when sub now info)
      | _ \<Rightarrow> True)"
proof (cases t)
  case (Entering sub)
  then show ?thesis using step g
    by (fastforce simp: enter_group_def Let_def ran_def nth_append split: option.splits if_splits)
next
  case (Pushing sub h)
  then have "h \<noteq> g" using t(1) by blast
  moreover have "push_item sub h w = (ts, w1)" using step Pushing by simp
  then obtain G where "w1 = w\<lparr> bw_groups := (bw_groups w)[h := G], bw_next := Suc (bw_next w) \<rparr>"
    "ts = [Flushing sub h] \<or> ts = [Sleeping sub h] \<or> ts = [] \<and> bg_timer_active (bw_groups w ! h)"
    by (rule push_item_cases)
  ultimately show ?thesis using g by auto
next
  case (Sleeping sub h)
  then show ?thesis using step g t(3) by (auto simp: poll_timer_def Let_def info_of_def split: if_splits)
next
  case (Removing sub items ks "is")
  then show ?thesis using step g by (auto simp: ran_def split: if_splits)
qed (use assms in \<open>auto simp: take_batch_def Let_def\<close>)

lemma stranded_move:
  assumes "batch_move w w'" "stranded g w"
  shows "stranded g w' \<and> bg_waiters (bw_groups w' ! g) = bg_waiters (bw_groups w ! g)"
  using assms(1)
proof cases
  case (moved n)
  obtain rest ts w1 where step: "task_step (bw_tasks w ! n) (w\<lparr> bw_tasks := rest \<rparr>) = (ts, w1)"
    and rest: "mset (bw_tasks w) = add_mset (bw_tasks w ! n) (mset rest)"
    and run: "run_task n w = w1\<lparr> bw_tasks := rest @ ts \<rparr>"
    by (rule run_task_parts [OF moved(2)])
  let ?w = "w\<lparr> bw_tasks := rest \<rparr>"
  have tasks: "set (bw_tasks w) = insert (bw_tasks w ! n) (set rest)"
    using rest by (metis set_mset_add_mset_insert set_mset_mset)
  have g: "g < length (bw_groups ?w)" "length (bg_items (bw_groups ?w ! g)) = 1" "g \<notin> ran (bw_names ?w)"
    using assms(2) by (simp_all add: stranded_def)
  have "bw_groups w1 ! g = bw_groups ?w ! g \<and> g \<notin> ran (bw_names w1) \<and>
    (\<forall>t' \<in> set ts. case t' of
        Pushing _ h \<Rightarrow> h \<noteq> g
      | Flushing _ h \<Rightarrow> h \<noteq> g
      | Sleeping sub h \<Rightarrow> h = g \<longrightarrow> (\<forall>now info. bi_len info = 1 \<longrightarrow> \<not> sb_flush_when sub now info)
      | _ \<Rightarrow> True)"
    by (rule task_step_stranded [OF step _ _ _ g]) (use assms(2) tasks in \<open>fastforce simp: stranded_def\<close>)+
  then show ?thesis
    using assms(2) tasks task_step_frame [OF step] by (auto simp: moved(1) run stranded_def)
next
  case (dropped n)
  show ?thesis
  proof (cases "\<exists>sub items ks is. bw_tasks w ! n = Batching sub items ks is")
    case True
    then obtain sub items ks "is" where t: "bw_tasks w ! n = Batching sub items ks is" by blast
    obtain rest where "mset (bw_tasks w) = add_mset (Batching sub items ks is) (mset rest)"
      and drop_: "drop_batch n w = w\<lparr> bw_tasks := rest, bw_answers := bw_answers w @ map (\<lambda>i. (i, BatchDropped)) is \<rparr>"
      by (rule drop_batch_parts [OF dropped(2) t])
    then have "set rest \<subseteq> set (bw_tasks w)" by (metis set_mset_add_mset_insert set_mset_mset subset_insertI)
    then show ?thesis using assms(2) by (auto simp: dropped(1) drop_ stranded_def)
  next
    case False
    then have "drop_batch n w = w" by (auto simp: drop_batch_def split: batch_task.split)
    then show ?thesis using assms(2) dropped(1) by simp
  qed
qed (use assms(2) in \<open>simp add: wait_def stranded_def\<close>)

lemma stranded_step:
  assumes "batch_step w w'" "stranded g w"
  shows "stranded g w' \<and> bg_waiters (bw_groups w' ! g) = bg_waiters (bw_groups w ! g)"
  using assms(1)
proof cases
  case (submitted sub)
  then show ?thesis using assms(2) by (auto simp: submit_def stranded_def)
qed (rule stranded_move [OF _ assms(2)])

lemma stranded_steps:
  "batch_step\<^sup>*\<^sup>* w w' \<Longrightarrow> stranded g w \<Longrightarrow>
   stranded g w' \<and> bg_waiters (bw_groups w' ! g) = bg_waiters (bw_groups w ! g)"
proof (induction rule: rtranclp_induct)
  case (step y z)
  then show ?case using stranded_step [of y z g] by simp
qed simp

lemma stranded_never_answered:
  assumes "batch_inv w" "stranded g w" "i \<in> set (bg_waiters (bw_groups w ! g))" "batch_step\<^sup>*\<^sup>* w w'"
  shows "i \<notin> fst ` set (bw_answers w')"
proof
  assume "i \<in> fst ` set (bw_answers w')"
  then have "1 \<le> count (mset (map fst (bw_answers w'))) i" by (metis count_greater_eq_one_iff set_map set_mset_mset)
  moreover have "g < length (bw_groups w')" "i \<in> set (bg_waiters (bw_groups w' ! g))"
    using stranded_steps [OF assms(4,2)] assms(3) by (simp_all add: stranded_def)
  then have "i \<in> set (concat (map bg_waiters (bw_groups w')))" by (auto intro!: bexI [OF _ nth_mem])
  then have "1 \<le> count (mset (concat (map bg_waiters (bw_groups w')))) i" by (metis count_greater_eq_one_iff set_mset_mset)
  ultimately have "2 \<le> count (waiters_mset w') i" unfolding waiters_mset_def count_union by linarith
  moreover have "waiters_mset w' = mset [0..<bw_next w']"
    using batch_steps_inv [OF assms(4,1)] by (simp add: batch_inv_def)
  ultimately show False by (simp add: count_mset_set' split: if_splits)
qed

section \<open>Samples\<close>

text \<open>Submissions of one group that is flushed by the second of two.\<close>

definition pair_up :: "nat \<Rightarrow> (nat, nat, nat) submission" where
  "pair_up k =
     \<lparr> sb_group = ''g'', sb_key = k, sb_item = k, sb_flush_when = \<lambda>_ info. 2 \<le> bi_len info,
       sb_then = \<lambda>items. Inr (\<lambda>k. if k \<in> set items then Some (10 * k) else None) \<rparr>"

definition pair_up_aged :: "nat \<Rightarrow> (nat, nat, nat) submission" where
  "pair_up_aged k = (pair_up k)\<lparr> sb_flush_when := \<lambda>now info. 2 \<le> bi_len info \<or> 5 \<le> batch_age now info \<rparr>"

definition run_tasks :: "nat list \<Rightarrow> ('k, 'i, 'o) batch_world \<Rightarrow> ('k, 'i, 'o) batch_world" where
  "run_tasks ns w = fold run_task ns w"

fun runnable :: "nat list \<Rightarrow> ('k, 'i, 'o) batch_world \<Rightarrow> bool" where
  "runnable [] w = True"
| "runnable (n # ns) w = (n < length (bw_tasks w) \<and> runnable ns (run_task n w))"

lemma run_tasks_steps: "runnable ns w \<Longrightarrow> batch_step\<^sup>*\<^sup>* w (run_tasks ns w)"
proof (induction ns arbitrary: w)
  case (Cons n ns)
  then have "batch_step w (run_task n w)" by (auto intro: batch_step.moves batch_move.moved)
  with Cons show ?case unfolding run_tasks_def by (auto intro: converse_rtranclp_into_rtranclp)
qed (simp add: run_tasks_def)

lemma submit_run_reachable:
  "batcher_reachable w \<Longrightarrow> runnable ns (fold submit subs w) \<Longrightarrow> batcher_reachable (run_tasks ns (fold submit subs w))"
proof -
  assume reach: "batcher_reachable w" and ok: "runnable ns (fold submit subs w)"
  have "batch_step\<^sup>*\<^sup>* v (fold submit subs v)" for v
    by (induction subs arbitrary: v) (auto intro: batch_step.submitted converse_rtranclp_into_rtranclp)
  with run_tasks_steps [OF ok] reach show ?thesis
    unfolding batcher_reachable_def by (meson rtranclp_trans)
qed

lemma batcher_new_reachable: "batcher_reachable (batcher_new now)"
  by (auto simp: batcher_reachable_def)

text \<open>Three submitters look the group up; the second flushes it and the name is removed; then the third
  pushes. Its item and that of a fourth submitter make two, and both wait.\<close>

definition strand_run :: "(nat, nat, nat) batch_world" where
  "strand_run =
     run_tasks [2, 2] (fold submit [pair_up 4]
       (run_tasks [0, 0, 0, 0, 0, 2, 2, 2, 0] (fold submit [pair_up 1, pair_up 2, pair_up 3] (batcher_new 0))))"

lemma strand_run_eval:
  "runnable [0, 0, 0, 0, 0, 2, 2, 2, 0] (fold submit [pair_up 1, pair_up 2, pair_up 3] (batcher_new 0)) \<and>
   runnable [2, 2] (fold submit [pair_up 4]
     (run_tasks [0, 0, 0, 0, 0, 2, 2, 2, 0] (fold submit [pair_up 1, pair_up 2, pair_up 3] (batcher_new 0)))) \<and>
   bw_answers strand_run = [(0, BatchOk 10), (1, BatchOk 20)] \<and> bw_next strand_run = 4 \<and>
   map bg_waiters (bw_groups strand_run) = [[2], [3]] \<and> map bg_items (bw_groups strand_run) = [[3], [4]]"
  by code_simp

lemma strand_run_rest:
  "bw_tasks strand_run = [Sleeping (pair_up 1) 0, Sleeping (pair_up 3) 0, Sleeping (pair_up 4) 1] \<and>
   bw_names strand_run = [''g'' \<mapsto> 1]"
  by (simp add: strand_run_def run_tasks_def run_task_def submit_def batcher_new_def task_step_defs new_group_def
      pair_up_def info_of_def finish_batch_def)

text \<open>Not every waiter can be answered: a submitter that comes between the lookup of a group and the
  removal of its name is left alone in a group nobody can join, so a policy that only counts never
  flushes it, however many submissions of the same group follow.\<close>

lemma late_submitter_stranded:
  "batcher_reachable strand_run \<and> 2 < bw_next strand_run \<and>
   (\<forall>w'. batch_step\<^sup>*\<^sup>* strand_run w' \<longrightarrow> 2 \<notin> fst ` set (bw_answers w'))"
proof -
  have reach: "batcher_reachable strand_run"
    unfolding strand_run_def using strand_run_eval by (intro submit_run_reachable batcher_new_reachable) blast+
  have "length (bw_groups strand_run) = 2" using strand_run_eval by (metis length_map list.size(3,4) One_nat_def Suc_1 add.right_neutral add_Suc_right)
  moreover have "bw_groups strand_run ! 0 = hd (bw_groups strand_run)" using calculation by (cases "bw_groups strand_run") auto
  moreover have "bg_items (hd (bw_groups strand_run)) = [3]" "bg_waiters (hd (bw_groups strand_run)) = [2]"
    using strand_run_eval by (cases "bw_groups strand_run"; auto)+
  ultimately have "stranded 0 strand_run" "2 \<in> set (bg_waiters (bw_groups strand_run ! 0))"
    using strand_run_rest by (auto simp: stranded_def pair_up_def)
  then show ?thesis
    using reach strand_run_eval stranded_never_answered [OF batcher_reachable_inv [OF reach]] by auto
qed

theorem batcher_loses_no_waiter_witness:
  "distinct (map fst (bw_answers strand_run)) \<and>
   (\<exists>g < length (bw_groups strand_run). 2 \<in> set (bg_waiters (bw_groups strand_run ! g)) \<and> watched strand_run g)"
proof -
  have reach: "batcher_reachable strand_run" using late_submitter_stranded by blast
  have "\<nexists>a. (2, a) \<in> set (bw_answers strand_run)" "2 < bw_next strand_run" using strand_run_eval by auto
  moreover have "\<nexists>t. t \<in> set (bw_tasks strand_run) \<and> 2 \<in> set (task_waiters t)" using strand_run_rest by auto
  ultimately show ?thesis using batcher_loses_no_waiter [OF reach] by blast
qed

theorem batcher_can_answer_all_witness:
  "\<exists>w'. batch_move\<^sup>*\<^sup>* (fold submit [pair_up_aged 1, pair_up_aged 2, pair_up_aged 3] (batcher_new 0)) w' \<and>
        bw_tasks w' = [] \<and> (\<forall>i < bw_next w'. \<exists>!a. (i, a) \<in> set (bw_answers w'))"
proof -
  let ?w = "fold submit [pair_up_aged 1, pair_up_aged 2, pair_up_aged 3] (batcher_new 0)"
  have "batcher_reachable ?w"
    by (rule submit_run_reachable [OF batcher_new_reachable, of "[]", unfolded run_tasks_def fold.simps id_apply]) simp
  moreover have "\<forall>t \<in> set (bw_tasks ?w). patient 5 (submission_of t)"
    by (simp add: submit_def batcher_new_def patient_def pair_up_aged_def)
  ultimately show ?thesis by (rule batcher_can_answer_all)
qed

lemma batch_results_by_key_witness:
  "bw_answers (snd (task_step (Batching (pair_up 1) [1, 2] [1, 2] [7, 8]) (batcher_new 0))) ! 1 = (8, BatchOk 20)"
proof -
  obtain ts w1 where step: "(ts, w1) = task_step (Batching (pair_up 1) [1, 2] [1, 2] [7, 8]) (batcher_new 0)"
    by (metis surj_pair)
  have len: "length [1, 2 :: nat] = length [7, 8 :: nat]" by simp
  show ?thesis
    using batch_results_by_key [OF len step] step [symmetric] by (auto simp: pair_up_def batcher_new_def)
qed

end
