(* ===== verification/Inspector_Cache.thy ===== *)
theory Inspector_Cache
  imports Prelude "HOL-Library.Sublist"
begin

text \<open>
  The inspector's \<open>EventCache\<close> (\<open>modules/causal_inspector/src/cache.rs\<close>): the last events, oldest first,
  with an index by sequence number and three indices of buckets of sequence numbers, which are adjusted
  on every push and eviction. \<open>InspectorEvent\<close> is in \<open>types.rs\<close>.

  \<open>Uuid::parse_str\<close> and \<open>str::to_lowercase\<close> are parameters of the operations that use them. An \<open>i64\<close> is
  an integer.
\<close>

section \<open>Events\<close>

type_synonym i64 = int

record inspector_event =
  ie_seq :: i64
  ie_ts :: datetime
  ie_event_type :: string
  ie_name :: string
  ie_id :: "string option"
  ie_causation_id :: "string option"
  ie_workflow_id :: "string option"
  ie_reactor_id :: "string option"
  ie_aggregate_type :: "string option"
  ie_aggregate_id :: "string option"
  ie_stream_revision :: "i64 option"
  ie_summary :: "string option"
  ie_payload :: string

definition aggregate_key :: "inspector_event \<Rightarrow> string option" where
  "aggregate_key e =
     (case (ie_aggregate_type e, ie_aggregate_id e) of
        (Some t, Some i) \<Rightarrow> Some (t @ '':'' @ i)
      | _ \<Rightarrow> None)"

section \<open>The cache\<close>

record event_cache =
  ec_events :: "inspector_event list"
  ec_by_seq :: "(i64, inspector_event) hmap"
  ec_by_workflow :: "(uuid, i64 list) hmap"
  ec_by_handler :: "(string, i64 list) hmap"
  ec_by_stream :: "(string, i64 list) hmap"
  ec_capacity :: nat

definition cache_new :: "nat \<Rightarrow> event_cache" where
  "cache_new capacity =
     \<lparr> ec_events = [], ec_by_seq = [], ec_by_workflow = [], ec_by_handler = [], ec_by_stream = [],
       ec_capacity = capacity \<rparr>"

text \<open>The key of the event in the index by workflow; its own \<open>reactor_id\<close> and \<open>aggregate_key\<close> are those
  of the other two.\<close>

definition workflow_key :: "(string \<Rightarrow> uuid option) \<Rightarrow> inspector_event \<Rightarrow> uuid option" where
  "workflow_key parse e = Option.bind (ie_workflow_id e) parse"

text \<open>\<open>index.entry(key).or_default().push(seq)\<close>, when the event has a key.\<close>

definition index_add :: "'k option \<Rightarrow> i64 \<Rightarrow> ('k, i64 list) hmap \<Rightarrow> ('k, i64 list) hmap" where
  "index_add key seq idx =
     (case key of
        None \<Rightarrow> idx
      | Some k \<Rightarrow> hput k ((case hget idx k of Some b \<Rightarrow> b | None \<Rightarrow> []) @ [seq]) idx)"

text \<open>\<open>slice::binary_search\<close>, on a bucket that ascends.\<close>

definition binary_search :: "i64 \<Rightarrow> i64 list \<Rightarrow> nat option" where
  "binary_search x xs =
     (let n = partition_point (\<lambda>y. y < x) xs in if n < length xs \<and> xs ! n = x then Some n else None)"

text \<open>What an eviction does to one index.\<close>

definition index_remove :: "'k option \<Rightarrow> i64 \<Rightarrow> ('k, i64 list) hmap \<Rightarrow> ('k, i64 list) hmap" where
  "index_remove key seq idx =
     (case key of
        None \<Rightarrow> idx
      | Some k \<Rightarrow>
          (case hget idx k of
             None \<Rightarrow> idx
           | Some bucket \<Rightarrow>
               (let b = (case binary_search seq bucket of
                           Some pos \<Rightarrow> take pos bucket @ drop (Suc pos) bucket
                         | None \<Rightarrow> bucket)
                in if b = [] then hdel k idx else hput k b idx)))"

definition push_unchecked :: "(string \<Rightarrow> uuid option) \<Rightarrow> inspector_event \<Rightarrow> event_cache \<Rightarrow> event_cache" where
  "push_unchecked parse e c =
     (let seq = ie_seq e in
      c\<lparr> ec_by_seq := hput seq e (ec_by_seq c),
         ec_by_workflow := index_add (workflow_key parse e) seq (ec_by_workflow c),
         ec_by_handler := index_add (ie_reactor_id e) seq (ec_by_handler c),
         ec_by_stream := index_add (aggregate_key e) seq (ec_by_stream c),
         ec_events := ec_events c @ [e] \<rparr>)"

definition evict_oldest :: "(string \<Rightarrow> uuid option) \<Rightarrow> event_cache \<Rightarrow> event_cache" where
  "evict_oldest parse c =
     (case ec_events c of
        [] \<Rightarrow> c
      | evicted # events \<Rightarrow>
          (let seq = ie_seq evicted in
           c\<lparr> ec_events := events, ec_by_seq := hdel seq (ec_by_seq c),
              ec_by_workflow := index_remove (workflow_key parse evicted) seq (ec_by_workflow c),
              ec_by_handler := index_remove (ie_reactor_id evicted) seq (ec_by_handler c),
              ec_by_stream := index_remove (aggregate_key evicted) seq (ec_by_stream c) \<rparr>))"

definition cache_push :: "(string \<Rightarrow> uuid option) \<Rightarrow> inspector_event \<Rightarrow> event_cache \<Rightarrow> event_cache" where
  "cache_push parse e c =
     push_unchecked parse e (if ec_capacity c \<le> length (ec_events c) then evict_oldest parse c else c)"

section \<open>Queries\<close>

definition get_by_seq :: "i64 \<Rightarrow> event_cache \<Rightarrow> inspector_event option" where
  "get_by_seq seq c = hget (ec_by_seq c) seq"

record cache_query =
  cq_term :: "string option"
  cq_cursor :: "i64 option"
  cq_from :: "datetime option"
  cq_to :: "datetime option"
  cq_workflow_id :: "string option"
  cq_aggregate_key :: "string option"
  cq_limit :: nat

text \<open>The filters of the loop of \<open>search\<close>, in its order.\<close>

definition kept :: "(string \<Rightarrow> string) \<Rightarrow> cache_query \<Rightarrow> inspector_event \<Rightarrow> bool" where
  "kept lower q e =
     ((case cq_cursor q of Some c \<Rightarrow> ie_seq e < c | None \<Rightarrow> True) \<and>
      (case cq_from q of Some f \<Rightarrow> f \<le> ie_ts e | None \<Rightarrow> True) \<and>
      (case cq_to q of Some t \<Rightarrow> ie_ts e \<le> t | None \<Rightarrow> True) \<and>
      (case cq_term q of
         None \<Rightarrow> True
       | Some term \<Rightarrow>
           (let needle = lower term in
            sublist needle (lower (ie_payload e)) \<or> sublist needle (lower (ie_event_type e)) \<or>
            (case ie_workflow_id e of Some s \<Rightarrow> sublist needle (lower s) | None \<Rightarrow> False))))"

text \<open>The loop: the limit is looked at after a result was pushed.\<close>

fun search_loop ::
  "(inspector_event \<Rightarrow> bool) \<Rightarrow> nat \<Rightarrow> inspector_event list \<Rightarrow> inspector_event list \<Rightarrow> inspector_event list" where
  "search_loop keep limit [] results = results"
| "search_loop keep limit (e # es) results =
     (if \<not> keep e then search_loop keep limit es results
      else let r = results @ [e] in if limit \<le> length r then r else search_loop keep limit es r)"

definition rev_bucket :: "event_cache \<Rightarrow> i64 list \<Rightarrow> inspector_event list" where
  "rev_bucket c seqs = List.map_filter (hget (ec_by_seq c)) (rev seqs)"

definition search_candidates ::
  "(string \<Rightarrow> uuid option) \<Rightarrow> cache_query \<Rightarrow> event_cache \<Rightarrow> inspector_event list" where
  "search_candidates parse q c =
     (let correlation_seqs = Option.bind (Option.bind (cq_workflow_id q) parse) (hget (ec_by_workflow c));
          stream_seqs = Option.bind (cq_aggregate_key q) (hget (ec_by_stream c))
      in case stream_seqs of
           Some seqs \<Rightarrow> rev_bucket c seqs
         | None \<Rightarrow>
             (case correlation_seqs of
                Some seqs \<Rightarrow> rev_bucket c seqs
              | None \<Rightarrow> rev (ec_events c)))"

definition search ::
  "(string \<Rightarrow> uuid option) \<Rightarrow> (string \<Rightarrow> string) \<Rightarrow> cache_query \<Rightarrow> event_cache \<Rightarrow>
   inspector_event list \<times> i64 option" where
  "search parse lower q c =
     (let results = search_loop (kept lower q) (cq_limit q) (search_candidates parse q c) [];
          next_cursor = (if cq_limit q \<le> length results
                         then (if results = [] then None else Some (ie_seq (last results))) else None)
      in (results, next_cursor))"

definition bucket_events :: "event_cache \<Rightarrow> i64 list \<Rightarrow> inspector_event list" where
  "bucket_events c seqs = sort_key ie_seq (List.map_filter (hget (ec_by_seq c)) seqs)"

definition cache_causal_tree ::
  "(string \<Rightarrow> uuid option) \<Rightarrow> i64 \<Rightarrow> event_cache \<Rightarrow> (inspector_event list \<times> i64) option" where
  "cache_causal_tree parse seq c =
     (case hget (ec_by_seq c) seq of
        None \<Rightarrow> None
      | Some e \<Rightarrow>
          (case Option.bind (workflow_key parse e) (hget (ec_by_workflow c)) of
             None \<Rightarrow> None
           | Some seqs \<Rightarrow>
               (let events = bucket_events c seqs;
                    root_seq = (case find (\<lambda>e. ie_causation_id e = None) events of
                                  Some r \<Rightarrow> ie_seq r | None \<Rightarrow> seq)
                in Some (events, root_seq))))"

definition cache_causal_flow ::
  "(string \<Rightarrow> uuid option) \<Rightarrow> string \<Rightarrow> event_cache \<Rightarrow> inspector_event list option" where
  "cache_causal_flow parse workflow_id c =
     map_option (bucket_events c) (Option.bind (parse workflow_id) (hget (ec_by_workflow c)))"

section \<open>The indices are those of the events\<close>

definition index_ok :: "(inspector_event \<Rightarrow> 'k option) \<Rightarrow> inspector_event list \<Rightarrow> ('k, i64 list) hmap \<Rightarrow> bool" where
  "index_ok key events idx \<longleftrightarrow>
     (\<forall>k. hget idx k = (let b = map ie_seq (filter (\<lambda>e. key e = Some k) events) in if b = [] then None else Some b))"

definition cache_inv :: "(string \<Rightarrow> uuid option) \<Rightarrow> event_cache \<Rightarrow> bool" where
  "cache_inv parse c \<longleftrightarrow>
     sorted_wrt (<) (map ie_seq (ec_events c)) \<and>
     (\<forall>s e. hget (ec_by_seq c) s = Some e \<longleftrightarrow> e \<in> set (ec_events c) \<and> ie_seq e = s) \<and>
     index_ok (workflow_key parse) (ec_events c) (ec_by_workflow c) \<and>
     index_ok ie_reactor_id (ec_events c) (ec_by_handler c) \<and>
     index_ok aggregate_key (ec_events c) (ec_by_stream c)"

lemma index_add_ok: "index_ok key es idx \<Longrightarrow> index_ok key (es @ [e]) (index_add (key e) (ie_seq e) idx)"
  by (cases "key e") (auto simp: index_ok_def index_add_def Let_def)

lemma binary_search_head: "binary_search x (x # xs) = Some 0"
  by (simp add: binary_search_def partition_point_def)

lemma index_remove_ok:
  assumes "index_ok key (e # es) idx"
  shows "index_ok key es (index_remove (key e) (ie_seq e) idx)"
proof (cases "key e")
  case None
  then show ?thesis using assms by (simp add: index_ok_def index_remove_def)
next
  case (Some k)
  let ?b = "map ie_seq (filter (\<lambda>e. key e = Some k) es)"
  have at: "hget idx k = Some (ie_seq e # ?b)" using assms Some by (simp add: index_ok_def)
  have others: "j \<noteq> k \<Longrightarrow>
      hget idx j = (let b = map ie_seq (filter (\<lambda>e. key e = Some j) es) in if b = [] then None else Some b)" for j
    using assms Some by (simp add: index_ok_def)
  show ?thesis
    using at others by (auto simp: index_ok_def index_remove_def Some Let_def binary_search_head)
qed

lemma cache_inv_new: "cache_inv parse (cache_new n)"
  by (simp add: cache_inv_def cache_new_def index_ok_def)

lemma evict_oldest_inv:
  assumes "cache_inv parse c"
  shows "cache_inv parse (evict_oldest parse c) \<and> ec_events (evict_oldest parse c) = tl (ec_events c)"
proof (cases "ec_events c")
  case Nil
  then show ?thesis using assms by (simp add: evict_oldest_def)
next
  case (Cons e es)
  have "sorted_wrt (<) (map ie_seq (e # es))" using assms Cons by (simp add: cache_inv_def)
  moreover have "hget (ec_by_seq c) s = Some x \<longleftrightarrow> x \<in> set (e # es) \<and> ie_seq x = s" for s x
    using assms Cons by (simp add: cache_inv_def)
  ultimately show ?thesis
    using assms Cons by (auto simp: cache_inv_def evict_oldest_def Let_def intro: index_remove_ok)
qed

lemma push_unchecked_inv:
  assumes "cache_inv parse c" "\<forall>x \<in> set (ec_events c). ie_seq x < ie_seq e"
  shows "cache_inv parse (push_unchecked parse e c) \<and> ec_events (push_unchecked parse e c) = ec_events c @ [e]"
proof -
  have "sorted_wrt (<) (map ie_seq (ec_events c))"
    and "hget (ec_by_seq c) s = Some x \<longleftrightarrow> x \<in> set (ec_events c) \<and> ie_seq x = s" for s x
    using assms(1) by (simp_all add: cache_inv_def)
  then show ?thesis
    using assms by (auto simp: cache_inv_def push_unchecked_def Let_def sorted_wrt_append intro: index_add_ok)
qed

lemma cache_push_inv:
  assumes "cache_inv parse c" "\<forall>x \<in> set (ec_events c). ie_seq x < ie_seq e"
  shows "cache_inv parse (cache_push parse e c)"
    "ec_events (cache_push parse e c) =
       (if ec_capacity c \<le> length (ec_events c) then tl (ec_events c) else ec_events c) @ [e]"
    "ec_capacity (cache_push parse e c) = ec_capacity c"
proof -
  have "x \<in> set (tl (ec_events c)) \<Longrightarrow> x \<in> set (ec_events c)" for x by (cases "ec_events c") auto
  then show "cache_inv parse (cache_push parse e c)"
    "ec_events (cache_push parse e c) =
       (if ec_capacity c \<le> length (ec_events c) then tl (ec_events c) else ec_events c) @ [e]"
    using push_unchecked_inv [of parse "evict_oldest parse c" e] push_unchecked_inv [of parse c e]
      evict_oldest_inv [OF assms(1)] assms
    by (auto simp: cache_push_def)
  show "ec_capacity (cache_push parse e c) = ec_capacity c"
    by (simp add: cache_push_def push_unchecked_def evict_oldest_def Let_def split: list.split)
qed

lemma pushes_hold:
  assumes "sorted_wrt (<) (map ie_seq es)" "c = fold (cache_push parse) es (cache_new n)"
  shows "ec_events c = drop (length es - max 1 n) es \<and> cache_inv parse c \<and> ec_capacity c = n"
  using assms
proof (induction es arbitrary: c rule: rev_induct)
  case Nil
  then show ?case using cache_inv_new by (simp add: cache_new_def)
next
  case (snoc e es)
  let ?c = "fold (cache_push parse) es (cache_new n)"
  have ih: "ec_events ?c = drop (length es - max 1 n) es" "cache_inv parse ?c" "ec_capacity ?c = n"
    using snoc.IH [OF _ refl] snoc.prems(1) by (simp_all add: sorted_wrt_append)
  have "\<forall>x \<in> set (ec_events ?c). ie_seq x < ie_seq e"
    using snoc.prems(1) ih(1) by (auto simp: sorted_wrt_append dest: in_set_dropD)
  note pushed = cache_push_inv [OF ih(2) this]
  have c: "c = cache_push parse e ?c" using snoc.prems(2) by simp
  have "(if n \<le> length (ec_events ?c) then tl (ec_events ?c) else ec_events ?c) @ [e] =
      drop (length (es @ [e]) - max 1 n) (es @ [e])"
  proof (cases "length es < max 1 n")
    case True
    then have "length es - max 1 n = 0" "n \<le> length es \<Longrightarrow> es = []" by (auto simp: max_def split: if_splits)
    then show ?thesis unfolding ih(1) using True by auto
  next
    case False
    then have "Suc (length es) - max 1 n = Suc (length es - max 1 n)" by simp
    moreover have "n \<le> length (drop (length es - max 1 n) es)" using False by simp
    moreover have "Suc (length es - max 1 n) - length es = 0" using False le_max_iff_disj [of 1 1 n] by linarith
    ultimately show ?thesis unfolding ih(1) using False by (simp add: tl_drop drop_Suc)
  qed
  then show ?case using pushed ih(3) by (simp add: c)
qed

text \<open>Events pushed in the order of their sequence numbers leave a cache that holds the newest of
  them, as many as its capacity (one when that is zero), and whose four indices are exactly those of the
  events it holds: no evicted event is found, none it holds is missed.\<close>

lemma cache_holds_newest:
  assumes "sorted_wrt (<) (map ie_seq es)" "c = fold (cache_push parse) es (cache_new n)"
  shows "ec_events c = drop (length es - max 1 n) es \<and> cache_inv parse c"
  using pushes_hold [OF assms] by blast

section \<open>Search\<close>

lemma search_loop_filter:
  "length results < limit \<Longrightarrow>
   search_loop keep limit es results = results @ take (limit - length results) (filter keep es)"
proof (induction es arbitrary: results)
  case (Cons e es)
  have "limit - length results = Suc (limit - Suc (length results))" using Cons.prems by simp
  then show ?case using Cons by (cases "Suc (length results) < limit") (auto simp: Let_def)
qed simp

lemma map_filter_seq:
  assumes "cache_inv parse c" "set xs \<subseteq> set (ec_events c)"
  shows "List.map_filter (hget (ec_by_seq c)) (map ie_seq xs) = xs"
  using assms(2)
proof (induction xs)
  case (Cons x xs)
  then have "hget (ec_by_seq c) (ie_seq x) = Some x" using assms(1) by (simp add: cache_inv_def)
  then show ?case using Cons by (simp add: List.map_filter_simps)
qed (simp add: List.map_filter_simps)

text \<open>What a query asks for: its filters, and the workflow and the stream it names.\<close>

definition in_scope :: "(string \<Rightarrow> uuid option) \<Rightarrow> cache_query \<Rightarrow> inspector_event \<Rightarrow> bool" where
  "in_scope parse q e \<longleftrightarrow>
     (\<forall>k. cq_aggregate_key q = Some k \<longrightarrow> aggregate_key e = Some k) \<and>
     (\<forall>s. cq_workflow_id q = Some s \<longrightarrow> (\<exists>u. parse s = Some u \<and> workflow_key parse e = Some u))"

definition hits ::
  "(string \<Rightarrow> uuid option) \<Rightarrow> (string \<Rightarrow> string) \<Rightarrow> cache_query \<Rightarrow> event_cache \<Rightarrow> inspector_event list" where
  "hits parse lower q c = filter (\<lambda>e. kept lower q e \<and> in_scope parse q e) (rev (ec_events c))"

lemma candidates_scoped:
  assumes "cache_inv parse c" "cq_workflow_id q = None \<or> cq_aggregate_key q = None"
    and "cq_workflow_id q \<noteq> None \<or> cq_aggregate_key q \<noteq> None \<Longrightarrow> \<exists>e \<in> set (ec_events c). in_scope parse q e"
  shows "search_candidates parse q c = rev (filter (in_scope parse q) (ec_events c))"
proof -
  have bucket: "rev_bucket c (map ie_seq (filter P (ec_events c))) = rev (filter P (ec_events c))" for P
    using map_filter_seq [OF assms(1), of "rev (filter P (ec_events c))"] by (auto simp: rev_bucket_def rev_map)
  have idx: "index_ok (workflow_key parse) (ec_events c) (ec_by_workflow c)"
    "index_ok aggregate_key (ec_events c) (ec_by_stream c)"
    using assms(1) by (simp_all add: cache_inv_def)
  consider (all) "cq_workflow_id q = None" "cq_aggregate_key q = None"
    | (stream) k where "cq_workflow_id q = None" "cq_aggregate_key q = Some k"
    | (workflow) s where "cq_workflow_id q = Some s" "cq_aggregate_key q = None"
    using assms(2) by blast
  then show ?thesis
  proof cases
    case all
    then have "in_scope parse q = (\<lambda>_. True)" by (simp add: in_scope_def fun_eq_iff)
    then show ?thesis using all by (simp add: search_candidates_def)
  next
    case (stream k)
    then have scope: "in_scope parse q = (\<lambda>e. aggregate_key e = Some k)" by (simp add: in_scope_def fun_eq_iff)
    then have "filter (\<lambda>e. aggregate_key e = Some k) (ec_events c) \<noteq> []"
      using assms(3) stream by (auto simp: filter_empty_conv)
    then have "hget (ec_by_stream c) k = Some (map ie_seq (filter (\<lambda>e. aggregate_key e = Some k) (ec_events c)))"
      using idx(2) by (simp add: index_ok_def Let_def)
    then show ?thesis unfolding scope by (simp add: search_candidates_def stream bucket)
  next
    case (workflow s)
    then obtain u where u: "parse s = Some u" using assms(3) by (auto simp: in_scope_def)
    then have scope: "in_scope parse q = (\<lambda>e. workflow_key parse e = Some u)"
      using workflow by (auto simp: in_scope_def fun_eq_iff)
    then have "filter (\<lambda>e. workflow_key parse e = Some u) (ec_events c) \<noteq> []"
      using assms(3) workflow by (auto simp: filter_empty_conv)
    then have "hget (ec_by_workflow c) u = Some (map ie_seq (filter (\<lambda>e. workflow_key parse e = Some u) (ec_events c)))"
      using idx(1) by (simp add: index_ok_def Let_def)
    then show ?thesis unfolding scope by (simp add: search_candidates_def workflow u bucket)
  qed
qed

text \<open>\<open>search\<close> answers what a scan of the cache would: newest first, the first \<open>limit\<close> events that pass
  every filter, and the cursor of the last of them when there may be more. This is so for a positive
  limit and for a query that names a workflow, or a stream, of which the cache holds an event, or none.\<close>

lemma search_is_scan:
  assumes "cache_inv parse c" "0 < cq_limit q" "cq_workflow_id q = None \<or> cq_aggregate_key q = None"
    and "cq_workflow_id q \<noteq> None \<or> cq_aggregate_key q \<noteq> None \<Longrightarrow> \<exists>e \<in> set (ec_events c). in_scope parse q e"
  shows "search parse lower q c =
    (take (cq_limit q) (hits parse lower q c),
     if cq_limit q \<le> length (hits parse lower q c) then Some (ie_seq (hits parse lower q c ! (cq_limit q - 1))) else None)"
proof -
  let ?h = "hits parse lower q c" and ?n = "cq_limit q"
  have "search_candidates parse q c = rev (filter (in_scope parse q) (ec_events c))"
    by (rule candidates_scoped [OF assms(1,3)]) (rule assms(4))
  then have "filter (kept lower q) (search_candidates parse q c) = ?h"
    by (simp add: hits_def rev_filter conj_commute)
  then have "search_loop (kept lower q) ?n (search_candidates parse q c) [] = take ?n ?h"
    using search_loop_filter [of "[]" ?n] assms(2) by simp
  moreover have "last (take ?n ?h) = ?h ! (?n - 1)" if "?n \<le> length ?h"
    using that assms(2) by (subst last_conv_nth) (auto simp: min_def)
  ultimately show ?thesis using assms(2) by (auto simp: search_def Let_def min_def)
qed

text \<open>With the cursor of a page the next one goes on where it ended.\<close>

lemma next_page_hits:
  assumes "cache_inv parse c" "hits parse lower q c = xs @ [e] @ ys" "cq_cursor q = None"
  shows "hits parse lower (q\<lparr> cq_cursor := Some (ie_seq e) \<rparr>) c = ys"
proof -
  have "sorted_wrt (\<lambda>x y. ie_seq y < ie_seq x) (rev (ec_events c))"
    using assms(1) by (simp add: cache_inv_def sorted_wrt_rev sorted_wrt_map)
  then have sorted: "sorted_wrt (\<lambda>x y. ie_seq y < ie_seq x) (xs @ [e] @ ys)"
    unfolding assms(2) [symmetric] hits_def by (rule sorted_wrt_filter)
  have "hits parse lower (q\<lparr> cq_cursor := Some (ie_seq e) \<rparr>) c =
      filter (\<lambda>x. ie_seq x < ie_seq e) (hits parse lower q c)"
    using assms(3) by (auto simp: hits_def kept_def in_scope_def intro!: filter_cong)
  also have "\<dots> = ys"
    using sorted by (auto simp: assms(2) sorted_wrt_append filter_empty_conv filter_id_conv)
  finally show ?thesis .
qed

text \<open>But a workflow of which the cache holds no event is taken for no filter at all, and beside a stream a
  workflow is not looked at.\<close>

lemma unknown_workflow_not_filtered:
  assumes "cache_inv parse c" "cq_aggregate_key q = None" "cq_workflow_id q = Some s"
    and "\<forall>e \<in> set (ec_events c). \<not> in_scope parse q e"
  shows "search parse lower q c = search parse lower (q\<lparr> cq_workflow_id := None \<rparr>) c"
proof -
  have "Option.bind (parse s) (hget (ec_by_workflow c)) = None"
    using assms by (cases "parse s") (auto simp: cache_inv_def index_ok_def in_scope_def filter_empty_conv Let_def)
  moreover have "kept lower (q\<lparr> cq_workflow_id := None \<rparr>) = kept lower q" by (simp add: kept_def fun_eq_iff)
  ultimately show ?thesis using assms(2,3) by (simp add: search_def search_candidates_def)
qed

lemma workflow_ignored_beside_stream:
  assumes "cq_aggregate_key q = Some k" "hget (ec_by_stream c) k = Some seqs"
  shows "search parse lower q c = search parse lower (q\<lparr> cq_workflow_id := None \<rparr>) c"
proof -
  have "kept lower (q\<lparr> cq_workflow_id := None \<rparr>) = kept lower q" by (simp add: kept_def fun_eq_iff)
  then show ?thesis using assms by (simp add: search_def search_candidates_def)
qed

section \<open>Samples\<close>

definition sample_seen :: "i64 \<Rightarrow> string \<Rightarrow> inspector_event" where
  "sample_seen seq w =
     \<lparr> ie_seq = seq, ie_ts = 0, ie_event_type = ''placed'', ie_name = ''placed'', ie_id = None, ie_causation_id = None,
       ie_workflow_id = Some w, ie_reactor_id = None, ie_aggregate_type = None, ie_aggregate_id = None,
       ie_stream_revision = None, ie_summary = None, ie_payload = ''null'' \<rparr>"

definition sample_cache :: event_cache where
  "sample_cache =
     fold (cache_push (\<lambda>s. Some (of_nat (length s)))) [sample_seen 1 ''a'', sample_seen 2 ''bb'', sample_seen 3 ''a''] (cache_new 2)"

definition sample_query :: "string \<Rightarrow> cache_query" where
  "sample_query w =
     \<lparr> cq_term = None, cq_cursor = None, cq_from = None, cq_to = None, cq_workflow_id = Some w,
       cq_aggregate_key = None, cq_limit = 1 \<rparr>"

lemma cache_holds_newest_witness:
  "ec_events sample_cache = [sample_seen 2 ''bb'', sample_seen 3 ''a''] \<and>
   cache_inv (\<lambda>s. Some (of_nat (length s))) sample_cache"
proof -
  have "sorted_wrt (<) (map ie_seq [sample_seen 1 ''a'', sample_seen 2 ''bb'', sample_seen 3 ''a''])"
    by (simp add: sample_seen_def)
  from cache_holds_newest [OF this sample_cache_def] show ?thesis by simp
qed

lemma sample_cache_eq:
  "ec_events sample_cache = [sample_seen 2 ''bb'', sample_seen 3 ''a'']"
  "cache_inv (\<lambda>s. Some (of_nat (length s))) sample_cache"
proof -
  have "sorted_wrt (<) (map ie_seq [sample_seen 1 ''a'', sample_seen 2 ''bb'', sample_seen 3 ''a''])"
    by (simp add: sample_seen_def)
  note held = pushes_hold [OF this sample_cache_def]
  show "ec_events sample_cache = [sample_seen 2 ''bb'', sample_seen 3 ''a'']" using held by simp
  show "cache_inv (\<lambda>s. Some (of_nat (length s))) sample_cache" using held by blast
qed

lemma search_is_scan_witness:
  "search (\<lambda>s. Some (of_nat (length s))) id (sample_query ''bb'') sample_cache = ([sample_seen 2 ''bb''], Some 2)"
proof -
  let ?parse = "\<lambda>s. Some (of_nat (length s)) :: uuid option" and ?q = "sample_query ''bb''"
  have q: "0 < cq_limit ?q" "cq_workflow_id ?q = None \<or> cq_aggregate_key ?q = None" by (simp_all add: sample_query_def)
  have "\<exists>e \<in> set (ec_events sample_cache). in_scope ?parse ?q e"
    by (simp add: sample_cache_eq in_scope_def sample_query_def workflow_key_def sample_seen_def)
  moreover have "hits ?parse id ?q sample_cache = [sample_seen 2 ''bb'']"
    by (simp add: hits_def sample_cache_eq in_scope_def kept_def sample_query_def workflow_key_def sample_seen_def)
  ultimately show ?thesis
    using search_is_scan [OF sample_cache_eq(2) q, of id] by (simp add: sample_query_def sample_seen_def)
qed

text \<open>A limit of zero gets one event.\<close>

lemma search_limit_zero:
  "length (fst (search (\<lambda>s. Some (of_nat (length s))) id ((sample_query ''a'')\<lparr> cq_limit := 0 \<rparr>) sample_cache)) = 1"
  by code_simp

end
