(* ===== verification/Inspector_Memory.thy ===== *)
theory Inspector_Memory
  imports Checkpoints Effect_Store "HOL-Library.Sublist"
begin

text \<open>
  The inspector's read model over the in-memory store, \<open>MemoryInspectorReadModel\<close>
  (\<open>modules/causal_inspector/src/memory.rs\<close>), with the records of \<open>read_model.rs\<close>: the event listings,
  the reactors' history, the workflow summaries, and the chain of an entity. All are queries of a
  \<open>memory_store\<close>, taken under its locks.

  Printing and parsing of \<open>Uuid\<close>, \<open>str::to_lowercase\<close> and \<open>serde_json::to_string\<close> are the parameters
  \<open>inspector_env\<close>. An \<open>i64\<close> is an integer, the cast of a position to it is \<open>sint\<close>. Where the code iterates
  over a \<open>HashMap\<close> into its answer, the order of the answer is that of insertion here.
\<close>

section \<open>Records\<close>

record inspector_env =
  iv_show :: "uuid \<Rightarrow> string"
  iv_parse :: "string \<Rightarrow> uuid option"
  iv_lower :: "string \<Rightarrow> string"
  iv_json :: "json \<Rightarrow> string"

record stored_event =
  se_seq :: int
  se_ts :: datetime
  se_event_type :: string
  se_payload :: json
  se_id :: "uuid option"
  se_causation_id :: "uuid option"
  se_workflow_id :: "uuid option"
  se_reactor_id :: "string option"
  se_aggregate_type :: "string option"
  se_aggregate_id :: "uuid option"
  se_stream_revision :: "u64 option"

definition seq_of :: "recorded_event \<Rightarrow> int" where
  "seq_of e = sint (re_position e)"

definition reactor_of :: "recorded_event \<Rightarrow> string option" where
  "reactor_of e = (case hget (re_metadata e) ''reactor_id'' of Some (JString s) \<Rightarrow> Some s | _ \<Rightarrow> None)"

definition to_stored :: "recorded_event \<Rightarrow> stored_event" where
  "to_stored e =
     \<lparr> se_seq = seq_of e, se_ts = re_created_at e, se_event_type = re_event_type e, se_payload = re_payload e,
       se_id = Some (re_event_id e), se_causation_id = re_causation_id e, se_workflow_id = Some (re_workflow_id e),
       se_reactor_id = reactor_of e, se_aggregate_type = Some (re_category e),
       se_aggregate_id = Some (re_subject_id e), se_stream_revision = Some (re_revision e) \<rparr>"

record event_query =
  qr_limit :: nat
  qr_cursor :: "int option"
  qr_search :: "string option"
  qr_from :: "datetime option"
  qr_to :: "datetime option"
  qr_workflow_id :: "string option"
  qr_aggregate_key :: "string option"

section \<open>Events\<close>

definition contains_lower :: "inspector_env \<Rightarrow> string \<Rightarrow> string \<Rightarrow> bool" where
  "contains_lower env needle s = sublist needle (iv_lower env s)"

definition event_wanted :: "inspector_env \<Rightarrow> event_query \<Rightarrow> recorded_event \<Rightarrow> bool" where
  "event_wanted env q e =
     ((case qr_cursor q of Some c \<Rightarrow> seq_of e < c | None \<Rightarrow> True) \<and>
      (case qr_from q of Some f \<Rightarrow> f \<le> re_created_at e | None \<Rightarrow> True) \<and>
      (case qr_to q of Some t \<Rightarrow> re_created_at e \<le> t | None \<Rightarrow> True) \<and>
      (case qr_workflow_id q of Some w \<Rightarrow> iv_show env (re_workflow_id e) = w | None \<Rightarrow> True) \<and>
      (case qr_aggregate_key q of
         Some k \<Rightarrow> re_category e @ '':'' @ iv_show env (re_subject_id e) = k | None \<Rightarrow> True) \<and>
      (case qr_search q of
         Some term \<Rightarrow>
           (let needle = iv_lower env term in
            contains_lower env needle (re_event_type e) \<or> contains_lower env needle (iv_json env (re_payload e)) \<or>
            contains_lower env needle (iv_show env (re_workflow_id e)))
       | None \<Rightarrow> True))"

definition list_events :: "inspector_env \<Rightarrow> event_query \<Rightarrow> memory_store \<Rightarrow> stored_event list" where
  "list_events env q s =
     map to_stored (take (min (qr_limit q) 200) (filter (event_wanted env q) (rev (global_log s))))"

definition get_event :: "int \<Rightarrow> memory_store \<Rightarrow> stored_event option" where
  "get_event seq s = map_option to_stored (find (\<lambda>e. seq_of e = seq) (global_log s))"

definition causal_tree :: "int \<Rightarrow> memory_store \<Rightarrow> stored_event list \<times> int" where
  "causal_tree seq s =
     (case find (\<lambda>e. seq_of e = seq) (global_log s) of
        None \<Rightarrow> ([], seq)
      | Some e \<Rightarrow>
          (let events = map to_stored (filter (\<lambda>x. re_workflow_id x = re_workflow_id e) (global_log s));
               root_seq = (case find (\<lambda>x. se_causation_id x = None) events of Some r \<Rightarrow> se_seq r | None \<Rightarrow> seq)
           in (events, root_seq)))"

definition causal_flow :: "inspector_env \<Rightarrow> string \<Rightarrow> memory_store \<Rightarrow> stored_event list" where
  "causal_flow env workflow_id s =
     (case iv_parse env workflow_id of
        None \<Rightarrow> []
      | Some cid \<Rightarrow> map to_stored (filter (\<lambda>e. re_workflow_id e = cid) (global_log s)))"

definition events_from_seq :: "int \<Rightarrow> nat \<Rightarrow> memory_store \<Rightarrow> stored_event list" where
  "events_from_seq start_seq limit s =
     map to_stored (take (min limit 500) (filter (\<lambda>e. start_seq \<le> seq_of e) (global_log s)))"

section \<open>Reactors\<close>

record reactor_log_row =
  rl_event_id :: uuid
  rl_reactor_id :: string
  rl_level :: string
  rl_message :: string
  rl_data :: "json option"
  rl_logged_at :: datetime

definition level_text :: "log_level \<Rightarrow> string" where
  "level_text l = (case l of LevelDebug \<Rightarrow> ''debug'' | LevelInfo \<Rightarrow> ''info'' | LevelWarn \<Rightarrow> ''warn'')"

definition log_row :: "uuid \<times> string \<times> log_entry \<Rightarrow> reactor_log_row" where
  "log_row p =
     (case p of (eid, rid, l) \<Rightarrow>
        \<lparr> rl_event_id = eid, rl_reactor_id = rid, rl_level = level_text (le_level l), rl_message = le_message l,
          rl_data = le_data l, rl_logged_at = le_timestamp l \<rparr>)"

definition reactor_logs :: "uuid \<Rightarrow> string \<Rightarrow> memory_store \<Rightarrow> reactor_log_row list" where
  "reactor_logs event_id reactor_id s =
     map log_row (filter (\<lambda>(eid, rid, _). eid = event_id \<and> rid = reactor_id) (reactor_log_entries s))"

definition reactor_logs_by_workflow :: "inspector_env \<Rightarrow> string \<Rightarrow> memory_store \<Rightarrow> reactor_log_row list" where
  "reactor_logs_by_workflow env workflow_id s =
     (case iv_parse env workflow_id of
        None \<Rightarrow> []
      | Some cid \<Rightarrow>
          (let event_ids = map re_event_id (filter (\<lambda>e. re_workflow_id e = cid) (global_log s))
           in map log_row (filter (\<lambda>(eid, _, _). eid \<in> set event_ids) (reactor_log_entries s))))"

record reactor_outcome =
  ro_reactor_id :: string
  ro_status :: string
  ro_error :: "string option"
  ro_attempts :: int
  ro_started_at :: "datetime option"
  ro_completed_at :: "datetime option"
  ro_triggering_event_ids :: "string list"
  ro_diverged :: bool

text \<open>One execution added to the row of its reactor.\<close>

definition outcome_row :: "inspector_env \<Rightarrow> uuid \<Rightarrow> execution \<Rightarrow> reactor_outcome \<Rightarrow> reactor_outcome" where
  "outcome_row env event_id x row =
     (let row1 = (if ex_status x = ''error'' then row\<lparr> ro_status := ''error'', ro_error := ex_error x \<rparr> else row);
          started = (case ro_started_at row of
                       Some t \<Rightarrow> if ex_started_at x < t then Some (ex_started_at x) else Some t
                     | None \<Rightarrow> Some (ex_started_at x));
          completed = (case ex_completed_at x of
                         None \<Rightarrow> ro_completed_at row
                       | Some ca \<Rightarrow>
                           (case ro_completed_at row of
                              Some t \<Rightarrow> if t < ca then Some ca else Some t
                            | None \<Rightarrow> Some ca))
      in row1\<lparr> ro_attempts := ro_attempts row + (sint (ex_attempts x) + 1), ro_started_at := started,
               ro_completed_at := completed,
               ro_triggering_event_ids := ro_triggering_event_ids row @ [iv_show env event_id] \<rparr>)"

definition reactor_outcomes :: "inspector_env \<Rightarrow> string \<Rightarrow> memory_store \<Rightarrow> reactor_outcome list" where
  "reactor_outcomes env workflow_id s =
     (case iv_parse env workflow_id of
        None \<Rightarrow> []
      | Some cid \<Rightarrow>
          (let by_reactor = fold (\<lambda>((event_id, rid), x) rows.
                   if ex_workflow x \<noteq> cid then rows
                   else let row = (case hget rows rid of
                                     Some r \<Rightarrow> r
                                   | None \<Rightarrow> \<lparr> ro_reactor_id = rid, ro_status = ex_status x, ro_error = ex_error x,
                                               ro_attempts = 0, ro_started_at = None, ro_completed_at = None,
                                               ro_triggering_event_ids = [], ro_diverged = False \<rparr>)
                        in hput rid (outcome_row env event_id x row) rows)
                 (reactor_executions s) [];
               diverged = map (snd \<circ> fst) (filter (\<lambda>(_, d). fst d = cid) (reactor_divergences s))
           in map (\<lambda>(rid, row). row\<lparr> ro_diverged := rid \<in> set diverged \<rparr>) by_reactor))"

definition attempt_history_of :: "inspector_env \<Rightarrow> string \<Rightarrow> memory_store \<Rightarrow> attempt_row list" where
  "attempt_history_of env workflow_id s =
     (case iv_parse env workflow_id of
        None \<Rightarrow> []
      | Some cid \<Rightarrow> sort_key ar_started_at (filter (\<lambda>a. ar_workflow a = cid) (reactor_attempt_history s)))"

definition reactor_descriptions :: "inspector_env \<Rightarrow> string \<Rightarrow> memory_store \<Rightarrow> (string, json) hmap" where
  "reactor_descriptions env workflow_id s =
     (case iv_parse env workflow_id of
        None \<Rightarrow> []
      | Some cid \<Rightarrow>
          fold (\<lambda>(corr, _, _, reactor_id, description) latest.
                  if corr = cid then hput reactor_id description latest else latest)
            (reactor_description_snapshots s) [])"

text \<open>A snapshot of a description or of a state: position, event, reactor or aggregate, value.\<close>

definition workflow_rows :: "uuid \<Rightarrow> (uuid \<times> u64 \<times> uuid \<times> string \<times> json) list \<Rightarrow> (int \<times> uuid \<times> string \<times> json) list" where
  "workflow_rows cid rows =
     sort_key fst (map (\<lambda>(_, seq, event_id, key, v). (sint seq, event_id, key, v)) (filter (\<lambda>r. fst r = cid) rows))"

definition description_snapshots_of ::
  "inspector_env \<Rightarrow> string \<Rightarrow> memory_store \<Rightarrow> (int \<times> uuid \<times> string \<times> json) list" where
  "description_snapshots_of env workflow_id s =
     (case iv_parse env workflow_id of
        None \<Rightarrow> []
      | Some cid \<Rightarrow> workflow_rows cid (reactor_description_snapshots s))"

section \<open>Aggregates\<close>

record timeline_entry =
  ste_seq :: int
  ste_event_id :: uuid
  ste_event_type :: string
  ste_aggregate_key :: string
  ste_state :: json

definition aggregate_state_timeline :: "inspector_env \<Rightarrow> string \<Rightarrow> memory_store \<Rightarrow> timeline_entry list" where
  "aggregate_state_timeline env workflow_id s =
     (case iv_parse env workflow_id of
        None \<Rightarrow> []
      | Some cid \<Rightarrow>
          (let event_types = fold (\<lambda>e m. hput (re_event_id e) (re_event_type e) m)
                               (filter (\<lambda>e. re_workflow_id e = cid) (global_log s)) []
           in map (\<lambda>(seq, event_id, key, state).
                     \<lparr> ste_seq = seq, ste_event_id = event_id,
                       ste_event_type = (case hget event_types event_id of Some t \<Rightarrow> t | None \<Rightarrow> []),
                       ste_aggregate_key = key, ste_state = state \<rparr>)
                (workflow_rows cid (aggregate_state_snapshots s))))"

record lifecycle_entry = timeline_entry +
  lc_ts :: datetime
  lc_workflow_id :: string

definition aggregate_lifecycle :: "inspector_env \<Rightarrow> string \<Rightarrow> nat \<Rightarrow> memory_store \<Rightarrow> lifecycle_entry list" where
  "aggregate_lifecycle env aggregate_key limit s =
     (let event_info = fold (\<lambda>e m. hput (re_event_id e) (re_event_type e, re_created_at e) m) (global_log s) [];
          rows = List.map_filter (\<lambda>(corr, seq, event_id, key, state).
                   if key \<noteq> aggregate_key then None
                   else map_option (\<lambda>(event_type, ts).
                          \<lparr> ste_seq = sint seq, ste_event_id = event_id, ste_event_type = event_type,
                            ste_aggregate_key = key, ste_state = state, lc_ts = ts, lc_workflow_id = iv_show env corr \<rparr>)
                        (hget event_info event_id))
                   (aggregate_state_snapshots s)
      in take limit (sort_key ste_seq rows))"

definition list_aggregate_keys :: "memory_store \<Rightarrow> string list" where
  "list_aggregate_keys s = sort (remdups (map (\<lambda>(_, _, _, key, _). key) (aggregate_state_snapshots s)))"

definition list_aggregate_types :: "inspector_env \<Rightarrow> string option \<Rightarrow> nat \<Rightarrow> memory_store \<Rightarrow> string list" where
  "list_aggregate_types env search limit s =
     (let types = remdups (map re_category (global_log s));
          kept = (case search of
                    None \<Rightarrow> types
                  | Some term \<Rightarrow> filter (contains_lower env (iv_lower env term)) types)
      in take limit (sort kept))"

text \<open>The entities of a type in the order of their ids, each with its first event; one entry more than the
  limit is taken to see whether there is a next page.\<close>

definition first_by_entity :: "string \<Rightarrow> recorded_event list \<Rightarrow> (uuid \<times> string \<times> json) list" where
  "first_by_entity aggregate_type es =
     fold (\<lambda>e m. if re_category e = aggregate_type \<and> hget m (re_subject_id e) = None
                  then bt_insert (re_subject_id e) (re_event_type e, re_payload e) m else m) es []"

definition list_aggregate_keys_by_type ::
  "inspector_env \<Rightarrow> string \<Rightarrow> string option \<Rightarrow> nat \<Rightarrow> uuid option \<Rightarrow> memory_store \<Rightarrow>
   (uuid \<times> string \<times> json) list \<times> uuid option" where
  "list_aggregate_keys_by_type env aggregate_type search limit cursor s =
     (let entries = take (limit + 1)
            (filter (\<lambda>(i, _). case search of None \<Rightarrow> True | Some t \<Rightarrow> contains_lower env (iv_lower env t) (iv_show env i))
              (filter (\<lambda>(i, _). case cursor of None \<Rightarrow> True | Some c \<Rightarrow> c < i)
                (first_by_entity aggregate_type (global_log s))))
      in if limit < length entries
         then (take limit entries,
               if take limit entries = [] then None else Some (fst (last (take limit entries))))
         else (entries, None))"

definition effects_for_event :: "effect_store option \<Rightarrow> datetime \<Rightarrow> uuid \<Rightarrow> (string \<times> string \<times> json \<times> datetime) list" where
  "effects_for_event effects now event_id =
     (case effects of
        None \<Rightarrow> []
      | Some m \<Rightarrow> map (\<lambda>(k, v). (ek_consumer k, ek_label k, v, now)) (scan_by_trigger event_id m))"

section \<open>Workflows\<close>

record workflow_summary =
  ws_workflow_id :: string
  ws_event_count :: int
  ws_first_ts :: datetime
  ws_last_ts :: datetime
  ws_root_event_type :: string
  ws_has_errors :: bool

text \<open>Count, first and last time, type of the origin.\<close>

type_synonym workflow_acc = "int \<times> datetime \<times> datetime \<times> string"

definition add_to_summary :: "recorded_event \<Rightarrow> workflow_acc \<Rightarrow> workflow_acc" where
  "add_to_summary e a =
     (case a of (n, first, final, origin) \<Rightarrow>
        (n + 1,
         if re_created_at e < first then re_created_at e else first,
         if final < re_created_at e then re_created_at e else final,
         if re_causation_id e = None \<and> origin = [] then re_event_type e else origin))"

definition by_workflow :: "recorded_event list \<Rightarrow> (uuid, workflow_acc) hmap" where
  "by_workflow es =
     fold (\<lambda>e m. if re_workflow_id e = 0 then m
                  else hput (re_workflow_id e)
                    (add_to_summary e
                      (case hget m (re_workflow_id e) of
                         Some a \<Rightarrow> a | None \<Rightarrow> (0, re_created_at e, re_created_at e, []))) m) es []"

definition list_workflows ::
  "inspector_env \<Rightarrow> string option \<Rightarrow> nat \<Rightarrow> datetime option \<Rightarrow> memory_store \<Rightarrow> workflow_summary list" where
  "list_workflows env search limit cursor s =
     (let errors = map ex_workflow (filter (\<lambda>x. ex_status x = ''error'') (map snd (reactor_executions s)));
          found = filter (\<lambda>(cid, _, _, _, origin). case search of
                     None \<Rightarrow> True
                   | Some t \<Rightarrow> contains_lower env (iv_lower env t) (iv_show env cid) \<or>
                              contains_lower env (iv_lower env t) origin)
                   (by_workflow (global_log s));
          results = sort_key (\<lambda>r. - ws_last_ts r)
                      (map (\<lambda>(cid, n, first, final, origin).
                         \<lparr> ws_workflow_id = iv_show env cid, ws_event_count = n, ws_first_ts = first, ws_last_ts = final,
                           ws_root_event_type = origin, ws_has_errors = cid \<in> set errors \<rparr>) found);
          kept = (case cursor of None \<Rightarrow> results | Some c \<Rightarrow> filter (\<lambda>r. ws_last_ts r < c) results)
      in take limit kept)"

section \<open>Dependencies\<close>

definition add_type :: "string \<Rightarrow> string \<Rightarrow> (string, string list) hmap \<Rightarrow> (string, string list) hmap" where
  "add_type reactor_id t m =
     hput reactor_id (List.insert t (case hget m reactor_id of Some ts \<Rightarrow> ts | None \<Rightarrow> [])) m"

definition reactor_dependencies :: "memory_store \<Rightarrow> (string \<times> string list \<times> string list) list" where
  "reactor_dependencies s =
     (let event_type_by_id = fold (\<lambda>e m. hput (re_event_id e) (re_event_type e) m) (global_log s) [];
          inputs = fold (\<lambda>((event_id, reactor_id), _) m.
                     case hget event_type_by_id event_id of Some t \<Rightarrow> add_type reactor_id t m | None \<Rightarrow> m)
                   (reactor_executions s) [];
          outputs = fold (\<lambda>e m. case reactor_of e of Some rid \<Rightarrow> add_type rid (re_event_type e) m | None \<Rightarrow> m)
                    (global_log s) [];
          ids = remdups (map fst inputs @ map fst outputs);
          types = (\<lambda>m rid. sort (case hget m rid of Some ts \<Rightarrow> ts | None \<Rightarrow> []))
      in map (\<lambda>rid. (rid, types inputs rid, types outputs rid)) (sort ids))"

end
