(* ===== verification/Inspector_Properties.thy ===== *)
theory Inspector_Properties
  imports Inspector_Memory Log_Properties
begin

text \<open>
  What the in-memory inspector answers: the workflow summaries are those of the log, the listings of events
  and of entities go on from page to page without gap or overlap, the listing of workflows does not.
\<close>

section \<open>Workflow summaries\<close>

definition events_of :: "uuid \<Rightarrow> recorded_event list \<Rightarrow> recorded_event list" where
  "events_of w es = filter (\<lambda>e. re_workflow_id e = w) es"

definition root_type :: "recorded_event list \<Rightarrow> string" where
  "root_type es =
     (case find (\<lambda>e. re_causation_id e = None \<and> re_event_type e \<noteq> []) es of Some e \<Rightarrow> re_event_type e | None \<Rightarrow> [])"

definition acc_of :: "recorded_event list \<Rightarrow> workflow_acc" where
  "acc_of es =
     (int (length es), Min (re_created_at ` set es), Max (re_created_at ` set es), root_type es)"

lemma root_type_snoc:
  "root_type (es @ [e]) =
     (if re_causation_id e = None \<and> root_type es = [] then re_event_type e else root_type es)"
proof -
  have find_append: "find P (xs @ [e]) = (case find P xs of Some y \<Rightarrow> Some y | None \<Rightarrow> if P e then Some e else None)"
    for P and xs :: "recorded_event list"
    by (induction xs) auto
  have "re_event_type y \<noteq> []" if "find (\<lambda>e. re_causation_id e = None \<and> re_event_type e \<noteq> []) es = Some y" for y
    using that by (auto simp: find_Some_iff)
  then show ?thesis by (auto simp: root_type_def find_append split: option.split)
qed

lemma add_to_summary_snoc:
  assumes "es \<noteq> []"
  shows "add_to_summary e (acc_of es) = acc_of (es @ [e])"
proof -
  let ?t = "re_created_at e" and ?T = "re_created_at ` set es"
  have T: "re_created_at ` set (es @ [e]) = insert ?t ?T" by auto
  have "Min (insert ?t ?T) = min ?t (Min ?T)" "Max (insert ?t ?T) = max ?t (Max ?T)"
    using assms by (auto intro!: Min_insert Max_insert)
  then have "Min (insert ?t ?T) = (if ?t < Min ?T then ?t else Min ?T)"
    "Max (insert ?t ?T) = (if Max ?T < ?t then ?t else Max ?T)"
    by (simp_all add: min_def max_def)
  then show ?thesis unfolding add_to_summary_def acc_of_def T by (simp add: root_type_snoc)
qed

lemma add_to_summary_first: "add_to_summary e (0, re_created_at e, re_created_at e, []) = acc_of [e]"
  by (simp add: add_to_summary_def acc_of_def root_type_def)

lemma by_workflow_get:
  "distinct (map fst (by_workflow es)) \<and>
   (\<forall>w. hget (by_workflow es) w = (if w = 0 \<or> events_of w es = [] then None else Some (acc_of (events_of w es))))"
proof (induction es rule: rev_induct)
  case Nil
  then show ?case by (simp add: by_workflow_def events_of_def)
next
  case (snoc e es)
  let ?w = "re_workflow_id e" and ?m = "by_workflow es"
  have step: "by_workflow (es @ [e]) =
      (if ?w = 0 then ?m
       else hput ?w (add_to_summary e (case hget ?m ?w of Some a \<Rightarrow> a | None \<Rightarrow> (0, re_created_at e, re_created_at e, []))) ?m)"
    by (simp add: by_workflow_def)
  have own: "events_of ?w (es @ [e]) = events_of ?w es @ [e]"
    and other: "w \<noteq> ?w \<Longrightarrow> events_of w (es @ [e]) = events_of w es" for w
    by (auto simp: events_of_def)
  have "add_to_summary e (case hget ?m ?w of Some a \<Rightarrow> a | None \<Rightarrow> (0, re_created_at e, re_created_at e, [])) =
      acc_of (events_of ?w es @ [e])" if "?w \<noteq> 0"
    using snoc that by (auto simp: add_to_summary_first add_to_summary_snoc split: if_splits)
  then show ?case using snoc own other by (auto simp: step)
qed

definition summary_of :: "inspector_env \<Rightarrow> memory_store \<Rightarrow> uuid \<Rightarrow> workflow_summary" where
  "summary_of env s w =
     (let es = events_of w (global_log s) in
      \<lparr> ws_workflow_id = iv_show env w, ws_event_count = int (length es),
        ws_first_ts = Min (re_created_at ` set es), ws_last_ts = Max (re_created_at ` set es),
        ws_root_event_type = root_type es,
        ws_has_errors = (\<exists>p \<in> set (reactor_executions s). ex_workflow (snd p) = w \<and> ex_status (snd p) = ''error'') \<rparr>)"

text \<open>C39: without a search term and with room for all, the listing of the workflows has exactly one entry
  for each workflow of the log (the nil one apart), with the number of its events, the times of its first
  and last, the type of its root and whether a reaction in it failed; the latest workflow comes first.\<close>

theorem workflow_summaries_exact:
  assumes "inj (iv_show env)" "length (by_workflow (global_log s)) \<le> limit"
    and "res = list_workflows env None limit None s"
  shows "set res = summary_of env s ` {w. w \<noteq> 0 \<and> events_of w (global_log s) \<noteq> []} \<and>
         distinct (map ws_workflow_id res) \<and> sorted_wrt (\<lambda>a b. ws_last_ts b \<le> ws_last_ts a) res"
proof -
  let ?m = "by_workflow (global_log s)"
  note m = by_workflow_get [of "global_log s"]
  define row where "row = (\<lambda>(cid, n, first, final, origin).
     \<lparr> ws_workflow_id = iv_show env cid, ws_event_count = n, ws_first_ts = first, ws_last_ts = final,
       ws_root_event_type = origin,
       ws_has_errors = cid \<in> set (map ex_workflow (filter (\<lambda>x. ex_status x = ''error'') (map snd (reactor_executions s)))) \<rparr>)"
  have res: "res = sort_key (\<lambda>r. - ws_last_ts r) (map row ?m)"
    using assms(2,3) by (simp add: list_workflows_def Let_def row_def)
  have row: "row (w, acc_of (events_of w (global_log s))) = summary_of env s w" for w
    by (auto simp: row_def acc_of_def summary_of_def Let_def image_iff)
  have mem: "(w, a) \<in> set ?m \<longleftrightarrow> w \<noteq> 0 \<and> events_of w (global_log s) \<noteq> [] \<and> a = acc_of (events_of w (global_log s))" for w a
    using m by (simp flip: map_of_eq_Some_iff) auto
  have "set res = row ` set ?m" by (simp add: res)
  also have "\<dots> = summary_of env s ` {w. w \<noteq> 0 \<and> events_of w (global_log s) \<noteq> []}"
  proof -
    have "set ?m = (\<lambda>w. (w, acc_of (events_of w (global_log s)))) ` {w. w \<noteq> 0 \<and> events_of w (global_log s) \<noteq> []}"
    proof (rule set_eqI)
      fix p :: "uuid \<times> workflow_acc"
      obtain w a where "p = (w, a)" by (metis surj_pair)
      then show "p \<in> set ?m \<longleftrightarrow>
          p \<in> (\<lambda>w. (w, acc_of (events_of w (global_log s)))) ` {w. w \<noteq> 0 \<and> events_of w (global_log s) \<noteq> []}"
        using mem [of w a] by auto
    qed
    then show ?thesis by (simp only: image_image row)
  qed
  finally have set: "set res = summary_of env s ` {w. w \<noteq> 0 \<and> events_of w (global_log s) \<noteq> []}" .
  have "map ws_workflow_id (map row ?m) = map (iv_show env) (map fst ?m)" by (auto simp: row_def)
  moreover have "distinct (map (iv_show env) (map fst ?m))" using m assms(1) by (simp add: distinct_map inj_on_def inj_def)
  ultimately have "distinct (map ws_workflow_id (map row ?m))" by (simp only:)
  then have "distinct (map ws_workflow_id res)"
    unfolding distinct_map [of ws_workflow_id] by (simp add: res)
  moreover have "sorted_wrt (\<lambda>a b. ws_last_ts b \<le> ws_last_ts a) res"
    using sorted_sort_key [of "\<lambda>r. - ws_last_ts r" "map row ?m"] by (simp add: res sorted_wrt_map)
  ultimately show ?thesis using set by blast
qed

section \<open>Pages\<close>

lemma seqs_ascend_log:
  assumes "log_inv s" "\<forall>e \<in> set (global_log s). sint (re_position e) = uint (re_position e)"
  shows "sorted_wrt (\<lambda>x y. seq_of x < seq_of y) (global_log s)"
  using log_inv_positions_sorted [OF assms(1)]
  by (rule sorted_wrt_mono_rel [rotated]) (use assms(2) in \<open>simp add: seq_of_def word_less_def\<close>)

text \<open>The page that starts at the cursor of another goes on where it ended: listing in pages, of sizes
  that add up to at most 200, gives the one list.\<close>

lemma list_events_pages_compose:
  assumes "sorted_wrt (\<lambda>x y. seq_of x < seq_of y) (global_log s)" "n + m \<le> 200"
    and "list_events env (q\<lparr> qr_limit := n \<rparr>) s = page" "page \<noteq> []"
  shows "list_events env (q\<lparr> qr_limit := n + m \<rparr>) s =
         page @ list_events env (q\<lparr> qr_limit := m, qr_cursor := Some (se_seq (last page)) \<rparr>) s"
proof -
  let ?hits = "filter (event_wanted env q) (rev (global_log s))"
  have wanted: "event_wanted env (q\<lparr> qr_limit := k \<rparr>) = event_wanted env q" for k
    by (simp add: event_wanted_def fun_eq_iff)
  have page: "page = map to_stored (take n ?hits)"
    using assms(2,3) by (simp add: list_events_def wanted min_absorb1)
  then obtain xs e where xs: "take n ?hits = xs @ [e]" using assms(4) by (cases "take n ?hits" rule: rev_cases) auto
  then have hits: "?hits = xs @ [e] @ drop n ?hits" by (metis append.assoc append_take_drop_id)
  have last: "se_seq (last page) = seq_of e" by (simp add: page xs to_stored_def)
  have "sorted_wrt (\<lambda>x y. seq_of y < seq_of x) (rev (global_log s))" using assms(1) by (simp add: sorted_wrt_rev)
  then have sorted: "sorted_wrt (\<lambda>x y. seq_of y < seq_of x) (xs @ [e] @ drop n ?hits)"
    unfolding hits [symmetric] by (rule sorted_wrt_filter)
  have "e \<in> set ?hits" using hits by (metis in_set_conv_decomp append_Cons append_Nil)
  then have "event_wanted env q e" by simp
  then have "event_wanted env (q\<lparr> qr_limit := m, qr_cursor := Some (seq_of e) \<rparr>) x \<longleftrightarrow>
      event_wanted env q x \<and> seq_of x < seq_of e" for x
    by (auto simp: event_wanted_def split: option.splits)
  then have "filter (event_wanted env (q\<lparr> qr_limit := m, qr_cursor := Some (seq_of e) \<rparr>)) (rev (global_log s)) =
      filter (\<lambda>x. seq_of x < seq_of e) ?hits"
    unfolding filter_filter by (intro filter_cong refl) blast
  also have "\<dots> = drop n ?hits"
    using sorted by (subst hits) (auto simp: sorted_wrt_append filter_empty_conv filter_id_conv)
  finally have rest: "filter (event_wanted env (q\<lparr> qr_limit := m, qr_cursor := Some (seq_of e) \<rparr>)) (rev (global_log s)) = drop n ?hits" .
  show ?thesis
    unfolding last using assms(2) rest by (simp add: list_events_def wanted page take_add min_absorb1)
qed

text \<open>But workflows that ended at the same time may be on no page: the cursor is the time of the last one
  shown, and the next page starts strictly before it.\<close>

definition plain_env :: inspector_env where
  "plain_env = \<lparr> iv_show = (\<lambda>w. replicate (unat w) CHR ''x''), iv_parse = (\<lambda>_. None), iv_lower = id, iv_json = (\<lambda>_. []) \<rparr>"

definition twin_store :: memory_store where
  "twin_store =
     snd (append_to_stream ''order'' 9 NoStream
            [(sample_event 1 JNull)\<lparr> ed_workflow_id := 1 \<rparr>, (sample_event 2 JNull)\<lparr> ed_workflow_id := 2 \<rparr>]
            memory_store_new)"

lemma workflow_on_no_page:
  "map ws_workflow_id (list_workflows plain_env None 1 None twin_store) = [''x''] \<and>
   map ws_last_ts (list_workflows plain_env None 1 None twin_store) = [0] \<and>
   list_workflows plain_env None 1 (Some 0) twin_store = [] \<and>
   map ws_workflow_id (list_workflows plain_env None 2 None twin_store) = [''x'', ''xx'']"
  by code_simp

theorem workflow_summaries_exact_witness:
  "set (list_workflows plain_env None 2 None twin_store) =
     summary_of plain_env twin_store ` {w. w \<noteq> 0 \<and> events_of w (global_log twin_store) \<noteq> []}"
proof -
  have inj: "inj (iv_show plain_env)" by (auto simp: plain_env_def inj_def word_unat_eq_iff dest: arg_cong [where f = length])
  have "length (by_workflow (global_log twin_store)) \<le> 2" by code_simp
  from workflow_summaries_exact [OF inj this refl] show ?thesis by blast
qed

section \<open>Entities\<close>

lemma first_by_entity_get:
  "bt_wf (first_by_entity t es) \<and>
   (\<forall>i. hget (first_by_entity t es) i =
        map_option (\<lambda>e. (re_event_type e, re_payload e)) (find (\<lambda>e. re_category e = t \<and> re_subject_id e = i) es))"
proof (induction es rule: rev_induct)
  case Nil
  then show ?case by (simp add: first_by_entity_def)
next
  case (snoc e es)
  have find_append: "find P (xs @ [e]) = (case find P xs of Some y \<Rightarrow> Some y | None \<Rightarrow> if P e then Some e else None)"
    for P and xs :: "recorded_event list"
    by (induction xs) auto
  have "first_by_entity t (es @ [e]) =
      (if re_category e = t \<and> hget (first_by_entity t es) (re_subject_id e) = None
       then bt_insert (re_subject_id e) (re_event_type e, re_payload e) (first_by_entity t es) else first_by_entity t es)"
    by (simp add: first_by_entity_def)
  then show ?case using snoc by (auto simp: find_append split: option.splits)
qed

text \<open>The entities of a type are listed in the order of their ids, each with its first event, and the
  cursor of a page leads on to exactly those that follow: a page and the next one are the page of both
  sizes.\<close>

lemma entity_pages_compose:
  assumes "list_aggregate_keys_by_type env t search n cursor s = (page, Some c)"
  shows "fst (list_aggregate_keys_by_type env t search (n + m) cursor s) =
           page @ fst (list_aggregate_keys_by_type env t search m (Some c) s) \<and>
         sorted_wrt (<) (map fst page) \<and>
         (\<forall>(i, x) \<in> set page. \<exists>e. find (\<lambda>e. re_category e = t \<and> re_subject_id e = i) (global_log s) = Some e \<and>
                                x = (re_event_type e, re_payload e))"
proof -
  let ?wanted = "\<lambda>p. (case search of None \<Rightarrow> True | Some t \<Rightarrow> contains_lower env (iv_lower env t) (iv_show env (fst p)))"
  let ?all = "first_by_entity t (global_log s)"
  define rows where "rows = filter (\<lambda>p. ?wanted p \<and> (case cursor of None \<Rightarrow> True | Some c \<Rightarrow> c < fst p)) ?all"
  have general: "fst (list_aggregate_keys_by_type env t search k cur s) =
      take k (filter (\<lambda>p. ?wanted p \<and> (case cur of None \<Rightarrow> True | Some c \<Rightarrow> c < fst p)) ?all)" for k cur
    by (auto simp: list_aggregate_keys_by_type_def Let_def case_prod_beta conj_commute min_def)
  have page: "page = take n rows" using general [of n cursor] assms by (simp add: rows_def)
  have c: "page \<noteq> [] \<and> c = fst (last page)"
    using assms by (auto simp: list_aggregate_keys_by_type_def Let_def split: if_splits)
  have sorted: "sorted_wrt (\<lambda>x y. fst x < fst y) rows"
    using first_by_entity_get [of t "global_log s"]
    unfolding rows_def by (intro sorted_wrt_filter) (simp add: bt_wf_def sorted_wrt_map)
  obtain xs e where xs: "take n rows = xs @ [e]" using c page by (cases "take n rows" rule: rev_cases) auto
  then have split: "rows = xs @ [e] @ drop n rows" by (metis append.assoc append_take_drop_id)
  have at: "c = fst e" using c page xs by simp
  have "e \<in> set rows" using split by (metis in_set_conv_decomp append_Cons append_Nil)
  then have "case cursor of None \<Rightarrow> True | Some c \<Rightarrow> c < fst e" by (simp add: rows_def)
  then have "filter (\<lambda>p. ?wanted p \<and> c < fst p) ?all = filter (\<lambda>p. fst e < fst p) rows"
    unfolding rows_def at filter_filter by (intro filter_cong refl) (cases cursor; auto)
  also have "\<dots> = drop n rows"
    using sorted by (subst split, subst (asm) split) (auto simp: sorted_wrt_append filter_empty_conv filter_id_conv)
  finally have next_page: "fst (list_aggregate_keys_by_type env t search m (Some c) s) = take m (drop n rows)"
    unfolding general by simp
  have "sorted_wrt (<) (map fst page)" using sorted_wrt_take [OF sorted, of n] by (simp add: page sorted_wrt_map)
  moreover have "\<exists>e. find (\<lambda>e. re_category e = t \<and> re_subject_id e = i) (global_log s) = Some e \<and>
      x = (re_event_type e, re_payload e)" if "(i, x) \<in> set page" for i x
  proof -
    have "(i, x) \<in> set ?all" using that by (auto simp: page rows_def dest: in_set_takeD)
    then have "hget ?all i = Some x" by (rule bt_wf_hget_iff [OF conjunct1 [OF first_by_entity_get], THEN iffD2])
    moreover have "hget ?all i = map_option (\<lambda>e. (re_event_type e, re_payload e))
        (find (\<lambda>e. re_category e = t \<and> re_subject_id e = i) (global_log s))"
      using first_by_entity_get [of t "global_log s"] by blast
    ultimately show ?thesis by auto
  qed
  moreover have "fst (list_aggregate_keys_by_type env t search (n + m) cursor s) = page @ take m (drop n rows)"
    unfolding general rows_def [symmetric] page by (rule take_add)
  ultimately show ?thesis using next_page by auto
qed

definition two_subjects :: memory_store where
  "two_subjects =
     snd (append_to_stream ''order'' 3 NoStream [sample_event 1 JNull]
       (snd (append_to_stream ''order'' 9 NoStream [sample_event 2 JNull] memory_store_new)))"

lemma entity_pages_compose_witness:
  "fst (list_aggregate_keys_by_type plain_env ''order'' None (1 + 1) None two_subjects) =
     fst (list_aggregate_keys_by_type plain_env ''order'' None 1 None two_subjects) @
     fst (list_aggregate_keys_by_type plain_env ''order'' None 1 (Some 3) two_subjects)"
proof -
  have page: "list_aggregate_keys_by_type plain_env ''order'' None 1 None two_subjects =
      ([(3, ''order_placed'', JNull)], Some 3)"
    by code_simp
  from entity_pages_compose [OF page, of 1] show ?thesis unfolding page by simp
qed

end
