(* ===== verification/Subject_Chain.thy ===== *)
theory Subject_Chain
  imports Inspector_Memory Log_Properties
begin

text \<open>
  \<open>subject_chain\<close> of the in-memory inspector (\<open>modules/causal_inspector/src/memory.rs\<close>): the events of an
  entity's stream, the events they caused, directly or through others, or both, in pages. The search for
  the descendants keeps a stack, marks what it has visited and does not go on from an event at depth ten.

  The theorems: what the walk visits, and that every page is a filter of the log, whichever the mode.
\<close>

datatype chain_mode = ChainStream | ChainDescendants | ChainBoth
datatype chain_source = FromStream | FromDescendant

record chain_page =
  cp_events :: "(stored_event \<times> chain_source) list"
  cp_next_cursor :: "int option"
  cp_depth_cap_reached :: bool

section \<open>The walk\<close>

definition children_of :: "recorded_event list \<Rightarrow> (uuid, uuid list) hmap" where
  "children_of es =
     fold (\<lambda>e m. case re_causation_id e of
                    None \<Rightarrow> m
                  | Some c \<Rightarrow> hput c ((case hget m c of Some b \<Rightarrow> b | None \<Rightarrow> []) @ [re_event_id e]) m) es []"

definition kids :: "(uuid, uuid list) hmap \<Rightarrow> uuid \<Rightarrow> uuid list" where
  "kids children i = (case hget children i of Some cs \<Rightarrow> cs | None \<Rightarrow> [])"

text \<open>The children of an id are pushed once: what is left to push shrinks with every visit.\<close>

definition left_to_push :: "(uuid, uuid list) hmap \<Rightarrow> uuid list \<Rightarrow> nat" where
  "left_to_push children visited =
     sum_list (map (length \<circ> snd) (filter (\<lambda>p. fst p \<notin> set visited) children))"

lemma left_to_push_visit:
  "eid \<notin> set visited \<Longrightarrow> length (kids children eid) + left_to_push children (eid # visited) \<le> left_to_push children visited"
  unfolding left_to_push_def kids_def by (induction children) (auto split: option.splits)

text \<open>The frontier's head is the end of the code's \<open>Vec\<close>, where it pops and where \<open>extend\<close> appends.\<close>

function chain_walk ::
  "(uuid, uuid list) hmap \<Rightarrow> (uuid \<times> nat) list \<Rightarrow> uuid list \<Rightarrow> bool \<Rightarrow> uuid list \<times> bool" where
  "chain_walk children [] visited capped = (visited, capped)"
| "chain_walk children ((eid, depth) # frontier) visited capped =
     (if eid \<in> set visited then chain_walk children frontier visited capped
      else if depth < 10
      then chain_walk children (rev (map (\<lambda>c. (c, depth + 1)) (kids children eid)) @ frontier) (eid # visited) capped
      else chain_walk children frontier (eid # visited) True)"
  by pat_completeness auto

termination
proof (relation "measure (\<lambda>(children, frontier, visited, _). length frontier + left_to_push children visited)")
  fix children :: "(uuid, uuid list) hmap" and eid :: uuid and visited :: "uuid list" and capped :: bool
    and frontier :: "(uuid \<times> nat) list" and depth :: nat
  assume "eid \<notin> set visited"
  from left_to_push_visit [OF this, of children]
  show "((children, rev (map (\<lambda>c. (c, depth + 1)) (kids children eid)) @ frontier, eid # visited, capped),
         children, (eid, depth) # frontier, visited, capped)
        \<in> measure (\<lambda>(children, frontier, visited, _). length frontier + left_to_push children visited)"
    and "((children, frontier, eid # visited, True), children, (eid, depth) # frontier, visited, capped)
        \<in> measure (\<lambda>(children, frontier, visited, _). length frontier + left_to_push children visited)"
    by simp_all
qed simp_all

definition in_stream :: "string \<Rightarrow> uuid \<Rightarrow> recorded_event \<Rightarrow> bool" where
  "in_stream aggregate_type aggregate_id e = (re_category e = aggregate_type \<and> re_subject_id e = aggregate_id)"

text \<open>The visited ids and whether the depth cap was reached.\<close>

definition descendants :: "string \<Rightarrow> uuid \<Rightarrow> recorded_event list \<Rightarrow> uuid list \<times> bool" where
  "descendants aggregate_type aggregate_id es =
     (let children = children_of es;
          origins = map re_event_id (filter (in_stream aggregate_type aggregate_id) es);
          frontier = concat (map (\<lambda>o'. map (\<lambda>c. (c, 1)) (kids children o')) origins)
      in chain_walk children (rev frontier) [] False)"

section \<open>Pages\<close>

definition after_cursor :: "int option \<Rightarrow> recorded_event \<Rightarrow> bool" where
  "after_cursor cursor e = (case cursor of None \<Rightarrow> True | Some c \<Rightarrow> c < seq_of e)"

definition page_of :: "nat \<Rightarrow> bool \<Rightarrow> (stored_event \<times> chain_source) list \<Rightarrow> chain_page" where
  "page_of limit capped rows =
     (let events = take limit rows
      in \<lparr> cp_events = events, cp_next_cursor = (if events = [] then None else Some (se_seq (fst (last events)))),
           cp_depth_cap_reached = capped \<rparr>)"

definition subject_chain ::
  "string \<Rightarrow> uuid \<Rightarrow> chain_mode \<Rightarrow> nat \<Rightarrow> int option \<Rightarrow> memory_store \<Rightarrow> chain_page" where
  "subject_chain aggregate_type aggregate_id mode limit cursor s =
     (let log = global_log s;
          stream_events = map (\<lambda>e. (to_stored e, FromStream))
            (filter (after_cursor cursor) (filter (in_stream aggregate_type aggregate_id) log))
      in if mode = ChainStream then page_of limit False stream_events
         else
           (case descendants aggregate_type aggregate_id log of (visited, capped) \<Rightarrow>
              let desc_events = map (\<lambda>e. (to_stored e, FromDescendant))
                    (filter (after_cursor cursor) (filter (\<lambda>e. re_event_id e \<in> set visited) log))
              in if mode = ChainDescendants
                 then page_of limit capped (sort_key (se_seq \<circ> fst) desc_events)
                 else
                   let insert = fold (\<lambda>p m. bt_insert (se_seq (fst p)) p m)
                   in page_of limit capped (map snd (insert stream_events (insert desc_events [])))))"

section \<open>What the walk visits\<close>

definition caused :: "recorded_event list \<Rightarrow> uuid \<Rightarrow> uuid \<Rightarrow> bool" where
  "caused es p i \<longleftrightarrow> (\<exists>e \<in> set es. re_event_id e = i \<and> re_causation_id e = Some p)"

lemma children_of_kids: "kids (children_of es) p = map re_event_id (filter (\<lambda>e. re_causation_id e = Some p) es)"
proof -
  have "kids (fold (\<lambda>e m. case re_causation_id e of
                    None \<Rightarrow> m
                  | Some c \<Rightarrow> hput c ((case hget m c of Some b \<Rightarrow> b | None \<Rightarrow> []) @ [re_event_id e]) m) es m) p =
      kids m p @ map re_event_id (filter (\<lambda>e. re_causation_id e = Some p) es)" for m
    by (induction es arbitrary: m) (auto simp: kids_def split: option.split)
  from this [of "[]"] show ?thesis by (simp add: children_of_def kids_def)
qed

lemma set_kids: "set (kids (children_of es) p) = {i. caused es p i}"
  by (auto simp: children_of_kids caused_def)

text \<open>The frontier and the visited are at the depth said, below an origin; what was visited and may not be
  expanded yet has its children in the frontier, unless the cap was reached.\<close>

definition walk_inv ::
  "recorded_event list \<Rightarrow> uuid set \<Rightarrow> (uuid \<times> nat) list \<Rightarrow> uuid list \<Rightarrow> bool \<Rightarrow> bool" where
  "walk_inv es origins frontier visited capped \<longleftrightarrow>
     (\<forall>x \<in> set frontier. 1 \<le> snd x \<and> snd x \<le> 10 \<and> (\<exists>p \<in> origins. (caused es ^^ snd x) p (fst x))) \<and>
     (\<forall>i \<in> set visited. \<exists>d p. 1 \<le> d \<and> d \<le> 10 \<and> p \<in> origins \<and> (caused es ^^ d) p i) \<and>
     (\<not> capped \<longrightarrow> (\<forall>p \<in> origins \<union> set visited. \<forall>i. caused es p i \<longrightarrow> i \<in> set visited \<or> i \<in> fst ` set frontier)) \<and>
     (capped \<longrightarrow> (\<exists>i \<in> set visited. \<exists>p \<in> origins. (caused es ^^ 10) p i))"

lemma walk_invD:
  assumes "walk_inv es origins frontier visited capped"
  shows "x \<in> set frontier \<Longrightarrow> 1 \<le> snd x \<and> snd x \<le> 10 \<and> (\<exists>p \<in> origins. (caused es ^^ snd x) p (fst x))"
    and "i \<in> set visited \<Longrightarrow> \<exists>d p. 1 \<le> d \<and> d \<le> 10 \<and> p \<in> origins \<and> (caused es ^^ d) p i"
    and "\<not> capped \<Longrightarrow> p \<in> origins \<union> set visited \<Longrightarrow> caused es p i \<Longrightarrow> i \<in> set visited \<or> i \<in> fst ` set frontier"
    and "capped \<Longrightarrow> \<exists>i \<in> set visited. \<exists>p \<in> origins. (caused es ^^ 10) p i"
  using assms unfolding walk_inv_def by blast+

lemma chain_walk_inv:
  "walk_inv es origins frontier visited capped \<Longrightarrow>
   (visited', capped') = chain_walk (children_of es) frontier visited capped \<Longrightarrow>
   walk_inv es origins [] visited' capped'"
proof (induction "children_of es" frontier visited capped rule: chain_walk.induct)
  case (1 visited capped)
  then show ?case by simp
next
  case (2 eid depth frontier visited capped)
  obtain p where depth: "1 \<le> depth" "depth \<le> 10" "p \<in> origins" "(caused es ^^ depth) p eid"
    using "2.prems"(1) by (auto simp: walk_inv_def)
  have visited_ok: "\<forall>i \<in> set (eid # visited). \<exists>d p. 1 \<le> d \<and> d \<le> 10 \<and> p \<in> origins \<and> (caused es ^^ d) p i"
  proof
    fix i assume "i \<in> set (eid # visited)"
    then consider "i = eid" | "i \<in> set visited" by auto
    then show "\<exists>d p. 1 \<le> d \<and> d \<le> 10 \<and> p \<in> origins \<and> (caused es ^^ d) p i"
      using depth walk_invD(2) [OF "2.prems"(1), of i] by cases blast+
  qed
  consider (seen) "eid \<in> set visited" | (expand) "eid \<notin> set visited" "depth < 10"
    | (cap) "eid \<notin> set visited" "depth = 10" using depth(2) by linarith
  then show ?case
  proof cases
    case seen
    have "walk_inv es origins frontier visited capped"
      using "2.prems"(1) seen unfolding walk_inv_def by fastforce
    then show ?thesis using "2.hyps"(1) [OF seen] "2.prems"(2) seen by simp
  next
    case expand
    let ?frontier = "rev (map (\<lambda>c. (c, depth + 1)) (kids (children_of es) eid)) @ frontier"
    have below: "(caused es ^^ Suc depth) p i" if "caused es eid i" for i using depth(4) that by auto
    have ids: "fst ` set ?frontier = {i. caused es eid i} \<union> fst ` set frontier"
      and pairs: "x \<in> set ?frontier \<Longrightarrow> x \<in> set frontier \<or> caused es eid (fst x) \<and> snd x = Suc depth" for x
      by (auto simp: set_kids image_Un image_image)
    have "1 \<le> snd x \<and> snd x \<le> 10 \<and> (\<exists>p \<in> origins. (caused es ^^ snd x) p (fst x))" if "x \<in> set ?frontier" for x
      using pairs [OF that]
    proof
      assume "x \<in> set frontier"
      then show ?thesis using walk_invD(1) [OF "2.prems"(1), of x] by simp
    next
      assume "caused es eid (fst x) \<and> snd x = Suc depth"
      then show ?thesis using below depth(3) expand(2) by (intro conjI bexI [of _ p]) (simp_all del: relpowp.simps)
    qed
    then have "\<forall>x \<in> set ?frontier. 1 \<le> snd x \<and> snd x \<le> 10 \<and> (\<exists>p \<in> origins. (caused es ^^ snd x) p (fst x))"
      by blast
    moreover note visited_ok
    moreover have "\<forall>p \<in> origins \<union> set (eid # visited). \<forall>i. caused es p i \<longrightarrow> i \<in> set (eid # visited) \<or> i \<in> fst ` set ?frontier"
      if "\<not> capped"
      unfolding ids using "2.prems"(1) that unfolding walk_inv_def by auto
    moreover have "\<exists>i \<in> set (eid # visited). \<exists>p \<in> origins. (caused es ^^ 10) p i" if "capped"
      using "2.prems"(1) that unfolding walk_inv_def by auto
    ultimately have "walk_inv es origins ?frontier (eid # visited) capped" unfolding walk_inv_def by blast
    then show ?thesis using "2.hyps"(2) [OF expand] "2.prems"(2) expand by simp
  next
    case cap
    have "walk_inv es origins frontier (eid # visited) True"
      unfolding walk_inv_def using visited_ok walk_invD(1) [OF "2.prems"(1)] depth cap(2) by auto
    then show ?thesis using "2.hyps"(3) cap "2.prems"(2) by simp
  qed
qed

definition stream_ids :: "string \<Rightarrow> uuid \<Rightarrow> recorded_event list \<Rightarrow> uuid set" where
  "stream_ids t a es = re_event_id ` {e \<in> set es. in_stream t a e}"

lemma descendants_inv:
  assumes "(visited, capped) = descendants t a es"
  shows "walk_inv es (stream_ids t a es) [] visited capped"
proof (rule chain_walk_inv)
  let ?frontier = "rev (concat (map (\<lambda>o'. map (\<lambda>c. (c, 1 :: nat)) (kids (children_of es) o'))
    (map re_event_id (filter (in_stream t a) es))))"
  show "(visited, capped) = chain_walk (children_of es) ?frontier [] False"
    using assms unfolding descendants_def Let_def by simp
  have mem: "x \<in> set ?frontier \<longleftrightarrow> (\<exists>p \<in> stream_ids t a es. caused es p (fst x)) \<and> snd x = 1" for x
    by (cases x) (auto simp: set_kids stream_ids_def)
  show "walk_inv es (stream_ids t a es) ?frontier [] False"
    unfolding walk_inv_def
  proof (intro conjI ballI)
    fix x assume "x \<in> set ?frontier"
    then obtain p where "p \<in> stream_ids t a es" "caused es p (fst x)" "snd x = 1" unfolding mem by blast
    then show "1 \<le> snd x" "snd x \<le> 10" "\<exists>p \<in> stream_ids t a es. (caused es ^^ snd x) p (fst x)"
      by auto
  next
    show "\<not> False \<longrightarrow> (\<forall>p \<in> stream_ids t a es \<union> set []. \<forall>i. caused es p i \<longrightarrow> i \<in> set [] \<or> i \<in> fst ` set ?frontier)"
    proof (intro impI ballI allI)
      fix p i assume "p \<in> stream_ids t a es \<union> set []" "caused es p i"
      then have "(i, 1) \<in> set ?frontier" unfolding mem by auto
      then show "i \<in> set [] \<or> i \<in> fst ` set ?frontier" by force
    qed
  qed simp_all
qed

text \<open>C38: the walk that looks for an entity's descendants visits only events that one of the entity's
  events caused in at most ten steps, and when it does not report the depth cap it visits all that they
  caused, however far; when it does report it, there is an event ten steps down.\<close>

theorem descendants_sound_and_complete:
  assumes "(visited, capped) = descendants t a es"
  shows "(\<forall>i \<in> set visited. \<exists>d p. 1 \<le> d \<and> d \<le> 10 \<and> p \<in> stream_ids t a es \<and> (caused es ^^ d) p i) \<and>
         (\<not> capped \<longrightarrow> (\<forall>p \<in> stream_ids t a es. \<forall>i. (caused es)\<^sup>+\<^sup>+ p i \<longrightarrow> i \<in> set visited)) \<and>
         (capped \<longrightarrow> (\<exists>i \<in> set visited. \<exists>p \<in> stream_ids t a es. (caused es ^^ 10) p i))"
proof -
  note inv = walk_invD [OF descendants_inv [OF assms]]
  have "i \<in> set visited" if "\<not> capped" "p \<in> stream_ids t a es" "(caused es)\<^sup>+\<^sup>+ p i" for p i
    using that(3)
  proof induction
    case (base i)
    then show ?case using inv(3) [OF that(1), of p i] that(2) by simp
  next
    case (step i j)
    then show ?case using inv(3) [OF that(1), of i j] by simp
  qed
  then show ?thesis using inv(2,4) by blast
qed

section \<open>Pages of the log\<close>

text \<open>The rows of a mode: events of the log, in its order, each with its source.\<close>

definition chain_rows ::
  "string \<Rightarrow> uuid \<Rightarrow> chain_mode \<Rightarrow> uuid list \<Rightarrow> recorded_event list \<Rightarrow> (stored_event \<times> chain_source) list" where
  "chain_rows t a mode visited es =
     (case mode of
        ChainStream \<Rightarrow> map (\<lambda>e. (to_stored e, FromStream)) (filter (in_stream t a) es)
      | ChainDescendants \<Rightarrow> map (\<lambda>e. (to_stored e, FromDescendant)) (filter (\<lambda>e. re_event_id e \<in> set visited) es)
      | ChainBoth \<Rightarrow>
          map (\<lambda>e. (to_stored e, if in_stream t a e then FromStream else FromDescendant))
            (filter (\<lambda>e. in_stream t a e \<or> re_event_id e \<in> set visited) es))"

definition row_after :: "int option \<Rightarrow> stored_event \<times> chain_source \<Rightarrow> bool" where
  "row_after cursor p = (case cursor of None \<Rightarrow> True | Some c \<Rightarrow> c < se_seq (fst p))"

text \<open>Positions that an \<open>i64\<close> can hold.\<close>

definition i64_positions :: "memory_store \<Rightarrow> bool" where
  "i64_positions s \<longleftrightarrow> (\<forall>e \<in> set (global_log s). unat (re_position e) < 2 ^ 63)"

lemma sint_of_small:
  assumes "unat (p :: u64) < 2 ^ 63"
  shows "sint p = uint p"
proof -
  have "int (unat p) < int (2 ^ 63)" using assms by (simp only: of_nat_less_iff)
  then have "uint p < 2 ^ 63" unfolding uint_nat by (simp only: of_nat_power of_nat_numeral)
  moreover have "- (2 ^ 63) \<le> uint p" by (rule order_trans [OF _ uint_ge_0]) simp
  ultimately show ?thesis using signed_take_bit_int_eq_self [of 63 "uint p"] by (simp add: sint_uint)
qed

lemma seqs_ascend:
  assumes "log_inv s" "i64_positions s"
  shows "sorted_wrt (\<lambda>x y. seq_of x < seq_of y) (global_log s)"
proof -
  have "sorted_wrt (\<lambda>x y. re_position x < re_position y) (global_log s)"
    by (rule log_inv_positions_sorted [OF assms(1)])
  then show ?thesis
    by (rule sorted_wrt_mono_rel [rotated])
      (use assms(2) in \<open>simp add: i64_positions_def seq_of_def sint_of_small word_less_def\<close>)
qed

lemma se_seq_to_stored [simp]: "se_seq (to_stored e) = seq_of e"
  by (simp add: to_stored_def)

lemma bt_insert_all:
  assumes "sorted_wrt (\<lambda>x y. f x < f y) xs" "bt_wf m"
  shows "bt_wf (fold (\<lambda>p m. bt_insert (f p) p m) xs m) \<and>
         (\<forall>k p. hget (fold (\<lambda>p m. bt_insert (f p) p m) xs m) k = Some p \<longleftrightarrow>
                (if k \<in> f ` set xs then p \<in> set xs \<and> f p = k else hget m k = Some p))"
  using assms
proof (induction xs arbitrary: m)
  case (Cons x xs)
  have ih: "bt_wf (fold (\<lambda>p m. bt_insert (f p) p m) xs (bt_insert (f x) x m)) \<and>
     (\<forall>k p. hget (fold (\<lambda>p m. bt_insert (f p) p m) xs (bt_insert (f x) x m)) k = Some p \<longleftrightarrow>
            (if k \<in> f ` set xs then p \<in> set xs \<and> f p = k else hget (bt_insert (f x) x m) k = Some p))"
    by (rule Cons.IH) (use Cons.prems in simp_all)
  have "f x \<notin> f ` set xs" using Cons.prems(1) by auto
  then show ?case using ih Cons.prems(2) by (auto split: if_splits) (metis image_eqI)
qed simp

text \<open>A map that has the rows of a list that ascends is that list.\<close>

lemma bt_rows:
  assumes "bt_wf m" "sorted_wrt (\<lambda>x y. f x < f y) xs" "\<And>k p. hget m k = Some p \<longleftrightarrow> p \<in> set xs \<and> f p = k"
  shows "map snd m = xs"
proof -
  have "bt_wf (map (\<lambda>p. (f p, p)) xs)" using assms(2) by (simp add: bt_wf_def sorted_wrt_map comp_def)
  moreover have "set m = set (map (\<lambda>p. (f p, p)) xs)"
    using assms(3) bt_wf_hget_iff [OF assms(1)] by fastforce
  ultimately have "m = map (\<lambda>p. (f p, p)) xs" using bt_wf_set_eqI assms(1) by blast
  then show ?thesis by (simp add: comp_def)
qed

lemma bt_merge_rows:
  assumes "sorted_wrt (\<lambda>x y. f x < f y) ds" "sorted_wrt (\<lambda>x y. f x < f y) ss" "sorted_wrt (\<lambda>x y. f x < f y) xs"
    and "\<And>p. p \<in> set xs \<longleftrightarrow> p \<in> set ss \<or> p \<in> set ds \<and> f p \<notin> f ` set ss"
  shows "map snd (fold (\<lambda>p m. bt_insert (f p) p m) ss (fold (\<lambda>p m. bt_insert (f p) p m) ds [])) = xs"
proof -
  note d = bt_insert_all [OF assms(1) bt_wf_Nil]
  note m = bt_insert_all [OF assms(2) conjunct1 [OF d]]
  define M where "M = fold (\<lambda>p m. bt_insert (f p) p m) ss (fold (\<lambda>p m. bt_insert (f p) p m) ds [])"
  have rows: "hget M k = Some p \<longleftrightarrow>
      (if k \<in> f ` set ss then p \<in> set ss \<and> f p = k else p \<in> set ds \<and> f p = k)" for k p
  proof -
    have "hget M k = Some p \<longleftrightarrow> (if k \<in> f ` set ss then p \<in> set ss \<and> f p = k
        else hget (fold (\<lambda>p m. bt_insert (f p) p m) ds []) k = Some p)"
      unfolding M_def using m by blast
    moreover have "hget (fold (\<lambda>p m. bt_insert (f p) p m) ds []) k = Some p \<longleftrightarrow>
        (if k \<in> f ` set ds then p \<in> set ds \<and> f p = k else hget [] k = Some p)"
      using d by blast
    ultimately show ?thesis by (cases "k \<in> f ` set ss"; cases "k \<in> f ` set ds") auto
  qed
  have "hget M k = Some p \<longleftrightarrow> p \<in> set xs \<and> f p = k" for k p
    unfolding rows assms(4) by (cases "k \<in> f ` set ss") auto
  with m show ?thesis unfolding M_def by (intro bt_rows [OF _ assms(3)]) blast+
qed

lemma sort_key_ascending: "sorted_wrt (\<lambda>x y. f x < f y) xs \<Longrightarrow> sort_key f xs = xs"
proof (induction xs)
  case (Cons x xs)
  then have "sort_key f xs = xs" "\<forall>y \<in> set xs. f x \<le> f y" by (auto intro: less_imp_le)
  then show ?case by (cases xs) simp_all
qed simp

text \<open>C37: a page of an entity's chain is a filter of the log. In every mode, the page holds, in log order,
  the first \<open>limit\<close> of the mode's events after the cursor: those of the entity's stream, those the walk
  visited, or both, each once and marked as the stream's when it is in it; and the next cursor is that of
  the last one, so that the pages of a chain follow each other without gap or overlap.\<close>

theorem subject_chain_pages_log:
  assumes "log_inv s" "i64_positions s" "(visited, capped) = descendants t a (global_log s)"
  shows "subject_chain t a mode limit cursor s =
           page_of limit (capped \<and> mode \<noteq> ChainStream)
             (filter (row_after cursor) (chain_rows t a mode visited (global_log s)))"
proof -
  let ?log = "global_log s"
  have asc: "sorted_wrt (\<lambda>x y. seq_of x < seq_of y) (filter P ?log)" for P
    by (rule sorted_wrt_filter [OF seqs_ascend [OF assms(1,2)]])
  have cut: "map (\<lambda>e. (to_stored e, src e)) (filter (after_cursor cursor) (filter P ?log)) =
      filter (row_after cursor) (map (\<lambda>e. (to_stored e, src e)) (filter P ?log))" for P src
    by (cases cursor) (simp_all add: filter_map comp_def row_after_def after_cursor_def conj_commute)
  show ?thesis
  proof (cases mode)
    case ChainStream
    then show ?thesis by (simp add: subject_chain_def chain_rows_def Let_def flip: cut)
  next
    case ChainDescendants
    let ?rows = "map (\<lambda>e. (to_stored e, FromDescendant)) (filter (after_cursor cursor) (filter (\<lambda>e. re_event_id e \<in> set visited) ?log))"
    have "sorted_wrt (\<lambda>x y. (se_seq \<circ> fst) x < (se_seq \<circ> fst) y) ?rows"
      using sorted_wrt_filter [OF asc] by (simp add: sorted_wrt_map)
    from sort_key_ascending [OF this] show ?thesis
      using ChainDescendants assms(3) [symmetric]
      by (simp add: subject_chain_def chain_rows_def Let_def comp_def flip: cut)
  next
    case ChainBoth
    let ?src = "\<lambda>e. if in_stream t a e then FromStream else FromDescendant"
    let ?d = "map (\<lambda>e. (to_stored e, FromDescendant)) (filter (after_cursor cursor) (filter (\<lambda>e. re_event_id e \<in> set visited) ?log))"
    let ?s = "map (\<lambda>e. (to_stored e, FromStream)) (filter (after_cursor cursor) (filter (in_stream t a) ?log))"
    let ?both = "map (\<lambda>e. (to_stored e, ?src e)) (filter (after_cursor cursor) (filter (\<lambda>e. in_stream t a e \<or> re_event_id e \<in> set visited) ?log))"
    let ?ins = "fold (\<lambda>p m. bt_insert (se_seq (fst p)) p m)"
    have sorted: "sorted_wrt (\<lambda>x y. se_seq (fst x) < se_seq (fst y)) (map (\<lambda>e. (to_stored e, g e)) (filter P (filter Q ?log)))"
      for P Q and g :: "recorded_event \<Rightarrow> chain_source"
      using sorted_wrt_filter [OF asc] by (simp add: sorted_wrt_map)
    have "sorted_wrt (<) (map seq_of ?log)" using seqs_ascend [OF assms(1,2)] by (simp add: sorted_wrt_map)
    then have inj: "inj_on seq_of (set ?log)" by (simp add: strict_sorted_iff distinct_map)
    have "map snd (?ins ?s (?ins ?d [])) = ?both"
    proof (rule bt_merge_rows [OF sorted sorted sorted])
      fix p
      have "seq_of e \<notin> (\<lambda>p. se_seq (fst p)) ` set ?s" if "e \<in> set ?log" "\<not> in_stream t a e" for e
        using that inj by (auto simp: inj_on_def)
      then show "p \<in> set ?both \<longleftrightarrow> p \<in> set ?s \<or> p \<in> set ?d \<and> se_seq (fst p) \<notin> (\<lambda>p. se_seq (fst p)) ` set ?s"
        by (auto simp: image_iff)
    qed
    then show ?thesis
      using ChainBoth assms(3) [symmetric] by (simp add: subject_chain_def chain_rows_def Let_def flip: cut)
  qed
qed

section \<open>Samples\<close>

text \<open>A log of one entity's event and a chain of eleven events below it; each is the cause of the next.\<close>

definition chain_event :: "nat \<Rightarrow> event_data" where
  "chain_event i =
     (sample_event (of_nat i) JNull)\<lparr> ed_causation_id := if i = 1 then None else Some (of_nat (i - 1)) \<rparr>"

definition chain_store :: "nat \<Rightarrow> memory_store" where
  "chain_store n =
     snd (append_to_stream ''step'' 5 NoStream (map chain_event [2..<n])
       (snd (append_to_stream ''order'' 9 NoStream [chain_event 1] memory_store_new)))"

text \<open>The report of the depth cap when nothing lies below the tenth step.\<close>

lemma depth_cap_without_truncation:
  "descendants ''order'' 9 (global_log (chain_store 12)) = (rev (map of_nat [2..<12]), True) \<and>
   set (map re_event_id (global_log (chain_store 12))) = {1} \<union> set (map of_nat [2..<12])"
  by code_simp

lemma descendants_sample:
  "descendants ''order'' 9 (global_log (chain_store 4)) = ([3, 2], False)"
  by code_simp

lemma reached_within:
  fixes R :: "'i \<Rightarrow> 'i \<Rightarrow> bool"
  assumes "\<forall>i \<in> V. \<exists>d p. 1 \<le> d \<and> d \<le> c \<and> p \<in> S \<and> (R ^^ d) p i" "\<forall>p \<in> S. \<forall>i. R\<^sup>+\<^sup>+ p i \<longrightarrow> i \<in> V"
  shows "{i. \<exists>p \<in> S. R\<^sup>+\<^sup>+ p i} = V"
proof -
  have "\<exists>p \<in> S. R\<^sup>+\<^sup>+ p i" if i: "i \<in> V" for i
  proof -
    obtain d p where d: "1 \<le> d" "p \<in> S" "(R ^^ d) p i" using assms(1) i by blast
    have "R\<^sup>+\<^sup>+ p i" unfolding tranclp_power by (rule exI [of _ d]) (use d in simp)
    then show ?thesis using d(2) by blast
  qed
  then show ?thesis using assms(2) by blast
qed

theorem descendants_sound_and_complete_witness:
  "{i. \<exists>p \<in> stream_ids ''order'' 9 (global_log (chain_store 4)). (caused (global_log (chain_store 4)))\<^sup>+\<^sup>+ p i} =
     set [3, 2]"
proof -
  note both = descendants_sound_and_complete [OF descendants_sample [symmetric]]
  show ?thesis by (rule reached_within [OF conjunct1 [OF both] mp [OF conjunct1 [OF conjunct2 [OF both]]]]) simp
qed

theorem subject_chain_pages_log_witness:
  "cp_events (subject_chain ''order'' 9 ChainBoth 1 (Some 1) sample_store) =
     [(to_stored (placed_row ''order'' 9 2 1 (sample_event 2 (JBool True))), FromStream)]"
proof -
  have walk: "([], False) = descendants ''order'' 9 (global_log sample_store)" by code_simp
  have "i64_positions sample_store" by (simp add: i64_positions_def sample_store_eq)
  from subject_chain_pages_log [OF sample_store_inv this walk]
  show ?thesis
    by (simp add: sample_store_eq page_of_def Let_def chain_rows_def row_after_def in_stream_def seq_of_def)
qed

end
