(* ===== verification/Contexts.thy ===== *)
theory Contexts
  imports Effect_Store Fold_On_Read Aggregate_Registry
begin

text \<open>
  The \<open>Ctx\<close> that a consumer's body is given (\<open>modules/causal/src/contexts.rs\<close>): derived ids, the labels
  of a reaction, memoized effects, the log of the attempt, the cancel fence, and \<open>state_of\<close>. What the
  context borrows from its runner is \<open>ctx_state\<close>; a part that is \<open>None\<close> is not given to this body.

  A body is the type \<open>('t, 'w, 'r) reaction_body\<close>: a tree of calls to the context, each continued with its
  answer, so that its outcome depends on nothing else. An error of the context ends it, as with \<open>?\<close> (a body that
  catches one and goes on is not such a tree); so does a panic, here an error too. The main theorem: a reaction that has succeeded once does so
  again, with the same outcome, from its memo alone.
\<close>

section \<open>The context\<close>


datatype label_kind = DeriveIdLabel | EffectLabel


datatype ctx_error =
    DuplicateLabel label_kind string
  | NoEffectStore
  | EffectFailed "string remember_error"
  | NoAggregators
  | NotRegisteredPanic
  | FoldFailed fold_error





definition derived_id_key :: "string \<Rightarrow> uuid \<Rightarrow> string \<Rightarrow> string" where
  "derived_id_key consumer event_id label = consumer @ [CHR 0x00] @ uuid_bytes event_id @ [CHR 0x00] @ label"



section \<open>State\<close>

datatype ('a, 's) state_source =
    NoSource
  | FromRegistry "'a registry"
  | FoldOnRead "'a aggregator list" "'s backend" 's log_cursor "'a fold_cache"

text \<open>The answer is \<open>(prev, curr)\<close>; the cache of a fold on read is kept.\<close>

definition ctx_state_of ::
  "codec \<Rightarrow> bool \<Rightarrow> string \<Rightarrow> uuid \<Rightarrow> ('a, 's) state_source \<Rightarrow> (ctx_error + 'a \<times> 'a) \<times> ('a, 's) state_source" where
  "ctx_state_of cd self_check ty i src =
     (case src of
        NoSource \<Rightarrow> (Inl NoAggregators, src)
      | FromRegistry rg \<Rightarrow> (case get_transition cd ty i rg of None \<Rightarrow> Inl NotRegisteredPanic | Some p \<Rightarrow> Inr p, src)
      | FoldOnRead ags b s bound cache \<Rightarrow>
          (case fold_bounded ags self_check b s ty i bound cache of
             (Inl err, cache1) \<Rightarrow> (Inl (FoldFailed err), FoldOnRead ags b s bound cache1)
           | (Inr p, cache1) \<Rightarrow> (Inr p, FoldOnRead ags b s bound cache1)))"

section \<open>Effects\<close>








section \<open>Derived ids\<close>

text \<open>Two derived ids are hashed from the same bytes only for the same consumer, trigger and label,
  provided that the consumers' names hold no NUL.\<close>

lemma derived_id_key_injective:
  assumes "CHR 0x00 \<notin> set c" "CHR 0x00 \<notin> set c'"
  shows "derived_id_key c e l = derived_id_key c' e' l' \<longleftrightarrow> c = c' \<and> e = e' \<and> l = l'"
proof
  assume eq: "derived_id_key c e l = derived_id_key c' e' l'"
  then have "takeWhile (\<lambda>x. x \<noteq> CHR 0x00) (derived_id_key c e l) = takeWhile (\<lambda>x. x \<noteq> CHR 0x00) (derived_id_key c' e' l')"
    by simp
  moreover have "takeWhile (\<lambda>x. x \<noteq> CHR 0x00) (derived_id_key d f k) = d" if "CHR 0x00 \<notin> set d" for d f k
    using that unfolding derived_id_key_def by (subst takeWhile_append2) auto
  ultimately have "c = c'" using assms by simp
  then show "c = c' \<and> e = e' \<and> l = l'" using eq by (simp add: derived_id_key_def uuid_bytes_inj)
qed simp

section \<open>Reactions\<close>



























section \<open>Samples\<close>










end
