(* ===== verification/Spec2Isabelle.thy ===== *)
theory Spec2Isabelle
  imports Log_Properties Checkpoints Decision_Store Effect_Store Output_Ids Redelivery Failure
    Reactor_Properties Fold_Properties Registry_Properties
    Reactor_Exec_Properties Projection_Properties
    Engine_Boot Settle_Properties Mirroring Replay_Properties Batcher
    Inspector_Cache Inspector_Properties Subject_Chain Contexts
begin

text \<open>
  A model of \<open>causal\<close>, an event-sourcing runtime in Rust (\<open>modules/causal\<close>,
  \<open>modules/causal_replay\<close>, \<open>modules/causal_utils\<close>, \<open>modules/causal_inspector\<close>), and the theorems that make it correct.

  \<^bold>\<open>The program.\<close> Facts are appended to a log of subject histories. Projections fold the log into
  read models; reactors are triggered by facts of one kind and append further facts. Delivery is at
  least once: a durable cursor per consumer says what is done, everything beyond it is redelivered
  after a crash. Three mechanisms make redelivery harmless: the log recognises a batch it already
  holds by its event ids and refuses one that differs; the id of a reactor's output is a hash of
  consumer, trigger, kind, subject and ordinal; and the decision store seals the whole output batch
  of a reaction on its first delivery, so a redelivery replays it.

  \<^bold>\<open>Theories, in dependency order.\<close>
  \<^item> \<open>Prelude\<close>: names of the machine types, hash maps as association lists (\<open>hget\<close>, \<open>hput\<close>, \<open>hdel\<close>),
    \<open>BTreeMap\<close> as a sorted association list (\<open>bt_insert\<close>, \<open>bt_wf\<close>), binary search, decimal printing.
  \<^item> \<open>Json\<close>: \<open>serde_json::Value\<close>, \<open>first_diff_path\<close> (\<open>event_log.rs\<close>), \<open>sanitize_nul\<close>
    (\<open>decision_store.rs\<close>).
  \<^item> \<open>Event_Types\<close>: the records of \<open>types.rs\<close>, the errors and the operations of the trait
    \<open>EventLogBackend\<close> (\<open>event_log.rs\<close>) as the record \<open>backend\<close>, \<open>append_event\<close>.
  \<^item> \<open>Memory_Log\<close>: the log half of \<open>memory_store.rs\<close> with its two indices; the invariant \<open>log_inv\<close>.
  \<^item> \<open>Log_Interface\<close>: the locale \<open>event_log\<close>, the contract of a backend, interpreted by the memory
    store. \<open>Log_Properties\<close>: its properties.
  \<^item> \<open>Checkpoints\<close>: cursors, attempt counters, snapshots and observer tables of \<open>memory_store.rs\<close>,
    the locale \<open>checkpoints\<close>, reachability of the whole store (\<open>store_reach\<close>).
  \<^item> \<open>First_Write\<close>, \<open>Decision_Store\<close>, \<open>Effect_Store\<close>: the two first-write-wins stores
    (\<open>decision_store.rs\<close>, \<open>effect_store.rs\<close>) and the contract they share.
  \<^item> \<open>Output_Ids\<close>: \<open>derive_output_event_id\<close> (\<open>reactor_runner.rs\<close>). \<open>Redelivery\<close>: the event-id registry
    (\<open>event_id_registry.rs\<close>) and \<open>reconcile\<close> (\<open>causal_replay/src/reconcile.rs\<close>).
  \<^item> \<open>Failure\<close>: the failure taxonomy (\<open>failure.rs\<close>), \<open>RetryPolicy\<close> (\<open>reactor.rs\<close>) and the serial
    runners' \<open>FailureState\<close> (\<open>projection_failure.rs\<close>).
  \<^item> \<open>Aggregates\<close>: aggregators and the lookups of their registry (\<open>aggregator.rs\<close>).
    \<open>Fold_On_Read\<close>: \<open>fold_bounded\<close> and its worker cache, against the fold of the rows of the log;
    proved inside the locale \<open>event_log\<close>. \<open>Fold_Properties\<close>: what \<open>ctx.state_of\<close> answers.
  \<^item> \<open>Aggregate_Registry\<close>: the registry's entries, \<open>apply_event\<close> with its idempotency gate,
    \<open>fold_event\<close> with gap repair, \<open>restore_aggregate\<close> and the snapshots (\<open>aggregator.rs\<close>).
    \<open>Registry_Laws\<close>: what a registry that tracks the log is, the locale \<open>snapshot_log\<close> of a log with a
    snapshot store, and the effect of each operation. \<open>Registry_Properties\<close>: every reachable
    registry tracks the log, gap repair converges, folds are idempotent.
  \<^item> \<open>Reactor_Dispatch\<close>: \<open>step\<close>, \<open>drained\<close>, \<open>reap\<close>, \<open>advance_floor\<close>, \<open>enqueue\<close> and the queue protocol
    of \<open>worker_loop\<close> (\<open>reactor_runner.rs\<close>). \<open>Reactor_Floor\<close>: the inductive relations \<open>runner_trans\<close>
    and \<open>runner_reach\<close> and the invariant of every reachable state. \<open>Reactor_Properties\<close>: the floor's
    safety and progress, partition order, the soundness of \<open>drained\<close>, the window.
  \<^item> \<open>Settle_Tracker\<close>: the high-water marks of \<open>engine.rs\<close>. \<open>Reactor_Exec\<close>: what a worker does with a
    trigger, \<open>process_trigger\<close>, \<open>attempt_trigger\<close>, \<open>append_decision\<close> and \<open>park_terminal_failure\<close>
    (\<open>reactor_runner.rs\<close>), every store and log call failing where the list of fates says.
    \<open>Reactor_Exec_Laws\<close>: the frame of each call. \<open>Decision_Protocol\<close>: the life of a trigger, from nothing
    durable to one sealed record. \<open>Reactor_Exec_Properties\<close>: one decision per trigger, replay without
    the body, parking at the policy's failure, reconciliation with the log.
  \<^item> \<open>Projection_Runner\<close>: the serial consumers, \<open>ProjectionRunner::step\<close> (\<open>projection_runner.rs\<close>) and
    \<open>MultiProjectorRunner::step\<close> (\<open>multi_projector.rs\<close>) with hydration, the dependency fence and the
    parking of \<open>projection_failure.rs\<close>. \<open>Projection_Laws\<close>: the frame of each call; the locales
    \<open>serial_consumer\<close> (a loop body that accounts for its events) and \<open>clean_consumer\<close> (one that
    projects what is wanted when nothing fails), interpreted by both runners.
    \<open>Projection_Properties\<close>: the cursor's safety over every run and restart, steps return, the log is
    drained in order, the fence, and two ways parking wedges a consumer.
  \<^item> \<open>Engine\<close>: the engine's shared state and its write and read paths (\<open>engine.rs\<close>): \<open>emit\<close>, the
    command path \<open>append\<close> with its optimistic retries, \<open>load\<close>, \<open>state_of\<close>, \<open>cancel_workflow\<close>. Before
    every append call other writers may write (\<open>en_rivals\<close>). \<open>Engine_Laws\<close>: the frame of each call and
    what an append does to the rows. \<open>Engine_Commands\<close>: a command decides on the stream as it is, and
    outlasts contention. \<open>Engine_Emit\<close>: what of a batch lands, repetition under a supplied id, cancel.
  \<^item> \<open>Engine_Build\<close>: \<open>EngineBuilder\<close> and \<open>build\<close> (names, clamping, seeds, the skip-gap report, the
    cancel fence, orphans), the retention sweep of \<open>Engine::start\<close>. \<open>Engine_Boot\<close>: the builder's
    invariant, where consumers start, the sweep against the reactors' floor, cancels across restarts.
  \<^item> \<open>Settle\<close>: \<open>ConsumerHealth\<close>, \<open>settle\<close> move by move beside the other holders of the tracker,
    \<open>settle_tree\<close>, \<open>drain\<close>; the second reading of the mark and its forgetting are two moves, as they take
    the lock twice. \<open>Settle_Properties\<close>: what an answer means, that it comes, the bump that is lost between
    the two, closure of the tree.
  \<^item> \<open>Mirroring\<close>: \<open>MirroringEventLogBackend\<close> (\<open>causal_replay/src/mirroring.rs\<close>) over two logs that meet
    the contract; the locale \<open>mirrored_pair\<close>, in which the pair meets it too.
  \<^item> \<open>Replay_Stream\<close>: \<open>ProjectionStream\<close> (\<open>stream.rs\<close>), replay and live, by event and by batch, and the
    pointer of \<open>pointer.rs\<close>. \<open>Replay_Properties\<close>: a replay promotes only what was given the whole log and
    completes when nothing fails, a live stream skips nothing.
  \<^item> \<open>Batcher\<close>: \<open>causal_utils/src/batcher.rs\<close> as an interleaving of atomic steps; no waiter is lost, all can be
    answered, and who cannot.
  \<^item> \<open>Contexts\<close>: the \<open>Ctx\<close> of a consumer's body (\<open>contexts.rs\<close>): derived ids, labels, \<open>effect\<close> and
    \<open>effect_all\<close>, \<open>state_of\<close>. A body is the tree of its calls; one that has succeeded is replayed by its memo.
  \<^item> \<open>Inspector_Cache\<close>: \<open>EventCache\<close> (\<open>causal_inspector/src/cache.rs\<close>), its indices and searches.
    \<open>Inspector_Memory\<close>: the queries of \<open>MemoryInspectorReadModel\<close> (\<open>memory.rs\<close>, records of
    \<open>read_model.rs\<close>). \<open>Inspector_Properties\<close>: the workflow summaries are those of the log, pages follow each
    other. \<open>Subject_Chain\<close>: \<open>subject_chain\<close>, the walk to an entity's descendants and its pages.

  \<^bold>\<open>Conventions.\<close> Integers keep their width (\<open>u64\<close>, \<open>u32\<close> are words). A mutex-protected operation is a
  function of the state. An I/O result that the code propagates with \<open>?\<close> is a flag or a sum value.
  Time is a parameter. A \<open>HashMap\<close>'s order is not observable in the results compared here.

  \<^bold>\<open>Bounds.\<close> Positions and revisions are \<open>u64\<close>: the log invariant needs room in the position counter
  (\<open>log_room\<close>), which the hypotheses state. The reactor's window is \<open>MAX_PENDING\<close> = 4096, which
  bounds the \<open>u32\<close> per-workflow counters. The hydration of a serial consumer is given as fuel the number
  of batches it may read: one more than it takes to hold the log is enough. \<open>settle\<close> has as fuel the
  number of its moves; \<open>settle_returns\<close> says when enough of them give a result. The attempts of \<open>append\<close>
  are the code's sixteen. A replay's fuel is the number of pages, one more than the log has events is
  enough (\<open>replay_completes\<close>); a live stream never ends, its fuel is the number of reads so far.

  \<^bold>\<open>Parameters.\<close> \<open>Uuid::new_v5\<close>, \<open>Uuid\<close> parsing and printing, \<open>DateTime\<close> parsing and printing,
  the computations a body memoizes and the order in which concurrent ones complete, \<open>str::to_lowercase\<close> and \<open>serde_json::to_string\<close> where the inspector searches.

  \<^bold>\<open>Not modelled.\<close> The Postgres and Kurrent backends (I/O), the procedural macros, the inspector's
  GraphQL server and user interface, the command line, examples. The consumer lease is taken as
  granted. Dispatcher steps are atomic except for the workers' messages. Of the engine: the spawning and
  joining of tasks, the waits between attempts, the shutdown signals, tracing.
\<close>

end
